(* ===== verification/Chhttp_Prelude.thy ===== *)
theory Chhttp_Prelude
  imports Main "HOL-Library.Word" "HOL-Library.Sublist"
begin

text \<open>
  Shared vocabulary of the development.  A \<^verbatim>\<open>std::string\<close> or \<^verbatim>\<open>std::string_view\<close> is a list of
  bytes, and a byte is a HOL \<open>char\<close>; \<open>code c\<close> is its value read as \<^verbatim>\<open>unsigned char\<close>.
  The theory holds the standard-library operations the sources are written with
  (\<^verbatim>\<open>find\<close>, \<^verbatim>\<open>rfind\<close>, \<^verbatim>\<open>substr\<close>, \<^verbatim>\<open>std::from_chars\<close>, \<^verbatim>\<open>std::to_string\<close>), with a failed search as
  \<open>None\<close> in place of \<^verbatim>\<open>npos\<close>, and the lemmas every component uses about them.
\<close>

named_theorems bytes_simps \<open>unfolding and evaluation of byte-level helpers\<close>
named_theorems search_simps \<open>facts about the search functions\<close>

type_synonym bytes = string

abbreviation code :: "char \<Rightarrow> nat" where
  "code c \<equiv> of_char c"

abbreviation CR :: char where "CR \<equiv> CHR 0x0D"
abbreviation LF :: char where "LF \<equiv> CHR 0x0A"
abbreviation TAB :: char where "TAB \<equiv> CHR 0x09"
abbreviation SP :: char where "SP \<equiv> CHR 0x20"
abbreviation DQUOTE :: char where "DQUOTE \<equiv> CHR 0x22"
abbreviation BSLASH :: char where "BSLASH \<equiv> CHR 0x5C"
abbreviation CRLF :: bytes where "CRLF \<equiv> [CR, LF]"

abbreviation uint64_max :: nat where "uint64_max \<equiv> 2 ^ 64 - 1"

section \<open>Characters\<close>

lemma char_of_nibbles [simp]: "char_of (code c div 16 * 16 + code c mod 16) = c"
  by simp

definition in_range :: "nat \<Rightarrow> nat \<Rightarrow> char \<Rightarrow> bool" where
  "in_range lo hi c \<longleftrightarrow> lo \<le> code c \<and> code c \<le> hi"

definition is_digit :: "char \<Rightarrow> bool" where
  "is_digit c \<longleftrightarrow> in_range 48 57 c"

definition is_upper :: "char \<Rightarrow> bool" where
  "is_upper c \<longleftrightarrow> in_range 65 90 c"

definition is_lower :: "char \<Rightarrow> bool" where
  "is_lower c \<longleftrightarrow> in_range 97 122 c"

definition is_alpha :: "char \<Rightarrow> bool" where
  "is_alpha c \<longleftrightarrow> is_lower c \<or> is_upper c"

text \<open>\<^verbatim>\<open>std::isalnum\<close> and \<^verbatim>\<open>std::isspace\<close> in the C locale.\<close>

definition is_alnum :: "char \<Rightarrow> bool" where
  "is_alnum c \<longleftrightarrow> is_digit c \<or> is_alpha c"

definition is_space :: "char \<Rightarrow> bool" where
  "is_space c \<longleftrightarrow> code c = 32 \<or> in_range 9 13 c"

text \<open>The blanks HTTP calls optional white space: a space or a horizontal tab.\<close>

definition is_ows :: "char \<Rightarrow> bool" where
  "is_ows c \<longleftrightarrow> c = SP \<or> c = TAB"

definition fold_ascii :: "char \<Rightarrow> char" where
  "fold_ascii c = (if is_upper c then char_of (code c + 32) else c)"

lemmas char_class_defs [bytes_simps] =
  in_range_def is_digit_def is_upper_def is_lower_def is_alpha_def is_alnum_def
  is_space_def is_ows_def

lemma code_less [simp]: "code c < 256"
  by (rule nat_of_char_less_256)

lemma code_inj: "code c = code d \<longleftrightarrow> c = d"
  by simp

lemma code_char_of: "n < 256 \<Longrightarrow> code (char_of n) = n"
  by (simp add: char_of_mod_256)

lemma in_range_char_of [simp]: "n < 256 \<Longrightarrow> in_range lo hi (char_of n) \<longleftrightarrow> lo \<le> n \<and> n \<le> hi"
  by (simp add: in_range_def code_char_of)

lemma code_nibbles [simp]: "code c div 16 < 16" "code c mod 16 < 16"
  by (rule less_mult_imp_div_less) (use code_less [of c] in simp_all)

lemma code_fold_ascii:
  "code (fold_ascii c) = (if is_upper c then code c + 32 else code c)"
  by (simp add: fold_ascii_def is_upper_def in_range_def code_char_of)

lemma fold_ascii_not_upper [simp]: "\<not> is_upper (fold_ascii c)"
  using code_fold_ascii [of c] by (auto simp: is_upper_def in_range_def split: if_splits)

lemma fold_ascii_idem [simp]: "fold_ascii (fold_ascii c) = fold_ascii c"
  by (subst (1) fold_ascii_def) simp

section \<open>Searching\<close>

text \<open>Position of the first element that satisfies a predicate.\<close>

fun find_idx :: "('a \<Rightarrow> bool) \<Rightarrow> 'a list \<Rightarrow> nat option" where
  "find_idx P [] = None"
| "find_idx P (x # xs) = (if P x then Some 0 else map_option Suc (find_idx P xs))"

definition find_char :: "char \<Rightarrow> bytes \<Rightarrow> nat option" where
  "find_char c s = find_idx (\<lambda>x. x = c) s"

definition rfind_char :: "char \<Rightarrow> bytes \<Rightarrow> nat option" where
  "rfind_char c s = map_option (\<lambda>i. length s - 1 - i) (find_char c (rev s))"

text \<open>\<^verbatim>\<open>s.find(text)\<close> and \<^verbatim>\<open>s.find(text, start)\<close>.\<close>

fun find_sub :: "bytes \<Rightarrow> bytes \<Rightarrow> nat option" where
  "find_sub p s = (if prefix p s then Some 0
     else (case s of [] \<Rightarrow> None | _ # xs \<Rightarrow> map_option Suc (find_sub p xs)))"

declare find_sub.simps [simp del]

definition find_sub_from :: "bytes \<Rightarrow> nat \<Rightarrow> bytes \<Rightarrow> nat option" where
  "find_sub_from p start s = map_option (\<lambda>i. start + i) (find_sub p (drop start s))"

definition find_char_from :: "char \<Rightarrow> nat \<Rightarrow> bytes \<Rightarrow> nat option" where
  "find_char_from c start s = map_option (\<lambda>i. start + i) (find_char c (drop start s))"

text \<open>
  \<^verbatim>\<open>s.substr(pos, count)\<close>; every use in the sources has \<^verbatim>\<open>pos <= s.size()\<close>, where the C++
  call does not throw.  A count of \<^verbatim>\<open>npos\<close> is \<open>None\<close>.
\<close>

definition substr :: "bytes \<Rightarrow> nat \<Rightarrow> nat option \<Rightarrow> bytes" where
  "substr s pos cnt = (case cnt of None \<Rightarrow> drop pos s | Some n \<Rightarrow> take n (drop pos s))"

lemma set_substr: "c \<in> set (substr s i n) \<Longrightarrow> c \<in> set s"
  by (auto simp: substr_def dest: in_set_takeD in_set_dropD split: option.splits)

lemma find_idx_None [search_simps]: "find_idx P xs = None \<longleftrightarrow> (\<forall>x \<in> set xs. \<not> P x)"
  by (induction xs) auto

lemma find_idx_SomeD:
  "find_idx P xs = Some i \<Longrightarrow> i < length xs \<and> P (xs ! i) \<and> (\<forall>x \<in> set (take i xs). \<not> P x)"
  by (induction xs arbitrary: i) (auto split: if_splits)

lemma find_idx_append:
  "find_idx P (xs @ ys) = (case find_idx P xs of Some i \<Rightarrow> Some i
     | None \<Rightarrow> map_option (\<lambda>i. length xs + i) (find_idx P ys))"
proof (induction xs)
  case Nil
  show ?case by (cases "find_idx P ys") simp_all
next
  case (Cons x xs)
  then show ?case
    by (cases "find_idx P ys") (auto split: option.splits)
qed

lemma find_idx_split:
  "\<forall>x \<in> set xs. \<not> P x \<Longrightarrow> P y \<Longrightarrow> find_idx P (xs @ y # ys) = Some (length xs)"
  by (induction xs) auto

lemma find_idx_Some_iff:
  "find_idx P xs = Some i \<longleftrightarrow>
     (\<exists>us y vs. xs = us @ y # vs \<and> length us = i \<and> P y \<and> (\<forall>x \<in> set us. \<not> P x))"
proof
  assume "find_idx P xs = Some i"
  then have "i < length xs" "P (xs ! i)" "\<forall>x \<in> set (take i xs). \<not> P x"
    by (auto dest: find_idx_SomeD)
  then show "\<exists>us y vs. xs = us @ y # vs \<and> length us = i \<and> P y \<and> (\<forall>x \<in> set us. \<not> P x)"
    by (intro exI [of _ "take i xs"] exI [of _ "xs ! i"] exI [of _ "drop (Suc i) xs"])
      (simp add: id_take_nth_drop [symmetric])
qed (auto simp: find_idx_split)

lemma find_char_None [search_simps]: "find_char c s = None \<longleftrightarrow> c \<notin> set s"
  by (auto simp: find_char_def find_idx_None)

lemma find_char_split [search_simps]:
  "c \<notin> set us \<Longrightarrow> find_char c (us @ c # vs) = Some (length us)"
  by (auto simp: find_char_def intro!: find_idx_split)

lemma find_char_Some_iff:
  "find_char c s = Some i \<longleftrightarrow> (\<exists>us vs. s = us @ c # vs \<and> length us = i \<and> c \<notin> set us)"
  by (auto simp: find_char_def find_idx_Some_iff)

lemma find_char_SomeE:
  assumes "find_char c s = Some i"
  obtains us vs where "s = us @ c # vs" "length us = i" "c \<notin> set us"
  using assms by (auto simp: find_char_Some_iff)

lemma find_char_less: "find_char c s = Some i \<Longrightarrow> i < length s"
  by (auto simp: find_char_Some_iff)

lemma find_sub_Nil [simp]: "find_sub p [] = (if p = [] then Some 0 else None)"
  by (simp add: find_sub.simps)

lemma find_sub_Cons:
  "find_sub p (x # xs) = (if prefix p (x # xs) then Some 0 else map_option Suc (find_sub p xs))"
  by (subst find_sub.simps) simp

lemma find_sub_SomeD:
  "find_sub p s = Some i \<Longrightarrow> i + length p \<le> length s \<and> prefix p (drop i s)
     \<and> (\<forall>j < i. \<not> prefix p (drop j s))"
proof (induction s arbitrary: i)
  case Nil
  then show ?case by (auto split: if_splits)
next
  case (Cons x xs)
  show ?case
  proof (cases "prefix p (x # xs)")
    case True
    with Cons.prems show ?thesis by (auto simp: find_sub_Cons dest: prefix_length_le)
  next
    case False
    with Cons.prems obtain k where "find_sub p xs = Some k" "i = Suc k"
      by (auto simp: find_sub_Cons)
    with Cons.IH [of k] False show ?thesis
      by (auto simp: less_Suc_eq_0_disj)
  qed
qed

lemma find_sub_None_iff: "find_sub p s = None \<longleftrightarrow> (\<forall>j \<le> length s. \<not> prefix p (drop j s))"
proof (induction s)
  case Nil
  then show ?case by auto
next
  case (Cons x xs)
  have "(\<forall>j \<le> length (x # xs). \<not> prefix p (drop j (x # xs))) \<longleftrightarrow>
    \<not> prefix p (x # xs) \<and> (\<forall>j \<le> length xs. \<not> prefix p (drop j xs))"
    by (auto simp: less_Suc_eq_le All_less_Suc2 simp flip: less_Suc_eq_le)
  with Cons.IH show ?case by (auto simp: find_sub_Cons)
qed

lemma find_sub_eqI:
  "prefix p (drop i s) \<Longrightarrow> i \<le> length s \<Longrightarrow> (\<And>j. j < i \<Longrightarrow> \<not> prefix p (drop j s)) \<Longrightarrow> find_sub p s = Some i"
proof -
  assume pre: "prefix p (drop i s)" "i \<le> length s"
    and least: "\<And>j. j < i \<Longrightarrow> \<not> prefix p (drop j s)"
  obtain k where k: "find_sub p s = Some k"
    using pre find_sub_None_iff by (cases "find_sub p s") auto
  from find_sub_SomeD [OF k] have "prefix p (drop k s)" "\<forall>j < k. \<not> prefix p (drop j s)"
    by auto
  with pre least have "k = i" by (metis linorder_neqE_nat)
  with k show ?thesis by simp
qed

section \<open>Splitting at a separator\<close>

fun split_on :: "char \<Rightarrow> bytes \<Rightarrow> bytes list" where
  "split_on c [] = [[]]"
| "split_on c (x # xs) = (if x = c then [] # split_on c xs
     else (case split_on c xs of [] \<Rightarrow> [[x]] | p # ps \<Rightarrow> (x # p) # ps))"

fun join_with :: "char \<Rightarrow> bytes list \<Rightarrow> bytes" where
  "join_with c [] = []"
| "join_with c [p] = p"
| "join_with c (p # q # ps) = p @ c # join_with c (q # ps)"

lemma split_on_nonempty [simp]: "split_on c s \<noteq> []"
  by (cases s) (auto split: list.splits)

lemma split_on_no_sep: "c \<notin> set s \<Longrightarrow> split_on c s = [s]"
  by (induction s) auto

lemma split_on_append: "c \<notin> set us \<Longrightarrow> split_on c (us @ c # vs) = us # split_on c vs"
  by (induction us) auto

text \<open>The unfolding every \<^verbatim>\<open>find(',')\<close>-and-advance loop of the sources follows.\<close>

lemma split_on_find:
  "split_on c s = (case find_char c s of None \<Rightarrow> [s] | Some i \<Rightarrow> take i s # split_on c (drop (Suc i) s))"
  by (auto simp: search_simps split_on_no_sep split_on_append find_char_Some_iff split: option.splits)

lemma split_on_join:
  "ps \<noteq> [] \<Longrightarrow> \<forall>p \<in> set ps. c \<notin> set p \<Longrightarrow> split_on c (join_with c ps) = ps"
  by (induction ps rule: join_with.induct) (auto simp: split_on_no_sep split_on_append)

lemma split_on_parts: "p \<in> set (split_on c s) \<Longrightarrow> c \<notin> set p \<and> set p \<subseteq> set s"
  by (induction s arbitrary: p) (fastforce split: if_splits list.splits)+

lemma join_with_Cons [simp]:
  "join_with c ((x # p) # ps) = x # join_with c (p # ps)"
  "ps \<noteq> [] \<Longrightarrow> join_with c ([] # ps) = c # join_with c ps"
  by (cases ps; simp)+

lemma join_split: "join_with c (split_on c s) = s"
proof (induction s)
  case (Cons x xs)
  then show ?case by (cases "split_on c xs") auto
qed simp

section \<open>Trimming\<close>

text \<open>The pair of loops that drop the bytes of a class at both ends of a view.\<close>

definition trim_by :: "(char \<Rightarrow> bool) \<Rightarrow> bytes \<Rightarrow> bytes" where
  "trim_by P s = rev (dropWhile P (rev (dropWhile P s)))"

definition trim :: "bytes \<Rightarrow> bytes" where
  "trim s = trim_by is_space s"

definition trim_ows :: "bytes \<Rightarrow> bytes" where
  "trim_ows s = trim_by is_ows s"

definition trimmed :: "(char \<Rightarrow> bool) \<Rightarrow> bytes \<Rightarrow> bool" where
  "trimmed P s \<longleftrightarrow> s = [] \<or> (\<not> P (hd s) \<and> \<not> P (last s))"

lemma dropWhile_rev_hd: "s \<noteq> [] \<Longrightarrow> \<not> P (last s) \<Longrightarrow> dropWhile P (rev s) = rev s"
  by (cases s rule: rev_cases) auto

lemma trim_by_id: "trimmed P s \<Longrightarrow> trim_by P s = s"
  by (cases s) (auto simp: trim_by_def trimmed_def dropWhile_rev_hd simp del: rev.simps)

lemma trim_by_pad:
  assumes "\<forall>x \<in> set us. P x" "\<forall>x \<in> set vs. P x" "trimmed P s"
  shows "trim_by P (us @ s @ vs) = s"
proof -
  have "dropWhile P (us @ s @ vs) = dropWhile P (s @ vs)"
    using assms(1) by (simp add: dropWhile_append2)
  moreover have "rev (dropWhile P (rev (dropWhile P (s @ vs)))) = s"
  proof (cases "s = []")
    case True
    with assms(2) have "dropWhile P (s @ vs) = []" by simp
    then show ?thesis by (simp only: True rev.simps dropWhile.simps)
  next
    case False
    with assms(3) have "dropWhile P (s @ vs) = s @ vs" by (cases s) (auto simp: trimmed_def)
    then have "rev (dropWhile P (s @ vs)) = rev vs @ rev s" by simp
    moreover have "dropWhile P (rev vs @ rev s) = dropWhile P (rev s)"
      by (rule dropWhile_append2) (use assms(2) in simp)
    ultimately show ?thesis
      using False assms(3) by (simp add: trimmed_def dropWhile_rev_hd)
  qed
  ultimately show ?thesis by (simp add: trim_by_def)
qed

lemma trimmed_trim_by: "trimmed P (trim_by P s)"
proof -
  let ?t = "dropWhile P s"
  have "trim_by P s \<noteq> [] \<Longrightarrow> \<not> P (last (trim_by P s))"
    unfolding trim_by_def by (simp add: last_rev hd_dropWhile)
  moreover have "\<not> P (hd (trim_by P s))" if "trim_by P s \<noteq> []"
  proof -
    have "?t = trim_by P s @ rev (takeWhile P (rev ?t))"
      unfolding trim_by_def by (metis rev_append rev_rev_ident takeWhile_dropWhile_id)
    with that have "hd (trim_by P s) = hd ?t" by (metis hd_append2)
    moreover have "?t \<noteq> []" using that unfolding trim_by_def by fastforce
    ultimately show ?thesis using hd_dropWhile by metis
  qed
  ultimately show ?thesis by (auto simp: trimmed_def)
qed

lemma set_trim_by: "set (trim_by P s) \<subseteq> set s"
  unfolding trim_by_def by (metis set_dropWhileD set_rev subsetI)

section \<open>Numbers in text\<close>

definition digit_char :: "nat \<Rightarrow> char" where
  "digit_char d = (if d < 10 then char_of (48 + d) else char_of (87 + d))"

text \<open>\<^verbatim>\<open>std::to_chars\<close> and \<^verbatim>\<open>std::to_string\<close> on unsigned values: most significant digit first.\<close>

function to_digits :: "nat \<Rightarrow> nat \<Rightarrow> bytes" where
  "to_digits b n = (if n < b \<or> b < 2 then [digit_char n]
     else to_digits b (n div b) @ [digit_char (n mod b)])"
  by pat_completeness auto
termination
  by (relation "measure snd") (auto intro: div_less_dividend)

declare to_digits.simps [simp del]

definition to_string :: "nat \<Rightarrow> bytes" where
  "to_string n = to_digits 10 n"

definition to_hex :: "nat \<Rightarrow> bytes" where
  "to_hex n = to_digits 16 n"

definition digit_value :: "nat \<Rightarrow> char \<Rightarrow> nat option" where
  "digit_value b c =
     (let v = (if is_digit c then Some (code c - 48)
               else if is_lower c then Some (code c - 87)
               else if is_upper c then Some (code c - 55) else None)
      in case v of Some d \<Rightarrow> if d < b then Some d else None | None \<Rightarrow> None)"

definition is_digit_of :: "nat \<Rightarrow> char \<Rightarrow> bool" where
  "is_digit_of b c \<longleftrightarrow> digit_value b c \<noteq> None"

fun digits_value :: "nat \<Rightarrow> nat \<Rightarrow> bytes \<Rightarrow> nat" where
  "digits_value b acc [] = acc"
| "digits_value b acc (c # cs) =
     digits_value b (acc * b + (case digit_value b c of Some d \<Rightarrow> d | None \<Rightarrow> 0)) cs"

text \<open>
  \<^verbatim>\<open>std::from_chars\<close> on an unsigned type with maximum \<open>m\<close>: the longest run of digits is
  consumed, an empty run is \<^verbatim>\<open>errc::invalid_argument\<close> and a value above the maximum is
  \<^verbatim>\<open>errc::result_out_of_range\<close>; the second component is the text from \<^verbatim>\<open>ptr\<close> on.
\<close>

datatype conversion = Converted nat | Invalid_argument | Out_of_range

definition from_chars :: "nat \<Rightarrow> nat \<Rightarrow> bytes \<Rightarrow> conversion \<times> bytes" where
  "from_chars b m s =
     (let ds = takeWhile (is_digit_of b) s; rest = dropWhile (is_digit_of b) s
      in if ds = [] then (Invalid_argument, s)
         else let v = digits_value b 0 ds
              in if v \<le> m then (Converted v, rest) else (Out_of_range, rest))"

text \<open>The idiom \<^verbatim>\<open>ec == std::errc{} && ptr == end\<close>: the whole text is the number.\<close>

definition parse_number :: "nat \<Rightarrow> nat \<Rightarrow> bytes \<Rightarrow> nat option" where
  "parse_number b m s = (case from_chars b m s of (Converted v, []) \<Rightarrow> Some v | _ \<Rightarrow> None)"

lemma digit_value_digit_char [simp]:
  "d < b \<Longrightarrow> b \<le> 16 \<Longrightarrow> digit_value b (digit_char d) = Some d"
  by (auto simp: digit_value_def digit_char_def is_digit_def is_lower_def in_range_def
      is_upper_def code_char_of Let_def)

lemma digits_value_append:
  "digits_value b acc (xs @ ys) = digits_value b (digits_value b acc xs) ys"
  by (induction xs arbitrary: acc) auto

lemma to_digits_value:
  "2 \<le> b \<Longrightarrow> b \<le> 16 \<Longrightarrow> digits_value b 0 (to_digits b n) = n"
proof (induction b n rule: to_digits.induct)
  case (1 b n)
  then show ?case
    by (subst to_digits.simps) (auto simp: digits_value_append)
qed

lemma to_digits_digits:
  "2 \<le> b \<Longrightarrow> b \<le> 16 \<Longrightarrow> c \<in> set (to_digits b n) \<Longrightarrow> is_digit_of b c"
proof (induction b n rule: to_digits.induct)
  case (1 b n)
  then show ?case
    unfolding to_digits.simps [of b n] by (auto simp: is_digit_of_def split: if_splits)
qed

lemma to_digits_nonempty [simp]: "to_digits b n \<noteq> []"
  by (subst to_digits.simps) simp

lemma parse_number_iff:
  "parse_number b m s = Some v \<longleftrightarrow>
     s \<noteq> [] \<and> (\<forall>c \<in> set s. is_digit_of b c) \<and> v = digits_value b 0 s \<and> v \<le> m"
proof -
  let ?all = "\<forall>c \<in> set s. is_digit_of b c"
  have drop: "dropWhile (is_digit_of b) s = [] \<longleftrightarrow> ?all"
    by (simp add: dropWhile_eq_Nil_conv)
  show ?thesis
  proof (cases ?all)
    case True
    then have tw: "takeWhile (is_digit_of b) s = s" and dw: "dropWhile (is_digit_of b) s = []"
      by simp_all
    show ?thesis
      unfolding parse_number_def from_chars_def Let_def tw dw using True by auto
  next
    case False
    then obtain y ys where y: "dropWhile (is_digit_of b) s = y # ys"
      using drop by (cases "dropWhile (is_digit_of b) s") auto
    from False have "s \<noteq> []" by auto
    then show ?thesis
      unfolding parse_number_def from_chars_def Let_def y using False
      by (auto split: list.splits)
  qed
qed

lemma parse_number_print:
  "2 \<le> b \<Longrightarrow> b \<le> 16 \<Longrightarrow> n \<le> m \<Longrightarrow> parse_number b m (to_digits b n) = Some n"
  by (auto simp: parse_number_iff to_digits_value intro: to_digits_digits)

lemma parse_number_to_string [simp]: "n \<le> m \<Longrightarrow> parse_number 10 m (to_string n) = Some n"
  by (simp add: to_string_def parse_number_print)

lemma parse_number_to_hex [simp]: "n \<le> m \<Longrightarrow> parse_number 16 m (to_hex n) = Some n"
  by (simp add: to_hex_def parse_number_print)

lemma parse_number_bound: "parse_number b m s = Some v \<Longrightarrow> v \<le> m"
  by (simp add: parse_number_iff)

lemma to_string_nonempty [simp]: "to_string n \<noteq> []"
  by (simp add: to_string_def)

lemma to_hex_nonempty [simp]: "to_hex n \<noteq> []"
  by (simp add: to_hex_def)

lemma to_string_digit: "c \<in> set (to_string n) \<Longrightarrow> is_digit c"
proof -
  assume "c \<in> set (to_string n)"
  then have "is_digit_of 10 c" by (auto simp: to_string_def dest: to_digits_digits [rotated 2])
  then show "is_digit c"
    by (auto simp: is_digit_of_def digit_value_def is_digit_def is_lower_def is_upper_def
        in_range_def Let_def split: if_splits)
qed

end
