(* ===== verification/Errors.thy ===== *)
theory Errors
  imports Chhttp_Prelude
begin

text \<open>
  The error model of \<^verbatim>\<open>include/chhttp/chhttp.hpp\<close>: \<^verbatim>\<open>enum class Error\<close>, \<^verbatim>\<open>enum class TransferPhase\<close>,
  \<^verbatim>\<open>struct TransferContext\<close>, \<^verbatim>\<open>struct ErrorInfo\<close> and \<^verbatim>\<open>class Result\<close>.  A \<^verbatim>\<open>Result<T>\<close> is a sum with the
  error on the left; an \<^verbatim>\<open>ErrorInfo\<close> returned by itself, which converts to \<^verbatim>\<open>false\<close> when its code
  is \<^verbatim>\<open>none\<close>, is the record with \<open>is_error\<close> as that conversion.
\<close>

datatype error_code =
    E_none | E_invalid_argument | E_cancelled | E_invalid_url | E_resolve | E_connect
  | E_timeout | E_write | E_read | E_protocol | E_body_too_large | E_redirect_limit
  | E_tls_unavailable | E_tls_configuration | E_tls_handshake | E_tls_verification
  | E_proxy | E_compression | E_multipart | E_websocket_handshake | E_websocket_closed
  | E_server_stopped | E_internal

datatype transfer_phase =
    P_none | P_resolve | P_connect | P_tls_handshake | P_request_head | P_request_body
  | P_response_head | P_response_body

record transfer_context =
  phase :: transfer_phase
  uploaded :: nat
  downloaded :: nat
  response_started :: bool

record error_info =
  err_code :: error_code
  message :: bytes
  system_code :: int
  tls_code :: int
  transfer :: "transfer_context option"

type_synonym 'a result = "error_info + 'a"

definition error_of :: "error_code \<Rightarrow> bytes \<Rightarrow> error_info" where
  "error_of c m = \<lparr>err_code = c, message = m, system_code = 0, tls_code = 0, transfer = None\<rparr>"

definition make_error :: "error_code \<Rightarrow> bytes \<Rightarrow> int \<Rightarrow> int \<Rightarrow> error_info" where
  "make_error c m sys tls =
     \<lparr>err_code = c, message = m, system_code = sys, tls_code = tls, transfer = None\<rparr>"

definition no_error :: error_info where
  "no_error = error_of E_none []"

definition is_error :: "error_info \<Rightarrow> bool" where
  "is_error e \<longleftrightarrow> err_code e \<noteq> E_none"

abbreviation fail :: "error_code \<Rightarrow> bytes \<Rightarrow> 'a result" where
  "fail c m \<equiv> Inl (error_of c m)"

definition protocol_error :: "'a result \<Rightarrow> bool" where
  "protocol_error r \<longleftrightarrow> (case r of Inl e \<Rightarrow> err_code e = E_protocol | Inr _ \<Rightarrow> False)"

lemma error_of_simps [simp]:
  "err_code (error_of c m) = c" "message (error_of c m) = m"
  "transfer (error_of c m) = None"
  by (simp_all add: error_of_def)

lemma is_error_simps [simp]:
  "is_error (error_of c m) \<longleftrightarrow> c \<noteq> E_none" "\<not> is_error no_error"
  by (simp_all add: is_error_def no_error_def)

lemma error_of_inject [simp]: "error_of c m = error_of d n \<longleftrightarrow> c = d \<and> m = n"
  by (simp add: error_of_def)

lemma protocol_error_simps [simp]:
  "protocol_error (Inl e) \<longleftrightarrow> err_code e = E_protocol" "\<not> protocol_error (Inr x)"
  by (simp_all add: protocol_error_def)

end
