(* ===== verification/Headers.thy ===== *)
theory Headers
  imports Errors
begin

text \<open>
  The ordered, case-insensitive header multimap (\<^verbatim>\<open>class Headers\<close>, \<^verbatim>\<open>src/common.cpp\<close>), the ASCII
  comparison helpers behind it, and the validation and token scanning of field values.  The
  interface the rest of the library relies on is the locale \<open>field_store\<close>, interpreted on the
  model at the end of the theory.
\<close>

section \<open>Case-insensitive comparison\<close>

text \<open>One iteration of the comparison loops: equal bytes are taken without folding.\<close>

definition same_folded :: "char \<Rightarrow> char \<Rightarrow> bool" where
  "same_folded l r \<longleftrightarrow> l = r \<or> fold_ascii l = fold_ascii r"

fun iequals_loop :: "bytes \<Rightarrow> bytes \<Rightarrow> bool" where
  "iequals_loop (l # ls) (r # rs) = (if same_folded l r then iequals_loop ls rs else False)"
| "iequals_loop _ _ = True"

definition iequals :: "bytes \<Rightarrow> bytes \<Rightarrow> bool" where
  "iequals lhs rhs = (if length lhs \<noteq> length rhs then False else iequals_loop lhs rhs)"

definition istarts_with :: "bytes \<Rightarrow> bytes \<Rightarrow> bool" where
  "istarts_with s pre = (if length pre > length s then False
     else iequals_loop pre (take (length pre) s))"

definition lower :: "bytes \<Rightarrow> bytes" where
  "lower s = map fold_ascii s"

text \<open>\<^verbatim>\<open>split_tokens\<close>: the trimmed parts that are not empty.\<close>

function split_tokens :: "bytes \<Rightarrow> char \<Rightarrow> bytes list" where
  "split_tokens v sep =
     (let part = trim (substr v 0 (find_char sep v))
      in (if part \<noteq> [] then [part] else [])
         @ (case find_char sep v of None \<Rightarrow> [] | Some e \<Rightarrow> split_tokens (substr v (e + 1) None) sep))"
  by pat_completeness auto
termination
  by (relation "measure (\<lambda>(v, _). length v)") (auto simp: substr_def dest: find_char_less)

declare split_tokens.simps [simp del]

lemma same_folded_iff [simp]: "same_folded l r \<longleftrightarrow> fold_ascii l = fold_ascii r"
  by (auto simp: same_folded_def)

lemma iequals_loop_iff:
  "length ls = length rs \<Longrightarrow> iequals_loop ls rs \<longleftrightarrow> map fold_ascii ls = map fold_ascii rs"
  by (induction ls rs rule: iequals_loop.induct) auto

lemma iequals_iff: "iequals a b \<longleftrightarrow> lower a = lower b"
  by (auto simp: iequals_def lower_def iequals_loop_iff dest: map_eq_imp_length_eq)

lemma istarts_with_iff: "istarts_with s pre \<longleftrightarrow> prefix (lower pre) (lower s)"
proof (cases "length pre \<le> length s")
  case True
  then have "istarts_with s pre \<longleftrightarrow> lower pre = take (length pre) (lower s)"
    by (simp add: istarts_with_def iequals_loop_iff lower_def take_map)
  then show ?thesis
    by (metis lower_def length_map prefix_order.eq_iff take_is_prefix append_eq_conv_conj prefix_def)
next
  case False
  then show ?thesis by (auto simp: istarts_with_def lower_def dest: prefix_length_le)
qed

lemma iequals_refl [simp]: "iequals a a"
  by (simp add: iequals_iff)

lemma iequals_sym: "iequals a b \<longleftrightarrow> iequals b a"
  by (auto simp: iequals_iff)

lemma iequals_trans: "iequals a b \<Longrightarrow> iequals b c \<Longrightarrow> iequals a c"
  by (simp add: iequals_iff)

lemma lower_idem [simp]: "lower (lower s) = lower s"
  by (simp add: lower_def)

lemma length_lower [simp]: "length (lower s) = length s"
  by (simp add: lower_def)

section \<open>The field set\<close>

type_synonym headers = "(bytes \<times> bytes) list"

definition headers_add :: "headers \<Rightarrow> bytes \<Rightarrow> bytes \<Rightarrow> headers" where
  "headers_add h name value = h @ [(name, value)]"

text \<open>\<^verbatim>\<open>Headers::erase\<close> also reports whether the size changed.\<close>

definition headers_erase :: "headers \<Rightarrow> bytes \<Rightarrow> bool \<times> headers" where
  "headers_erase h name =
     (let kept = filter (\<lambda>item. \<not> iequals (fst item) name) h
      in (length kept \<noteq> length h, kept))"

definition headers_set :: "headers \<Rightarrow> bytes \<Rightarrow> bytes \<Rightarrow> headers" where
  "headers_set h name value = headers_add (snd (headers_erase h name)) name value"

definition headers_contains :: "headers \<Rightarrow> bytes \<Rightarrow> bool" where
  "headers_contains h name \<longleftrightarrow> (\<exists>item \<in> set h. iequals (fst item) name)"

fun find_header :: "headers \<Rightarrow> bytes \<Rightarrow> bytes option" where
  "find_header [] name = None"
| "find_header ((key, value) # h) name =
     (if iequals key name then Some value else find_header h name)"

definition headers_get :: "headers \<Rightarrow> bytes \<Rightarrow> bytes \<Rightarrow> bytes" where
  "headers_get h name fallback =
     (case find (\<lambda>item. iequals (fst item) name) h of None \<Rightarrow> fallback | Some item \<Rightarrow> snd item)"

fun headers_get_all :: "headers \<Rightarrow> bytes \<Rightarrow> bytes list" where
  "headers_get_all [] name = []"
| "headers_get_all ((key, value) # h) name =
     (if iequals key name then value # headers_get_all h name else headers_get_all h name)"

lemmas headers_defs = headers_add_def headers_erase_def headers_set_def headers_contains_def

lemma find_header_append:
  "find_header (h @ g) n = (case find_header h n of Some v \<Rightarrow> Some v | None \<Rightarrow> find_header g n)"
  by (induction h) auto

lemma find_header_filter:
  "find_header (filter (\<lambda>item. \<not> iequals (fst item) n) h) m =
     (if iequals n m then None else find_header h m)"
  by (induction h) (auto simp: iequals_iff)

lemma find_header_None: "find_header h n = None \<longleftrightarrow> \<not> headers_contains h n"
  by (induction h) (auto simp: headers_contains_def split: if_splits)

lemma headers_get_find: "headers_get h n d = (case find_header h n of None \<Rightarrow> d | Some v \<Rightarrow> v)"
  by (induction h) (auto simp: headers_get_def)

lemma headers_get_all_filter:
  "headers_get_all h n = map snd (filter (\<lambda>item. iequals (fst item) n) h)"
  by (induction h) auto

lemma find_header_get_all:
  "find_header h n = (case headers_get_all h n of [] \<Rightarrow> None | v # _ \<Rightarrow> Some v)"
  by (induction h) auto

section \<open>Field names, field values and tokens\<close>

text \<open>
  The compile-time tables of \<^verbatim>\<open>make_token_character_table\<close> and
  \<^verbatim>\<open>make_field_value_character_table\<close>, indexed by the unsigned byte.
\<close>

definition separators :: bytes where
  "separators = ''()<>@,;:'' @ [BSLASH, DQUOTE] @ ''/[]?={} '' @ [TAB]"

definition token_characters :: "bool list" where
  "token_characters = map (\<lambda>n. n > 0x20 \<and> n < 0x7f \<and> find_char (char_of n) separators = None)
     [0..<256]"

definition field_value_characters :: "bool list" where
  "field_value_characters = map (\<lambda>n. n = 9 \<or> (n \<ge> 0x20 \<and> n \<noteq> 0x7f)) [0..<256]"

definition valid_header_name :: "bytes \<Rightarrow> bool" where
  "valid_header_name s = (if s = [] then False
     else list_all (\<lambda>c. token_characters ! code c) s)"

definition valid_header_value :: "bytes \<Rightarrow> bool" where
  "valid_header_value s = list_all (\<lambda>c. field_value_characters ! code c) s"

definition token_char :: "char \<Rightarrow> bool" where
  "token_char c \<longleftrightarrow> in_range 0x21 0x7e c \<and> c \<notin> set separators"

definition field_value_char :: "char \<Rightarrow> bool" where
  "field_value_char c \<longleftrightarrow> c = TAB \<or> (code c \<ge> 0x20 \<and> code c \<noteq> 0x7f)"

lemma token_table [simp]: "token_characters ! code c \<longleftrightarrow> token_char c"
  by (auto simp: token_characters_def token_char_def in_range_def search_simps)

lemma code_TAB: "code c = 9 \<longleftrightarrow> c = TAB"
proof -
  have "code TAB = 9" by simp
  then show ?thesis by (metis code_inj)
qed

lemma field_value_table [simp]: "field_value_characters ! code c \<longleftrightarrow> field_value_char c"
  by (auto simp: field_value_characters_def field_value_char_def code_TAB)

lemma valid_header_name_iff: "valid_header_name s \<longleftrightarrow> s \<noteq> [] \<and> (\<forall>c \<in> set s. token_char c)"
  by (simp add: valid_header_name_def list_all_iff)

lemma valid_header_value_iff: "valid_header_value s \<longleftrightarrow> (\<forall>c \<in> set s. field_value_char c)"
  by (simp add: valid_header_value_def list_all_iff)

lemma token_field_value: "token_char c \<Longrightarrow> field_value_char c"
  by (auto simp: token_char_def field_value_char_def in_range_def)

lemma valid_name_value: "valid_header_name s \<Longrightarrow> valid_header_value s"
  by (auto simp: valid_header_name_iff valid_header_value_iff token_field_value)

lemma field_value_no_crlf [simp]: "\<not> field_value_char CR" "\<not> field_value_char LF"
  by (simp_all add: field_value_char_def)

lemma token_char_excludes [simp]:
  "\<not> token_char CR" "\<not> token_char LF" "\<not> token_char SP" "\<not> token_char TAB"
  "\<not> token_char CHR '':''" "\<not> token_char CHR '',''" "\<not> token_char CHR '';''"
  "\<not> token_char CHR ''=''" "\<not> token_char DQUOTE" "\<not> token_char CHR ''/''"
  by (simp_all add: token_char_def separators_def in_range_def)

text \<open>The comma-separated token search, one \<^verbatim>\<open>for (;;)\<close> iteration per call.\<close>

function header_value_has_token :: "bytes \<Rightarrow> bytes \<Rightarrow> bool" where
  "header_value_has_token value token =
     (let comma = find_char CHR '','' value;
          candidate = trim_ows (case comma of None \<Rightarrow> value | Some i \<Rightarrow> substr value 0 (Some i))
      in if candidate \<noteq> [] \<and> iequals candidate token then True
         else (case comma of None \<Rightarrow> False
               | Some i \<Rightarrow> header_value_has_token (substr value (i + 1) None) token))"
  by pat_completeness auto
termination
  by (relation "measure (length \<circ> fst)") (auto simp: substr_def dest!: sym [of "Some _"] find_char_less)

declare header_value_has_token.simps [simp del]

definition has_token :: "headers \<Rightarrow> bytes \<Rightarrow> bytes \<Rightarrow> bool" where
  "has_token h name token \<longleftrightarrow>
     (\<exists>(key, value) \<in> set h. iequals key name \<and> header_value_has_token value token)"

lemma header_value_has_token_iff:
  "header_value_has_token v t \<longleftrightarrow>
     (\<exists>p \<in> set (split_on CHR '','' v). trim_ows p \<noteq> [] \<and> iequals (trim_ows p) t)"
proof (induction v t rule: header_value_has_token.induct)
  case (1 v t)
  show ?case
  proof (cases "find_char CHR '','' v")
    case None
    then show ?thesis
      unfolding header_value_has_token.simps [of v t] split_on_find [where s = v] Let_def by auto
  next
    case (Some i)
    let ?hit = "trim_ows (take i v) \<noteq> [] \<and> iequals (trim_ows (take i v)) t"
    have "\<not> ?hit \<Longrightarrow> header_value_has_token (drop (Suc i) v) t \<longleftrightarrow>
        (\<exists>p \<in> set (split_on CHR '','' (drop (Suc i) v)). trim_ows p \<noteq> [] \<and> iequals (trim_ows p) t)"
      using 1 Some by (auto simp: substr_def)
    then show ?thesis
      unfolding header_value_has_token.simps [of v t] split_on_find [where s = v] Let_def
      by (cases ?hit) (auto simp: Some substr_def)
  qed
qed

section \<open>The interface of a field store\<close>

text \<open>
  What the response setters, the range helpers and the client rely on: lookups are
  case-insensitive, \<open>set\<close> replaces every equal field, \<open>erase\<close> removes them, and other fields
  are untouched.
\<close>

locale field_store =
  fixes lookup :: "'s \<Rightarrow> bytes \<Rightarrow> bytes option"
    and put :: "'s \<Rightarrow> bytes \<Rightarrow> bytes \<Rightarrow> 's"
    and remove :: "'s \<Rightarrow> bytes \<Rightarrow> 's"
    and present :: "'s \<Rightarrow> bytes \<Rightarrow> bool"
  assumes lookup_put: "lookup (put s n v) m = (if iequals n m then Some v else lookup s m)"
    and lookup_remove: "lookup (remove s n) m = (if iequals n m then None else lookup s m)"
    and present_iff: "present s n \<longleftrightarrow> lookup s n \<noteq> None"
begin

lemma put_same [simp]: "lookup (put s n v) n = Some v"
  by (simp add: lookup_put)

lemma put_other: "\<not> iequals n m \<Longrightarrow> lookup (put s n v) m = lookup s m"
  by (simp add: lookup_put)

lemma remove_absent [simp]: "\<not> present (remove s n) n"
  by (simp add: present_iff lookup_remove)

lemma put_present [simp]: "present (put s n v) n"
  by (simp add: present_iff)

lemma put_put: "iequals n m \<Longrightarrow> lookup (put (put s n v) m w) k = lookup (put s m w) k"
  by (auto simp: lookup_put iequals_iff)

lemma put_commute:
  "\<not> iequals n m \<Longrightarrow> lookup (put (put s n v) m w) k = lookup (put (put s m w) n v) k"
  by (auto simp: lookup_put iequals_iff)

lemma remove_put: "iequals n m \<Longrightarrow> lookup (remove (put s n v) m) k = lookup (remove s m) k"
  by (auto simp: lookup_put lookup_remove iequals_iff)

end

interpretation hs: field_store find_header headers_set "\<lambda>h n. snd (headers_erase h n)" headers_contains
proof unfold_locales
  fix h :: headers and n v m :: bytes
  show "find_header (headers_set h n v) m = (if iequals n m then Some v else find_header h m)"
    by (auto simp: headers_defs Let_def find_header_append find_header_filter split: option.splits)
  show "find_header (snd (headers_erase h n)) m = (if iequals n m then None else find_header h m)"
    by (simp add: headers_defs Let_def find_header_filter)
  show "headers_contains h n \<longleftrightarrow> find_header h n \<noteq> None"
    by (simp add: find_header_None)
qed

section \<open>Properties\<close>

lemma headers_get_all_append: "headers_get_all (h @ g) n = headers_get_all h n @ headers_get_all g n"
  by (induction h) auto

lemma headers_get_all_kept:
  "headers_get_all (filter (\<lambda>item. \<not> iequals (fst item) n) h) m =
     (if iequals n m then [] else headers_get_all h m)"
  by (induction h) (auto simp: iequals_iff)

text \<open>After \<open>Headers::set\<close> every spelling of the name reads as exactly the new value, every other
  name reads as before, and the fields of other names keep their order and spelling.\<close>

lemma headers_set_replaces:
  "headers_get_all (headers_set h n v) m = (if iequals n m then [v] else headers_get_all h m)
   \<and> filter (\<lambda>item. \<not> iequals (fst item) n) (headers_set h n v) =
       filter (\<lambda>item. \<not> iequals (fst item) n) h
   \<and> find_header (snd (headers_erase (headers_set h n v) n)) n = None"
proof -
  have "find_header (snd (headers_erase (headers_set h n v) n)) n = None"
    using hs.remove_put [of n n h v n] hs.lookup_remove [of h n n] by simp
  then show ?thesis
    by (auto simp: headers_defs Let_def headers_get_all_append headers_get_all_kept)
qed

text \<open>\<open>has_token\<close> holds exactly when some field line of the name has, among its
  comma-separated elements with their white space stripped, one that is the token up to ASCII case.\<close>

lemma has_token_elements:
  "has_token h n t \<longleftrightarrow>
     (\<exists>v \<in> set (headers_get_all h n). \<exists>p \<in> set (split_on CHR '','' v).
        trim_ows p \<noteq> [] \<and> iequals (trim_ows p) t)"
  by (force simp: has_token_def header_value_has_token_iff headers_get_all_filter)

end
