(* ===== verification/Url.thy ===== *)
theory Url
  imports Headers
begin

text \<open>
  Percent encoding, query strings and URLs (\<^verbatim>\<open>src/common.cpp\<close>: \<^verbatim>\<open>url_encode\<close>, \<^verbatim>\<open>url_decode\<close>,
  \<^verbatim>\<open>parse_query\<close>, \<^verbatim>\<open>make_query\<close>, \<^verbatim>\<open>has_url_scheme\<close>, \<^verbatim>\<open>remove_dot_segments\<close>, \<^verbatim>\<open>parse_url\<close>,
  \<^verbatim>\<open>ParsedUrl::authority\<close>, \<^verbatim>\<open>ParsedUrl::origin\<close>, \<^verbatim>\<open>resolve_url\<close>).
\<close>

section \<open>Percent encoding\<close>

definition hex_upper :: "nat \<Rightarrow> char" where
  "hex_upper d = (if d < 10 then char_of (48 + d) else char_of (55 + d))"

definition url_unreserved :: "char \<Rightarrow> bool" where
  "url_unreserved ch \<longleftrightarrow> is_alnum ch \<or> ch \<in> set ''-_.~''"

fun url_encode :: "bytes \<Rightarrow> bool \<Rightarrow> bytes" where
  "url_encode [] space_as_plus = []"
| "url_encode (ch # rest) space_as_plus =
     (if url_unreserved ch then [ch]
      else if space_as_plus \<and> ch = SP then ''+''
      else [CHR ''%'', hex_upper (code ch div 16), hex_upper (code ch mod 16)])
     @ url_encode rest space_as_plus"

definition hex_value :: "char \<Rightarrow> nat option" where
  "hex_value ch =
     (if in_range 48 57 ch then Some (code ch - 48)
      else if in_range 97 102 ch then Some (code ch - 97 + 10)
      else if in_range 65 70 ch then Some (code ch - 65 + 10) else None)"

fun url_decode_loop :: "bool \<Rightarrow> bytes \<Rightarrow> bytes result" where
  "url_decode_loop pas [] = Inr []"
| "url_decode_loop pas (ch # rest) =
     (if ch = CHR ''%'' then
        (case rest of
           h # l # rest' \<Rightarrow>
             (case (hex_value h, hex_value l) of
                (Some high, Some low) \<Rightarrow>
                  map_sum id (\<lambda>out. char_of (high * 16 + low) # out) (url_decode_loop pas rest')
              | _ \<Rightarrow> fail E_invalid_url ''Invalid percent escape'')
         | _ \<Rightarrow> fail E_invalid_url ''Truncated percent escape'')
      else map_sum id (\<lambda>out. (if pas \<and> ch = CHR ''+'' then SP else ch) # out)
             (url_decode_loop pas rest))"

definition url_decode :: "bytes \<Rightarrow> bool \<Rightarrow> bytes result" where
  "url_decode s plus_as_space =
     (if find_char CHR ''%'' s = None \<and> (\<not> plus_as_space \<or> find_char CHR ''+'' s = None)
      then Inr s else url_decode_loop plus_as_space s)"

lemma hex_value_hex_upper [simp]: "d < 16 \<Longrightarrow> hex_value (hex_upper d) = Some d"
  by (auto simp: hex_value_def hex_upper_def in_range_def code_char_of)

lemma url_unreserved_not_escape [simp]:
  "\<not> url_unreserved CHR ''%''" "\<not> url_unreserved CHR ''+''" "\<not> url_unreserved CHR ''&''"
  "\<not> url_unreserved CHR ''=''" "\<not> url_unreserved CHR ''?''"
  by (simp_all add: url_unreserved_def bytes_simps)

lemma url_decode_loop_plain:
  "CHR ''%'' \<notin> set s \<Longrightarrow> \<not> pas \<or> CHR ''+'' \<notin> set s \<Longrightarrow> url_decode_loop pas s = Inr s"
  by (induction s) auto

lemma url_decode_eq_loop: "url_decode s pas = url_decode_loop pas s"
  by (auto simp: url_decode_def search_simps url_decode_loop_plain)

lemma url_decode_loop_encode:
  "url_decode_loop (p \<or> q) (url_encode s p) = Inr s"
proof (induction s)
  case (Cons ch s)
  show ?case
  proof (cases "url_unreserved ch")
    case True
    then have "ch \<noteq> CHR ''%''" "ch \<noteq> CHR ''+''" by auto
    with True Cons show ?thesis by simp
  next
    case False
    with Cons show ?thesis by (cases "p \<and> ch = SP") (auto simp del: div_mult_mod_eq)
  qed
qed simp

lemma hex_upper_unreserved [simp]: "d < 16 \<Longrightarrow> url_unreserved (hex_upper d)"
  by (auto simp: url_unreserved_def hex_upper_def is_alnum_def is_alpha_def is_digit_def
      is_upper_def)

lemma url_encode_safe:
  "c \<in> set (url_encode s p) \<Longrightarrow> url_unreserved c \<or> c = CHR ''%'' \<or> c = CHR ''+''"
proof (induction s)
  case (Cons ch s)
  then show ?case by (auto split: if_splits)
qed simp

lemma url_encode_no_sep [simp]:
  "CHR ''&'' \<notin> set (url_encode s p)" "CHR ''='' \<notin> set (url_encode s p)"
  "CHR ''?'' \<notin> set (url_encode s p)"
  using url_encode_safe by fastforce+

section \<open>Query strings\<close>

type_synonym params = "(bytes \<times> bytes) list"

text \<open>One \<^verbatim>\<open>&\<close>-separated part of the query: the key, the value and what is appended.\<close>

definition parse_query_part :: "bytes \<Rightarrow> params" where
  "parse_query_part part =
     (if part = [] then []
      else let equal = find_char CHR ''='' part;
               key = url_decode (substr part 0 equal) True;
               val = (case equal of None \<Rightarrow> Inr []
                      | Some e \<Rightarrow> url_decode (substr part (e + 1) None) True)
           in case (key, val) of (Inr k, Inr v) \<Rightarrow> [(k, v)] | _ \<Rightarrow> [])"

function parse_query_loop :: "bytes \<Rightarrow> params" where
  "parse_query_loop q =
     (case find_char CHR ''&'' q of
        None \<Rightarrow> parse_query_part q
      | Some e \<Rightarrow> parse_query_part (substr q 0 (Some e)) @ parse_query_loop (substr q (e + 1) None))"
  by pat_completeness auto
termination
  by (relation "measure length") (auto simp: substr_def dest!: find_char_less)

declare parse_query_loop.simps [simp del]

definition parse_query :: "bytes \<Rightarrow> params" where
  "parse_query query =
     parse_query_loop (if query \<noteq> [] \<and> hd query = CHR ''?'' then tl query else query)"

fun make_query_loop :: "bytes \<Rightarrow> params \<Rightarrow> bytes" where
  "make_query_loop output [] = output"
| "make_query_loop output ((key, val) # rest) =
     make_query_loop ((if output \<noteq> [] then output @ ''&'' else output)
       @ url_encode key True @ ''='' @ url_encode val True) rest"

definition make_query :: "params \<Rightarrow> bytes" where
  "make_query params = make_query_loop [] params"

lemma parse_query_loop_split:
  "parse_query_loop q = concat (map parse_query_part (split_on CHR ''&'' q))"
proof (induction q rule: parse_query_loop.induct)
  case (1 q)
  then show ?case
    unfolding parse_query_loop.simps [of q] split_on_find [where s = q]
    by (auto simp: substr_def split: option.splits)
qed

lemma parse_query_part_pair:
  "parse_query_part (url_encode k True @ CHR ''='' # url_encode v True) = [(k, v)]"
proof -
  have "find_char CHR ''='' (url_encode k True @ CHR ''='' # url_encode v True)
      = Some (length (url_encode k True))"
    by (rule find_char_split) simp
  then show ?thesis
    using url_decode_loop_encode [of True True] by (simp add: parse_query_part_def substr_def url_decode_eq_loop)
qed

definition query_part :: "bytes \<times> bytes \<Rightarrow> bytes" where
  "query_part kv = url_encode (fst kv) True @ CHR ''='' # url_encode (snd kv) True"

lemma make_query_loop_join:
  "out \<noteq> [] \<Longrightarrow> make_query_loop out ps = join_with CHR ''&'' (out # map query_part ps)"
proof (induction ps arbitrary: out)
  case (Cons kv ps)
  show ?case
  proof (cases kv)
    case (Pair k v)
    have "join_with c ((a @ c # b) # qs) = a @ c # join_with c (b # qs)" for c a b qs
      by (cases qs) simp_all
    with Cons Pair show ?thesis by (simp add: query_part_def)
  qed
qed simp

lemma make_query_join: "make_query ps = join_with CHR ''&'' (map query_part ps)"
  by (cases ps) (auto simp: make_query_def make_query_loop_join query_part_def)

lemma make_query_head: "make_query ps \<noteq> [] \<Longrightarrow> hd (make_query ps) \<noteq> CHR ''?''"
proof (cases ps)
  case (Cons kv rest)
  have "hd (query_part kv) \<noteq> CHR ''?''"
    using url_encode_no_sep(3) [of "fst kv" True]
    by (cases "url_encode (fst kv) True") (auto simp: query_part_def)
  moreover have "query_part kv \<noteq> []" by (simp add: query_part_def)
  ultimately show ?thesis
    by (cases rest) (auto simp: Cons make_query_join)
qed (simp add: make_query_def)

section \<open>Scheme and dot segments\<close>

definition scheme_char :: "char \<Rightarrow> bool" where
  "scheme_char ch \<longleftrightarrow> is_alpha ch \<or> is_digit ch \<or> ch = CHR ''+'' \<or> ch = CHR ''-'' \<or> ch = CHR ''.''"

definition has_url_scheme :: "bytes \<Rightarrow> bool" where
  "has_url_scheme s =
     (case find_char CHR '':'' s of
        None \<Rightarrow> False
      | Some colon \<Rightarrow>
          if colon = 0 then False
          else if \<not> is_alpha (hd s) then False
          else list_all scheme_char (substr s 1 (Some (colon - 1))))"

text \<open>The \<^verbatim>\<open>pop\<close> of RFC 3986: cut the output at its last slash, or empty it.\<close>

definition pop_segment :: "bytes \<Rightarrow> bytes" where
  "pop_segment out = take (case rfind_char CHR ''/'' out of None \<Rightarrow> 0 | Some i \<Rightarrow> i) out"

text \<open>Number of bytes of the next segment, with its leading slash if it has one.\<close>

definition segment_length :: "bytes \<Rightarrow> nat" where
  "segment_length path =
     (case find_char_from CHR ''/'' (if hd path = CHR ''/'' then 1 else 0) path of
        None \<Rightarrow> length path | Some next \<Rightarrow> next)"

lemma segment_length_pos: "path \<noteq> [] \<Longrightarrow> 0 < segment_length path"
  by (cases path) (auto simp: segment_length_def find_char_from_def find_char_def split: option.splits)

function remove_dot_loop :: "bytes \<Rightarrow> bytes \<Rightarrow> bytes" where
  "remove_dot_loop out path =
     (if path = [] then out
      else if prefix ''../'' path then remove_dot_loop out (drop 3 path)
      else if prefix ''./'' path then remove_dot_loop out (drop 2 path)
      else if prefix ''/./'' path then remove_dot_loop out (drop 2 path)
      else if path = ''/.'' then remove_dot_loop out ''/''
      else if prefix ''/../'' path then remove_dot_loop (pop_segment out) (drop 3 path)
      else if path = ''/..'' then remove_dot_loop (pop_segment out) ''/''
      else if path = ''.'' \<or> path = ''..'' then remove_dot_loop out []
      else remove_dot_loop (out @ take (segment_length path) path) (drop (segment_length path) path))"
  by pat_completeness auto
termination
  by (relation "measure (length \<circ> snd)") (auto simp: segment_length_pos)

declare remove_dot_loop.simps [simp del]

definition remove_dot_segments :: "bytes \<Rightarrow> bytes" where
  "remove_dot_segments path = remove_dot_loop [] path"

section \<open>URLs\<close>

record parsed_url =
  scheme :: bytes
  host :: bytes
  port :: nat
  target :: bytes
  secure :: bool

definition default_port :: "parsed_url \<Rightarrow> bool" where
  "default_port u \<longleftrightarrow> (secure u \<and> port u = 443) \<or> (\<not> secure u \<and> port u = 80)"

definition authority :: "parsed_url \<Rightarrow> bytes" where
  "authority u =
     (let bracketed = find_char CHR '':'' (host u) \<noteq> None
      in (if bracketed then ''['' else []) @ host u @ (if bracketed then '']'' else [])
         @ (if default_port u then [] else CHR '':'' # to_string (port u)))"

definition origin :: "parsed_url \<Rightarrow> bytes" where
  "origin u =
     (let bracketed = find_char CHR '':'' (host u) \<noteq> None
      in scheme u @ ''://'' @ (if bracketed then ''['' else []) @ host u
         @ (if bracketed then '']'' else [])
         @ (if default_port u then [] else CHR '':'' # to_string (port u)))"

text \<open>The host and the port text of an authority.\<close>

definition split_authority :: "bytes \<Rightarrow> (bytes \<times> bytes) result" where
  "split_authority auth =
     (if hd auth = CHR ''['' then
        (case find_char CHR '']'' auth of
           None \<Rightarrow> fail E_invalid_url ''Malformed IPv6 URL host''
         | Some bracket \<Rightarrow>
             if bracket = 1 then fail E_invalid_url ''Malformed IPv6 URL host''
             else if bracket + 1 < length auth then
               (if auth ! (bracket + 1) \<noteq> CHR '':'' then fail E_invalid_url ''Malformed URL authority''
                else Inr (substr auth 1 (Some (bracket - 1)), substr auth (bracket + 2) None))
             else Inr (substr auth 1 (Some (bracket - 1)), []))
      else
        (case rfind_char CHR '':'' auth of
           Some colon \<Rightarrow>
             if find_char CHR '':'' auth \<noteq> Some colon
             then fail E_invalid_url ''IPv6 URL hosts must use brackets''
             else Inr (substr auth 0 (Some colon), substr auth (colon + 1) None)
         | None \<Rightarrow> Inr (auth, [])))"

definition url_port :: "bytes \<Rightarrow> bytes \<Rightarrow> bool \<Rightarrow> nat result" where
  "url_port auth port_text sec =
     (if port_text \<noteq> [] then
        (case parse_number 10 (2 ^ 32 - 1) port_text of
           None \<Rightarrow> fail E_invalid_url ''Invalid URL port''
         | Some v \<Rightarrow> if v > 65535 \<or> v = 0 then fail E_invalid_url ''Invalid URL port'' else Inr v)
      else if auth \<noteq> [] \<and> last auth = CHR '':'' then fail E_invalid_url ''URL port is empty''
      else Inr (if sec then 443 else 80))"

definition url_target :: "bytes \<Rightarrow> nat option \<Rightarrow> bytes" where
  "url_target complete target_begin =
     (let t = (case target_begin of
                 Some b \<Rightarrow>
                   if complete ! b \<noteq> CHR ''#'' then
                     substr complete b (map_option (\<lambda>f. f - b) (find_char_from CHR ''#'' b complete))
                   else ''/''
               | None \<Rightarrow> ''/'');
          t1 = (if t = [] then ''/'' else t)
      in if hd t1 = CHR ''?'' then CHR ''/'' # t1 else t1)"

definition url_space :: "char \<Rightarrow> bool" where
  "url_space ch \<longleftrightarrow> code ch \<le> 0x20 \<or> code ch = 0x7f"

definition supported_schemes :: "bytes list" where
  "supported_schemes = [''http'', ''https'', ''ws'', ''wss'']"

text \<open>Where the target starts after the authority at \<open>k\<close>, and that authority.\<close>

definition find_target :: "bytes \<Rightarrow> nat \<Rightarrow> nat option" where
  "find_target complete k =
     map_option (\<lambda>i. k + i) (find_idx (\<lambda>c. c \<in> set ''/?#'') (drop k complete))"

definition url_authority :: "bytes \<Rightarrow> nat \<Rightarrow> bytes" where
  "url_authority complete k =
     substr complete k (map_option (\<lambda>t. t - k) (find_target complete k))"

text \<open>\<^verbatim>\<open>parse_url\<close> from the point where the text is complete.\<close>

definition parse_complete_url :: "bytes \<Rightarrow> parsed_url result" where
  "parse_complete_url complete =
     (if list_ex url_space complete
      then fail E_invalid_url ''URL contains whitespace or control characters''
      else (case find_sub ''://'' complete of
        None \<Rightarrow> fail E_invalid_url ''Malformed URL scheme''
      | Some scheme_end \<Rightarrow>
        if scheme_end = 0 then fail E_invalid_url ''Malformed URL scheme''
        else
          let sch = lower (substr complete 0 (Some scheme_end));
              sec = (sch = ''https'' \<or> sch = ''wss'');
              auth = url_authority complete (scheme_end + 3)
          in if sch \<notin> set supported_schemes
             then fail E_invalid_url (''Unsupported URL scheme: '' @ sch)
             else if auth = [] \<or> find_char CHR ''@'' auth \<noteq> None
             then fail E_invalid_url ''URL has an invalid authority''
             else (case split_authority auth of
               Inl e \<Rightarrow> Inl e
             | Inr (hst, port_text) \<Rightarrow>
                 if hst = [] then fail E_invalid_url ''URL has no host''
                 else (case url_port auth port_text sec of
                   Inl e \<Rightarrow> Inl e
                 | Inr prt \<Rightarrow>
                     Inr \<lparr>scheme = sch, host = hst, port = prt,
                          target = url_target complete (find_target complete (scheme_end + 3)),
                          secure = sec\<rparr>))))"

text \<open>
  \<^verbatim>\<open>parse_url\<close> and \<^verbatim>\<open>resolve_url\<close> call each other, but \<^verbatim>\<open>resolve_url\<close> only calls \<^verbatim>\<open>parse_url\<close>
  without a base, where it does not call back.
\<close>

definition parse_absolute_url :: "bytes \<Rightarrow> parsed_url result" where
  "parse_absolute_url input = (if has_url_scheme input then parse_complete_url input
     else fail E_invalid_url ''URL has no scheme'')"

definition merge_reference :: "parsed_url \<Rightarrow> bytes \<Rightarrow> bytes" where
  "merge_reference base reference =
     (if hd reference = CHR ''/'' then reference
      else let path = substr (target base) 0 (find_char CHR ''?'' (target base));
               cut = (case rfind_char CHR ''/'' path of None \<Rightarrow> 0 | Some i \<Rightarrow> i + 1)
           in substr path 0 (Some cut) @ reference)"

definition resolve_url :: "bytes \<Rightarrow> bytes \<Rightarrow> bytes result" where
  "resolve_url base reference0 =
     (let reference = substr reference0 0 (find_char CHR ''#'' reference0)
      in if has_url_scheme reference then Inr reference
         else (case parse_absolute_url base of
           Inl e \<Rightarrow> Inl e
         | Inr parsed_base \<Rightarrow>
             if prefix ''//'' reference then Inr (scheme parsed_base @ '':'' @ reference)
             else if reference = [] \<or> hd reference = CHR ''#''
             then Inr (origin parsed_base @ target parsed_base)
             else if hd reference = CHR ''?''
             then Inr (origin parsed_base
                       @ substr (target parsed_base) 0 (find_char CHR ''?'' (target parsed_base))
                       @ reference)
             else
               let combined = merge_reference parsed_base reference;
                   query_at = find_char CHR ''?'' combined;
                   normalized = remove_dot_segments (substr combined 0 query_at)
                     @ (case query_at of None \<Rightarrow> [] | Some q \<Rightarrow> substr combined q None)
               in Inr (origin parsed_base @ normalized)))"

definition parse_url :: "bytes \<Rightarrow> bytes \<Rightarrow> parsed_url result" where
  "parse_url input base =
     (if \<not> has_url_scheme input then
        (if base = [] then fail E_invalid_url ''URL has no scheme''
         else (case resolve_url base input of
           Inl e \<Rightarrow> Inl e | Inr complete \<Rightarrow> parse_complete_url complete))
      else parse_complete_url input)"

section \<open>What a parsed URL looks like\<close>

definition authority_char :: "char \<Rightarrow> bool" where
  "authority_char c \<longleftrightarrow> \<not> url_space c \<and> c \<notin> set ''/?#@''"

definition target_char :: "char \<Rightarrow> bool" where
  "target_char c \<longleftrightarrow> \<not> url_space c \<and> c \<noteq> CHR ''#''"

definition wf_url :: "parsed_url \<Rightarrow> bool" where
  "wf_url u \<longleftrightarrow> scheme u \<in> set supported_schemes
     \<and> secure u = (scheme u = ''https'' \<or> scheme u = ''wss'')
     \<and> host u \<noteq> [] \<and> list_all authority_char (host u)
     \<and> (CHR '':'' \<in> set (host u) \<longrightarrow> CHR '']'' \<notin> set (host u))
     \<and> 0 < port u \<and> port u \<le> 65535
     \<and> target u \<noteq> [] \<and> hd (target u) = CHR ''/'' \<and> list_all target_char (target u)"

lemma list_all_substr: "list_all P s \<Longrightarrow> list_all P (substr s i n)"
  by (auto simp: list_all_iff dest: set_substr)

lemma split_authority_host:
  assumes "split_authority auth = Inr (hst, prt)" "list_all authority_char auth" "auth \<noteq> []"
  shows "list_all authority_char hst" "CHR '':'' \<in> set hst \<longrightarrow> CHR '']'' \<notin> set hst"
proof -
  show "list_all authority_char hst"
    using assms by (auto simp: split_authority_def list_all_substr split: if_splits option.splits)
  show "CHR '':'' \<in> set hst \<longrightarrow> CHR '']'' \<notin> set hst"
  proof (cases "hd auth = CHR ''[''")
    case True
    then obtain b where b: "find_char CHR '']'' auth = Some b" "hst = substr auth 1 (Some (b - 1))"
      using assms(1) by (auto simp: split_authority_def split: if_splits option.splits)
    then obtain us vs where "auth = us @ CHR '']'' # vs" "length us = b" "CHR '']'' \<notin> set us"
      by (auto elim: find_char_SomeE)
    with b(2) have "set hst \<subseteq> set us"
      by (cases us) (auto simp: substr_def dest: in_set_takeD)
    with \<open>CHR '']'' \<notin> set us\<close> show ?thesis by auto
  next
    case False
    have "CHR '':'' \<notin> set hst"
    proof (cases "rfind_char CHR '':'' auth")
      case None
      with False assms(1) have "hst = auth" by (simp add: split_authority_def)
      with None show ?thesis by (auto simp: rfind_char_def search_simps)
    next
      case (Some c)
      with False assms(1) have "find_char CHR '':'' auth = Some c" "hst = take c auth"
        by (auto simp: split_authority_def substr_def split: if_splits)
      then show ?thesis by (auto simp: find_char_Some_iff)
    qed
    then show ?thesis by simp
  qed
qed

lemma url_port_range: "url_port auth t sec = Inr v \<Longrightarrow> 0 < v \<and> v \<le> 65535"
  by (auto simp: url_port_def split: if_splits option.splits)

lemma find_idx_hd:
  "find_idx P (drop k s) = Some i \<Longrightarrow> P (s ! (k + i)) \<and> k + i < length s"
  using find_idx_SomeD [of P "drop k s" i] by auto

lemma url_target_wf:
  fixes k :: nat
  assumes "\<not> list_ex url_space complete"
  defines "tb \<equiv> find_target complete k"
  shows "url_target complete tb \<noteq> [] \<and> hd (url_target complete tb) = CHR ''/''
    \<and> list_all target_char (url_target complete tb)"
proof (cases "find_idx (\<lambda>c. c \<in> set ''/?#'') (drop k complete)")
  case None
  then show ?thesis using tb_def find_target_def by (simp add: url_target_def target_char_def url_space_def)
next
  case (Some i)
  let ?b = "k + i"
  have b: "complete ! ?b \<in> set ''/?#''" "?b < length complete"
    using find_idx_hd [OF Some] by auto
  show ?thesis
  proof (cases "complete ! ?b = CHR ''#''")
    case True
    with Some tb_def find_target_def show ?thesis by (simp add: url_target_def target_char_def url_space_def)
  next
    case False
    define t where "t = substr complete ?b (map_option (\<lambda>f. f - ?b) (find_char_from CHR ''#'' ?b complete))"
    have dr: "drop ?b complete = complete ! ?b # drop (Suc ?b) complete"
      using b(2) by (simp add: Cons_nth_drop_Suc)
    have t: "t = (case find_char CHR ''#'' (drop ?b complete) of
        None \<Rightarrow> drop ?b complete | Some f \<Rightarrow> take f (drop ?b complete))"
      by (auto simp: t_def substr_def find_char_from_def split: option.splits)
    have ns: "c \<in> set (drop ?b complete) \<Longrightarrow> \<not> url_space c" for c
      using assms(1) by (auto simp: list_ex_iff dest: in_set_dropD)
    have "list_all target_char t"
      using ns by (auto simp: t target_char_def list_all_iff search_simps find_char_Some_iff
          split: option.splits dest: in_set_takeD)
    moreover have "t \<noteq> [] \<and> hd t = complete ! ?b"
      using False by (auto simp: t dr find_char_def split: option.splits)
    moreover have "url_target complete tb = (if hd t = CHR ''?'' then CHR ''/'' # t else t)"
      using Some tb_def find_target_def False calculation by (simp add: url_target_def t_def Let_def)
    ultimately show ?thesis using b(1) False
      by (auto simp: target_char_def url_space_def)
  qed
qed

lemma authority_chars:
  assumes "\<not> list_ex url_space complete" "find_char CHR ''@'' (url_authority complete k) = None"
  shows "list_all authority_char (url_authority complete k)"
proof -
  let ?auth = "url_authority complete k"
  have "c \<notin> set ''/?#''" if "c \<in> set ?auth" for c
  proof (cases "find_idx (\<lambda>c. c \<in> set ''/?#'') (drop k complete)")
    case None
    then have "?auth = drop k complete"
      by (simp add: substr_def url_authority_def find_target_def)
    moreover have "\<forall>x \<in> set (drop k complete). x \<notin> set ''/?#''"
      using None by (simp only: find_idx_None)
    ultimately show ?thesis using that by metis
  next
    case (Some i)
    then have "?auth = take i (drop k complete)"
      by (simp add: substr_def url_authority_def find_target_def)
    with find_idx_SomeD [OF Some] that show ?thesis by auto
  qed
  moreover have "\<not> url_space c \<and> c \<noteq> CHR ''@''" if "c \<in> set ?auth" for c
  proof -
    have "c \<in> set complete" using that by (auto simp: url_authority_def dest: set_substr)
    then have "\<not> url_space c" using assms(1) by (auto simp: list_ex_iff)
    moreover have "c \<noteq> CHR ''@''" using that assms(2) by (auto simp: find_char_None)
    ultimately show ?thesis by simp
  qed
  ultimately show ?thesis by (auto simp: list_all_iff authority_char_def)
qed

lemma parse_complete_urlE:
  assumes "parse_complete_url s = Inr u"
  obtains se pt where "\<not> list_ex url_space s" "find_sub ''://'' s = Some se"
    "scheme u = lower (substr s 0 (Some se))" "scheme u \<in> set supported_schemes"
    "secure u = (scheme u = ''https'' \<or> scheme u = ''wss'')"
    "url_authority s (se + 3) \<noteq> []" "find_char CHR ''@'' (url_authority s (se + 3)) = None"
    "split_authority (url_authority s (se + 3)) = Inr (host u, pt)" "host u \<noteq> []"
    "url_port (url_authority s (se + 3)) pt (secure u) = Inr (port u)"
    "target u = url_target s (find_target s (se + 3))"
  using assms by (auto simp: parse_complete_url_def Let_def
      split: if_splits option.splits sum.splits)

lemma parse_complete_wf: "parse_complete_url s = Inr u \<Longrightarrow> wf_url u"
proof (erule parse_complete_urlE)
  fix se pt
  assume a: "\<not> list_ex url_space s" "scheme u \<in> set supported_schemes"
    "secure u = (scheme u = ''https'' \<or> scheme u = ''wss'')"
    "url_authority s (se + 3) \<noteq> []" "find_char CHR ''@'' (url_authority s (se + 3)) = None"
    "split_authority (url_authority s (se + 3)) = Inr (host u, pt)" "host u \<noteq> []"
    "url_port (url_authority s (se + 3)) pt (secure u) = Inr (port u)"
    "target u = url_target s (find_target s (se + 3))"
  note c = authority_chars [OF a(1) a(5)]
  show "wf_url u"
    unfolding wf_url_def a(9)
    using a(2,3,7) split_authority_host [OF a(6) c a(4)] url_port_range [OF a(8)]
      url_target_wf [OF a(1)] by blast
qed

lemma parse_url_wf: "parse_url s b = Inr u \<Longrightarrow> wf_url u"
  by (auto simp: parse_url_def dest: parse_complete_wf split: if_splits sum.splits)

section \<open>Printing and re-parsing\<close>

lemma origin_authority: "origin u = scheme u @ ''://'' @ authority u"
  by (simp add: origin_def authority_def Let_def)

lemma find_scheme_end:
  "sch \<in> set supported_schemes \<Longrightarrow> find_sub ''://'' (sch @ ''://'' @ r) = Some (length sch)"
  by (auto simp: supported_schemes_def find_sub_Cons)

lemma supported_lower: "sch \<in> set supported_schemes \<Longrightarrow> lower sch = sch"
  by (auto simp: supported_schemes_def lower_def fold_ascii_def bytes_simps)

lemma supported_no_space: "sch \<in> set supported_schemes \<Longrightarrow> \<not> list_ex url_space (sch @ ''://'')"
  by (auto simp: supported_schemes_def url_space_def)

lemma supported_has_scheme: "sch \<in> set supported_schemes \<Longrightarrow> has_url_scheme (sch @ ''://'' @ r)"
proof -
  assume "sch \<in> set supported_schemes"
  moreover have "scheme_char c" if "is_lower c" for c
    using that by (simp add: scheme_char_def is_alpha_def)
  ultimately show ?thesis
    by (auto simp: supported_schemes_def has_url_scheme_def find_char_def substr_def is_alpha_def
        is_lower_def in_range_def)
qed

lemma digit_authority_char: "is_digit c \<Longrightarrow> authority_char c \<and> c \<noteq> CHR '':'' \<and> c \<noteq> CHR '']''"
  by (auto simp: authority_char_def url_space_def bytes_simps)

lemma authority_char_all:
  assumes "wf_url u" shows "list_all authority_char (authority u)"
proof -
  have "authority_char CHR '':''" "authority_char CHR ''[''" "authority_char CHR '']''"
    by (simp_all add: authority_char_def url_space_def)
  with assms show ?thesis
    by (auto simp: authority_def wf_url_def Let_def list_all_iff digit_authority_char to_string_digit)
qed

lemma authority_nonempty: "wf_url u \<Longrightarrow> authority u \<noteq> []"
  by (simp add: authority_def wf_url_def Let_def)

lemma authority_no_at: "wf_url u \<Longrightarrow> find_char CHR ''@'' (authority u) = None"
  using authority_char_all [of u] by (auto simp: find_char_None list_all_iff authority_char_def)

lemma to_string_no_colon: "CHR '':'' \<notin> set (to_string n)"
  using digit_authority_char to_string_digit by blast

lemma rfind_char_split: "c \<notin> set vs \<Longrightarrow> rfind_char c (us @ c # vs) = Some (length us)"
  using find_char_split [of c "rev vs" "rev us"] by (simp add: rfind_char_def)

lemma rfind_char_None: "rfind_char c s = None \<longleftrightarrow> c \<notin> set s"
  by (simp add: rfind_char_def find_char_None)

definition port_suffix :: "parsed_url \<Rightarrow> bytes" where
  "port_suffix u = (if default_port u then [] else to_string (port u))"

lemma split_authority_print:
  assumes wf: "wf_url u" and h: "hd (host u) \<noteq> CHR ''[''"
  shows "split_authority (authority u) = Inr (host u, port_suffix u)"
proof (cases "CHR '':'' \<in> set (host u)")
  case True
  let ?tail = "if default_port u then [] else CHR '':'' # to_string (port u)"
  have a: "authority u = CHR ''['' # host u @ CHR '']'' # ?tail"
    using True by (simp add: authority_def Let_def find_char_None)
  have "CHR '']'' \<notin> set (CHR ''['' # host u)"
    using wf True by (simp add: wf_url_def)
  from find_char_split [OF this, of ?tail] have "find_char CHR '']'' (authority u) = Some (Suc (length (host u)))"
    by (simp add: a)
  with wf show ?thesis
    by (auto simp: a split_authority_def substr_def port_suffix_def wf_url_def nth_append)
next
  case False
  have a: "authority u = host u @ (if default_port u then [] else CHR '':'' # to_string (port u))"
    using False by (simp add: authority_def Let_def find_char_None)
  have "hd (authority u) \<noteq> CHR ''[''" using h wf by (simp add: a wf_url_def hd_append)
  then show ?thesis
  proof (cases "default_port u")
    case True
    then have "authority u = host u" by (simp add: a)
    moreover have "rfind_char CHR '':'' (host u) = None" using False by (simp add: rfind_char_None)
    ultimately show ?thesis using True \<open>hd (authority u) \<noteq> _\<close>
      by (simp add: split_authority_def port_suffix_def)
  next
    case nondefault: False
    then show ?thesis
      using False to_string_no_colon [of "port u"] \<open>hd (authority u) \<noteq> _\<close>
      by (auto simp: a split_authority_def substr_def port_suffix_def rfind_char_split find_char_split)
  qed
qed

lemma url_port_print:
  assumes wf: "wf_url u" and h: "hd (host u) \<noteq> CHR ''[''"
  shows "url_port (authority u) (port_suffix u) (secure u) = Inr (port u)"
proof (cases "default_port u")
  case True
  have "last (authority u) \<noteq> CHR '':''"
  proof (cases "CHR '':'' \<in> set (host u)")
    case False
    with wf True have "authority u = host u" "host u \<noteq> []"
      by (simp_all add: authority_def Let_def find_char_None wf_url_def)
    with False show ?thesis by (metis last_in_set)
  qed (simp add: authority_def Let_def find_char_None True)
  with True show ?thesis by (auto simp: url_port_def port_suffix_def default_port_def)
next
  case False
  then show ?thesis using wf by (simp add: url_port_def port_suffix_def wf_url_def)
qed

lemma url_target_print:
  assumes "t \<noteq> []" "hd t = CHR ''/''" "list_all target_char t"
  shows "url_target (p @ t) (Some (length p)) = t"
proof -
  have "find_char_from CHR ''#'' (length p) (p @ t) = None"
    using assms(3) by (auto simp: find_char_from_def find_char_None list_all_iff target_char_def)
  moreover have "(p @ t) ! length p = CHR ''/''"
    using assms by (cases t) (auto simp: nth_append)
  ultimately show ?thesis using assms by (simp add: url_target_def substr_def)
qed

lemma parse_printed_url:
  assumes wf: "wf_url u" and h: "hd (host u) \<noteq> CHR ''[''"
  shows "parse_complete_url (origin u @ target u) = Inr u"
proof -
  let ?s = "origin u @ target u" and ?n = "length (scheme u)"
  have t: "target u \<noteq> []" "hd (target u) = CHR ''/''" "list_all target_char (target u)"
    and sch: "scheme u \<in> set supported_schemes"
    using wf by (auto simp: wf_url_def)
  have s: "?s = (scheme u @ ''://'') @ authority u @ target u"
    by (simp add: origin_authority)
  have dr: "drop (?n + 3) ?s = authority u @ target u" by (simp add: origin_authority)
  have ns: "\<not> list_ex url_space ?s"
    unfolding s list_ex_append using supported_no_space [OF sch] authority_char_all [OF wf] t(3)
    by (auto simp: list_ex_iff list_all_iff authority_char_def target_char_def)
  obtain t' where t': "target u = CHR ''/'' # t'" using t by (cases "target u") auto
  have "find_idx (\<lambda>c. c \<in> set ''/?#'') (authority u @ target u) = Some (length (authority u))"
    unfolding t' by (rule find_idx_split)
      (use authority_char_all [OF wf] in \<open>auto simp: list_all_iff authority_char_def\<close>)
  then have ft: "find_target ?s (?n + 3) = Some (?n + 3 + length (authority u))"
    unfolding find_target_def dr by simp
  then have auth: "url_authority ?s (?n + 3) = authority u"
    unfolding url_authority_def substr_def dr ft by simp
  have "length (origin u) = ?n + 3 + length (authority u)" by (simp add: origin_authority)
  then have tg: "url_target ?s (find_target ?s (?n + 3)) = target u"
    using url_target_print [OF t, of "origin u"] unfolding ft by simp
  have fs: "find_sub ''://'' ?s = Some ?n"
    unfolding s append_assoc by (rule find_scheme_end [OF sch])
  have tk: "lower (substr ?s 0 (Some ?n)) = scheme u"
    by (simp add: substr_def origin_authority supported_lower [OF sch])
  have n0: "?n \<noteq> 0" using sch by (auto simp: supported_schemes_def)
  have sec: "secure u = (scheme u = ''https'' \<or> scheme u = ''wss'')" "host u \<noteq> []"
    using wf by (simp_all add: wf_url_def)
  show ?thesis
    unfolding parse_complete_url_def Let_def fs option.case tk auth tg sec(1) [symmetric]
    using ns n0 sch authority_nonempty [OF wf] authority_no_at [OF wf]
      split_authority_print [OF wf h] url_port_print [OF wf h] sec(2)
    by simp
qed

lemma parse_url_printed:
  "wf_url u \<Longrightarrow> hd (host u) \<noteq> CHR ''['' \<Longrightarrow> parse_url (origin u @ target u) b = Inr u"
  using parse_printed_url [of u] supported_has_scheme [of "scheme u" "authority u @ target u"]
  by (simp add: parse_url_def origin_authority wf_url_def)

section \<open>Dot segments are removed\<close>

definition dot_free :: "bytes \<Rightarrow> bool" where
  "dot_free s \<longleftrightarrow> list_all (\<lambda>p. p \<noteq> ''.'' \<and> p \<noteq> ''..'') (split_on CHR ''/'' s)"

lemma split_on_snoc: "c \<notin> set vs \<Longrightarrow> split_on c (us @ c # vs) = split_on c us @ [vs]"
proof (induction us)
  case (Cons x us)
  then show ?case by (cases "split_on c us") auto
qed (simp add: split_on_no_sep)

lemma dot_free_Nil [simp]: "dot_free []"
  by (simp add: dot_free_def)

lemma dot_free_segment:
  "CHR ''/'' \<notin> set seg \<Longrightarrow> dot_free seg \<longleftrightarrow> seg \<noteq> ''.'' \<and> seg \<noteq> ''..''"
  by (simp add: dot_free_def split_on_no_sep)

lemma dot_free_snoc:
  "CHR ''/'' \<notin> set seg \<Longrightarrow>
     dot_free (out @ CHR ''/'' # seg) \<longleftrightarrow> dot_free out \<and> seg \<noteq> ''.'' \<and> seg \<noteq> ''..''"
  by (simp add: dot_free_def split_on_snoc)

lemma dot_free_pop: "dot_free out \<Longrightarrow> dot_free (pop_segment out)"
proof (cases "rfind_char CHR ''/'' out")
  case (Some i)
  assume out: "dot_free out"
  have "CHR ''/'' \<in> set out"
    using Some rfind_char_None [of "CHR ''/''" out] by (cases "CHR ''/'' \<in> set out") simp_all
  then obtain us vs where s: "out = us @ CHR ''/'' # vs" "CHR ''/'' \<notin> set vs"
    by (meson split_list_last)
  then have "pop_segment out = us" by (simp add: pop_segment_def rfind_char_split)
  with out s show ?thesis by (simp add: dot_free_snoc)
qed (simp add: pop_segment_def)

lemma segment_slash:
  "segment_length (CHR ''/'' # p) = Suc (case find_char CHR ''/'' p of None \<Rightarrow> length p | Some i \<Rightarrow> i)"
  by (simp add: segment_length_def find_char_from_def split: option.splits)

lemma segment_plain:
  "p \<noteq> [] \<Longrightarrow> hd p \<noteq> CHR ''/'' \<Longrightarrow>
     segment_length p = (case find_char CHR ''/'' p of None \<Rightarrow> length p | Some i \<Rightarrow> i)"
  by (simp add: segment_length_def find_char_from_def split: option.splits)

lemma cut_segment:
  obtains seg rest where "p = seg @ rest" "CHR ''/'' \<notin> set seg" "rest = [] \<or> hd rest = CHR ''/''"
    "\<And>k. (case find_char CHR ''/'' p of None \<Rightarrow> length p | Some i \<Rightarrow> i) = k \<longleftrightarrow> k = length seg"
proof (cases "find_char CHR ''/'' p")
  case None
  then have "CHR ''/'' \<notin> set p" by (simp add: find_char_None)
  from that [of p "[]", OF _ this] show ?thesis using None by auto
next
  case (Some i)
  then obtain us vs where "p = us @ CHR ''/'' # vs" "length us = i" "CHR ''/'' \<notin> set us"
    by (rule find_char_SomeE)
  from that [OF this(1,3)] this show ?thesis using Some by auto
qed

lemma remove_dot_step:
  assumes path: "path \<noteq> []" "\<not> prefix ''/./'' path" "path \<noteq> ''/.''" "\<not> prefix ''/../'' path"
      "path \<noteq> ''/..''" "path \<noteq> ''.''" "path \<noteq> ''..''" "\<not> prefix ''./'' path" "\<not> prefix ''../'' path"
    and out: "dot_free out" "out = [] \<or> hd path = CHR ''/''"
  shows "dot_free (out @ take (segment_length path) path)"
    "drop (segment_length path) path = [] \<or> hd (drop (segment_length path) path) = CHR ''/''"
proof -
  have "dot_free (out @ take (segment_length path) path)
    \<and> (drop (segment_length path) path = [] \<or> hd (drop (segment_length path) path) = CHR ''/'')"
  proof (cases "hd path = CHR ''/''")
    case True
    then obtain p where p: "path = CHR ''/'' # p" using path by (cases path) auto
    obtain seg rest where s: "p = seg @ rest" "CHR ''/'' \<notin> set seg" "rest = [] \<or> hd rest = CHR ''/''"
      and l: "\<And>k. (case find_char CHR ''/'' p of None \<Rightarrow> length p | Some i \<Rightarrow> i) = k \<longleftrightarrow> k = length seg"
      using cut_segment [of p] by metis
    have "seg \<noteq> ''.'' \<and> seg \<noteq> ''..''"
      using path(2-5) s(1,3) unfolding p by (cases rest) auto
    moreover have "segment_length path = Suc (length seg)"
      using l unfolding p segment_slash by simp
    ultimately show ?thesis using out(1) s unfolding p by (simp add: dot_free_snoc)
  next
    case False
    with out have "out = []" by simp
    obtain seg rest where s: "path = seg @ rest" "CHR ''/'' \<notin> set seg" "rest = [] \<or> hd rest = CHR ''/''"
      and l: "\<And>k. (case find_char CHR ''/'' path of None \<Rightarrow> length path | Some i \<Rightarrow> i) = k \<longleftrightarrow> k = length seg"
      using cut_segment [of path] by metis
    have "seg \<noteq> ''.'' \<and> seg \<noteq> ''..''"
      using path(6-9) s(1,3) by (cases rest) auto
    moreover have "segment_length path = length seg"
      using segment_plain [OF path(1) False] l by simp
    ultimately show ?thesis using s \<open>out = []\<close> by (simp add: dot_free_segment)
  qed
  then show "dot_free (out @ take (segment_length path) path)"
    "drop (segment_length path) path = [] \<or> hd (drop (segment_length path) path) = CHR ''/''"
    by auto
qed

lemma remove_dot_loop_free:
  "dot_free out \<Longrightarrow> out = [] \<or> path = [] \<or> hd path = CHR ''/'' \<Longrightarrow> dot_free (remove_dot_loop out path)"
proof (induction out path rule: remove_dot_loop.induct)
  case (1 out path)
  have sl: "hd (drop 2 path) = CHR ''/''" if "prefix ''/./'' path"
    using that by (auto elim!: prefixE)
  have sl3: "hd (drop 3 path) = CHR ''/''" if "prefix ''/../'' path"
    using that by (auto elim!: prefixE)
  have out: "out = []" if "prefix ''../'' path \<or> prefix ''./'' path"
    using that 1(10) by (auto elim!: prefixE)
  note IH = 1(1-8) and dots = dot_free_pop [OF 1(9)] 1(9)

  consider (nil) "path = []" | (a) "path \<noteq> []" "prefix ''../'' path"
    | (b) "\<not> prefix ''../'' path" "prefix ''./'' path"
    | (c) "\<not> prefix ''../'' path" "\<not> prefix ''./'' path" "prefix ''/./'' path"
    | (d) "path = ''/.''" | (e) "prefix ''/../'' path" | (f) "path = ''/..''"
    | (g) "path = ''.'' \<or> path = ''..''"
    | (seg) "path \<noteq> []" "\<not> prefix ''../'' path" "\<not> prefix ''./'' path" "\<not> prefix ''/./'' path"
        "path \<noteq> ''/.''" "\<not> prefix ''/../'' path" "path \<noteq> ''/..''" "path \<noteq> ''.''" "path \<noteq> ''..''"
    by blast
  then show ?case
  proof cases
    case nil
    then show ?thesis using dots by (simp add: remove_dot_loop.simps)
  next
    case a
    with IH(1) dots out show ?thesis by (subst remove_dot_loop.simps) simp
  next
    case b
    with IH(2) dots out show ?thesis by (subst remove_dot_loop.simps) auto
  next
    case c
    with IH(3) dots sl show ?thesis by (subst remove_dot_loop.simps) auto
  next
    case d
    with IH(4) dots show ?thesis by (subst remove_dot_loop.simps) simp
  next
    case e
    have "remove_dot_loop out path = remove_dot_loop (pop_segment out) (drop 3 path)"
      using e by (subst remove_dot_loop.simps) (auto elim!: prefixE)
    moreover have "dot_free (remove_dot_loop (pop_segment out) (drop 3 path))"
      by (rule IH(5)) (use e sl3 dots in \<open>auto elim!: prefixE\<close>)
    ultimately show ?thesis by simp
  next
    case f
    with IH(6) dots show ?thesis by (subst remove_dot_loop.simps) simp
  next
    case g
    have "remove_dot_loop out [] = out" by (subst remove_dot_loop.simps) simp
    with g have "remove_dot_loop out path = out" by (subst remove_dot_loop.simps) auto
    with dots show ?thesis by simp
  next
    case seg
    have hp: "out = [] \<or> hd path = CHR ''/''" using 1(10) seg(1) by auto
    have "remove_dot_loop out path =
        remove_dot_loop (out @ take (segment_length path) path) (drop (segment_length path) path)"
      using seg by (subst remove_dot_loop.simps) simp
    moreover have "dot_free
        (remove_dot_loop (out @ take (segment_length path) path) (drop (segment_length path) path))"
    proof (rule IH(8) [OF seg(1-7)])
      show "\<not> (path = ''.'' \<or> path = ''..'')" using seg by simp
      note free = remove_dot_step [OF seg(1,4,5,6,7,8,9,3,2) 1(9) hp]
      show "dot_free (out @ take (segment_length path) path)" by (rule free)
      show "out @ take (segment_length path) path = [] \<or> drop (segment_length path) path = []
        \<or> hd (drop (segment_length path) path) = CHR ''/''" using free(2) by blast
    qed
    ultimately show ?thesis by simp
  qed
qed

section \<open>Properties\<close>

lemma parse_complete_error: "parse_complete_url s = Inl e \<Longrightarrow> err_code e = E_invalid_url"
  by (auto simp: parse_complete_url_def split_authority_def url_port_def Let_def
      split: if_splits option.splits sum.splits)

lemma parse_url_error: "parse_url s b = Inl e \<Longrightarrow> err_code e = E_invalid_url"
  by (auto simp: parse_url_def resolve_url_def parse_absolute_url_def Let_def
      dest: parse_complete_error split: if_splits option.splits sum.splits)

text \<open>Percent-decoding undoes percent-encoding for every byte string, in both modes; text encoded
  without the plus sign also decodes under the plus convention.\<close>

lemma url_decode_encode: "url_decode (url_encode s plus_mode) (plus_mode \<or> any_mode) = Inr s"
  by (simp add: url_decode_eq_loop url_decode_loop_encode)

text \<open>Building a query string from parameters and parsing it returns the same parameters, in order,
  for arbitrary bytes in keys and values.\<close>

lemma parse_make_query: "parse_query (make_query ps) = ps"
proof (cases "ps = []")
  case True
  then show ?thesis
    by (simp add: make_query_def parse_query_def parse_query_loop_split parse_query_part_def)
next
  case False
  have "\<forall>p \<in> set (map query_part ps). CHR ''&'' \<notin> set p" by (auto simp: query_part_def)
  then have "split_on CHR ''&'' (make_query ps) = map query_part ps"
    unfolding make_query_join using False by (intro split_on_join) simp_all
  then have "parse_query (make_query ps) = concat (map (\<lambda>p. parse_query_part (query_part p)) ps)"
    using make_query_head [of ps] by (auto simp: parse_query_def parse_query_loop_split comp_def)
  then show ?thesis by (simp add: parse_query_part_pair query_part_def)
qed

text \<open>A parsed URL has a supported scheme, a matching security flag, a non-empty host without
  blanks, controls or delimiters, a port in 1..65535 and a target that begins with a slash and has no
  fragment; every rejection is the invalid-URL error.\<close>

lemma parse_url_sound:
  "case parse_url s base of Inl e \<Rightarrow> err_code e = E_invalid_url | Inr u \<Rightarrow> wf_url u"
  using parse_url_error [of s base] parse_url_wf [of s base] by (auto split: sum.split)

text \<open>C17: Printing a well-formed URL as its origin followed by its target and parsing it returns the same
  URL, whatever the base.\<close>

theorem parse_url_print:
  "wf_url u \<Longrightarrow> hd (host u) \<noteq> CHR ''['' \<Longrightarrow> parse_url (origin u @ target u) base = Inr u"
  by (rule parse_url_printed)

theorem parse_url_print_witness:
  "parse_url ''https://[::1]/a?b'' [] =
     Inr \<lparr>scheme = ''https'', host = ''::1'', port = 443, target = ''/a?b'', secure = True\<rparr>"
  using parse_url_print [of "\<lparr>scheme = ''https'', host = ''::1'', port = 443, target = ''/a?b'', secure = True\<rparr>" "[]"]
  by (simp add: wf_url_def supported_schemes_def authority_char_def target_char_def url_space_def
      origin_def default_port_def find_char_def)

text \<open>Removing dot segments leaves no path segment that is a single or double dot, for any input
  path, so a resolved reference cannot climb out of its origin.\<close>

lemma remove_dot_segments_free: "dot_free (remove_dot_segments path)"
  by (simp add: remove_dot_segments_def remove_dot_loop_free)

end
