(* ===== verification/Http_Head.thy ===== *)
theory Http_Head
  imports Url
begin

text \<open>
  HTTP heads (\<^verbatim>\<open>src/protocol.cpp\<close>): \<^verbatim>\<open>visit_framing_values\<close>, \<^verbatim>\<open>parse_head\<close>, \<^verbatim>\<open>parse_version\<close>,
  \<^verbatim>\<open>keep_alive\<close>, \<^verbatim>\<open>parse_request_head\<close>, \<^verbatim>\<open>serialize_head\<close>, \<^verbatim>\<open>build_response_head\<close>, and the
  data of a request and a response.  A head is the text up to and including the line end of its
  last field; the empty line that follows is not part of it.  Handlers and files of a message are
  modelled where they are used; \<open>head_spec\<close> says what an accepted head guarantees about framing.
\<close>

section \<open>Messages\<close>

record request =
  req_method :: bytes
  req_target :: bytes
  path :: bytes
  req_version :: nat
  req_headers :: headers
  query :: params
  req_body :: bytes
  req_keep_alive :: bool

record response =
  status :: int
  version :: nat
  res_headers :: headers
  res_body :: bytes
  res_keep_alive :: bool

definition status_reasons :: "(int \<times> bytes) list" where
  "status_reasons =
        [(100, ''Continue''), (101, ''Switching Protocols''), (102, ''Processing''),
         (103, ''Early Hints''), (200, ''OK''), (201, ''Created''), (202, ''Accepted''),
         (203, ''Non-Authoritative Information''), (204, ''No Content''), (205, ''Reset Content''),
         (206, ''Partial Content''), (207, ''Multi-Status''), (208, ''Already Reported''),
         (226, ''IM Used''), (300, ''Multiple Choices''), (301, ''Moved Permanently''),
         (302, ''Found''), (303, ''See Other''), (304, ''Not Modified''), (305, ''Use Proxy''),
         (307, ''Temporary Redirect''), (308, ''Permanent Redirect''), (400, ''Bad Request''),
         (401, ''Unauthorized''), (402, ''Payment Required''), (403, ''Forbidden''),
         (404, ''Not Found''), (405, ''Method Not Allowed''), (406, ''Not Acceptable''),
         (407, ''Proxy Authentication Required''), (408, ''Request Timeout''), (409, ''Conflict''),
         (410, ''Gone''), (411, ''Length Required''), (412, ''Precondition Failed''),
         (413, ''Payload Too Large''), (414, ''URI Too Long''), (415, ''Unsupported Media Type''),
         (416, ''Range Not Satisfiable''), (417, ''Expectation Failed''),
         (418, ''I'' @ [CHR 0x27] @ ''m a teapot''), (421, ''Misdirected Request''),
         (422, ''Unprocessable Content''), (423, ''Locked''), (424, ''Failed Dependency''),
         (425, ''Too Early''), (426, ''Upgrade Required''), (428, ''Precondition Required''),
         (429, ''Too Many Requests''), (431, ''Request Header Fields Too Large''),
         (451, ''Unavailable For Legal Reasons''), (500, ''Internal Server Error''),
         (501, ''Not Implemented''), (502, ''Bad Gateway''), (503, ''Service Unavailable''),
         (504, ''Gateway Timeout''), (505, ''HTTP Version Not Supported''),
         (506, ''Variant Also Negotiates''), (507, ''Insufficient Storage''),
         (508, ''Loop Detected''), (510, ''Not Extended''),
         (511, ''Network Authentication Required'')]"

definition status_reason_view :: "int \<Rightarrow> bytes" where
  "status_reason_view s = (case map_of status_reasons s of Some r \<Rightarrow> r | None \<Rightarrow> ''Unknown'')"

section \<open>Parsing a head\<close>

record parsed_head =
  start_line :: bytes
  head_fields :: headers
  content_length :: "nat option"
  chunked :: bool
  hosts :: nat
  invalid_host :: bool
  connection_close :: bool
  connection_keep_alive :: bool
  has_expect :: bool
  expect_continue :: bool

text \<open>
  One comma-separated element per call; the consumer threads the state its closure captures by
  reference.
\<close>

function visit_framing_values ::
    "bytes \<Rightarrow> (bytes \<Rightarrow> 's \<Rightarrow> 's result) \<Rightarrow> bytes \<Rightarrow> 's \<Rightarrow> 's result" where
  "visit_framing_values field consume input s =
     (let e = find_char CHR '','' input;
          v = trim_ows (substr input 0 e)
      in if v = [] then fail E_protocol (''Empty value in '' @ field)
         else (case consume v s of
           Inl err \<Rightarrow> Inl err
         | Inr s' \<Rightarrow> (case e of None \<Rightarrow> Inr s'
             | Some i \<Rightarrow> visit_framing_values field consume (substr input (i + 1) None) s')))"
  by pat_completeness auto
termination
  by (relation "measure (\<lambda>(_, _, input, _). length input)")
    (auto simp: substr_def dest!: sym [of "Some _"] find_char_less)

declare visit_framing_values.simps [simp del]

definition consume_length :: "bytes \<Rightarrow> nat option \<Rightarrow> nat option result" where
  "consume_length v known =
     (case parse_number 10 uint64_max v of
        None \<Rightarrow> fail E_protocol ''Invalid Content-Length''
      | Some parsed \<Rightarrow>
          if (case known of None \<Rightarrow> False | Some n \<Rightarrow> n \<noteq> parsed)
          then fail E_protocol ''Conflicting Content-Length headers''
          else Inr (Some parsed))"

text \<open>The state is \<^verbatim>\<open>transfer_codings\<close> and \<^verbatim>\<open>final_chunked\<close>.\<close>

definition consume_coding :: "bytes \<Rightarrow> nat \<times> bool \<Rightarrow> (nat \<times> bool) result" where
  "consume_coding coding s =
     (if find_char CHR '';'' coding \<noteq> None
      then fail E_protocol ''Transfer-Encoding parameters are not supported''
      else Inr (fst s + 1, iequals coding ''chunked''))"

type_synonym head_state = "parsed_head \<times> nat \<times> bool"

text \<open>The \<^verbatim>\<open>switch\<close> on the length of the name, one case per known field.\<close>

definition note_field :: "bytes \<Rightarrow> bytes \<Rightarrow> head_state \<Rightarrow> head_state result" where
  "note_field name v st =
     (case st of (h, codings) \<Rightarrow>
      if length name = 4 \<and> iequals name ''Host'' then
        Inr (h\<lparr>hosts := hosts h + 1,
               invalid_host := invalid_host h \<or> v = [] \<or> find_char CHR '','' v \<noteq> None\<rparr>, codings)
      else if length name = 6 \<and> iequals name ''Expect'' then
        Inr (h\<lparr>has_expect := True,
               expect_continue := expect_continue h \<or> header_value_has_token v ''100-continue''\<rparr>, codings)
      else if length name = 10 \<and> iequals name ''Connection'' then
        Inr (h\<lparr>connection_close := connection_close h \<or> header_value_has_token v ''close'',
               connection_keep_alive := connection_keep_alive h
                 \<or> header_value_has_token v ''keep-alive''\<rparr>, codings)
      else if length name = 14 \<and> iequals name ''Content-Length'' then
        (case visit_framing_values ''Content-Length'' consume_length v (content_length h) of
           Inl e \<Rightarrow> Inl e | Inr n \<Rightarrow> Inr (h\<lparr>content_length := n\<rparr>, codings))
      else if length name = 17 \<and> iequals name ''Transfer-Encoding'' then
        (case visit_framing_values ''Transfer-Encoding'' consume_coding v codings of
           Inl e \<Rightarrow> Inl e | Inr c \<Rightarrow> Inr (h, c))
      else Inr (h, codings))"

definition parse_field_line :: "bytes \<Rightarrow> head_state \<Rightarrow> head_state result" where
  "parse_field_line line st =
     (if hd line = SP \<or> hd line = TAB then fail E_protocol ''Obsolete folded HTTP header rejected''
      else (case find_char CHR '':'' line of
        None \<Rightarrow> fail E_protocol ''HTTP header has no colon''
      | Some colon \<Rightarrow>
          let name = substr line 0 (Some colon);
              v = trim_ows (substr line (colon + 1) None)
          in if \<not> valid_header_name name \<or> \<not> valid_header_value v
             then fail E_protocol ''Invalid HTTP header field''
             else (case note_field name v st of
               Inl e \<Rightarrow> Inl e
             | Inr (h, codings) \<Rightarrow> Inr (h\<lparr>head_fields := headers_add (head_fields h) name v\<rparr>, codings))))"

function parse_field_lines :: "bytes \<Rightarrow> head_state \<Rightarrow> head_state result" where
  "parse_field_lines input st =
     (if input = [] then Inr st
      else (case find_sub CRLF input of
        None \<Rightarrow> fail E_protocol ''Malformed HTTP header termination''
      | Some line_end \<Rightarrow>
          let line = substr input 0 (Some line_end)
          in if line = [] then Inr st
             else (case parse_field_line line st of
               Inl e \<Rightarrow> Inl e
             | Inr st' \<Rightarrow> parse_field_lines (substr input (line_end + 2) None) st')))"
  by pat_completeness auto
termination
  by (relation "measure (length \<circ> fst)") (auto simp: substr_def)

declare parse_field_lines.simps [simp del]

definition finish_head :: "head_state \<Rightarrow> parsed_head result" where
  "finish_head st =
     (case st of (h, transfer_codings, final_chunked) \<Rightarrow>
      if transfer_codings \<noteq> 0 then
        (if content_length h \<noteq> None then fail E_protocol ''Transfer-Encoding with Content-Length is rejected''
         else if \<not> final_chunked then fail E_protocol ''Final HTTP transfer coding is not chunked''
         else if transfer_codings \<noteq> 1 then fail E_protocol ''Unsupported HTTP transfer coding''
         else Inr (h\<lparr>chunked := True\<rparr>))
      else Inr h)"

definition empty_head :: "bytes \<Rightarrow> parsed_head" where
  "empty_head sl = \<lparr>start_line = sl, head_fields = [], content_length = None, chunked = False, hosts = 0,
     invalid_host = False, connection_close = False, connection_keep_alive = False,
     has_expect = False, expect_continue = False\<rparr>"

definition parse_head :: "bytes \<Rightarrow> parsed_head result" where
  "parse_head input =
     (case find_sub CRLF input of
        None \<Rightarrow> fail E_protocol ''Malformed HTTP start line''
      | Some first_end \<Rightarrow>
          if first_end = 0 then fail E_protocol ''Malformed HTTP start line''
          else
            let sl = substr input 0 (Some first_end)
            in if \<not> valid_header_value sl then fail E_protocol ''Invalid character in HTTP start line''
               else (case parse_field_lines (substr input (first_end + 2) None) (empty_head sl, 0, False) of
                 Inl e \<Rightarrow> Inl e | Inr st \<Rightarrow> finish_head st))"

definition parse_version :: "bytes \<Rightarrow> nat option" where
  "parse_version v = (if v = ''HTTP/1.1'' then Some 11 else if v = ''HTTP/1.0'' then Some 10 else None)"

definition keep_alive :: "nat \<Rightarrow> parsed_head \<Rightarrow> bool" where
  "keep_alive ver h \<longleftrightarrow> \<not> connection_close h \<and> (ver \<ge> 11 \<or> connection_keep_alive h)"

section \<open>Parsing a request head\<close>

record request_body_state =
  bs_headers :: headers
  bs_length :: "nat option"
  bs_chunked :: bool
  bs_expect :: bool
  continue_sent :: bool

text \<open>The path and query of a routing target.\<close>

definition route_target :: "bytes \<Rightarrow> request \<Rightarrow> request result" where
  "route_target routing_target r =
     (let q = find_char CHR ''?'' routing_target;
          raw_path0 = substr routing_target 0 q;
          raw_path = (if raw_path0 = [] then ''/'' else raw_path0)
      in case url_decode raw_path False of
           Inl e \<Rightarrow> fail E_protocol (''Invalid encoded HTTP request path: '' @ message e)
         | Inr decoded \<Rightarrow>
             let r1 = r\<lparr>path := decoded\<rparr>
             in Inr (case q of None \<Rightarrow> r1
                | Some i \<Rightarrow> r1\<lparr>query := parse_query (substr routing_target (i + 1) None)\<rparr>))"

text \<open>The origin-form target of an absolute-form request target.\<close>

definition routing_target :: "bytes \<Rightarrow> bytes result" where
  "routing_target t =
     (if \<not> prefix ''/'' t \<and> find_sub ''://'' t \<noteq> None then
        (case parse_url t [] of
           Inl e \<Rightarrow> fail E_protocol (''Invalid absolute HTTP request target: '' @ message e)
         | Inr u \<Rightarrow> Inr (target u))
      else Inr t)"

definition new_request :: request where
  "new_request = \<lparr>req_method = ''GET'', req_target = ''/'', path = ''/'', req_version = 11,
     req_headers = [], query = [], req_body = [], req_keep_alive = True\<rparr>"

definition parse_request_line :: "bytes \<Rightarrow> request result" where
  "parse_request_line sl =
     (case (find_char SP sl, rfind_char SP sl) of
        (Some first_space, Some last_space) \<Rightarrow>
          if last_space = first_space \<or> find_char_from SP (first_space + 1) sl \<noteq> Some last_space
          then fail E_protocol ''Malformed HTTP request line''
          else
            let m = substr sl 0 (Some first_space);
                t = substr sl (first_space + 1) (Some (last_space - first_space - 1))
            in if \<not> valid_header_name m \<or> t = [] \<or> list_ex url_space t
               then fail E_protocol ''Invalid HTTP request line''
               else (case parse_version (substr sl (last_space + 1) None) of
                 None \<Rightarrow> fail E_protocol ''Unsupported HTTP version''
               | Some ver \<Rightarrow> Inr (new_request\<lparr>req_method := m, req_target := t, req_version := ver\<rparr>))
      | _ \<Rightarrow> fail E_protocol ''Malformed HTTP request line'')"

text \<open>The second component is the read buffer, advanced once the request line is accepted.\<close>

definition parse_request_head ::
    "bytes \<Rightarrow> bytes \<Rightarrow> bool \<Rightarrow> (request \<times> request_body_state) result \<times> bytes" where
  "parse_request_head buffer bs duplicate_headers =
     (case parse_head bs of
        Inl e \<Rightarrow> (Inl e, buffer)
      | Inr h \<Rightarrow>
        (case parse_request_line (start_line h) of
           Inl e \<Rightarrow> (Inl e, buffer)
         | Inr r \<Rightarrow>
           (let buffer' = drop (length bs + 2) buffer
            in if req_version r = 11 \<and> invalid_host h
               then (fail E_protocol ''Invalid HTTP Host header'', buffer')
               else if req_version r = 11 \<and> hosts h \<noteq> 1
               then (fail E_protocol ''HTTP/1.1 request must have exactly one Host header'', buffer')
               else (case routing_target (req_target r) of
                 Inl e \<Rightarrow> (Inl e, buffer')
               | Inr rt \<Rightarrow>
                 (case route_target rt (r\<lparr>req_keep_alive := keep_alive (req_version r) h\<rparr>) of
                    Inl e \<Rightarrow> (Inl e, buffer')
                  | Inr r' \<Rightarrow>
                    if has_expect h \<and> \<not> expect_continue h
                    then (fail E_protocol ''Unsupported HTTP expectation'', buffer')
                    else (Inr (if duplicate_headers then r'\<lparr>req_headers := head_fields h\<rparr> else r',
                               \<lparr>bs_headers = head_fields h, bs_length = content_length h,
                                bs_chunked = chunked h, bs_expect = expect_continue h,
                                continue_sent = False\<rparr>), buffer'))))))"

section \<open>Serialising a head\<close>

definition field_line :: "bytes \<Rightarrow> bytes \<Rightarrow> bytes" where
  "field_line name v = name @ '': '' @ v @ CRLF"

text \<open>One field of the message: dropped, replaced by the first override of its name (printed once), or kept.\<close>

definition emit_field ::
    "(bytes \<times> bytes) list \<Rightarrow> bytes list \<Rightarrow> bytes \<times> bytes \<Rightarrow> bool list \<Rightarrow> bytes \<times> bool list" where
  "emit_field overrides omitted item emitted =
     (if list_ex (\<lambda>candidate. iequals (fst item) candidate) omitted then ([], emitted)
      else (case find_idx (\<lambda>ov. iequals (fst item) (fst ov)) overrides of
        Some i \<Rightarrow>
          if \<not> emitted ! i
          then (field_line (fst (overrides ! i)) (snd (overrides ! i)), emitted[i := True])
          else ([], emitted)
      | None \<Rightarrow> (field_line (fst item) (snd item), emitted)))"

fun emit_fields ::
    "(bytes \<times> bytes) list \<Rightarrow> bytes list \<Rightarrow> headers \<Rightarrow> bool list \<Rightarrow> bytes \<times> bool list" where
  "emit_fields overrides omitted [] emitted = ([], emitted)"
| "emit_fields overrides omitted (item # rest) emitted =
     (let (out, emitted') = emit_field overrides omitted item emitted;
          (outs, emitted'') = emit_fields overrides omitted rest emitted'
      in (out @ outs, emitted''))"

fun emit_rest :: "(bytes \<times> bytes) list \<Rightarrow> bool list \<Rightarrow> bytes" where
  "emit_rest (ov # ovs) (e # es) = (if e then [] else field_line (fst ov) (snd ov)) @ emit_rest ovs es"
| "emit_rest _ _ = []"

definition valid_field :: "bytes \<times> bytes \<Rightarrow> bool" where
  "valid_field item \<longleftrightarrow> valid_header_name (fst item) \<and> valid_header_value (snd item)"

definition serialize_head ::
    "bytes \<Rightarrow> headers \<Rightarrow> (bytes \<times> bytes) list \<Rightarrow> bytes list \<Rightarrow> bytes result" where
  "serialize_head sl h overrides omitted =
     (if find_idx (\<lambda>c. c = CR \<or> c = LF) sl \<noteq> None then fail E_protocol ''Invalid HTTP start line''
      else if length overrides > 8 then fail E_internal ''Too many HTTP header overrides''
      else if list_ex (\<lambda>item. \<not> valid_field item) h \<or> list_ex (\<lambda>item. \<not> valid_field item) overrides
      then fail E_protocol ''Invalid outbound HTTP header''
      else let (out, emitted) = emit_fields overrides omitted h (replicate (length overrides) False)
           in Inr (sl @ CRLF @ out @ emit_rest overrides emitted @ CRLF))"

definition status_has_no_body :: "int \<Rightarrow> bool" where
  "status_has_no_body s \<longleftrightarrow> (s \<ge> 100 \<and> s < 200) \<or> s = 204 \<or> s = 205 \<or> s = 304"

text \<open>The overrides and omissions \<^verbatim>\<open>build_response_head\<close> collects.\<close>

definition response_framing ::
    "response \<Rightarrow> bool \<Rightarrow> nat option \<Rightarrow> (bytes \<times> bytes) list \<times> bytes list" where
  "response_framing res chunks len =
     (if (status res \<ge> 100 \<and> status res < 200) \<or> status res = 204
      then ([], [''Content-Length'', ''Transfer-Encoding''])
      else if status res = 205 then ([(''Content-Length'', ''0'')], [''Transfer-Encoding''])
      else if chunks then ([(''Transfer-Encoding'', ''chunked'')], [''Content-Length''])
      else (case len of
        Some n \<Rightarrow> ([(''Content-Length'', to_string n)], [''Transfer-Encoding''])
      | None \<Rightarrow> ([], [''Transfer-Encoding'', ''Content-Length''])))"

definition build_response_head :: "request \<Rightarrow> response \<Rightarrow> bool \<Rightarrow> nat option \<Rightarrow> bytes result" where
  "build_response_head req res chunks len =
     (if (version res \<noteq> 10 \<and> version res \<noteq> 11) \<or> status res < 100 \<or> status res > 999
      then fail E_protocol ''Invalid outbound HTTP response line''
      else
        let keep = req_keep_alive req \<and> res_keep_alive res;
            (framing, omitted) = response_framing res chunks len;
            overrides = (if find_header (res_headers res) ''Server'' = None
                         then [(''Server'', ''chhttp/0.4'')] else [])
              @ [(''Connection'', if keep then ''keep-alive'' else ''close'')] @ framing
        in serialize_head
             ((if version res = 10 then ''HTTP/1.0 '' else ''HTTP/1.1 '')
               @ to_string (nat (status res)) @ '' '' @ status_reason_view (status res))
             (res_headers res) overrides omitted)"

section \<open>What an accepted head guarantees\<close>

definition elements :: "bytes \<Rightarrow> bytes list" where
  "elements v = map trim_ows (split_on CHR '','' v)"

definition field_elements :: "headers \<Rightarrow> bytes \<Rightarrow> bytes list" where
  "field_elements h name = concat (map elements (headers_get_all h name))"

fun visit_elements :: "bytes \<Rightarrow> (bytes \<Rightarrow> 's \<Rightarrow> 's result) \<Rightarrow> bytes list \<Rightarrow> 's \<Rightarrow> 's result" where
  "visit_elements field consume [] s = Inr s"
| "visit_elements field consume (v # vs) s =
     (if v = [] then fail E_protocol (''Empty value in '' @ field)
      else (case consume v s of Inl e \<Rightarrow> Inl e | Inr s' \<Rightarrow> visit_elements field consume vs s'))"

lemma visit_framing_elements:
  "visit_framing_values f c input s = visit_elements f c (elements input) s"
proof (induction f c input s rule: visit_framing_values.induct)
  case (1 f c input s)
  show ?case
  proof (cases "find_char CHR '','' input")
    case None
    then show ?thesis
      unfolding visit_framing_values.simps [of f c input s] elements_def split_on_find [where s = input]
      by (auto simp: substr_def Let_def split: sum.splits)
  next
    case (Some i)
    have IH: "visit_framing_values f c (drop (Suc i) input) s' = visit_elements f c (elements (drop (Suc i) input)) s'"
      if "trim_ows (take i input) \<noteq> []" "c (trim_ows (take i input)) s = Inr s'" for s'
      using 1 [OF refl refl _ _ Some, of s'] that Some by (simp add: substr_def)
    show ?thesis
      unfolding visit_framing_values.simps [of f c input s]
      by (subst elements_def, subst split_on_find)
        (auto simp: Some substr_def Let_def IH elements_def split: sum.splits)
  qed
qed

lemma elements_nonempty [simp]: "elements v \<noteq> []"
  by (simp add: elements_def)

abbreviation parse_length :: "bytes \<Rightarrow> nat option" where
  "parse_length v \<equiv> parse_number 10 uint64_max v"

lemma consume_length_Inr:
  "consume_length v known = Inr s \<longleftrightarrow>
     (\<exists>p. parse_length v = Some p \<and> (known = None \<or> known = Some p) \<and> s = Some p)"
  by (auto simp: consume_length_def split: option.splits)

lemma consume_coding_Inr:
  "consume_coding c (k, fin) = Inr s \<longleftrightarrow>
     find_char CHR '';'' c = None \<and> s = (Suc k, iequals c ''chunked'')"
  by (auto simp: consume_coding_def)

lemma visit_Cons_Inr:
  "visit_elements f c (v # vs) s = Inr r \<longleftrightarrow>
     v \<noteq> [] \<and> (\<exists>s'. c v s = Inr s' \<and> visit_elements f c vs s' = Inr r)"
  by (auto split: sum.splits)

lemma visit_lengths:
  "visit_elements f consume_length vs known = Inr n \<Longrightarrow>
     (if vs = [] then n = known
      else n \<noteq> None \<and> list_all (\<lambda>v. parse_length v = n) vs \<and> (known = None \<or> known = n))"
proof (induction vs arbitrary: known)
  case (Cons v vs)
  then obtain p where p: "parse_length v = Some p" "known = None \<or> known = Some p"
    "visit_elements f consume_length vs (Some p) = Inr n"
    unfolding visit_Cons_Inr consume_length_Inr by blast
  from Cons.IH [OF p(3)] p(1,2) show ?case by (auto split: if_splits)
qed simp

lemma visit_codings:
  "visit_elements f consume_coding vs (k, fin) = Inr (k', fin') \<Longrightarrow>
     k' = k + length vs \<and> fin' = (if vs = [] then fin else iequals (last vs) ''chunked'')"
proof (induction vs arbitrary: k fin)
  case (Cons v vs)
  then have "visit_elements f consume_coding vs (Suc k, iequals v ''chunked'') = Inr (k', fin')"
    unfolding visit_Cons_Inr consume_coding_Inr by blast
  from Cons.IH [OF this] show ?case by simp
qed simp

definition bad_host :: "bytes \<Rightarrow> bool" where
  "bad_host v \<longleftrightarrow> v = [] \<or> CHR '','' \<in> set v"

definition head_inv :: "head_state \<Rightarrow> bool" where
  "head_inv st = (case st of (h, k, fin) \<Rightarrow>
     list_all valid_field (head_fields h)
     \<and> (case content_length h of
          None \<Rightarrow> field_elements (head_fields h) ''Content-Length'' = []
        | Some n \<Rightarrow> field_elements (head_fields h) ''Content-Length'' \<noteq> []
            \<and> list_all (\<lambda>v. parse_length v = Some n) (field_elements (head_fields h) ''Content-Length''))
     \<and> k = length (field_elements (head_fields h) ''Transfer-Encoding'')
     \<and> (field_elements (head_fields h) ''Transfer-Encoding'' = []
        \<or> fin = iequals (last (field_elements (head_fields h) ''Transfer-Encoding'')) ''chunked'')
     \<and> hosts h = length (headers_get_all (head_fields h) ''Host'')
     \<and> invalid_host h = list_ex bad_host (headers_get_all (head_fields h) ''Host'')
     \<and> connection_close h = has_token (head_fields h) ''Connection'' ''close''
     \<and> connection_keep_alive h = has_token (head_fields h) ''Connection'' ''keep-alive''
     \<and> expect_continue h = has_token (head_fields h) ''Expect'' ''100-continue''
     \<and> has_expect h = headers_contains (head_fields h) ''Expect''
     \<and> \<not> chunked h)"

lemma iequals_length: "iequals a b \<Longrightarrow> length a = length b"
  by (simp add: iequals_def split: if_splits)

lemma field_elements_add:
  "field_elements (headers_add h n v) name = field_elements h name @ (if iequals n name then elements v else [])"
  by (simp add: field_elements_def headers_add_def headers_get_all_append)

lemma has_token_add:
  "has_token (headers_add h n v) name t \<longleftrightarrow> has_token h name t \<or> (iequals n name \<and> header_value_has_token v t)"
  by (auto simp: has_token_def headers_add_def)

lemma headers_contains_add:
  "headers_contains (headers_add h n v) name \<longleftrightarrow> headers_contains h name \<or> iequals n name"
  by (auto simp: headers_contains_def headers_add_def)

lemma get_all_add:
  "headers_get_all (headers_add h n v) name = headers_get_all h name @ (if iequals n name then [v] else [])"
  by (simp add: headers_add_def headers_get_all_append)

lemmas add_field_simps = field_elements_add has_token_add headers_contains_add get_all_add

lemma known_names:
  "iequals n a \<Longrightarrow> length a \<noteq> length b \<Longrightarrow> \<not> iequals n b"
  by (metis iequals_length)

lemma note_field_inv:
  assumes inv: "head_inv (h, k, fin)" and valid: "valid_header_name n" "valid_header_value v"
    and note_field: "note_field n v (h, k, fin) = Inr (h', k', fin')"
  shows "head_inv (h'\<lparr>head_fields := headers_add (head_fields h') n v\<rparr>, k', fin')"
proof -
  have vf: "list_all valid_field (headers_add (head_fields h) n v)"
    using inv valid by (simp add: head_inv_def headers_add_def valid_field_def)
  consider "iequals n ''Host''" | "iequals n ''Expect''" | "iequals n ''Connection''"
    | "iequals n ''Content-Length''" | "iequals n ''Transfer-Encoding''"
    | "\<not> iequals n ''Host''" "\<not> iequals n ''Expect''" "\<not> iequals n ''Connection''"
      "\<not> iequals n ''Content-Length''" "\<not> iequals n ''Transfer-Encoding''"
    by blast
  then show ?thesis
  proof cases
    case 4
    then obtain m where m: "visit_elements ''Content-Length'' consume_length (elements v) (content_length h) = Inr m"
      "h' = h\<lparr>content_length := m\<rparr>" "k' = k" "fin' = fin"
      using note_field known_names [OF 4] iequals_length [OF 4]
      by (auto simp: note_field_def visit_framing_elements split: sum.splits)
    from visit_lengths [OF m(1)] show ?thesis
      using inv 4 known_names [OF 4] vf m(2-)
      by (auto simp: head_inv_def add_field_simps split: option.splits)
  next
    case 5
    then have m: "visit_elements ''Transfer-Encoding'' consume_coding (elements v) (k, fin) = Inr (k', fin')"
      "h' = h"
      using note_field known_names [OF 5] iequals_length [OF 5]
      by (auto simp: note_field_def visit_framing_elements split: sum.splits)
    from visit_codings [OF m(1)] show ?thesis
      using inv 5 known_names [OF 5] vf m(2)
      by (auto simp: head_inv_def add_field_simps split: option.splits)
  next
    case 1
    with note_field known_names [OF 1] iequals_length [OF 1]
    have "h' = h\<lparr>hosts := hosts h + 1,
        invalid_host := invalid_host h \<or> v = [] \<or> find_char CHR '','' v \<noteq> None\<rparr>" "k' = k" "fin' = fin"
      by (auto simp: note_field_def)
    moreover have "v = [] \<or> find_char CHR '','' v \<noteq> None \<longleftrightarrow> bad_host v"
      by (auto simp: bad_host_def find_char_None)
    ultimately show ?thesis
      using inv 1 known_names [OF 1] vf by (simp add: head_inv_def add_field_simps split: option.splits)
  next
    case 2
    with note_field known_names [OF 2] iequals_length [OF 2]
    have "h' = h\<lparr>has_expect := True,
        expect_continue := expect_continue h \<or> header_value_has_token v ''100-continue''\<rparr>" "k' = k" "fin' = fin"
      by (auto simp: note_field_def)
    then show ?thesis using inv 2 known_names [OF 2] vf by (simp add: head_inv_def add_field_simps split: option.splits)
  next
    case 3
    with note_field known_names [OF 3] iequals_length [OF 3]
    have "h' = h\<lparr>connection_close := connection_close h \<or> header_value_has_token v ''close'',
        connection_keep_alive := connection_keep_alive h \<or> header_value_has_token v ''keep-alive''\<rparr>"
      "k' = k" "fin' = fin"
      by (auto simp: note_field_def)
    then show ?thesis using inv 3 known_names [OF 3] vf by (simp add: head_inv_def add_field_simps split: option.splits)
  next
    case 6
    with note_field have "h' = h" "k' = k" "fin' = fin" by (auto simp: note_field_def)
    then show ?thesis using inv 6 vf by (simp add: head_inv_def add_field_simps split: option.splits)
  qed
qed

lemma parse_field_line_inv:
  assumes "head_inv st" "parse_field_line line st = Inr st'" shows "head_inv st'"
proof -
  obtain h k fin where st: "st = (h, k, fin)" by (metis prod_cases3)
  obtain c n v h' k' fin' where
    "find_char CHR '':'' line = Some c" "valid_header_name n" "valid_header_value v"
    "note_field n v (h, k, fin) = Inr (h', k', fin')"
    "st' = (h'\<lparr>head_fields := headers_add (head_fields h') n v\<rparr>, k', fin')"
    using assms(2) unfolding st parse_field_line_def Let_def
    by (auto split: if_splits option.splits sum.splits)
  then show ?thesis using note_field_inv assms(1) st by blast
qed

lemma parse_field_lines_inv:
  "head_inv st \<Longrightarrow> parse_field_lines input st = Inr st' \<Longrightarrow> head_inv st'"
proof (induction input st rule: parse_field_lines.induct)
  case (1 input st)
  show ?case
  proof (cases "input = [] \<or> find_sub CRLF input = Some 0")
    case True
    then have "parse_field_lines input st = Inr st"
      by (subst parse_field_lines.simps) (auto simp: substr_def Let_def)
    then show ?thesis using 1(2,3) by simp
  next
    case False
    then obtain e st1 where e: "find_sub CRLF input = Some e" "e \<noteq> 0" "input \<noteq> []"
      "parse_field_line (substr input 0 (Some e)) st = Inr st1"
      "parse_field_lines (substr input (e + 2) None) st1 = Inr st'"
      using 1(3) [unfolded parse_field_lines.simps [of input st]]
      by (auto simp: Let_def substr_def split: option.splits if_splits sum.splits)
    have "head_inv st1" using parse_field_line_inv [OF 1(2) e(4)] .
    moreover have "substr input 0 (Some e) \<noteq> []" using e by (simp add: substr_def)
    ultimately show ?thesis using 1(1) [OF e(3,1) refl _ e(4)] e(5) by blast
  qed
qed

text \<open>
  The length is the one every Content-Length element states, chunked means that the only transfer
  coding is \<open>chunked\<close> and no length is stated, and the flags are those of the fields kept.
\<close>

definition head_spec :: "parsed_head \<Rightarrow> bool" where
  "head_spec h \<longleftrightarrow>
     valid_header_value (start_line h) \<and> list_all valid_field (head_fields h)
     \<and> (case content_length h of
          None \<Rightarrow> field_elements (head_fields h) ''Content-Length'' = []
        | Some n \<Rightarrow> n \<le> uint64_max \<and> field_elements (head_fields h) ''Transfer-Encoding'' = []
            \<and> field_elements (head_fields h) ''Content-Length'' \<noteq> []
            \<and> list_all (\<lambda>v. parse_length v = Some n) (field_elements (head_fields h) ''Content-Length''))
     \<and> (if chunked h
        then content_length h = None
          \<and> list_all (\<lambda>c. iequals c ''chunked'') (field_elements (head_fields h) ''Transfer-Encoding'')
          \<and> length (field_elements (head_fields h) ''Transfer-Encoding'') = 1
        else field_elements (head_fields h) ''Transfer-Encoding'' = [])
     \<and> hosts h = length (headers_get_all (head_fields h) ''Host'')
     \<and> invalid_host h = list_ex bad_host (headers_get_all (head_fields h) ''Host'')
     \<and> connection_close h = has_token (head_fields h) ''Connection'' ''close''
     \<and> connection_keep_alive h = has_token (head_fields h) ''Connection'' ''keep-alive''
     \<and> expect_continue h = has_token (head_fields h) ''Expect'' ''100-continue''
     \<and> has_expect h = headers_contains (head_fields h) ''Expect''"

lemma empty_head_inv: "head_inv (empty_head sl, 0, False)"
  by (simp add: head_inv_def empty_head_def field_elements_def has_token_def headers_contains_def)

lemma finish_head_spec:
  assumes inv: "head_inv st" and fin: "finish_head st = Inr h" and sl: "valid_header_value (start_line (fst st))"
  shows "head_spec h"
proof -
  obtain g k b where st: "st = (g, k, b)" by (metis prod_cases3)
  have h: "h = (if k \<noteq> 0 then g\<lparr>chunked := True\<rparr> else g)"
    "k \<noteq> 0 \<Longrightarrow> k = 1 \<and> b \<and> content_length g = None"
    using fin by (auto simp: st finish_head_def split: if_splits)
  have one: "list_all P xs" if "length xs = 1" "P (last xs)" for P and xs :: "bytes list"
    using that by (cases xs) auto
  have bound: "n \<le> uint64_max" if "list_all (\<lambda>v. parse_length v = Some n) vs" "vs \<noteq> []" for n vs
    using that parse_number_bound by (cases vs) auto
  show ?thesis
  proof (cases "k = 0")
    case True
    then show ?thesis using inv sl h bound
      by (auto simp: head_inv_def head_spec_def st split: option.splits)
  next
    case False
    then show ?thesis using inv sl h by (auto simp: head_inv_def head_spec_def st intro!: one)
  qed
qed

lemma note_field_start: "note_field n v st = Inr st' \<Longrightarrow> start_line (fst st') = start_line (fst st)"
  by (cases st) (auto simp: note_field_def split: if_splits sum.splits)

lemma parse_field_line_start:
  "parse_field_line line st = Inr st' \<Longrightarrow> start_line (fst st') = start_line (fst st)"
  by (auto simp: parse_field_line_def Let_def dest!: note_field_start split: if_splits option.splits sum.splits)

lemma parse_field_lines_start:
  "parse_field_lines input st = Inr st' \<Longrightarrow> start_line (fst st') = start_line (fst st)"
proof (induction input st rule: parse_field_lines.induct)
  case (1 input st)
  from 1(2) [unfolded parse_field_lines.simps [of input st]] show ?case
    using 1(1) by (auto simp: Let_def dest: parse_field_line_start split: option.splits if_splits sum.splits)
qed

lemma parse_headE:
  assumes "parse_head s = Inr h"
  obtains e st where "find_sub CRLF s = Some e" "e \<noteq> 0" "valid_header_value (take e s)"
    "parse_field_lines (drop (e + 2) s) (empty_head (take e s), 0, False) = Inr st" "finish_head st = Inr h"
  using assms by (auto simp: parse_head_def substr_def Let_def split: option.splits if_splits sum.splits)

lemma parse_head_spec: "parse_head s = Inr h \<Longrightarrow> head_spec h"
proof (erule parse_headE)
  fix e st assume st: "valid_header_value (take e s)"
    "parse_field_lines (drop (e + 2) s) (empty_head (take e s), 0, False) = Inr st" "finish_head st = Inr h"
  show "head_spec h"
  proof (rule finish_head_spec)
    show "head_inv st" using parse_field_lines_inv [OF empty_head_inv st(2)] .
    show "valid_header_value (start_line (fst st))"
      unfolding parse_field_lines_start [OF st(2)] using st(1) by (simp add: empty_head_def)
  qed (rule st(3))
qed

section \<open>The fields a serialised head holds\<close>

fun kept_fields ::
    "(bytes \<times> bytes) list \<Rightarrow> bytes list \<Rightarrow> headers \<Rightarrow> bool list \<Rightarrow> headers \<times> bool list" where
  "kept_fields ovs om [] em = ([], em)"
| "kept_fields ovs om (item # rest) em =
     (if list_ex (iequals (fst item)) om then kept_fields ovs om rest em
      else (case find_idx (\<lambda>ov. iequals (fst item) (fst ov)) ovs of
        Some i \<Rightarrow> if em ! i then kept_fields ovs om rest em
          else apfst (Cons (ovs ! i)) (kept_fields ovs om rest (em[i := True]))
      | None \<Rightarrow> apfst (Cons item) (kept_fields ovs om rest em)))"

definition rest_fields :: "(bytes \<times> bytes) list \<Rightarrow> bool list \<Rightarrow> headers" where
  "rest_fields ovs em = map fst (filter (\<lambda>p. \<not> snd p) (zip ovs em))"

definition emitted_fields :: "(bytes \<times> bytes) list \<Rightarrow> bytes list \<Rightarrow> headers \<Rightarrow> headers" where
  "emitted_fields ovs om h =
     (let (out, em) = kept_fields ovs om h (replicate (length ovs) False) in out @ rest_fields ovs em)"

definition print_fields :: "headers \<Rightarrow> bytes" where
  "print_fields fs = concat (map (\<lambda>item. field_line (fst item) (snd item)) fs)"

lemma emit_fields_kept:
  "emit_fields ovs om h em = (print_fields (fst (kept_fields ovs om h em)), snd (kept_fields ovs om h em))"
  by (induction ovs om h em rule: kept_fields.induct)
    (auto simp: emit_field_def print_fields_def split: option.splits prod.splits)

lemma emit_rest_fields: "emit_rest ovs em = print_fields (rest_fields ovs em)"
  by (induction ovs em rule: emit_rest.induct) (auto simp: print_fields_def rest_fields_def zip_eq_Nil_iff)

lemma serialize_head_print:
  "serialize_head sl h ovs om = Inr out \<Longrightarrow>
     out = sl @ CRLF @ print_fields (emitted_fields ovs om h) @ CRLF
     \<and> CR \<notin> set sl \<and> LF \<notin> set sl \<and> list_all valid_field h \<and> list_all valid_field ovs"
proof -
  assume ok: "serialize_head sl h ovs om = Inr out"
  then have c: "find_idx (\<lambda>c. c = CR \<or> c = LF) sl = None" "\<not> list_ex (\<lambda>item. \<not> valid_field item) h"
    "\<not> list_ex (\<lambda>item. \<not> valid_field item) ovs"
    unfolding serialize_head_def by (auto split: if_splits)
  have "out = sl @ CRLF @ print_fields (emitted_fields ovs om h) @ CRLF"
    using ok unfolding serialize_head_def emit_fields_kept emit_rest_fields emitted_fields_def
    by (simp add: print_fields_def split_beta split: if_splits)
  then show ?thesis using c by (simp add: find_idx_None list_all_iff list_ex_iff) blast
qed

lemma kept_fields_subset:
  "set (fst (kept_fields ovs om h em)) \<subseteq> set h \<union> set ovs"
proof (induction ovs om h em rule: kept_fields.induct)
  case (2 ovs om item rest em)
  have "i < length ovs" if "find_idx (\<lambda>ov. iequals (fst item) (fst ov)) ovs = Some i" for i
    using find_idx_SomeD [OF that] by simp
  with 2 show ?case by (auto split: option.splits)
qed simp

lemma emitted_valid:
  "list_all valid_field h \<Longrightarrow> list_all valid_field ovs \<Longrightarrow> list_all valid_field (emitted_fields ovs om h)"
proof -
  assume "list_all valid_field h" "list_all valid_field ovs"
  then have "\<forall>x \<in> set (fst (kept_fields ovs om h em)). valid_field x" for em
    using kept_fields_subset [of ovs om h em] unfolding list_all_iff by blast
  moreover have "\<forall>x \<in> set (rest_fields ovs em). valid_field x" for em
    using \<open>list_all valid_field ovs\<close> by (auto simp: rest_fields_def list_all_iff dest: set_zip_leftD)
  ultimately show ?thesis
    unfolding list_all_iff emitted_fields_def by (simp add: split_beta ball_Un)
qed

definition distinct_names :: "(bytes \<times> bytes) list \<Rightarrow> bool" where
  "distinct_names ovs \<longleftrightarrow> distinct (map (lower \<circ> fst) ovs)"

definition override_of :: "(bytes \<times> bytes) list \<Rightarrow> bytes \<Rightarrow> nat option" where
  "override_of ovs n = find_idx (\<lambda>ov. iequals n (fst ov)) ovs"

lemma override_of_cong: "iequals n m \<Longrightarrow> override_of ovs n = override_of ovs m"
  by (simp add: override_of_def iequals_iff)

lemma override_ofD:
  "override_of ovs n = Some i \<Longrightarrow> i < length ovs \<and> iequals n (fst (ovs ! i))"
  by (auto simp: override_of_def dest: find_idx_SomeD)

lemma override_of_name: "override_of ovs n = Some i \<Longrightarrow> override_of ovs (fst (ovs ! i)) = Some i"
  using override_ofD override_of_cong by metis

lemma override_of_Cons:
  "override_of (ov # ovs) n = (if iequals n (fst ov) then Some 0 else map_option Suc (override_of ovs n))"
  by (simp add: override_of_def)

lemma rest_fields_all:
  "distinct_names ovs \<Longrightarrow> length em = length ovs \<Longrightarrow>
     headers_get_all (rest_fields ovs em) n =
       (case override_of ovs n of None \<Rightarrow> [] | Some i \<Rightarrow> if em ! i then [] else [snd (ovs ! i)])"
proof (induction ovs arbitrary: em)
  case (Cons ov ovs)
  obtain e es where em: "em = e # es" using Cons.prems(2) by (cases em) auto
  have IH: "headers_get_all (rest_fields ovs es) n =
       (case override_of ovs n of None \<Rightarrow> [] | Some i \<Rightarrow> if es ! i then [] else [snd (ovs ! i)])"
    using Cons em by (simp add: distinct_names_def)
  have "override_of ovs n = None" if "iequals n (fst ov)"
  proof (rule ccontr)
    assume "override_of ovs n \<noteq> None"
    then obtain i where "i < length ovs" "iequals n (fst (ovs ! i))" using override_ofD by blast
    then have "lower (fst ov) \<in> lower ` fst ` set ovs"
      using that by (metis iequals_iff imageI nth_mem)
    with Cons.prems(1) show False by (auto simp: distinct_names_def image_comp)
  qed
  with IH show ?case
    by (cases ov; cases "override_of ovs n")
      (auto simp: em rest_fields_def override_of_Cons iequals_sym)
qed (simp add: rest_fields_def override_of_def)

lemma kept_fields_all:
  "distinct_names ovs \<Longrightarrow> length em = length ovs \<Longrightarrow>
     headers_get_all (fst (kept_fields ovs om h em) @ rest_fields ovs (snd (kept_fields ovs om h em))) n =
       (case override_of ovs n of
          Some i \<Rightarrow> if em ! i then [] else [snd (ovs ! i)]
        | None \<Rightarrow> if list_ex (iequals n) om then [] else headers_get_all h n)"
proof (induction ovs om h em rule: kept_fields.induct)
  case (1 ovs om em)
  then show ?case by (simp add: rest_fields_all split: option.splits)
next
  case (2 ovs om item rest em)
  note names = 2(5) and len = 2(6)
  have om: "list_ex (iequals n) om \<longleftrightarrow> list_ex (iequals (fst item)) om" if "iequals (fst item) n"
    using that by (simp add: list_ex_iff iequals_iff)
  show ?case
  proof (cases "list_ex (iequals (fst item)) om")
    case True
    with 2(1) [OF True names len] om show ?thesis
      by (cases item) (auto split: option.splits)
  next
    case False
    show ?thesis
    proof (cases "override_of ovs (fst item)")
      case None
      then have kept: "kept_fields ovs om (item # rest) em = apfst (Cons item) (kept_fields ovs om rest em)"
        using False by (simp add: override_of_def)
      have "override_of ovs n = None" if "iequals (fst item) n" using override_of_cong [OF that] None by simp
      then show ?thesis
        using 2(2) [OF False None [unfolded override_of_def] names len] om False unfolding kept
        by (cases item) (auto split: option.splits)
    next
      case (Some j)
      have same: "override_of ovs n = Some j" if "iequals (fst item) n"
        using override_of_cong [OF that] Some by simp
      note j = override_ofD [OF Some] override_of_name [OF Some]
      show ?thesis
      proof (cases "em ! j")
        case True
        then have "kept_fields ovs om (item # rest) em = kept_fields ovs om rest em"
          using False Some by (simp add: override_of_def)
        then show ?thesis
          using 2(3) [OF False Some [unfolded override_of_def] True names len] True same
          by (cases item) (auto split: option.splits)
      next
        case nem: False
        then have kept: "kept_fields ovs om (item # rest) em =
            apfst (Cons (ovs ! j)) (kept_fields ovs om rest (em[j := True]))"
          using False Some by (simp add: override_of_def)
        have same': "override_of ovs n = Some j" if "iequals (fst (ovs ! j)) n"
          using override_of_cong [OF that] j by simp
        have name: "iequals (fst (ovs ! j)) n" if "override_of ovs n = Some j"
          using override_ofD [OF that] by (simp add: iequals_sym)
        have "length (em[j := True]) = length ovs" using len by simp
        note IH = 2(4) [OF False Some [unfolded override_of_def] nem names this]
        show ?thesis
        proof (cases "override_of ovs n")
          case None
          then have "\<not> iequals (fst item) n" "\<not> iequals (fst (ovs ! j)) n" using same same' by auto
          with None IH show ?thesis unfolding kept
            by (cases item; cases "ovs ! j") simp
        next
          case i: (Some i)
          show ?thesis
          proof (cases "i = j")
            case True
            with i name IH nem j len show ?thesis unfolding kept
              by (cases "ovs ! j") simp
          next
            case False
            then have "\<not> iequals (fst (ovs ! j)) n" using i same' by auto
            with i False IH show ?thesis unfolding kept
              by (cases "ovs ! j") simp
          qed
        qed
      qed
    qed
  qed
qed

lemma emitted_fields_all:
  "distinct_names ovs \<Longrightarrow> headers_get_all (emitted_fields ovs om h) n =
     (case override_of ovs n of
        Some i \<Rightarrow> [snd (ovs ! i)]
      | None \<Rightarrow> if list_ex (iequals n) om then [] else headers_get_all h n)"
  using kept_fields_all [of ovs "replicate (length ovs) False" om h n] override_ofD [of ovs n]
  by (auto simp: emitted_fields_def split_beta split: option.splits)

section \<open>Reading a serialised head\<close>

text \<open>The parser on a list of fields instead of their text.\<close>

fun note_fields :: "headers \<Rightarrow> head_state \<Rightarrow> head_state result" where
  "note_fields [] st = Inr st"
| "note_fields ((n, v) # fs) st =
     (case note_field n (trim_ows v) st of
        Inl e \<Rightarrow> Inl e
      | Inr (h, codings) \<Rightarrow> note_fields fs (h\<lparr>head_fields := headers_add (head_fields h) n (trim_ows v)\<rparr>, codings))"

lemma find_crlf:
  assumes "CR \<notin> set us" shows "find_sub CRLF (us @ CRLF @ vs) = Some (length us)"
proof (rule find_sub_eqI)
  fix j assume j: "j < length us"
  then have "drop j (us @ CRLF @ vs) = us ! j # drop (Suc j) (us @ CRLF @ vs)"
    by (simp add: Cons_nth_drop_Suc [symmetric] nth_append)
  moreover have "us ! j \<noteq> CR" using assms j nth_mem by metis
  ultimately show "\<not> prefix CRLF (drop j (us @ CRLF @ vs))" by auto
qed simp_all

lemma valid_field_chars:
  "valid_field item \<Longrightarrow> CR \<notin> set (fst item) \<and> CR \<notin> set (snd item) \<and> LF \<notin> set (fst item)
     \<and> LF \<notin> set (snd item) \<and> CHR '':'' \<notin> set (fst item) \<and> fst item \<noteq> []
     \<and> hd (fst item) \<noteq> SP \<and> hd (fst item) \<noteq> TAB"
  using token_field_value field_value_no_crlf token_char_excludes
  by (cases item; cases "fst item") (auto simp: valid_field_def valid_header_name_iff valid_header_value_iff)

lemma valid_trim: "valid_header_value v \<Longrightarrow> valid_header_value (trim_ows v)"
  using set_trim_by [of is_ows v] by (auto simp: valid_header_value_iff trim_ows_def)

lemma trim_ows_lead: "trim_ows (SP # v) = trim_ows v"
  by (simp add: trim_ows_def trim_by_def is_ows_def)

lemma parse_line_step:
  "input \<noteq> [] \<Longrightarrow> find_sub CRLF input = Some e \<Longrightarrow> substr input 0 (Some e) = line \<Longrightarrow> line \<noteq> [] \<Longrightarrow>
     parse_field_lines input st = (case parse_field_line line st of
        Inl err \<Rightarrow> Inl err | Inr st' \<Rightarrow> parse_field_lines (substr input (e + 2) None) st')"
  by (subst parse_field_lines.simps) simp

lemma parse_printed_field:
  assumes "valid_field (n, v)"
  shows "parse_field_lines (field_line n v @ rest) st =
    (case note_field n (trim_ows v) st of
       Inl e \<Rightarrow> Inl e
     | Inr (h, codings) \<Rightarrow>
         parse_field_lines rest (h\<lparr>head_fields := headers_add (head_fields h) n (trim_ows v)\<rparr>, codings))"
proof -
  let ?line = "n @ '': '' @ v"
  note c = valid_field_chars [OF assms, simplified]
  have "CR \<notin> set ?line" using c by simp
  from find_crlf [OF this, of rest]
  have e: "find_sub CRLF (field_line n v @ rest) = Some (length ?line)"
    by (simp add: field_line_def)
  have ne: "field_line n v @ rest \<noteq> []" "?line \<noteq> []" using c by (auto simp: field_line_def)
  have "field_line n v @ rest = (?line @ CRLF) @ rest" "length ?line + 2 = length (?line @ CRLF)"
    by (simp_all add: field_line_def)
  then have cut: "substr (field_line n v @ rest) 0 (Some (length ?line)) = ?line"
    "substr (field_line n v @ rest) (length ?line + 2) None = rest"
    unfolding substr_def option.case by (simp, metis append_eq_conv_conj)
  have colon: "find_char CHR '':'' ?line = Some (length n)"
    using c find_char_split [of "CHR '':''" n "SP # v"] by simp
  have "hd ?line = hd n" using c by simp
  moreover have parts: "substr ?line (length n + 1) None = SP # v" "substr ?line 0 (Some (length n)) = n"
    by (simp_all add: substr_def)
  ultimately have "parse_field_line ?line st = (case note_field n (trim_ows v) st of
      Inl e \<Rightarrow> Inl e
    | Inr (h, codings) \<Rightarrow> Inr (h\<lparr>head_fields := headers_add (head_fields h) n (trim_ows v)\<rparr>, codings))"
    unfolding parse_field_line_def colon option.case Let_def parts trim_ows_lead
    using c assms valid_trim [of v] by (simp add: trim_ows_lead valid_field_def)
  then show ?thesis
    unfolding parse_line_step [OF ne(1) e cut(1) ne(2)] cut(2) by (auto split: sum.splits)
qed

lemma parse_printed_fields:
  "list_all valid_field fs \<Longrightarrow> parse_field_lines (print_fields fs) st = note_fields fs st"
proof (induction fs arbitrary: st)
  case Nil
  then show ?case by (simp add: print_fields_def parse_field_lines.simps)
next
  case (Cons f fs)
  then have "parse_field_lines (print_fields (f # fs)) st = parse_field_lines (field_line (fst f) (snd f) @ print_fields fs) st"
    by (simp add: print_fields_def)
  with Cons parse_printed_field [of "fst f" "snd f" "print_fields fs" st] show ?case
    by (cases f) (simp split: sum.split prod.split)
qed

text \<open>Well-framed fields are never refused.\<close>

lemma visit_lengths_ok:
  "list_all (\<lambda>v. parse_length v = Some m) vs \<Longrightarrow> known \<in> {None, Some m} \<Longrightarrow>
     \<exists>n \<in> {None, Some m}. visit_elements f consume_length vs known = Inr n"
proof (induction vs arbitrary: known)
  case (Cons v vs)
  then have v: "parse_length v = Some m" "list_all (\<lambda>v. parse_length v = Some m) vs" by auto
  have "v \<noteq> []" using v(1) parse_number_iff by blast
  moreover have "consume_length v known = Inr (Some m)"
    unfolding consume_length_Inr using v(1) Cons.prems(2) by auto
  ultimately show ?case using Cons.IH [OF v(2), of "Some m"] by (auto simp del: split_paired_Ex)
qed auto

lemma visit_codings_ok:
  "list_all (\<lambda>c. c \<noteq> [] \<and> CHR '';'' \<notin> set c) vs \<Longrightarrow> \<exists>s. visit_elements f consume_coding vs k = Inr s"
proof (induction vs arbitrary: k)
  case (Cons c vs)
  then have "consume_coding c k = Inr (fst k + 1, iequals c ''chunked'')"
    by (simp add: consume_coding_def find_char_None)
  with Cons show ?case by simp
qed simp

definition trim_fields :: "headers \<Rightarrow> headers" where
  "trim_fields fs = map (apsnd trim_ows) fs"

definition well_framed :: "nat \<Rightarrow> headers \<Rightarrow> bool" where
  "well_framed m fs \<longleftrightarrow>
     list_all (\<lambda>v. parse_length v = Some m) (field_elements fs ''Content-Length'')
     \<and> list_all (\<lambda>c. c \<noteq> [] \<and> CHR '';'' \<notin> set c) (field_elements fs ''Transfer-Encoding'')"

lemma well_framed_Cons:
  "well_framed m ((n, v) # fs) \<longleftrightarrow>
     (\<not> iequals n ''Content-Length'' \<or> list_all (\<lambda>v. parse_length v = Some m) (elements v))
     \<and> (\<not> iequals n ''Transfer-Encoding'' \<or> list_all (\<lambda>c. c \<noteq> [] \<and> CHR '';'' \<notin> set c) (elements v))
     \<and> well_framed m fs"
  by (auto simp: well_framed_def field_elements_def)

lemma note_fields_ok:
  "well_framed m (trim_fields fs) \<Longrightarrow> content_length (fst st) \<in> {None, Some m} \<Longrightarrow>
     \<exists>st'. note_fields fs st = Inr st'"
proof (induction fs arbitrary: st)
  case (Cons f fs)
  obtain n v where f: "f = (n, v)" by (cases f)
  obtain h c where st: "st = (h, c)" by (cases st)
  let ?v = "trim_ows v"
  have wf: "\<not> iequals n ''Content-Length'' \<or> list_all (\<lambda>v. parse_length v = Some m) (elements ?v)"
    "\<not> iequals n ''Transfer-Encoding'' \<or> list_all (\<lambda>c. c \<noteq> [] \<and> CHR '';'' \<notin> set c) (elements ?v)"
    "well_framed m (trim_fields fs)"
    using Cons.prems(1) by (simp_all add: f trim_fields_def well_framed_Cons)
  have "\<exists>h' c'. note_field n ?v (h, c) = Inr (h', c') \<and> content_length h' \<in> {None, Some m}"
  proof (cases "iequals n ''Content-Length''")
    case True
    with wf(1) visit_lengths_ok [of m "elements ?v" "content_length h"] Cons.prems(2)
    obtain k where k: "k \<in> {None, Some m}"
      "visit_elements ''Content-Length'' consume_length (elements ?v) (content_length h) = Inr k"
      by (auto simp: st)
    then have "note_field n ?v (h, c) = Inr (h\<lparr>content_length := k\<rparr>, c)"
      using True known_names [OF True] iequals_length [OF True]
      by (simp add: note_field_def visit_framing_elements)
    with k(1) show ?thesis by simp
  next
    case noCL: False
    show ?thesis
    proof (cases "iequals n ''Transfer-Encoding''")
      case True
      with wf(2) visit_codings_ok [of "elements ?v" "''Transfer-Encoding''" c] Cons.prems(2)
        known_names [OF True] iequals_length [OF True]
      show ?thesis by (auto simp: note_field_def visit_framing_elements st)
    next
      case False
      with noCL Cons.prems(2) show ?thesis by (simp add: note_field_def st)
    qed
  qed
  then obtain h' c' where "note_field n ?v (h, c) = Inr (h', c')" "content_length h' \<in> {None, Some m}"
    by blast
  with Cons.IH [OF wf(3), of "(h'\<lparr>head_fields := headers_add (head_fields h') n ?v\<rparr>, c')"]
  show ?case by (simp add: f st)
qed (metis note_fields.simps(1))

lemma note_field_fields: "note_field n v st = Inr st' \<Longrightarrow> head_fields (fst st') = head_fields (fst st)"
  by (cases st) (auto simp: note_field_def split: if_splits sum.splits)

lemma note_fields_fields:
  "note_fields fs st = Inr st' \<Longrightarrow> head_fields (fst st') = head_fields (fst st) @ trim_fields fs"
  by (induction fs st rule: note_fields.induct)
    (auto simp: trim_fields_def headers_add_def split: sum.splits prod.splits dest: note_field_fields)

lemma parse_printed_head:
  assumes "valid_header_value sl" "sl \<noteq> []" "list_all valid_field fs"
  shows "parse_head (sl @ CRLF @ print_fields fs) =
    (case note_fields fs (empty_head sl, 0, False) of Inl e \<Rightarrow> Inl e | Inr st \<Rightarrow> finish_head st)"
proof -
  have "CR \<notin> set sl" using assms(1) by (auto simp: valid_header_value_iff)
  then have "find_sub CRLF (sl @ CRLF @ print_fields fs) = Some (length sl)" by (rule find_crlf)
  then show ?thesis
    unfolding parse_head_def option.case substr_def Let_def
    using assms parse_printed_fields [OF assms(3)] by simp
qed

lemma get_all_trim: "headers_get_all (trim_fields fs) n = map trim_ows (headers_get_all fs n)"
  by (induction fs) (auto simp: trim_fields_def)

lemma field_elements_trim:
  "field_elements (trim_fields fs) n = concat (map (\<lambda>v. elements (trim_ows v)) (headers_get_all fs n))"
  by (simp add: field_elements_def get_all_trim comp_def)

text \<open>A printed head whose framing fields agree is accepted with exactly that framing.\<close>

lemma parse_framed_head:
  assumes sl: "valid_header_value sl" "sl \<noteq> []" and fs: "list_all valid_field fs"
    and cl: "field_elements (trim_fields fs) ''Content-Length'' = (case len of None \<Rightarrow> [] | Some n \<Rightarrow> [to_string n])"
      "case len of None \<Rightarrow> True | Some n \<Rightarrow> n \<le> uint64_max"
    and te: "field_elements (trim_fields fs) ''Transfer-Encoding'' = (if ch then [''chunked''] else [])"
      "\<not> ch \<or> len = None"
  obtains h where "parse_head (sl @ CRLF @ print_fields fs) = Inr h" "content_length h = len" "chunked h = ch"
    "head_fields h = trim_fields fs" "start_line h = sl"
    "connection_close h = has_token (trim_fields fs) ''Connection'' ''close''"
proof -
  have wf: "well_framed (case len of None \<Rightarrow> 0 | Some n \<Rightarrow> n) (trim_fields fs)"
    using cl te by (auto simp: well_framed_def split: option.splits)
  obtain st where st: "note_fields fs (empty_head sl, 0, False) = Inr st"
    using note_fields_ok [OF wf, of "(empty_head sl, 0, False)"] by (auto simp: empty_head_def)
  obtain g k b where g: "st = (g, k, b)" by (metis prod_cases3)
  have lines: "parse_field_lines (print_fields fs) (empty_head sl, 0, False) = Inr (g, k, b)"
    using parse_printed_fields [OF fs] st g by simp
  have inv: "head_inv (g, k, b)" using parse_field_lines_inv [OF empty_head_inv lines] .
  have gf: "head_fields g = trim_fields fs" "start_line g = sl"
    using note_fields_fields [OF st] parse_field_lines_start [OF lines] by (simp_all add: g empty_head_def)
  have len: "content_length g = len"
  proof (cases "content_length g")
    case None
    then show ?thesis using inv gf cl by (auto simp: head_inv_def split: option.splits)
  next
    case (Some m)
    then have "list_all (\<lambda>v. parse_length v = Some m) (case len of None \<Rightarrow> [] | Some n \<Rightarrow> [to_string n])"
      "(case len of None \<Rightarrow> [] | Some n \<Rightarrow> [to_string n]) \<noteq> ([] :: bytes list)"
      using inv gf cl by (auto simp: head_inv_def)
    then obtain n where n: "len = Some n" "parse_length (to_string n) = Some m"
      by (auto split: option.splits)
    have "parse_length (to_string n) = Some n"
      by (rule parse_number_to_string) (use cl(2) n in simp)
    then show ?thesis using Some n by simp
  qed
  have k: "k = (if ch then 1 else 0)" "ch \<Longrightarrow> b" "\<not> chunked g"
    using inv gf te by (auto simp: head_inv_def)
  have "parse_head (sl @ CRLF @ print_fields fs) = Inr (if ch then g\<lparr>chunked := True\<rparr> else g)"
    using parse_printed_head [OF sl fs] st g k len te by (auto simp: finish_head_def)
  then show ?thesis
    using that [of "if ch then g\<lparr>chunked := True\<rparr> else g"] len k gf inv
    by (auto simp: head_inv_def)
qed

section \<open>Response heads\<close>

lemma valid_status_reason: "valid_header_value (status_reason_view s)"
proof -
  have "list_all (\<lambda>p. valid_header_value (snd p)) status_reasons"
    by (simp add: status_reasons_def valid_header_value_iff field_value_char_def)
  then have "map_of status_reasons s = Some r \<Longrightarrow> valid_header_value r" for r
    unfolding list_all_iff by (metis map_of_SomeD snd_conv)
  then show ?thesis
    by (auto simp: status_reason_view_def valid_header_value_iff field_value_char_def split: option.splits)
qed

lemma to_string_valid: "valid_header_value (to_string n)"
proof -
  have "is_digit c \<Longrightarrow> field_value_char c" for c
    by (auto simp: field_value_char_def bytes_simps)
  then show ?thesis using to_string_digit [of _ n] by (auto simp: valid_header_value_iff)
qed

text \<open>The framing a response head announces.\<close>

definition announced :: "response \<Rightarrow> bool \<Rightarrow> nat option \<Rightarrow> bool \<times> nat option" where
  "announced res chunks len =
     (if (status res \<ge> 100 \<and> status res < 200) \<or> status res = 204 then (False, None)
      else if status res = 205 then (False, Some 0)
      else if chunks then (True, None) else (False, len))"

definition response_overrides :: "request \<Rightarrow> response \<Rightarrow> bool \<Rightarrow> nat option \<Rightarrow> (bytes \<times> bytes) list" where
  "response_overrides req res chunks len =
     (if find_header (res_headers res) ''Server'' = None then [(''Server'', ''chhttp/0.4'')] else [])
     @ [(''Connection'', if req_keep_alive req \<and> res_keep_alive res then ''keep-alive'' else ''close'')]
     @ fst (response_framing res chunks len)"

lemma response_distinct: "distinct_names (response_overrides req res chunks len)"
  by (auto simp: distinct_names_def response_overrides_def response_framing_def lower_def fold_ascii_def
      bytes_simps split: option.splits)

lemma elements_single: "CHR '','' \<notin> set v \<Longrightarrow> elements v = [trim_ows v]"
  by (simp add: elements_def split_on_no_sep)

lemma trim_token: "list_all (\<lambda>c. c \<noteq> SP \<and> c \<noteq> TAB) v \<Longrightarrow> trim_ows v = v"
  unfolding trim_ows_def by (intro trim_by_id) (cases v; auto simp: trimmed_def is_ows_def list_all_iff)

lemma trim_to_string [simp]: "trim_ows (to_string n) = to_string n" "elements (to_string n) = [to_string n]"
proof -
  have "\<not> is_digit SP" "\<not> is_digit TAB" "\<not> is_digit CHR '',''" by (simp_all add: bytes_simps)
  then have d: "SP \<notin> set (to_string n)" "TAB \<notin> set (to_string n)" "CHR '','' \<notin> set (to_string n)"
    using to_string_digit by blast+
  then show "trim_ows (to_string n) = to_string n" by (intro trim_token) (auto simp: list_all_iff)
  with d show "elements (to_string n) = [to_string n]" by (simp add: elements_single)
qed

lemma response_field_names:
  "override_of (response_overrides req res chunks len) ''Content-Length'' =
     (case snd (announced res chunks len) of None \<Rightarrow> None
      | Some n \<Rightarrow> Some (length (response_overrides req res chunks len) - 1))"
  "override_of (response_overrides req res chunks len) ''Transfer-Encoding'' =
     (if fst (announced res chunks len) then Some (length (response_overrides req res chunks len) - 1) else None)"
  "snd (announced res chunks len) = Some n \<Longrightarrow>
     snd (last (response_overrides req res chunks len)) = to_string n"
  "fst (announced res chunks len) \<Longrightarrow> snd (last (response_overrides req res chunks len)) = ''chunked''"
  "snd (announced res chunks len) = None \<Longrightarrow>
     list_ex (iequals ''Content-Length'') (snd (response_framing res chunks len))"
  "\<not> fst (announced res chunks len) \<Longrightarrow>
     list_ex (iequals ''Transfer-Encoding'') (snd (response_framing res chunks len))"
  "override_of (response_overrides req res chunks len) ''Connection'' =
     Some (if find_header (res_headers res) ''Server'' = None then 1 else 0)"
proof -
  have neq: "\<not> iequals ''Content-Length'' ''Server''" "\<not> iequals ''Content-Length'' ''Connection''"
    "\<not> iequals ''Content-Length'' ''Transfer-Encoding''" "\<not> iequals ''Transfer-Encoding'' ''Server''"
    "\<not> iequals ''Transfer-Encoding'' ''Connection''" "\<not> iequals ''Transfer-Encoding'' ''Content-Length''"
    "\<not> iequals ''Connection'' ''Server''"
    by (simp_all add: iequals_def)
  have "to_string 0 = ''0''" by (simp add: to_string_def to_digits.simps digit_char_def char_of_eq_iff)
  with neq show "override_of (response_overrides req res chunks len) ''Content-Length'' =
     (case snd (announced res chunks len) of None \<Rightarrow> None
      | Some n \<Rightarrow> Some (length (response_overrides req res chunks len) - 1))"
    "override_of (response_overrides req res chunks len) ''Transfer-Encoding'' =
     (if fst (announced res chunks len) then Some (length (response_overrides req res chunks len) - 1) else None)"
    "snd (announced res chunks len) = Some n \<Longrightarrow>
       snd (last (response_overrides req res chunks len)) = to_string n"
    "fst (announced res chunks len) \<Longrightarrow> snd (last (response_overrides req res chunks len)) = ''chunked''"
    "snd (announced res chunks len) = None \<Longrightarrow>
       list_ex (iequals ''Content-Length'') (snd (response_framing res chunks len))"
    "\<not> fst (announced res chunks len) \<Longrightarrow>
       list_ex (iequals ''Transfer-Encoding'') (snd (response_framing res chunks len))"
    "override_of (response_overrides req res chunks len) ''Connection'' =
       Some (if find_header (res_headers res) ''Server'' = None then 1 else 0)"
    by (auto simp: override_of_def response_overrides_def response_framing_def announced_def
        split: option.splits if_splits)
qed

definition status_line :: "response \<Rightarrow> bytes" where
  "status_line res = (if version res = 10 then ''HTTP/1.0 '' else ''HTTP/1.1 '')
     @ to_string (nat (status res)) @ '' '' @ status_reason_view (status res)"

lemma build_response_headD:
  assumes "build_response_head req res chunks len = Inr out"
  shows "serialize_head (status_line res) (res_headers res) (response_overrides req res chunks len)
      (snd (response_framing res chunks len)) = Inr out" "valid_header_value (status_line res)" "status_line res \<noteq> []"
    "version res \<in> {10, 11}" "100 \<le> status res" "status res \<le> 999"
proof -
  show "serialize_head (status_line res) (res_headers res) (response_overrides req res chunks len)
      (snd (response_framing res chunks len)) = Inr out"
    using assms
    by (auto simp: status_line_def build_response_head_def response_overrides_def split_beta Let_def split: if_splits)
  have "valid_header_value (''HTTP/1.0 '')" "valid_header_value (''HTTP/1.1 '')" "valid_header_value '' ''"
    by (simp_all add: valid_header_value_iff field_value_char_def)
  then show "valid_header_value (status_line res)"
    using to_string_valid [of "nat (status res)"] valid_status_reason [of "status res"]
    by (simp add: status_line_def valid_header_value_def del: valid_header_value_iff)
  show "status_line res \<noteq> []" by (simp add: status_line_def)
  show "version res \<in> {10, 11}" "100 \<le> status res" "status res \<le> 999"
    using assms by (auto simp: build_response_head_def split: if_splits)
qed

lemma last_nth: "xs \<noteq> [] \<Longrightarrow> xs ! (length xs - Suc 0) = last xs"
  by (simp add: last_conv_nth)

lemma response_overrides_nonempty: "response_overrides req res chunks len \<noteq> []"
  by (simp add: response_overrides_def)

lemma has_token_all: "has_token h n t \<longleftrightarrow> (\<exists>v \<in> set (headers_get_all h n). header_value_has_token v t)"
  by (force simp: has_token_def headers_get_all_filter)

lemma response_head_printed:
  assumes b: "build_response_head req res chunks len = Inr out"
    and len: "case len of None \<Rightarrow> True | Some n \<Rightarrow> n \<le> uint64_max"
  obtains fs h where "out = status_line res @ CRLF @ print_fields fs @ CRLF" "list_all valid_field fs"
    "parse_head (status_line res @ CRLF @ print_fields fs) = Inr h"
    "start_line h = status_line res" "head_fields h = trim_fields fs"
    "fs = emitted_fields (response_overrides req res chunks len) (snd (response_framing res chunks len)) (res_headers res)"
    "(chunked h, content_length h) = announced res chunks len"
    "connection_close h \<longleftrightarrow> \<not> (req_keep_alive req \<and> res_keep_alive res)"
proof -
  let ?ovs = "response_overrides req res chunks len" and ?om = "snd (response_framing res chunks len)"
  let ?fs = "emitted_fields ?ovs ?om (res_headers res)"
  let ?sl = "status_line res"
  note sl = build_response_headD(1-3) [OF b]
  have out: "out = ?sl @ CRLF @ print_fields ?fs @ CRLF" and valid: "list_all valid_field ?fs"
    using serialize_head_print [OF sl(1)] emitted_valid by auto
  have cl: "field_elements (trim_fields ?fs) ''Content-Length'' =
      (case snd (announced res chunks len) of None \<Rightarrow> [] | Some n \<Rightarrow> [to_string n])"
    using response_field_names(1,3,5)
    by (simp add: field_elements_trim emitted_fields_all response_distinct last_nth
        response_overrides_nonempty split: option.splits)
  have chunked_trim: "trim_ows ''chunked'' = ''chunked''" "elements ''chunked'' = [''chunked'']"
    by (simp_all add: elements_single trim_token)
  have te: "field_elements (trim_fields ?fs) ''Transfer-Encoding'' =
      (if fst (announced res chunks len) then [''chunked''] else [])"
    using response_field_names(2,4,6) chunked_trim
    by (simp add: field_elements_trim emitted_fields_all response_distinct last_nth
        response_overrides_nonempty)
  have "case snd (announced res chunks len) of None \<Rightarrow> True | Some n \<Rightarrow> n \<le> uint64_max"
    "\<not> fst (announced res chunks len) \<or> snd (announced res chunks len) = None"
    using len by (auto simp: announced_def)
  then obtain h where h: "parse_head (?sl @ CRLF @ print_fields ?fs) = Inr h"
    "content_length h = snd (announced res chunks len)" "chunked h = fst (announced res chunks len)"
    "connection_close h = has_token (trim_fields ?fs) ''Connection'' ''close''"
    "start_line h = ?sl" "head_fields h = trim_fields ?fs"
    using parse_framed_head [OF sl(2,3) valid cl _ te] by metis
  have conn: "headers_get_all ?fs ''Connection'' =
      [if req_keep_alive req \<and> res_keep_alive res then ''keep-alive'' else ''close'']"
    by (simp add: emitted_fields_all response_distinct response_field_names(7)) (simp add: response_overrides_def)
  have tok: "header_value_has_token ''close'' ''close''" "\<not> header_value_has_token ''keep-alive'' ''close''"
    by (simp_all add: header_value_has_token_iff split_on_no_sep trim_token iequals_def)
  have "connection_close h \<longleftrightarrow> (\<exists>v \<in> set (map trim_ows (headers_get_all ?fs ''Connection'')). header_value_has_token v ''close'')"
    unfolding h(4) has_token_all get_all_trim ..
  then have "connection_close h \<longleftrightarrow> \<not> (req_keep_alive req \<and> res_keep_alive res)"
    using tok by (simp add: conn trim_token)
  with that [OF out valid h(1) h(5,6) refl] h(2,3) show ?thesis by (simp add: prod_eq_iff)
qed

lemma parse_head_error: "parse_head s = Inl e \<Longrightarrow> err_code e = E_protocol"
proof -
  have v: "visit_elements f consume_length vs n = Inl e \<Longrightarrow> err_code e = E_protocol" for f vs n e
    by (induction vs arbitrary: n) (auto simp: consume_length_def split: if_splits option.splits)
  have c: "visit_elements f consume_coding vs n = Inl e \<Longrightarrow> err_code e = E_protocol" for f vs n e
    by (induction vs arbitrary: n) (auto simp: consume_coding_def split: if_splits)
  have n: "note_field n v st = Inl e \<Longrightarrow> err_code e = E_protocol" for n v st e
    using v c by (cases st) (auto simp: note_field_def visit_framing_elements split: if_splits sum.splits)
  have l: "parse_field_line line st = Inl e \<Longrightarrow> err_code e = E_protocol" for line st e
    by (auto simp: parse_field_line_def Let_def dest: n split: if_splits option.splits sum.splits)
  have ls: "parse_field_lines input st = Inl e \<Longrightarrow> err_code e = E_protocol" for input st e
  proof (induction input st rule: parse_field_lines.induct)
    case (1 input st)
    from 1(2) [unfolded parse_field_lines.simps [of input st]] 1(1) show ?case
      by (auto simp: Let_def dest: l split: if_splits option.splits sum.splits)
  qed
  show "parse_head s = Inl e \<Longrightarrow> err_code e = E_protocol"
    by (auto simp: parse_head_def finish_head_def Let_def dest: ls split: if_splits option.splits sum.splits)
qed

section \<open>Properties\<close>

text \<open>C1: Every accepted head is framed unambiguously: the length is what all its Content-Length elements
  state, chunked means the single transfer coding \<open>chunked\<close> and no length, the connection and
  expectation flags are those of its fields, and every field is valid; every refusal is a protocol
  error.\<close>

theorem parse_head_unambiguous:
  "case parse_head s of Inl e \<Rightarrow> err_code e = E_protocol | Inr h \<Rightarrow> head_spec h"
  using parse_head_error parse_head_spec by (auto split: sum.split)

text \<open>The head of a response, whatever fields the handler set, is read back by the library's own
  parser with exactly the framing the writer uses for the body (none, a length or chunked) and with a
  close flag exactly when the connection is not kept.\<close>

lemma response_head_framing:
  assumes "build_response_head req res chunks len = Inr out"
    "case len of None \<Rightarrow> True | Some n \<Rightarrow> n \<le> uint64_max"
  shows "\<exists>hd h. out = hd @ CRLF \<and> parse_head hd = Inr h
    \<and> (chunked h, content_length h) = announced res chunks len
    \<and> (connection_close h \<longleftrightarrow> \<not> (req_keep_alive req \<and> res_keep_alive res))"
proof (rule response_head_printed [OF assms])
  fix fs h
  assume "out = status_line res @ CRLF @ print_fields fs @ CRLF"
    "parse_head (status_line res @ CRLF @ print_fields fs) = Inr h"
    "(chunked h, content_length h) = announced res chunks len"
    "connection_close h \<longleftrightarrow> \<not> (req_keep_alive req \<and> res_keep_alive res)"
  then show ?thesis by (intro exI [of _ "status_line res @ CRLF @ print_fields fs"] exI [of _ h]) simp
qed

theorem response_head_framing_witness:
  "\<exists>hd h. build_response_head new_request \<lparr>status = 200, version = 11, res_headers = [],
       res_body = [], res_keep_alive = True\<rparr> True None = Inr (hd @ CRLF)
     \<and> parse_head hd = Inr h \<and> chunked h \<and> content_length h = None"
proof -
  let ?r = "\<lparr>status = 200, version = 11, res_headers = [], res_body = [], res_keep_alive = True\<rparr>"
  have "\<exists>out. build_response_head new_request ?r True None = Inr out"
    by (simp add: build_response_head_def serialize_head_def response_framing_def status_reason_view_def
        status_reasons_def valid_field_def valid_header_name_iff valid_header_value_iff token_char_def
        separators_def field_value_char_def in_range_def find_idx_None new_request_def split_beta
        Let_def)
      (use to_string_valid [of 200] in \<open>auto simp: valid_header_value_iff\<close>)
  then obtain out where "build_response_head new_request ?r True None = Inr out" ..
  from response_head_framing [OF this] this show ?thesis by (auto simp: announced_def)
qed

text \<open>C16: An accepted request head has a token as method, a target without blanks or controls, a known
  version, exactly one valid Host in HTTP/1.1, and hands the body reader the framing of an unambiguous
  head; the buffer is then advanced past the empty line, and every refusal is a protocol error.\<close>

theorem parse_request_head_sound:
  "case parse_request_head buffer bs dup of
     (Inl e, _) \<Rightarrow> err_code e = E_protocol
   | (Inr (r, b), rest) \<Rightarrow>
       rest = drop (length bs + 2) buffer
       \<and> valid_header_name (req_method r) \<and> req_target r \<noteq> [] \<and> \<not> list_ex url_space (req_target r)
       \<and> (\<exists>h. parse_head bs = Inr h \<and> head_spec h \<and> bs_headers b = head_fields h
            \<and> bs_length b = content_length h \<and> bs_chunked b = chunked h
            \<and> (req_version r = 10 \<or> (req_version r = 11 \<and> hosts h = 1 \<and> \<not> invalid_host h))
            \<and> req_keep_alive r = keep_alive (req_version r) h)"
proof -
  have route: "route_target rt r = Inr r' \<Longrightarrow> req_method r' = req_method r \<and> req_target r' = req_target r
      \<and> req_version r' = req_version r \<and> req_keep_alive r' = req_keep_alive r" for rt r r'
    by (auto simp: route_target_def Let_def split: sum.splits option.splits)
  have line: "parse_request_line sl = Inr r \<Longrightarrow> valid_header_name (req_method r) \<and> req_target r \<noteq> []
      \<and> \<not> list_ex url_space (req_target r) \<and> (req_version r = 10 \<or> req_version r = 11)" for sl r
    by (auto simp: parse_request_line_def parse_version_def Let_def split: option.splits if_splits)
  have err: "parse_request_line sl = Inl e \<Longrightarrow> err_code e = E_protocol"
    "routing_target t = Inl e \<Longrightarrow> err_code e = E_protocol"
    "route_target rt r = Inl e \<Longrightarrow> err_code e = E_protocol" for sl e t rt r
    by (auto simp: parse_request_line_def routing_target_def route_target_def Let_def
        split: option.splits if_splits sum.splits)
  have head: "parse_head bs = Inl e \<Longrightarrow> err_code e = E_protocol" for e
    using parse_head_error by auto
  show ?thesis
  proof (cases "parse_head bs")
    case (Inl e)
    then show ?thesis using head by (simp add: parse_request_head_def)
  next
    case (Inr h)
    then have spec: "head_spec h" by (rule parse_head_spec)
    show ?thesis
      using spec line [of "start_line h"] err
      by (auto simp: parse_request_head_def Inr Let_def split: sum.splits dest!: route)
  qed
qed

end
