(* ===== verification/Transport.thy ===== *)
theory Transport
  imports Http_Head
begin

text \<open>
  Reading from a connection: \<^verbatim>\<open>timed_read\<close>, \<^verbatim>\<open>read_head_bytes\<close>, \<^verbatim>\<open>buffered_head_bytes\<close> and \<^verbatim>\<open>read_line\<close> of
  \<^verbatim>\<open>src/protocol.cpp\<close>.  The socket below \<^verbatim>\<open>Connection::read\<close> is libuv, so what a peer does is a
  script: each entry says how many milliseconds after the read was issued it arrives and whether it is
  data, the end of the stream or a failure.  A read whose timer fires first fails with a timeout and
  leaves the rest of the wait.  The clock advances only by waiting; a \<^verbatim>\<open>ReadBuffer\<close> is the list of
  its readable bytes (theory \<open>Read_Buffer\<close>).
\<close>

section \<open>Connections\<close>

datatype read_chunk = Chunk bytes | Closed

datatype verdict = Accept | Refuse | Raise bytes | Raise_other

text \<open>
  The write side of a connection is a script too: the entry of a write says when it completes and with
  which error, and a write beyond the script succeeds at once.  A connection that the loop closes is
  closed from some time on.  The last three fields are what the callbacks of the exchange have been told:
  the bytes sent and received at the last progress report, and whether a head was announced and accepted.
\<close>

record io =
  clock :: nat
  incoming :: "(nat \<times> read_chunk result) list"
  buffer :: bytes
  received :: nat
  body :: bytes
  idle_deadline :: "nat option"
  delivered :: "bytes list"
  outgoing :: "(nat \<times> error_info) list"
  sent :: "bytes list"
  closes_at :: "nat option"
  up_reported :: nat
  down_reported :: nat
  head_reported :: "bool option"

record response_head =
  rh_status :: int
  rh_version :: nat
  rh_headers :: headers
  rh_keep_alive :: bool

text \<open>A consumer takes some time and then says how it ended.\<close>

record read_options =
  max_header_size :: nat
  max_body_size :: nat
  read_timeout :: nat
  header_timeout :: "nat option"
  first_body_byte_timeout :: "nat option"
  idle_timeout :: "nat option"
  deadline :: "nat option"
  auto_decompress :: bool
  cancelled :: "(nat \<Rightarrow> bool) option"
  on_response_head :: "(response_head \<Rightarrow> nat \<times> verdict) option"
  on_data :: "(bytes \<Rightarrow> nat \<times> verdict) option"
  on_data_async :: "(bytes \<Rightarrow> nat \<times> verdict) option"
  on_progress :: "(nat \<Rightarrow> nat option \<Rightarrow> nat \<times> verdict) option"

text \<open>\<^verbatim>\<open>UV_ETIMEDOUT\<close> on Linux.\<close>

definition uv_etimedout :: int where
  "uv_etimedout = - 110"

definition connection_read :: "nat \<Rightarrow> io \<Rightarrow> read_chunk result \<times> io" where
  "connection_read timeout io =
     (case incoming io of
        [] \<Rightarrow> (Inl (make_error E_timeout ''Socket read timed out'' uv_etimedout 0),
               io\<lparr>clock := clock io + timeout\<rparr>)
      | (delay, event) # rest \<Rightarrow>
          if delay > timeout
          then (Inl (make_error E_timeout ''Socket read timed out'' uv_etimedout 0),
                io\<lparr>clock := clock io + timeout, incoming := (delay - timeout, event) # rest\<rparr>)
          else (event, io\<lparr>clock := clock io + delay, incoming := rest\<rparr>))"

definition connection_open :: "io \<Rightarrow> bool" where
  "connection_open io \<longleftrightarrow> (case closes_at io of None \<Rightarrow> True | Some t \<Rightarrow> clock io < t)"

definition connection_write :: "bytes \<Rightarrow> nat \<Rightarrow> io \<Rightarrow> error_info \<times> io" where
  "connection_write data timeout io =
     (if data = [] then (no_error, io)
      else (case outgoing io of
        [] \<Rightarrow> (no_error, io\<lparr>sent := sent io @ [data]\<rparr>)
      | (delay, e) # rest \<Rightarrow>
          if delay > timeout
          then (make_error E_timeout ''Socket write timed out'' uv_etimedout 0,
                io\<lparr>clock := clock io + timeout, outgoing := rest\<rparr>)
          else if is_error e then (e, io\<lparr>clock := clock io + delay, outgoing := rest\<rparr>)
          else (no_error, io\<lparr>clock := clock io + delay, outgoing := rest, sent := sent io @ [data]\<rparr>)))"

definition is_cancelled :: "read_options \<Rightarrow> io \<Rightarrow> bool" where
  "is_cancelled opts io \<longleftrightarrow> (case cancelled opts of None \<Rightarrow> False | Some f \<Rightarrow> f (clock io))"

definition request_cancelled :: error_info where
  "request_cancelled = error_of E_cancelled ''Request cancelled''"

text \<open>The lambda \<^verbatim>\<open>apply_deadline\<close>: the wait and the message it leaves, or the expired deadline.\<close>

definition apply_deadline ::
    "nat option \<Rightarrow> bytes \<Rightarrow> bytes \<Rightarrow> nat \<Rightarrow> nat \<times> bytes \<Rightarrow> (nat \<times> bytes) result" where
  "apply_deadline dl expired shortened now wait =
     (case dl of
        None \<Rightarrow> Inr wait
      | Some d \<Rightarrow>
          if d \<le> now then fail E_timeout expired
          else if d - now < fst wait then Inr (max (d - now) 1, shortened)
          else Inr wait)"

definition timed_read ::
    "read_options \<Rightarrow> nat option \<Rightarrow> bytes \<Rightarrow> io \<Rightarrow> read_chunk result \<times> io" where
  "timed_read opts phase_deadline phase_name io =
     (if is_cancelled opts io then (Inl request_cancelled, io)
      else (case apply_deadline (deadline opts) ''Request deadline exceeded'' ''Request deadline exceeded''
                   (clock io) (read_timeout opts, ''Socket read timed out'') of
        Inl e \<Rightarrow> (Inl e, io)
      | Inr wait \<Rightarrow>
        (case apply_deadline phase_deadline [] (phase_name @ '' timed out'') (clock io) wait of
           Inl e \<Rightarrow> (Inl e, io)
         | Inr (timeout, timeout_message) \<Rightarrow>
           (case connection_read timeout io of
              (Inl e, io') \<Rightarrow>
                if err_code e = E_timeout
                then (Inl (make_error E_timeout timeout_message (system_code e) (tls_code e)), io')
                else if is_cancelled opts io' then (Inl request_cancelled, io') else (Inl e, io')
            | (Inr c, io') \<Rightarrow>
                if is_cancelled opts io' then (Inl request_cancelled, io') else (Inr c, io')))))"

lemma connection_read_incoming:
  "connection_read t io = (Inr c, io') \<Longrightarrow> \<exists>d rest. incoming io = (d, Inr c) # rest \<and> d \<le> t
     \<and> io' = io\<lparr>clock := clock io + d, incoming := rest\<rparr>"
  by (auto simp: connection_read_def split: list.splits if_splits)

lemma timed_read_incoming:
  "timed_read opts pd ph io = (Inr c, io') \<Longrightarrow>
     \<exists>d rest. incoming io = (d, Inr c) # rest \<and> io' = io\<lparr>clock := clock io + d, incoming := rest\<rparr>"
  by (auto simp: timed_read_def dest!: connection_read_incoming split: if_splits sum.splits prod.splits)

text \<open>What is left to read, counted so that every successful read is progress.\<close>

definition pending :: "io \<Rightarrow> nat" where
  "pending io = length (buffer io)
     + sum_list (map (\<lambda>(_, e). Suc (case e of Inr (Chunk bs) \<Rightarrow> length bs | _ \<Rightarrow> 0)) (incoming io))"

lemma pending_chunk:
  "timed_read opts pd ph io = (Inr (Chunk bs), io') \<Longrightarrow>
     pending (io'\<lparr>buffer := buffer io' @ bs\<rparr>) < pending io"
  by (auto simp: pending_def dest!: timed_read_incoming)

section \<open>Lines and heads\<close>

function read_line ::
    "read_options \<Rightarrow> nat \<Rightarrow> nat option \<Rightarrow> bytes \<Rightarrow> nat \<Rightarrow> io \<Rightarrow> bytes result \<times> io" where
  "read_line opts max_length phase_deadline phase_name search_from io =
     (case find_sub_from CRLF search_from (buffer io) of
        Some e \<Rightarrow>
          if e > max_length then (fail E_protocol ''HTTP line exceeds configured limit'', io)
          else (Inr (substr (buffer io) 0 (Some e)), io\<lparr>buffer := drop (e + 2) (buffer io)\<rparr>)
      | None \<Rightarrow>
          if find_char_from LF search_from (buffer io) \<noteq> None
          then (fail E_protocol ''Bare LF in HTTP message'', io)
          else if length (buffer io) > max_length \<and>
                  (length (buffer io) - max_length \<noteq> 1 \<or> last (buffer io) \<noteq> CR)
          then (fail E_protocol ''HTTP line exceeds configured limit'', io)
          else
            (case timed_read opts phase_deadline phase_name io of
               (Inl e, io') \<Rightarrow> (Inl e, io')
             | (Inr Closed, io') \<Rightarrow> (fail E_protocol ''Unexpected end of HTTP line'', io')
             | (Inr (Chunk bs), io') \<Rightarrow>
                 read_line opts max_length phase_deadline phase_name
                   (if buffer io = [] then 0 else length (buffer io) - 1)
                   (io'\<lparr>buffer := buffer io' @ bs\<rparr>)))"
  by pat_completeness auto
termination
  by (relation "measure (\<lambda>(_, _, _, _, _, io). pending io)")
    (auto dest!: sym [of "(_, _)"] intro: pending_chunk)

declare read_line.simps [simp del]

definition buffered_head_bytes :: "bytes \<Rightarrow> nat \<Rightarrow> read_options \<Rightarrow> bytes result" where
  "buffered_head_bytes buf e opts =
     (if e + 4 > max_header_size opts then fail E_protocol ''HTTP headers exceed configured limit''
      else Inr (substr buf 0 (Some (e + 2))))"

function read_head_loop ::
    "read_options \<Rightarrow> nat option \<Rightarrow> nat \<Rightarrow> io \<Rightarrow> bytes result \<times> io" where
  "read_head_loop opts header_deadline search_from io =
     (case find_sub_from (CRLF @ CRLF) search_from (buffer io) of
        Some e \<Rightarrow> (buffered_head_bytes (buffer io) e opts, io)
      | None \<Rightarrow>
          if length (buffer io) \<ge> max_header_size opts
          then (fail E_protocol ''HTTP headers exceed configured limit'', io)
          else
            (case timed_read opts header_deadline ''Response header'' io of
               (Inl e, io') \<Rightarrow> (Inl e, io')
             | (Inr Closed, io') \<Rightarrow> (fail E_protocol ''Connection closed during HTTP headers'', io')
             | (Inr (Chunk bs), io') \<Rightarrow>
                 read_head_loop opts header_deadline
                   (if length (buffer io) > 3 then length (buffer io) - 3 else 0)
                   (io'\<lparr>buffer := buffer io' @ bs\<rparr>)))"
  by pat_completeness auto
termination
  by (relation "measure (\<lambda>(_, _, _, io). pending io)")
    (auto dest!: sym [of "(_, _)"] intro: pending_chunk)

declare read_head_loop.simps [simp del]

definition read_head_bytes :: "read_options \<Rightarrow> io \<Rightarrow> bytes result \<times> io" where
  "read_head_bytes opts io =
     read_head_loop opts (map_option (\<lambda>t. clock io + t) (header_timeout opts)) 0 io"

definition read_request_head ::
    "read_options \<Rightarrow> bool \<Rightarrow> io \<Rightarrow> (request \<times> request_body_state) result \<times> io" where
  "read_request_head opts duplicate_headers io =
     (case (case find_sub (CRLF @ CRLF) (buffer io) of
              Some e \<Rightarrow> (buffered_head_bytes (buffer io) e opts, io)
            | None \<Rightarrow> read_head_bytes opts io) of
        (Inl e, io') \<Rightarrow> (Inl e, io')
      | (Inr bs, io') \<Rightarrow>
          (case parse_request_head (buffer io') bs duplicate_headers of
             (r, rest) \<Rightarrow> (r, io'\<lparr>buffer := rest\<rparr>)))"

section \<open>Peers that keep up\<close>

text \<open>
  No deadline, no cancellation; \<open>stream\<close> is what the connection still yields before an event that is
  late, a failure or the end, however it is cut into reads.
\<close>

definition quiet :: "read_options \<Rightarrow> bool" where
  "quiet opts \<longleftrightarrow> deadline opts = None \<and> (\<forall>f t. cancelled opts = Some f \<longrightarrow> \<not> f t) \<and> header_timeout opts = None
     \<and> first_body_byte_timeout opts = None \<and> idle_timeout opts = None"

lemma quiet_not_cancelled: "quiet opts \<Longrightarrow> \<not> is_cancelled opts io"
  by (auto simp: quiet_def is_cancelled_def split: option.splits)

fun arriving :: "nat \<Rightarrow> (nat \<times> read_chunk result) list \<Rightarrow> bytes" where
  "arriving t [] = []"
| "arriving t ((d, e) # rest) =
     (case e of Inr (Chunk bs) \<Rightarrow> if d \<le> t then bs @ arriving t rest else [] | _ \<Rightarrow> [])"

definition stream :: "read_options \<Rightarrow> io \<Rightarrow> bytes" where
  "stream opts io = buffer io @ arriving (read_timeout opts) (incoming io)"

text \<open>What reading never touches; the write side is what only writing and closing change.\<close>

definition write_side :: "io \<Rightarrow> (nat \<times> error_info) list \<times> bytes list \<times> nat option" where
  "write_side io = (outgoing io, sent io, closes_at io)"

lemma write_side_updates [simp]:
  "write_side (io\<lparr>clock := t\<rparr>) = write_side io" "write_side (io\<lparr>incoming := i\<rparr>) = write_side io"
  "write_side (io\<lparr>buffer := b\<rparr>) = write_side io" "write_side (io\<lparr>received := n\<rparr>) = write_side io"
  "write_side (io\<lparr>body := b\<rparr>) = write_side io" "write_side (io\<lparr>idle_deadline := dl\<rparr>) = write_side io"
  "write_side (io\<lparr>delivered := d\<rparr>) = write_side io" "write_side (io\<lparr>up_reported := n\<rparr>) = write_side io"
  "write_side (io\<lparr>down_reported := n\<rparr>) = write_side io" "write_side (io\<lparr>head_reported := h\<rparr>) = write_side io"
  by (simp_all add: write_side_def)

definition same_body :: "io \<Rightarrow> io \<Rightarrow> bool" where
  "same_body io io' \<longleftrightarrow> received io' = received io \<and> body io' = body io
     \<and> idle_deadline io' = idle_deadline io \<and> delivered io' = delivered io \<and> write_side io' = write_side io"

lemma same_body_refl [simp]: "same_body io io"
  by (simp add: same_body_def)

lemma same_body_trans: "same_body a b \<Longrightarrow> same_body b c \<Longrightarrow> same_body a c"
  by (simp add: same_body_def)

lemma same_body_updates [simp]:
  "same_body a (b\<lparr>clock := t\<rparr>) = same_body a b" "same_body a (b\<lparr>incoming := i\<rparr>) = same_body a b"
  "same_body a (b\<lparr>buffer := bs\<rparr>) = same_body a b" "same_body (b\<lparr>buffer := bs\<rparr>) a = same_body b a"
  by (simp_all add: same_body_def)

lemma quiet_read:
  assumes "quiet opts" "arriving (read_timeout opts) (incoming io) \<noteq> []"
  obtains d bs rest where "incoming io = (d, Inr (Chunk bs)) # rest"
    "timed_read opts None ph io = (Inr (Chunk bs), io\<lparr>clock := clock io + d, incoming := rest\<rparr>)"
    "stream opts (io\<lparr>clock := clock io + d, incoming := rest, buffer := buffer io @ bs\<rparr>) = stream opts io"
    "arriving (read_timeout opts) (incoming io) = bs @ arriving (read_timeout opts) rest"
proof -
  obtain d e rest where inc: "incoming io = (d, e) # rest" using assms(2) by (cases "incoming io") auto
  with assms(2) obtain bs where e: "e = Inr (Chunk bs)" "d \<le> read_timeout opts"
    by (auto split: sum.splits read_chunk.splits if_splits)
  have "timed_read opts None ph io = (Inr (Chunk bs), io\<lparr>clock := clock io + d, incoming := rest\<rparr>)"
    using assms(1) e quiet_not_cancelled [OF assms(1)]
    by (simp add: timed_read_def quiet_def apply_deadline_def connection_read_def inc)
  then show ?thesis using that [OF inc [unfolded e(1)]] e by (simp add: stream_def inc)
qed

lemma prefix_of_line:
  assumes "buf @ suf = line @ CRLF @ rest" "length buf < length line + 2"
  shows "prefix buf (line @ [CR])"
  using assms by (auto simp: append_eq_append_conv2 prefix_def append_eq_Cons_conv)

lemma read_line_stream:
  assumes "quiet opts" "stream opts io = line @ CRLF @ rest" "CR \<notin> set line" "LF \<notin> set line"
    "length line \<le> m" "sf \<le> length line"
  shows "\<exists>io'. read_line opts m None ph sf io = (Inr line, io') \<and> stream opts io' = rest \<and> same_body io io'"
  using assms(2,6)
proof (induction "pending io" arbitrary: io sf rule: less_induct)
  case less
  let ?more = "arriving (read_timeout opts) (incoming io)"
  have split: "buffer io @ ?more = line @ CRLF @ rest" using less.prems(1) by (simp add: stream_def)
  show ?case
  proof (cases "length (buffer io) < length line + 2")
    case False
    then obtain suf where buf: "buffer io = line @ CRLF @ suf" "suf @ ?more = rest"
      using split by (auto simp: append_eq_append_conv2 append_eq_Cons_conv)
    have "CR \<notin> set (drop sf line)" using assms(3) by (auto dest: in_set_dropD)
    then have "find_sub CRLF (drop sf line @ CRLF @ suf) = Some (length (drop sf line))" by (rule find_crlf)
    then have "find_sub_from CRLF sf (buffer io) = Some (length line)"
      using less.prems(2) by (simp add: find_sub_from_def buf)
    then have "read_line opts m None ph sf io = (Inr line, io\<lparr>buffer := suf\<rparr>)"
      using assms(5) by (subst read_line.simps) (simp add: buf substr_def)
    then show ?thesis using buf by (simp add: stream_def)
  next
    case True
    have pre: "prefix (buffer io) (line @ [CR])" by (rule prefix_of_line [OF split True])
    then have noLF: "LF \<notin> set (buffer io)" using assms(4) set_mono_prefix by fastforce
    have none: "find_sub_from CRLF sf (buffer io) = None"
    proof -
      have "\<not> prefix CRLF (drop j (drop sf (buffer io)))" for j
        using noLF by (auto simp: prefix_def dest!: arg_cong [where f = set] dest: in_set_dropD)
      then show ?thesis by (simp add: find_sub_from_def find_sub_None_iff)
    qed
    have noLF': "find_char_from LF sf (buffer io) = None"
      using noLF by (auto simp: find_char_from_def find_char_None dest: in_set_dropD)
    have lim: "\<not> (length (buffer io) > m \<and> (length (buffer io) - m \<noteq> 1 \<or> last (buffer io) \<noteq> CR))"
      using pre assms(5) True by (auto simp: prefix_snoc dest: prefix_length_le)
    have "?more \<noteq> []" using split True by (auto dest: arg_cong [where f = length])
    then obtain d bs rst where r: "incoming io = (d, Inr (Chunk bs)) # rst"
      "timed_read opts None ph io = (Inr (Chunk bs), io\<lparr>clock := clock io + d, incoming := rst\<rparr>)"
      "stream opts (io\<lparr>clock := clock io + d, incoming := rst, buffer := buffer io @ bs\<rparr>) = stream opts io"
      using quiet_read [OF assms(1), of io ph] by metis
    let ?io = "io\<lparr>clock := clock io + d, incoming := rst, buffer := buffer io @ bs\<rparr>"
    let ?sf = "if buffer io = [] then 0 else length (buffer io) - 1"
    have "pending ?io < pending io" using pending_chunk [OF r(2)] by simp
    moreover have "?sf \<le> length line" using True by auto
    ultimately obtain io' where "read_line opts m None ph ?sf ?io = (Inr line, io')"
      "stream opts io' = rest" "same_body ?io io'"
      using less.hyps [of ?io ?sf] r(3) less.prems(1) by auto
    moreover have "read_line opts m None ph sf io = read_line opts m None ph ?sf ?io"
      by (subst read_line.simps) (simp only: none noLF' lim r(2) option.case if_False simp_thms
          prod.case sum.case read_chunk.case, simp)
    ultimately show ?thesis by (auto simp: same_body_def)
  qed
qed

end
