(* ===== verification/Http_Body.thy ===== *)
theory Http_Body
  imports Transport
begin

text \<open>
  Message bodies (\<^verbatim>\<open>src/protocol.cpp\<close>): \<^verbatim>\<open>read_body\<close> with its delivery lambdas, the fixed-length,
  chunked and until-end modes and the trailers, and the writer's chunk framing \<^verbatim>\<open>make_chunk_frame\<close>.
  A loop of the source is a recursion on what the connection still holds, so every body reader
  returns for every peer.  The two delivery lambdas differ only in the consumer they call and in a
  message, so they are one definition with a flag.
\<close>

section \<open>Delivering a block\<close>

definition consumer_outcome :: "bytes \<Rightarrow> verdict \<Rightarrow> error_info" where
  "consumer_outcome refused v = (case v of
     Accept \<Rightarrow> no_error
   | Refuse \<Rightarrow> error_of E_cancelled refused
   | Raise what \<Rightarrow> error_of E_internal (''HTTP body callback failed: '' @ what)
   | Raise_other \<Rightarrow> error_of E_internal ''HTTP body callback failed'')"

definition past_deadline :: "read_options \<Rightarrow> io \<Rightarrow> bool" where
  "past_deadline opts io \<longleftrightarrow> (case deadline opts of None \<Rightarrow> False | Some d \<Rightarrow> clock io \<ge> d)"

text \<open>The consumer of the block: the callback in force, or the body being collected.\<close>

definition consume_block :: "read_options \<Rightarrow> bool \<Rightarrow> bytes \<Rightarrow> io \<Rightarrow> error_info \<times> io" where
  "consume_block opts awaited data io =
     (let callback = (if awaited then on_data_async opts else on_data opts);
          refused = (if awaited then ''HTTP async body callback cancelled the transfer''
                     else ''HTTP body callback cancelled the transfer'')
      in case callback of
           Some f \<Rightarrow> (case f data of (cost, v) \<Rightarrow>
             (consumer_outcome refused v, io\<lparr>clock := clock io + cost, delivered := delivered io @ [data]\<rparr>))
         | None \<Rightarrow> (no_error, io\<lparr>body := body io @ data\<rparr>))"

definition report_progress :: "read_options \<Rightarrow> nat option \<Rightarrow> io \<Rightarrow> error_info \<times> io" where
  "report_progress opts whole io =
     (case on_progress opts of
        None \<Rightarrow> (no_error, io)
      | Some f \<Rightarrow> (case f (received io) whole of (cost, v) \<Rightarrow>
          (consumer_outcome ''HTTP progress callback cancelled the transfer'' v,
           io\<lparr>clock := clock io + cost, down_reported := received io\<rparr>)))"

definition deliver ::
    "read_options \<Rightarrow> bool \<Rightarrow> bytes \<Rightarrow> nat option \<Rightarrow> io \<Rightarrow> error_info \<times> io" where
  "deliver opts awaited data whole io =
     (if data = [] then (no_error, io)
      else if is_cancelled opts io then (request_cancelled, io)
      else if past_deadline opts io then (error_of E_timeout ''Request deadline exceeded'', io)
      else if length data > max_body_size opts \<or> received io > max_body_size opts - length data
      then (error_of E_body_too_large ''HTTP body exceeds configured limit'', io)
      else
        (case consume_block opts awaited data (io\<lparr>received := received io + length data\<rparr>) of
           (e, io1) \<Rightarrow>
             if is_error e then (e, io1)
             else (case report_progress opts whole io1 of
               (e2, io2) \<Rightarrow>
                 if is_error e2 then (e2, io2)
                 else if past_deadline opts io2
                 then (error_of E_timeout ''Request deadline exceeded'', io2)
                 else (no_error,
                   case idle_timeout opts of None \<Rightarrow> io2
                   | Some t \<Rightarrow> io2\<lparr>idle_deadline := Some (clock io2 + t)\<rparr>))))"

definition body_deadline :: "nat option \<Rightarrow> io \<Rightarrow> nat option" where
  "body_deadline first_deadline io = (if received io = 0 then first_deadline else idle_deadline io)"

definition body_phase :: "io \<Rightarrow> bytes" where
  "body_phase io = (if received io = 0 then ''First response body byte'' else ''Response body idle'')"

definition read_more :: "read_options \<Rightarrow> nat option \<Rightarrow> io \<Rightarrow> read_chunk result \<times> io" where
  "read_more opts first_deadline io =
     timed_read opts (body_deadline first_deadline io) (body_phase io) io"

section \<open>A payload of known size\<close>

text \<open>
  The loop of a fixed-length body and of one chunk: from the buffer while it holds bytes, otherwise
  straight from the next read.
\<close>

lemma consume_block_frame:
  "incoming (snd (consume_block opts aw d io)) = incoming io" "buffer (snd (consume_block opts aw d io)) = buffer io"
  "received (snd (consume_block opts aw d io)) = received io"
  "write_side (snd (consume_block opts aw d io)) = write_side io"
  by (simp_all add: consume_block_def Let_def split: option.split prod.split)

lemma report_progress_frame:
  "incoming (snd (report_progress opts t io)) = incoming io" "buffer (snd (report_progress opts t io)) = buffer io"
  "received (snd (report_progress opts t io)) = received io" "body (snd (report_progress opts t io)) = body io"
  by (simp_all add: report_progress_def split: option.split prod.split)

lemma deliver_incoming: "incoming (snd (deliver opts aw d t io)) = incoming io"
  "buffer (snd (deliver opts aw d t io)) = buffer io"
  by (simp_all add: deliver_def split_beta Let_def consume_block_frame report_progress_frame split: option.split)

lemma read_more_incoming:
  "read_more opts fd io = (Inr c, io') \<Longrightarrow>
     \<exists>d rest. incoming io = (d, Inr c) # rest \<and> io' = io\<lparr>clock := clock io + d, incoming := rest\<rparr>"
  by (auto simp: read_more_def dest: timed_read_incoming)

lemma read_more_shorter: "read_more opts fd io = (Inr c, io') \<Longrightarrow> length (incoming io') < length (incoming io)"
  by (auto dest: read_more_incoming)

function read_payload ::
    "read_options \<Rightarrow> bool \<Rightarrow> nat option \<Rightarrow> bytes \<Rightarrow> nat option \<Rightarrow> nat \<Rightarrow> io \<Rightarrow> unit result \<times> io" where
  "read_payload opts awaited fd ended whole remaining io =
     (if remaining = 0 then (Inr (), io)
      else if buffer io = [] then
        (case read_more opts fd io of
           (Inl e, io') \<Rightarrow> (Inl e, io')
         | (Inr Closed, io') \<Rightarrow> (fail E_protocol ended, io')
         | (Inr (Chunk bs), io') \<Rightarrow>
             if bs = [] then read_payload opts awaited fd ended whole remaining io'
             else
               let direct = min remaining (length bs);
                   r = deliver opts awaited (substr bs 0 (Some direct)) whole io'
               in if is_error (fst r) then (Inl (fst r), snd r)
                  else read_payload opts awaited fd ended whole (remaining - direct)
                    (if direct < length bs
                     then (snd r)\<lparr>buffer := buffer (snd r) @ substr bs direct None\<rparr> else snd r))
      else
        let count = min remaining (length (buffer io));
            r = deliver opts awaited (substr (buffer io) 0 (Some count)) whole io
        in if is_error (fst r) then (Inl (fst r), snd r)
           else read_payload opts awaited fd ended whole (remaining - count)
             ((snd r)\<lparr>buffer := drop count (buffer (snd r))\<rparr>))"
  by pat_completeness auto
termination
  by (relation "measure (\<lambda>(_, _, _, _, _, remaining, io). remaining + length (incoming io))")
    (auto simp: deliver_incoming dest!: sym [of "(_, _)"] dest: read_more_shorter split: if_splits)

declare read_payload.simps [simp del]

section \<open>Chunked bodies\<close>

definition forbidden_trailers :: "bytes list" where
  "forbidden_trailers =
     [''Content-Length'', ''Transfer-Encoding'', ''Host'', ''Connection'', ''Trailer'', ''TE'',
      ''Upgrade'', ''Content-Encoding'', ''Content-Type'', ''Content-Range'', ''Authorization'',
      ''Proxy-Authorization'', ''WWW-Authenticate'', ''Proxy-Authenticate'', ''Cookie'', ''Set-Cookie'',
      ''Range'', ''If-Range'', ''Location'', ''If-Match'', ''If-None-Match'', ''If-Modified-Since'',
      ''If-Unmodified-Since'']"

definition parse_trailer :: "bytes \<Rightarrow> (bytes \<times> bytes) result" where
  "parse_trailer line =
     (case find_char CHR '':'' line of
        None \<Rightarrow> fail E_protocol ''Malformed HTTP trailer''
      | Some colon \<Rightarrow>
          let name = substr line 0 (Some colon); v = trim (substr line (colon + 1) None)
          in if \<not> valid_header_name name \<or> \<not> valid_header_value v
             then fail E_protocol ''Invalid HTTP trailer''
             else if list_ex (\<lambda>f. iequals name f) forbidden_trailers
             then fail E_protocol ''Forbidden control field in HTTP trailer''
             else Inr (name, v))"

text \<open>The size line: its chunk extension is checked and dropped.\<close>

definition parse_chunk_size :: "bytes \<Rightarrow> nat result" where
  "parse_chunk_size text =
     (case (case find_char CHR '';'' text of
              None \<Rightarrow> Inr text
            | Some i \<Rightarrow>
                let ext = substr text (i + 1) None
                in if ext = [] \<or> \<not> valid_header_value ext
                   then fail E_protocol ''Invalid chunk extension''
                   else Inr (substr text 0 (Some i))) of
        Inl e \<Rightarrow> Inl e
      | Inr digits \<Rightarrow>
          (case parse_number 16 uint64_max digits of
             None \<Rightarrow> fail E_protocol ''Invalid chunk size'' | Some n \<Rightarrow> Inr n))"

text \<open>
  The size line is parsed in place when it is buffered, and read by \<^verbatim>\<open>read_line\<close> otherwise.  The
  buffer is advanced only after a buffered line has parsed.
\<close>

definition chunk_line_limit :: nat where
  "chunk_line_limit = 16 * 1024"

definition read_chunk_size :: "read_options \<Rightarrow> nat option \<Rightarrow> io \<Rightarrow> nat result \<times> io" where
  "read_chunk_size opts fd io =
     (case find_sub CRLF (buffer io) of
        Some e \<Rightarrow>
          if e > chunk_line_limit then (fail E_protocol ''HTTP line exceeds configured limit'', io)
          else (case parse_chunk_size (substr (buffer io) 0 (Some e)) of
            Inl err \<Rightarrow> (Inl err, io)
          | Inr n \<Rightarrow> (Inr n, io\<lparr>buffer := drop (e + 2) (buffer io)\<rparr>))
      | None \<Rightarrow>
          (case read_line opts chunk_line_limit (body_deadline fd io) (body_phase io) 0 io of
             (Inl err, io') \<Rightarrow> (Inl err, io')
           | (Inr text, io') \<Rightarrow> (parse_chunk_size text, io')))"

lemma timed_read_pending:
  "timed_read opts pd ph io = (r, io') \<Longrightarrow> pending io' \<le> pending io \<and> buffer io' = buffer io"
  by (auto simp: timed_read_def connection_read_def pending_def split: if_splits sum.splits list.splits)

lemma read_line_pending:
  "pending (snd (read_line opts m pd ph sf io)) \<le> pending io
   \<and> (\<forall>text. fst (read_line opts m pd ph sf io) = Inr text \<longrightarrow> pending (snd (read_line opts m pd ph sf io)) < pending io)"
proof (induction "pending io" arbitrary: io sf rule: less_induct)
  case less
  show ?case
  proof (cases "find_sub_from CRLF sf (buffer io)")
    case (Some e)
    then have f: "find_sub CRLF (drop sf (buffer io)) = Some (e - sf)" "sf \<le> e"
      by (auto simp: find_sub_from_def)
    from find_sub_SomeD [OF f(1)] have "buffer io \<noteq> []" by auto
    then show ?thesis using Some by (simp add: read_line.simps pending_def)
  next
    case None
    obtain c io1 where r: "timed_read opts pd ph io = (c, io1)" by (cases "timed_read opts pd ph io")
    note le = timed_read_pending [OF r]
    show ?thesis
    proof (cases "\<exists>bs. c = Inr (Chunk bs)")
      case True
      then obtain bs where c: "c = Inr (Chunk bs)" ..
      let ?io = "io1\<lparr>buffer := buffer io1 @ bs\<rparr>"
      have lt: "pending ?io < pending io" using pending_chunk [OF r [unfolded c]] .
      let ?sf = "if buffer io = [] then 0 else length (buffer io) - 1"
      show ?thesis
      proof (cases "find_char_from LF sf (buffer io) = None \<and>
          \<not> (length (buffer io) > m \<and> (length (buffer io) - m \<noteq> 1 \<or> last (buffer io) \<noteq> CR))")
        case True
        then have guards: "(find_char_from LF sf (buffer io) \<noteq> None) = False"
          "(length (buffer io) > m \<and> (length (buffer io) - m \<noteq> 1 \<or> last (buffer io) \<noteq> CR)) = False"
          by simp_all
        have "read_line opts m pd ph sf io = read_line opts m pd ph ?sf ?io"
          by (intro trans [OF read_line.simps])
            (simp only: None r c guards option.case if_False prod.case sum.case read_chunk.case)
        with less [OF lt, of ?sf] lt show ?thesis by force
      next
        case False
        then have "\<exists>e. read_line opts m pd ph sf io = (Inl e, io)"
          by (subst read_line.simps) (auto simp: None)
        then show ?thesis by auto
      qed
    next
      case False
      then have "(\<exists>e. c = Inl e) \<or> c = Inr Closed" by (metis read_chunk.exhaust sum.exhaust)
      then have "read_line opts m pd ph sf io \<in> range (\<lambda>e. (Inl e, io1)) \<union> range (\<lambda>e. (Inl e, io))"
        by (subst read_line.simps) (auto simp: None r)
      then show ?thesis using le by auto
    qed
  qed
qed

lemma read_chunk_size_pending:
  assumes "read_chunk_size opts fd io = (Inr n, io')" shows "pending io' < pending io"
proof (cases "find_sub CRLF (buffer io)")
  case (Some e)
  then have "buffer io \<noteq> []" by auto
  then show ?thesis
    using assms Some by (auto simp: read_chunk_size_def pending_def split: if_splits sum.splits)
next
  case None
  with assms obtain l where
    "read_line opts chunk_line_limit (body_deadline fd io) (body_phase io) 0 io = (Inr l, io')"
    by (auto simp: read_chunk_size_def split: prod.splits sum.splits)
  with read_line_pending [of opts chunk_line_limit "body_deadline fd io" "body_phase io" 0 io]
  show ?thesis by simp
qed

function read_trailers ::
    "read_options \<Rightarrow> nat option \<Rightarrow> nat \<Rightarrow> headers \<Rightarrow> io \<Rightarrow> unit result \<times> headers \<times> io" where
  "read_trailers opts fd trailer_bytes h io =
     (let r = read_line opts (max_header_size opts) (body_deadline fd io) ''Response trailer'' 0 io
      in case fst r of
        Inl e \<Rightarrow> (Inl e, h, snd r)
      | Inr trailer \<Rightarrow>
          if length trailer > max_header_size opts
             \<or> trailer_bytes > max_header_size opts - length trailer
             \<or> max_header_size opts - trailer_bytes - length trailer < 2
          then (fail E_protocol ''HTTP trailers exceed configured limit'', h, snd r)
          else if trailer = [] then (Inr (), h, snd r)
          else (case parse_trailer trailer of
            Inl e \<Rightarrow> (Inl e, h, snd r)
          | Inr (name, v) \<Rightarrow>
              read_trailers opts fd (trailer_bytes + length trailer + 2) (headers_add h name v) (snd r)))"
  by pat_completeness auto
termination
proof (relation "measure (\<lambda>(_, _, _, _, io). pending io)", goal_cases)
  case (2 opts fd tb h io r trailer p name v)
  then show ?case
    using read_line_pending [of opts "max_header_size opts" "body_deadline fd io" "''Response trailer''" 0 io]
    by simp
qed simp

declare read_trailers.simps [simp del]

text \<open>The bytes after a chunk's payload.\<close>

function read_chunk_end :: "read_options \<Rightarrow> nat option \<Rightarrow> io \<Rightarrow> unit result \<times> io" where
  "read_chunk_end opts fd io =
     (if length (buffer io) < 2 then
        (case read_more opts fd io of
           (Inl e, io') \<Rightarrow> (Inl e, io')
         | (Inr Closed, io') \<Rightarrow> (fail E_protocol ''Unexpected end after HTTP chunk'', io')
         | (Inr (Chunk bs), io') \<Rightarrow> read_chunk_end opts fd (io'\<lparr>buffer := buffer io' @ bs\<rparr>))
      else if take 2 (buffer io) \<noteq> CRLF then (fail E_protocol ''Chunk payload lacks CRLF'', io)
      else (Inr (), io\<lparr>buffer := drop 2 (buffer io)\<rparr>))"
  by pat_completeness auto
termination
  by (relation "measure (\<lambda>(_, _, io). length (incoming io))")
    (auto dest!: sym [of "(_, _)"] dest: read_more_shorter)

declare read_chunk_end.simps [simp del]

text \<open>One chunk: \<open>True\<close> continues the loop, \<open>False\<close> has read the last chunk and its trailers.\<close>

definition chunk_round ::
    "read_options \<Rightarrow> bool \<Rightarrow> nat option \<Rightarrow> headers \<Rightarrow> io \<Rightarrow> bool result \<times> headers \<times> io" where
  "chunk_round opts awaited fd h io =
     (case read_chunk_size opts fd io of
        (Inl e, io1) \<Rightarrow> (Inl e, h, io1)
      | (Inr n, io1) \<Rightarrow>
          if n = 0 then
            (case read_trailers opts fd 0 h io1 of
               (Inl e, h', io2) \<Rightarrow> (Inl e, h', io2) | (Inr _, h', io2) \<Rightarrow> (Inr False, h', io2))
          else if n > max_body_size opts \<or> received io1 > max_body_size opts - n
          then (fail E_body_too_large ''Chunked HTTP body exceeds configured limit'', h, io1)
          else
            (case read_payload opts awaited fd ''Unexpected end of HTTP chunk'' None n io1 of
               (Inl e, io2) \<Rightarrow> (Inl e, h, io2)
             | (Inr _, io2) \<Rightarrow>
                 (case read_chunk_end opts fd io2 of
                    (Inl e, io3) \<Rightarrow> (Inl e, h, io3) | (Inr _, io3) \<Rightarrow> (Inr True, h, io3))))"

lemma read_more_pending:
  assumes "read_more opts fd io = (r, io')"
  shows "pending io' \<le> pending io" "buffer io' = buffer io"
    "r = Inr (Chunk bs) \<Longrightarrow> pending (io'\<lparr>buffer := buffer io' @ bs\<rparr>) < pending io"
  using assms timed_read_pending pending_chunk unfolding read_more_def by fast+

lemma deliver_pending [simp]: "pending (snd (deliver opts aw d t io)) = pending io"
  by (simp add: pending_def deliver_incoming)

text \<open>The four steps of the loop, for the proofs that follow it.\<close>

lemma read_payload_finished: "read_payload opts aw fd en t 0 io = (Inr (), io)"
  by (simp add: read_payload.simps)

lemma read_payload_buffered:
  "n \<noteq> 0 \<Longrightarrow> buffer io \<noteq> [] \<Longrightarrow> c = min n (length (buffer io)) \<Longrightarrow>
   r = deliver opts aw (substr (buffer io) 0 (Some c)) t io \<Longrightarrow>
   read_payload opts aw fd en t n io = (if is_error (fst r) then (Inl (fst r), snd r)
     else read_payload opts aw fd en t (n - c) ((snd r)\<lparr>buffer := drop c (buffer (snd r))\<rparr>))"
  by (intro trans [OF read_payload.simps]) (simp add: Let_def)

lemma read_payload_skip:
  "n \<noteq> 0 \<Longrightarrow> buffer io = [] \<Longrightarrow> read_more opts fd io = (Inr (Chunk []), io1) \<Longrightarrow>
   read_payload opts aw fd en t n io = read_payload opts aw fd en t n io1"
  by (intro trans [OF read_payload.simps]) simp

lemma read_payload_direct:
  "n \<noteq> 0 \<Longrightarrow> buffer io = [] \<Longrightarrow> read_more opts fd io = (Inr (Chunk bs), io1) \<Longrightarrow> bs \<noteq> [] \<Longrightarrow>
   c = min n (length bs) \<Longrightarrow> r = deliver opts aw (substr bs 0 (Some c)) t io1 \<Longrightarrow>
   read_payload opts aw fd en t n io = (if is_error (fst r) then (Inl (fst r), snd r)
     else read_payload opts aw fd en t (n - c)
       (if c < length bs then (snd r)\<lparr>buffer := buffer (snd r) @ substr bs c None\<rparr> else snd r))"
  by (intro trans [OF read_payload.simps]) (simp add: Let_def)

lemma read_payload_stop:
  "n \<noteq> 0 \<Longrightarrow> buffer io = [] \<Longrightarrow> read_more opts fd io = (c, io1) \<Longrightarrow> \<nexists>bs. c = Inr (Chunk bs) \<Longrightarrow>
   read_payload opts aw fd en t n io =
     ((case c of Inl e \<Rightarrow> Inl e | Inr _ \<Rightarrow> fail E_protocol en), io1)"
  by (subst read_payload.simps) (auto split: sum.split read_chunk.split)

lemma read_payload_induct [case_names finished buffered stop skip direct]:
  assumes "\<And>io. P 0 io"
    and "\<And>n io. n \<noteq> 0 \<Longrightarrow> buffer io \<noteq> [] \<Longrightarrow>
      (\<And>io'. P (n - min n (length (buffer io))) io') \<Longrightarrow> P n io"
    and "\<And>n io c io1. n \<noteq> 0 \<Longrightarrow> buffer io = [] \<Longrightarrow> read_more opts fd io = (c, io1) \<Longrightarrow>
      \<nexists>bs. c = Inr (Chunk bs) \<Longrightarrow> P n io"
    and "\<And>n io io1. n \<noteq> 0 \<Longrightarrow> buffer io = [] \<Longrightarrow> read_more opts fd io = (Inr (Chunk []), io1) \<Longrightarrow>
      P n io1 \<Longrightarrow> P n io"
    and "\<And>n io bs io1. n \<noteq> 0 \<Longrightarrow> buffer io = [] \<Longrightarrow> read_more opts fd io = (Inr (Chunk bs), io1) \<Longrightarrow>
      bs \<noteq> [] \<Longrightarrow> (\<And>io'. P (n - min n (length bs)) io') \<Longrightarrow> P n io"
  shows "P n io"
proof (induction "(n, length (incoming io))" arbitrary: n io rule: wf_induct_rule [OF wf_lex_prod [OF wf_less wf_less]])
  case 1
  then have sub: "m < n \<Longrightarrow> P m io'" for m io' by auto
  show ?case
  proof (cases "n = 0 \<or> buffer io \<noteq> []")
    case True
    then show ?thesis using assms(1,2) sub [of "n - min n (length (buffer io))"] by (cases "n = 0") auto
  next
    case False
    obtain c io1 where r: "read_more opts fd io = (c, io1)" by (cases "read_more opts fd io")
    show ?thesis
    proof (cases "\<exists>bs. c = Inr (Chunk bs)")
      case True
      then obtain bs where c: "c = Inr (Chunk bs)" ..
      have "P n io1" using 1 read_more_shorter [OF r [unfolded c]] by auto
      then show ?thesis
        using False assms(4,5) r c sub [of "n - min n (length bs)"] by (cases "bs = []") auto
    qed (use False assms(3) r in blast)
  qed
qed

lemma read_payload_pending: "pending (snd (read_payload opts aw fd en t n io)) \<le> pending io"
proof (induction n io rule: read_payload_induct [of _ opts fd])
  case (finished io)
  then show ?case by (simp add: read_payload_finished)
next
  case (buffered n io)
  let ?c = "min n (length (buffer io))"
  let ?r = "deliver opts aw (substr (buffer io) 0 (Some ?c)) t io"
  have "pending ((snd ?r)\<lparr>buffer := drop ?c (buffer (snd ?r))\<rparr>) \<le> pending io"
    by (simp add: pending_def deliver_incoming)
  then show ?case
    using buffered(3) [of "(snd ?r)\<lparr>buffer := drop ?c (buffer (snd ?r))\<rparr>"]
    by (simp add: read_payload_buffered [OF buffered(1,2) refl refl])
next
  case (stop n io c io1)
  then show ?case using read_more_pending(1) [OF stop(3)] by (simp add: read_payload_stop)
next
  case (skip n io io1)
  then show ?case using read_more_pending(1) [OF skip(3)] by (simp add: read_payload_skip)
next
  case (direct n io bs io1)
  note le = read_more_pending [OF direct(3)]
  let ?d = "min n (length bs)"
  let ?r = "deliver opts aw (substr bs 0 (Some ?d)) t io1"
  let ?io = "if ?d < length bs then (snd ?r)\<lparr>buffer := buffer (snd ?r) @ substr bs ?d None\<rparr> else snd ?r"
  have "pending ?io \<le> pending (io1\<lparr>buffer := buffer io1 @ bs\<rparr>)"
    by (simp add: pending_def deliver_incoming substr_def)
  then have io: "pending ?io \<le> pending io" using le(3) [OF refl] by simp
  show ?case
  proof (cases "is_error (fst ?r)")
    case True
    then have "read_payload opts aw fd en t n io = (Inl (fst ?r), snd ?r)"
      unfolding read_payload_direct [OF direct(1-4) refl refl] by (simp only: if_True)
    then show ?thesis using le(1) by simp
  next
    case False
    then have "read_payload opts aw fd en t n io = read_payload opts aw fd en t (n - ?d) ?io"
      unfolding read_payload_direct [OF direct(1-4) refl refl] by (simp only: if_False)
    then show ?thesis using order.trans [OF direct(5) io] by simp
  qed
qed

lemma read_chunk_end_pending: "pending (snd (read_chunk_end opts fd io)) \<le> pending io"
proof (induction opts fd io rule: read_chunk_end.induct)
  case (1 opts fd io)
  obtain c io1 where r: "read_more opts fd io = (c, io1)" by (cases "read_more opts fd io")
  note le = read_more_pending [OF r]
  show ?case
  proof (cases "length (buffer io) < 2")
    case False
    then show ?thesis by (subst read_chunk_end.simps) (simp add: pending_def)
  next
    case short: True
    show ?thesis
    proof (cases "\<exists>bs. c = Inr (Chunk bs)")
      case True
      then obtain bs where c: "c = Inr (Chunk bs)" ..
      have "read_chunk_end opts fd io = read_chunk_end opts fd (io1\<lparr>buffer := buffer io1 @ bs\<rparr>)"
        using short by (intro trans [OF read_chunk_end.simps]) (simp add: r c)
      then show ?thesis using 1 [OF short r [symmetric] c refl] le(3) [OF c] by simp
    next
      case False
      then have "(\<exists>e. c = Inl e) \<or> c = Inr Closed" by (metis read_chunk.exhaust sum.exhaust)
      then have "snd (read_chunk_end opts fd io) = io1"
        by (subst read_chunk_end.simps) (auto simp: short r)
      then show ?thesis using le by simp
    qed
  qed
qed

lemma le_diff_room: "(n::nat) \<le> m \<and> r \<le> m - n \<longleftrightarrow> r + n \<le> m"
  by auto

lemma chunk_round_True:
  assumes "chunk_round opts aw fd h io = (Inr True, h', io')"
  obtains n io1 io2 where "read_chunk_size opts fd io = (Inr n, io1)" "n \<noteq> 0" "h' = h"
    "received io1 + n \<le> max_body_size opts"
    "read_payload opts aw fd ''Unexpected end of HTTP chunk'' None n io1 = (Inr (), io2)"
    "read_chunk_end opts fd io2 = (Inr (), io')"
proof -
  obtain n io1 where size: "read_chunk_size opts fd io = (Inr n, io1)"
    using assms by (simp add: chunk_round_def split: prod.splits sum.splits)
  obtain e2 io2 where payload:
    "read_payload opts aw fd ''Unexpected end of HTTP chunk'' None n io1 = (e2, io2)" by (rule prod.exhaust)
  obtain e3 io3 where last: "read_chunk_end opts fd io2 = (e3, io3)" by (rule prod.exhaust)
  show thesis
    using assms that [OF size] payload last
    by (simp add: chunk_round_def size payload last not_less le_diff_room
        split: prod.splits sum.splits if_splits)
qed

lemma chunk_round_False:
  assumes "chunk_round opts aw fd h io = (Inr False, h', io')"
  obtains io1 where "read_chunk_size opts fd io = (Inr 0, io1)" "read_trailers opts fd 0 h io1 = (Inr (), h', io')"
  using assms by (simp add: chunk_round_def split: prod.splits sum.splits if_splits)

lemma chunk_round_pending:
  assumes "chunk_round opts aw fd h io = (Inr True, h', io')" shows "pending io' < pending io"
proof (rule chunk_round_True [OF assms])
  fix n io1 io2
  assume size: "read_chunk_size opts fd io = (Inr n, io1)"
    and payload: "read_payload opts aw fd ''Unexpected end of HTTP chunk'' None n io1 = (Inr (), io2)"
    and last: "read_chunk_end opts fd io2 = (Inr (), io')"
  have "pending io' \<le> pending io2" using read_chunk_end_pending [of opts fd io2] last by simp
  also have "\<dots> \<le> pending io1"
    using read_payload_pending [of opts aw fd "''Unexpected end of HTTP chunk''" None n io1] payload by simp
  also have "\<dots> < pending io" by (rule read_chunk_size_pending [OF size])
  finally show ?thesis .
qed

function read_chunked ::
    "read_options \<Rightarrow> bool \<Rightarrow> nat option \<Rightarrow> headers \<Rightarrow> io \<Rightarrow> unit result \<times> headers \<times> io" where
  "read_chunked opts awaited fd h io =
     (case chunk_round opts awaited fd h io of
        (Inl e, h', io') \<Rightarrow> (Inl e, h', io')
      | (Inr continue, h', io') \<Rightarrow>
          if continue then read_chunked opts awaited fd h' io' else (Inr (), h', io'))"
  by pat_completeness auto
termination
proof (relation "measure (\<lambda>(_, _, _, _, io). pending io)", goal_cases)
  case (2 opts awaited fd h io x y continue h' io')
  then show ?case using chunk_round_pending [of opts awaited fd h io h' io'] by (cases y) simp
qed simp

declare read_chunked.simps [simp del]

section \<open>The other modes, and the body of a message\<close>

definition read_fixed :: "read_options \<Rightarrow> bool \<Rightarrow> nat option \<Rightarrow> nat \<Rightarrow> io \<Rightarrow> unit result \<times> io" where
  "read_fixed opts awaited fd len io =
     (if len > max_body_size opts
      then (fail E_body_too_large ''HTTP body exceeds configured limit'', io)
      else read_payload opts awaited fd ''Truncated HTTP body'' (Some len) len io)"

function drain_connection :: "read_options \<Rightarrow> bool \<Rightarrow> nat option \<Rightarrow> io \<Rightarrow> unit result \<times> io" where
  "drain_connection opts awaited fd io =
     (case read_more opts fd io of
        (Inl e, io') \<Rightarrow> (Inl e, io')
      | (Inr Closed, io') \<Rightarrow> (Inr (), io')
      | (Inr (Chunk bs), io') \<Rightarrow>
          let r = deliver opts awaited bs None io'
          in if is_error (fst r) then (Inl (fst r), snd r) else drain_connection opts awaited fd (snd r))"
  by pat_completeness auto
termination
  by (relation "measure (\<lambda>(_, _, _, io). length (incoming io))")
    (auto simp: deliver_incoming dest!: sym [of "(_, _)"] dest: read_more_shorter)

declare drain_connection.simps [simp del]

definition read_until_eof :: "read_options \<Rightarrow> bool \<Rightarrow> nat option \<Rightarrow> io \<Rightarrow> unit result \<times> io" where
  "read_until_eof opts awaited fd io =
     (if buffer io = [] then drain_connection opts awaited fd io
      else
        let r = deliver opts awaited (buffer io) None io; io' = (snd r)\<lparr>buffer := []\<rparr>
        in if is_error (fst r) then (Inl (fst r), io') else drain_connection opts awaited fd io')"

text \<open>A local of the source (the body, the count, the idle deadline) starts afresh in each call.\<close>

definition read_body ::
    "read_options \<Rightarrow> parsed_head \<Rightarrow> bool \<Rightarrow> bool \<Rightarrow> io \<Rightarrow> bytes result \<times> headers \<times> io" where
  "read_body opts head body_until_eof no_body io0 =
     (let io = io0\<lparr>received := 0, body := [], idle_deadline := None\<rparr>;
          fd = map_option (\<lambda>t. clock io + t) (first_body_byte_timeout opts);
          awaited = (on_data_async opts \<noteq> None \<and> on_data opts = None);
          h = head_fields head;
          (e, h', io') =
            (if no_body then (Inr (), h, io)
             else if chunked head then read_chunked opts awaited fd h io
             else (case content_length head of
               Some len \<Rightarrow> (case read_fixed opts awaited fd len io of (e, io') \<Rightarrow> (e, h, io'))
             | None \<Rightarrow>
                 if body_until_eof
                 then (case read_until_eof opts awaited fd io of (e, io') \<Rightarrow> (e, h, io'))
                 else (Inr (), h, io)))
      in (map_sum id (\<lambda>_. body io') e, h', io'))"

section \<open>Writing chunks\<close>

definition make_chunk_frame :: "bytes \<Rightarrow> bytes" where
  "make_chunk_frame data = to_hex (length data) @ CRLF @ data @ CRLF"

definition last_chunk :: bytes where
  "last_chunk = ''0'' @ CRLF @ CRLF"

end
