(* ===== verification/Http_Body_Facts.thy ===== *)
theory Http_Body_Facts
  imports Http_Body
begin

text \<open>
  What the body readers of \<open>Http_Body\<close> guarantee: a body that is handed over is complete and within
  the limit whatever the peer does, a trailer never adds a framing field, and a body framed by the
  writer is read back however the transport cuts it.
\<close>

section \<open>Complete or refused\<close>

definition collects :: "read_options \<Rightarrow> bool" where
  "collects opts \<longleftrightarrow> on_data opts = None \<and> on_data_async opts = None"

definition fits :: "read_options \<Rightarrow> io \<Rightarrow> bool" where
  "fits opts io \<longleftrightarrow> received io \<le> max_body_size opts \<and> length (body io) \<le> received io
     \<and> (collects opts \<longrightarrow> length (body io) = received io)"

lemma fits_updates [simp]:
  "fits opts (io\<lparr>buffer := b\<rparr>) = fits opts io" "fits opts (io\<lparr>clock := t\<rparr>) = fits opts io"
  "fits opts (io\<lparr>incoming := i\<rparr>) = fits opts io"
  by (simp_all add: fits_def)

lemma consume_block_body:
  "collects opts \<Longrightarrow> consume_block opts aw d io = (no_error, io\<lparr>body := body io @ d\<rparr>)"
  by (simp add: consume_block_def collects_def)

lemma consume_block_length: "length (body (snd (consume_block opts aw d io))) \<le> length (body io) + length d"
  by (simp add: consume_block_def Let_def split: option.split prod.split)

lemma request_cancelled_error [simp]: "is_error request_cancelled"
  by (simp add: request_cancelled_def)

text \<open>The steps of a successful delivery.\<close>

lemma deliver_okE:
  assumes "\<not> is_error (fst (deliver opts aw d t io))" "d \<noteq> []"
  obtains io1 io2 where "received io + length d \<le> max_body_size opts"
    "consume_block opts aw d (io\<lparr>received := received io + length d\<rparr>) = (io1)" "\<not> is_error (fst io1)"
    "report_progress opts t (snd io1) = io2" "\<not> is_error (fst io2)"
    "snd (deliver opts aw d t io) = (case idle_timeout opts of None \<Rightarrow> snd io2
       | Some x \<Rightarrow> (snd io2)\<lparr>idle_deadline := Some (clock (snd io2) + x)\<rparr>)"
proof (rule that [OF _ refl _ refl])
  show "received io + length d \<le> max_body_size opts"
    using assms by (simp add: deliver_def split: if_splits) linarith
qed (use assms in \<open>simp_all add: deliver_def split_beta split: if_splits option.splits\<close>)

lemma deliver_fits:
  assumes "fits opts io" "\<not> is_error (fst (deliver opts aw d t io))"
  shows "fits opts (snd (deliver opts aw d t io)) \<and> received (snd (deliver opts aw d t io)) = received io + length d"
proof (cases "d = []")
  case False
  from assms(2) this show ?thesis
  proof (rule deliver_okE)
    fix io1 io2
    assume "received io + length d \<le> max_body_size opts"
      "consume_block opts aw d (io\<lparr>received := received io + length d\<rparr>) = io1"
      "report_progress opts t (snd io1) = io2"
      "snd (deliver opts aw d t io) = (case idle_timeout opts of None \<Rightarrow> snd io2
         | Some x \<Rightarrow> (snd io2)\<lparr>idle_deadline := Some (clock (snd io2) + x)\<rparr>)"
    then show ?thesis
      using assms(1) consume_block_length [of opts aw d "io\<lparr>received := received io + length d\<rparr>"]
      by (cases "collects opts")
        (auto simp: fits_def consume_block_body consume_block_frame report_progress_frame split: option.split)
  qed
qed (use assms in \<open>simp add: deliver_def\<close>)

lemma read_more_fits:
  assumes "read_more opts fd io = (Inr c, io')"
  shows "fits opts io' = fits opts io" "received io' = received io"
  using read_more_incoming [OF assms] by (auto simp: fits_def)

lemma read_payload_fits:
  "fits opts io \<Longrightarrow> read_payload opts aw fd en t n io = (Inr (), io') \<Longrightarrow>
     fits opts io' \<and> received io' = received io + n"
proof (induction n io rule: read_payload_induct [of _ opts fd])
  case (finished io)
  then show ?case by (simp add: read_payload_finished)
next
  case (buffered n io)
  let ?c = "min n (length (buffer io))"
  let ?r = "deliver opts aw (substr (buffer io) 0 (Some ?c)) t io"
  note step = buffered.prems(2) [unfolded read_payload_buffered [OF buffered(1,2) refl refl]]
  then have ok: "\<not> is_error (fst ?r)" by (auto split: if_splits)
  from deliver_fits [OF buffered.prems(1) ok] step ok
    buffered(3) [of "(snd ?r)\<lparr>buffer := drop ?c (buffer (snd ?r))\<rparr>"]
  show ?case by (simp add: substr_def)
next
  case (stop n io c io1)
  then show ?case by (auto simp: read_payload_stop split: sum.splits)
next
  case (skip n io io1)
  then show ?case using read_more_fits [OF skip(3)] by (simp add: read_payload_skip)
next
  case (direct n io bs io1)
  define c where "c = min n (length bs)"
  define r where "r = deliver opts aw (substr bs 0 (Some c)) t io1"
  note step = direct.prems(2) [unfolded read_payload_direct [OF direct(1-4) c_def r_def]]
  then have ok: "\<not> is_error (fst r)" by (auto split: if_splits)
  have "fits opts io1" using direct.prems(1) read_more_fits [OF direct(3)] by simp
  note sent = deliver_fits [OF this ok [unfolded r_def], folded r_def]
  define io2 where "io2 = (if c < length bs then (snd r)\<lparr>buffer := buffer (snd r) @ substr bs c None\<rparr> else snd r)"
  have "fits opts io2 \<and> received io2 = received (snd r)" using sent by (simp add: io2_def)
  moreover have "received (snd r) = received io + c"
    using sent read_more_fits(2) [OF direct(3)] by (simp add: substr_def c_def)
  moreover have "read_payload opts aw fd en t (n - c) io2 = (Inr (), io')"
    using step ok unfolding io2_def by (simp only: if_False)
  ultimately show ?case using direct(5) [of io2] by (simp add: c_def)
qed

text \<open>Reading lines never touches the count, the body or the idle deadline.\<close>

lemma connection_read_same: "same_body io (snd (connection_read t io))"
  by (simp add: connection_read_def split: prod.split list.split)

lemma timed_read_same: "same_body io (snd (timed_read opts pd ph io))"
proof -
  have "connection_read t io = (r, io') \<Longrightarrow> same_body io io'" for t r io'
    using connection_read_same [of io t] by simp
  then show ?thesis by (simp add: timed_read_def split: sum.split prod.split)
qed

lemma read_line_same: "same_body io (snd (read_line opts m pd ph sf io))"
proof (induction opts m pd ph sf io rule: read_line.induct)
  case (1 opts m pd ph sf io)
  obtain c io1 where r: "timed_read opts pd ph io = (c, io1)" by (rule prod.exhaust)
  have same: "same_body io io1" using timed_read_same [of io opts pd ph] r by simp
  show ?case
  proof (cases "find_sub_from CRLF sf (buffer io) = None \<and> find_char_from LF sf (buffer io) = None \<and>
      \<not> (length (buffer io) > m \<and> (length (buffer io) - m \<noteq> 1 \<or> last (buffer io) \<noteq> CR))
      \<and> (\<exists>bs. c = Inr (Chunk bs))")
    case True
    then obtain bs where c: "c = Inr (Chunk bs)" by blast
    from True have guards: "(find_char_from LF sf (buffer io) \<noteq> None) = False"
      "find_sub_from CRLF sf (buffer io) = None"
      "(length (buffer io) > m \<and> (length (buffer io) - m \<noteq> 1 \<or> last (buffer io) \<noteq> CR)) = False"
      by simp_all
    let ?sf = "if buffer io = [] then 0 else length (buffer io) - 1"
    have "read_line opts m pd ph sf io = read_line opts m pd ph ?sf (io1\<lparr>buffer := buffer io1 @ bs\<rparr>)"
      by (intro trans [OF read_line.simps])
        (simp only: r c guards option.case if_False prod.case sum.case read_chunk.case)
    then show ?thesis
      using 1 [OF guards(2) _ _ r [symmetric] c refl] guards(1,3) same by (auto intro: same_body_trans)
  next
    case False
    then have "snd (read_line opts m pd ph sf io) \<in> {io, io1} \<union> range (\<lambda>e. io\<lparr>buffer := drop (e + 2) (buffer io)\<rparr>)"
      by (subst read_line.simps) (auto simp: r split: option.split sum.split read_chunk.split)
    then show ?thesis using same by auto
  qed
qed

lemma same_body_fits: "same_body io io' \<Longrightarrow> fits opts io' = fits opts io \<and> received io' = received io"
  by (simp add: same_body_def fits_def)

lemma read_trailers_same: "same_body io (snd (snd (read_trailers opts fd tb h io)))"
proof (induction opts fd tb h io rule: read_trailers.induct)
  case (1 opts fd tb h io)
  define r where "r = read_line opts (max_header_size opts) (body_deadline fd io) ''Response trailer'' 0 io"
  have same: "same_body io (snd r)" unfolding r_def by (rule read_line_same)
  show ?case
  proof (cases "\<exists>l p. fst r = Inr l \<and> parse_trailer l = Inr p \<and> l \<noteq> [] \<and>
      \<not> (length l > max_header_size opts \<or> tb > max_header_size opts - length l
         \<or> max_header_size opts - tb - length l < 2)")
    case True
    then obtain l name v where l: "fst r = Inr l" "parse_trailer l = Inr (name, v)" "l \<noteq> []"
      and g: "(length l > max_header_size opts \<or> tb > max_header_size opts - length l
         \<or> max_header_size opts - tb - length l < 2) = False"
      by auto
    then have "read_trailers opts fd tb h io =
        read_trailers opts fd (tb + length l + 2) (headers_add h name v) (snd r)"
      by (intro trans [OF read_trailers.simps])
        (simp only: r_def [symmetric] Let_def l g if_False sum.case prod.case)
    then show ?thesis using 1 [OF r_def l(1) _ l(3) l(2) refl] g same by (auto intro: same_body_trans)
  next
    case False
    then have "snd (snd (read_trailers opts fd tb h io)) = snd r"
      by (subst read_trailers.simps) (auto simp: r_def [symmetric] Let_def split: sum.split)
    then show ?thesis using same by simp
  qed
qed

lemma read_chunk_end_same: "same_body io (snd (read_chunk_end opts fd io))"
proof (induction opts fd io rule: read_chunk_end.induct)
  case (1 opts fd io)
  obtain c io1 where r: "read_more opts fd io = (c, io1)" by (rule prod.exhaust)
  have same: "same_body io io1"
    using timed_read_same [of io opts "body_deadline fd io" "body_phase io"] r by (simp add: read_more_def)
  show ?case
  proof (cases "length (buffer io) < 2 \<and> (\<exists>bs. c = Inr (Chunk bs))")
    case True
    then obtain bs where c: "c = Inr (Chunk bs)" by blast
    then have "read_chunk_end opts fd io = read_chunk_end opts fd (io1\<lparr>buffer := buffer io1 @ bs\<rparr>)"
      using True by (intro trans [OF read_chunk_end.simps]) (simp add: r)
    then show ?thesis using 1 [OF _ r [symmetric] c refl] True same by (auto intro: same_body_trans)
  next
    case False
    then have "snd (read_chunk_end opts fd io) \<in> {io, io1, io\<lparr>buffer := drop 2 (buffer io)\<rparr>}"
      by (subst read_chunk_end.simps) (auto simp: r split: sum.split read_chunk.split)
    then show ?thesis using same by auto
  qed
qed

lemma read_chunk_size_same: "same_body io (snd (read_chunk_size opts fd io))"
proof -
  obtain r io1 where "read_line opts chunk_line_limit (body_deadline fd io) (body_phase io) 0 io = (r, io1)"
    by (rule prod.exhaust)
  then show ?thesis
    using read_line_same [of io opts chunk_line_limit "body_deadline fd io" "body_phase io" 0]
    by (simp add: read_chunk_size_def split: option.split sum.split)
qed

lemma read_chunked_fits:
  "fits opts io \<Longrightarrow> read_chunked opts aw fd h io = (Inr (), h', io') \<Longrightarrow> fits opts io'"
proof (induction opts aw fd h io rule: read_chunked.induct)
  case (1 opts aw fd h io)
  then obtain cont h1 io1 where round: "chunk_round opts aw fd h io = (Inr cont, h1, io1)"
    by (subst (asm) (2) read_chunked.simps) (auto split: prod.splits sum.splits)
  show ?case
  proof (cases cont)
    case True
    with round have more: "chunk_round opts aw fd h io = (Inr True, h1, io1)" by simp
    have "fits opts io1"
    proof (rule chunk_round_True [OF more])
      fix n io2 io3
      assume a: "read_chunk_size opts fd io = (Inr n, io2)" "read_chunk_end opts fd io3 = (Inr (), io1)"
        and p: "read_payload opts aw fd ''Unexpected end of HTTP chunk'' None n io2 = (Inr (), io3)"
      have "fits opts io2"
        using same_body_fits [OF read_chunk_size_same] a(1) "1.prems"(1) by (metis snd_conv)
      then have "fits opts io3" using read_payload_fits p by blast
      then show ?thesis using same_body_fits [OF read_chunk_end_same] a(2) by (metis snd_conv)
    qed
    moreover have "read_chunked opts aw fd h1 io1 = (Inr (), h', io')"
      using "1.prems"(2) round True by (subst (asm) read_chunked.simps) simp
    ultimately show ?thesis using "1.IH" [OF round [symmetric]] True by auto
  next
    case False
    with round have last: "chunk_round opts aw fd h io = (Inr False, h1, io1)" by simp
    show ?thesis
    proof (rule chunk_round_False [OF last])
      fix io2
      assume a: "read_chunk_size opts fd io = (Inr 0, io2)" "read_trailers opts fd 0 h io2 = (Inr (), h1, io1)"
      have "fits opts io2"
        using same_body_fits [OF read_chunk_size_same] a(1) "1.prems"(1) by (metis snd_conv)
      then have "fits opts io1" using same_body_fits [OF read_trailers_same] a(2) by (metis snd_conv)
      then show ?thesis using "1.prems"(2) round False by (subst (asm) read_chunked.simps) simp
    qed
  qed
qed

lemma drain_connection_fits:
  "fits opts io \<Longrightarrow> drain_connection opts aw fd io = (Inr (), io') \<Longrightarrow> fits opts io'"
proof (induction opts aw fd io rule: drain_connection.induct)
  case (1 opts aw fd io)
  obtain c io1 where r: "read_more opts fd io = (c, io1)" by (rule prod.exhaust)
  with "1.prems"(2) obtain e where c: "c = Inr e"
    by (cases c) (simp_all add: drain_connection.simps [of opts aw fd io])
  have fits: "fits opts io1" using "1.prems"(1) read_more_fits(1) [OF r [unfolded c]] by simp
  show ?case
  proof (cases e)
    case (Chunk bs)
    let ?r = "deliver opts aw bs None io1"
    have "(if is_error (fst ?r) then (Inl (fst ?r), snd ?r) else drain_connection opts aw fd (snd ?r)) = (Inr (), io')"
      using "1.prems"(2) by (simp add: drain_connection.simps [of opts aw fd io] r c Chunk Let_def)
    then have "\<not> is_error (fst ?r)" "drain_connection opts aw fd (snd ?r) = (Inr (), io')"
      by (simp_all split: if_splits)
    then show ?thesis
      using "1.IH" [OF r [symmetric] c Chunk refl] deliver_fits [OF fits] by simp
  next
    case Closed
    then show ?thesis using "1.prems"(2) fits by (simp add: drain_connection.simps [of opts aw fd io] r c)
  qed
qed

lemma read_until_eof_fits:
  assumes "fits opts io" "read_until_eof opts aw fd io = (Inr (), io')" shows "fits opts io'"
proof (cases "buffer io = []")
  case True
  then show ?thesis using assms drain_connection_fits by (simp add: read_until_eof_def)
next
  case False
  let ?r = "deliver opts aw (buffer io) None io"
  have ok: "\<not> is_error (fst ?r)" "drain_connection opts aw fd ((snd ?r)\<lparr>buffer := []\<rparr>) = (Inr (), io')"
    using assms(2) False by (simp_all add: read_until_eof_def Let_def split: if_splits)
  then show ?thesis using deliver_fits [OF assms(1)] drain_connection_fits by (metis fits_updates(1))
qed

text \<open>The state a call starts from.\<close>

definition fresh :: "io \<Rightarrow> io" where
  "fresh io = io\<lparr>received := 0, body := [], idle_deadline := None\<rparr>"

lemma fresh_simps [simp]:
  "received (fresh io) = 0" "body (fresh io) = []" "idle_deadline (fresh io) = None"
  "buffer (fresh io) = buffer io" "incoming (fresh io) = incoming io" "clock (fresh io) = clock io"
  "delivered (fresh io) = delivered io" "fits opts (fresh io)" "write_side (fresh io) = write_side io"
  by (simp_all add: fresh_def fits_def)

lemma map_sum_Inr: "map_sum id (\<lambda>_. v) r = Inr b \<longleftrightarrow> r = Inr () \<and> b = v"
  by (cases r) auto

lemma read_body_cases:
  assumes "read_body opts head eof nb io = (Inr b, h, io')"
  obtains fd aw where "b = body io'" "nb" "io' = fresh io" "h = head_fields head"
  | fd aw where "b = body io'" "\<not> nb" "chunked head"
      "read_chunked opts aw fd (head_fields head) (fresh io) = (Inr (), h, io')"
  | fd aw n where "b = body io'" "\<not> nb" "\<not> chunked head" "content_length head = Some n" "n \<le> max_body_size opts"
      "read_payload opts aw fd ''Truncated HTTP body'' (Some n) n (fresh io) = (Inr (), io')" "h = head_fields head"
  | fd aw where "b = body io'" "\<not> nb" "\<not> chunked head" "content_length head = None"
      "read_until_eof opts aw fd (fresh io) = (Inr (), io')" "h = head_fields head"
  | fd aw where "b = body io'" "\<not> nb" "\<not> chunked head" "content_length head = None" "io' = fresh io" "h = head_fields head"
proof -
  let ?fd = "map_option (\<lambda>t. clock io + t) (first_body_byte_timeout opts)"
  let ?aw = "on_data_async opts \<noteq> None \<and> on_data opts = None"
  note body = assms [unfolded read_body_def Let_def, folded fresh_def]
  show thesis
  proof (cases "nb \<or> chunked head \<or> content_length head \<noteq> None")
    case False
    then show thesis using body that(4,5) by (auto simp: map_sum_Inr split: if_splits prod.splits)
  next
    case True
    then show thesis
      using body that(1,2,3) by (auto simp: read_fixed_def map_sum_Inr split: if_splits prod.splits)
  qed
qed

lemma read_body_fits:
  assumes "read_body opts head eof nb io = (Inr b, h, io')"
  shows "fits opts io'" "b = body io'"
  using assms
  by (cases rule: read_body_cases;
      auto dest: read_chunked_fits [rotated] read_payload_fits [rotated] read_until_eof_fits [rotated])+

text \<open>C21: A body that is handed over never exceeds the configured limit, whatever the peer sends and
  however the message is framed.\<close>

theorem read_body_bounded:
  assumes "read_body opts head eof nb io = (Inr b, h, io')"
  shows "received io' \<le> max_body_size opts \<and> length b \<le> max_body_size opts"
  using read_body_fits [OF assms] by (simp add: fits_def)

text \<open>A message with a Content-Length (and neither chunked nor bodiless) is handed over only when
  all of it has arrived: a body cut short by the peer is never taken for a complete one.\<close>

lemma read_body_complete:
  assumes "read_body opts head eof False io = (Inr b, h, io')"
    and "\<not> chunked head" "content_length head = Some n"
  shows "received io' = n \<and> (collects opts \<longrightarrow> length b = n)"
  using assms(1)
proof (cases rule: read_body_cases)
  case (3 fd aw m)
  then have "received io' = m"
    using read_payload_fits [OF fresh_simps(8)] by fastforce
  then show ?thesis using 3 assms read_body_fits [OF assms(1)] by (simp add: fits_def)
qed (use assms in auto)

section \<open>Bodies that arrive\<close>

text \<open>Consumers that never refuse, and what they have been given.\<close>

definition willing :: "read_options \<Rightarrow> bool" where
  "willing opts \<longleftrightarrow> (\<forall>f d. on_data opts = Some f \<longrightarrow> snd (f d) = Accept)
     \<and> (\<forall>f d. on_data_async opts = Some f \<longrightarrow> snd (f d) = Accept)
     \<and> (\<forall>f n t. on_progress opts = Some f \<longrightarrow> snd (f n t) = Accept)
     \<and> (\<forall>f rh. on_response_head opts = Some f \<longrightarrow> snd (f rh) = Accept)"

definition taken :: "read_options \<Rightarrow> io \<Rightarrow> bytes" where
  "taken opts io = (if collects opts then body io else concat (delivered io))"

definition awaits :: "read_options \<Rightarrow> bool" where
  "awaits opts \<longleftrightarrow> on_data_async opts \<noteq> None \<and> on_data opts = None"

text \<open>What a step that hands over \<open>p\<close> and leaves the stream at \<open>rest\<close> has done.\<close>

definition handed :: "read_options \<Rightarrow> bytes \<Rightarrow> bytes \<Rightarrow> io \<Rightarrow> io \<Rightarrow> bool" where
  "handed opts p rest io io' \<longleftrightarrow> stream opts io' = rest \<and> taken opts io' = taken opts io @ p
     \<and> received io' = received io + length p \<and> idle_deadline io' = None \<and> write_side io' = write_side io"

lemma taken_updates [simp]:
  "taken opts (io\<lparr>clock := t\<rparr>) = taken opts io" "taken opts (io\<lparr>buffer := b\<rparr>) = taken opts io"
  "taken opts (io\<lparr>incoming := i\<rparr>) = taken opts io" "taken opts (io\<lparr>received := n\<rparr>) = taken opts io"
  "taken opts (io\<lparr>down_reported := n\<rparr>) = taken opts io"
  by (simp_all add: taken_def)

lemma stream_updates [simp]:
  "stream opts (io\<lparr>clock := t\<rparr>) = stream opts io" "stream opts (io\<lparr>received := n\<rparr>) = stream opts io"
  "stream opts (io\<lparr>body := b\<rparr>) = stream opts io" "stream opts (io\<lparr>delivered := d\<rparr>) = stream opts io"
  "stream opts (io\<lparr>head_reported := h\<rparr>) = stream opts io"
  by (simp_all add: stream_def)

lemma consume_block_willing:
  assumes "willing opts" "aw = awaits opts"
  shows "fst (consume_block opts aw d io) = no_error \<and>
    taken opts (snd (consume_block opts aw d io)) = taken opts io @ d \<and>
    idle_deadline (snd (consume_block opts aw d io)) = idle_deadline io"
proof (cases "on_data opts")
  case None
  show ?thesis
  proof (cases "on_data_async opts")
    case None
    then show ?thesis using \<open>on_data opts = None\<close> assms(2)
      by (simp add: consume_block_def awaits_def taken_def collects_def)
  next
    case (Some f)
    have "snd (f d) = Accept" using assms(1) Some by (simp add: willing_def)
    then show ?thesis using Some None assms(2)
      by (simp add: consume_block_def awaits_def taken_def collects_def consumer_outcome_def split_beta)
  qed
next
  case (Some f)
  have "snd (f d) = Accept" using assms(1) Some by (simp add: willing_def)
  then show ?thesis using Some assms(2)
    by (simp add: consume_block_def awaits_def taken_def collects_def consumer_outcome_def split_beta)
qed

lemma report_progress_willing:
  "willing opts \<Longrightarrow> \<exists>t n. report_progress opts whole io = (no_error, io\<lparr>clock := t, down_reported := n\<rparr>)"
  by (cases "on_progress opts"; cases io)
    (auto simp: report_progress_def willing_def consumer_outcome_def split_beta)

lemma deliver_willing:
  assumes "quiet opts" "willing opts" "received io + length d \<le> max_body_size opts" "aw = awaits opts"
    "idle_deadline io = None"
  shows "\<exists>io'. deliver opts aw d whole io = (no_error, io') \<and> incoming io' = incoming io \<and> buffer io' = buffer io
    \<and> taken opts io' = taken opts io @ d \<and> received io' = received io + length d \<and> idle_deadline io' = None
    \<and> write_side io' = write_side io"
proof (cases "d = []")
  case False
  let ?c = "consume_block opts aw d (io\<lparr>received := received io + length d\<rparr>)"
  obtain t n where t: "report_progress opts whole (snd ?c) = (no_error, (snd ?c)\<lparr>clock := t, down_reported := n\<rparr>)"
    using report_progress_willing [OF assms(2)] by blast
  have "deliver opts aw d whole io = (no_error, (snd ?c)\<lparr>clock := t, down_reported := n\<rparr>)"
    using assms(1,3) False consume_block_willing [OF assms(2,4)] t quiet_not_cancelled [OF assms(1)]
    by (simp add: deliver_def quiet_def past_deadline_def split_beta)
  then show ?thesis
    using consume_block_willing [OF assms(2,4), of d "io\<lparr>received := received io + length d\<rparr>"] assms(5)
    by (simp add: consume_block_frame)
qed (use assms in \<open>simp add: deliver_def\<close>)

lemma read_more_quiet:
  assumes "quiet opts" "idle_deadline io = None" "arriving (read_timeout opts) (incoming io) \<noteq> []"
  obtains d bs r where "incoming io = (d, Inr (Chunk bs)) # r"
    "read_more opts None io = (Inr (Chunk bs), io\<lparr>clock := clock io + d, incoming := r\<rparr>)"
    "arriving (read_timeout opts) (incoming io) = bs @ arriving (read_timeout opts) r"
proof (rule quiet_read [OF assms(1,3), of "body_phase io"])
  have dl: "body_deadline None io = None" using assms(2) by (simp add: body_deadline_def)
  fix d bs r
  assume "incoming io = (d, Inr (Chunk bs)) # r"
    "timed_read opts None (body_phase io) io = (Inr (Chunk bs), io\<lparr>clock := clock io + d, incoming := r\<rparr>)"
    "arriving (read_timeout opts) (incoming io) = bs @ arriving (read_timeout opts) r"
  then show thesis using that unfolding read_more_def dl by blast
qed

lemma split_prefix:
  assumes "b @ a = p @ q" "c \<le> length b" "c \<le> length p"
  shows "take c b = take c p" "drop c b @ a = drop c p @ q"
  using arg_cong [where f = "take c", OF assms(1)] arg_cong [where f = "drop c", OF assms(1)] assms(2,3)
  by simp_all

lemma stream_after:
  "stream opts (io\<lparr>buffer := b, incoming := r\<rparr>) = b @ arriving (read_timeout opts) r"
  by (simp add: stream_def)

lemma read_payload_stream:
  assumes "quiet opts" "willing opts"
  shows "received io + n \<le> max_body_size opts \<Longrightarrow> idle_deadline io = None \<Longrightarrow> stream opts io = p @ rest \<Longrightarrow>
     length p = n \<Longrightarrow> \<exists>io'. read_payload opts (awaits opts) None en t n io = (Inr (), io') \<and> handed opts p rest io io'"
proof (induction n io arbitrary: p rule: read_payload_induct [of _ opts None])
  case (finished io)
  then show ?case by (simp add: read_payload_finished handed_def)
next
  case (buffered n io)
  define c where "c = min n (length (buffer io))"
  define r where "r = deliver opts (awaits opts) (substr (buffer io) 0 (Some c)) t io"
  have c: "c \<le> n" "c \<le> length (buffer io)" by (simp_all add: c_def)
  have len: "length (substr (buffer io) 0 (Some c)) = c" using c by (simp add: substr_def)
  have "received io + length (substr (buffer io) 0 (Some c)) \<le> max_body_size opts"
    using buffered.prems(1) c unfolding len by simp
  from deliver_willing [OF assms this refl buffered.prems(2), of t, folded r_def]
  obtain io1 where io1: "r = (no_error, io1)" "incoming io1 = incoming io" "buffer io1 = buffer io"
    "taken opts io1 = taken opts io @ take c (buffer io)" "received io1 = received io + c" "idle_deadline io1 = None"
    "write_side io1 = write_side io"
    unfolding len by (auto simp: substr_def)
  let ?io = "io1\<lparr>buffer := drop c (buffer io1)\<rparr>"
  have buf: "take c (buffer io) = take c p" "drop c (buffer io) @ arriving (read_timeout opts) (incoming io) = drop c p @ rest"
    using split_prefix [OF buffered.prems(3) [unfolded stream_def] c(2)] buffered.prems(4) c by simp_all
  have step: "read_payload opts (awaits opts) None en t n io = read_payload opts (awaits opts) None en t (n - c) ?io"
    unfolding read_payload_buffered [OF buffered(1,2) c_def r_def] by (simp add: io1(1))
  have "\<exists>io'. read_payload opts (awaits opts) None en t (n - c) ?io = (Inr (), io') \<and> handed opts (drop c p) rest ?io io'"
    by (rule buffered.IH [folded c_def])
      (use buffered.prems io1 c buf in \<open>simp_all add: stream_def\<close>)
  then obtain io' where "read_payload opts (awaits opts) None en t (n - c) ?io = (Inr (), io')"
    "handed opts (drop c p) rest ?io io'" by blast
  then show ?case unfolding step using io1 buf(1) buffered.prems(4) c
    by (auto simp: handed_def)
next
  case (stop n io c io1)
  have "arriving (read_timeout opts) (incoming io) \<noteq> []"
    using stop.prems stop(1,2) by (auto simp: stream_def)
  from read_more_quiet [OF assms(1) stop.prems(2) this] stop(3,4) show ?case by auto
next
  case (skip n io io1)
  from read_more_incoming [OF skip(3)] obtain d r where
    inc: "incoming io = (d, Inr (Chunk [])) # r" "io1 = io\<lparr>clock := clock io + d, incoming := r\<rparr>" by blast
  have "arriving (read_timeout opts) (incoming io) \<noteq> []"
    using skip.prems skip(1,2) by (auto simp: stream_def)
  then have "stream opts io1 = stream opts io" using inc by (auto simp: stream_def split: if_splits)
  then show ?case using skip.IH [of p] skip.prems inc(2)
    by (simp add: read_payload_skip [OF skip(1-3)] handed_def)
next
  case (direct n io bs io1)
  define c where "c = min n (length bs)"
  define r where "r = deliver opts (awaits opts) (substr bs 0 (Some c)) t io1"
  have c: "c \<le> n" "c \<le> length bs" by (simp_all add: c_def)
  from read_more_incoming [OF direct(3)] obtain d q where
    inc: "incoming io = (d, Inr (Chunk bs)) # q" "io1 = io\<lparr>clock := clock io + d, incoming := q\<rparr>" by blast
  have "arriving (read_timeout opts) (incoming io) \<noteq> []"
    using direct.prems direct(1,2) by (auto simp: stream_def)
  then have str: "stream opts io = bs @ arriving (read_timeout opts) q"
    using inc direct(2) by (auto simp: stream_def split: if_splits)
  have len: "length (substr bs 0 (Some c)) = c" using c by (simp add: substr_def)
  have "received io1 + length (substr bs 0 (Some c)) \<le> max_body_size opts" "idle_deadline io1 = None"
    using direct.prems(1,2) c inc(2) unfolding len by simp_all
  from deliver_willing [OF assms this(1) refl this(2), of t, folded r_def]
  obtain io2 where io2: "r = (no_error, io2)" "incoming io2 = q" "buffer io2 = []"
    "taken opts io2 = taken opts io @ take c bs" "received io2 = received io + c" "idle_deadline io2 = None"
    "write_side io2 = write_side io"
    unfolding len using inc(2) direct(2) by (auto simp: substr_def)
  let ?io = "if c < length bs then (snd r)\<lparr>buffer := buffer (snd r) @ substr bs c None\<rparr> else snd r"
  have io: "stream opts ?io = drop c bs @ arriving (read_timeout opts) q" "taken opts ?io = taken opts io2"
    "received ?io = received io2" "idle_deadline ?io = None" "write_side ?io = write_side io"
    using io2 by (auto simp: stream_def substr_def)
  have buf: "take c bs = take c p" "drop c bs @ arriving (read_timeout opts) q = drop c p @ rest"
    using split_prefix [OF direct.prems(3) [unfolded str] c(2)] direct.prems(4) c by simp_all
  have step: "read_payload opts (awaits opts) None en t n io = read_payload opts (awaits opts) None en t (n - c) ?io"
    unfolding read_payload_direct [OF direct(1-4) c_def r_def] by (simp add: io2(1))
  have "\<exists>io'. read_payload opts (awaits opts) None en t (n - c) ?io = (Inr (), io') \<and> handed opts (drop c p) rest ?io io'"
    by (rule direct.IH [folded c_def], unfold io)
      (use direct.prems io2 c buf in \<open>simp_all\<close>)
  then obtain io' where "read_payload opts (awaits opts) None en t (n - c) ?io = (Inr (), io')"
    "handed opts (drop c p) rest ?io io'" by blast
  then show ?case unfolding step handed_def io using io2 buf(1) direct.prems(4) c by auto
qed

section \<open>Chunked bodies that arrive\<close>

lemma to_digits_length: "2 \<le> b \<Longrightarrow> n < b ^ Suc k \<Longrightarrow> length (to_digits b n) \<le> Suc k"
proof (induction k arbitrary: n)
  case (Suc k)
  then have "n div b < b ^ Suc k" by (simp add: less_mult_imp_div_less mult.commute)
  then show ?case using Suc by (subst to_digits.simps) simp
qed (subst to_digits.simps, simp)

lemma to_hex_length: "n \<le> uint64_max \<Longrightarrow> length (to_hex n) \<le> 16"
  using to_digits_length [of 16 n 15] by (simp add: to_hex_def)

lemma to_hex_digit: "c \<in> set (to_hex n) \<Longrightarrow> is_digit_of 16 c"
  by (auto simp: to_hex_def dest: to_digits_digits [rotated 2])

lemma hex_not: "c \<in> {CR, LF, CHR '';''} \<Longrightarrow> c \<notin> set (to_hex n)"
  by (auto dest!: to_hex_digit simp: is_digit_of_def digit_value_def is_digit_def is_lower_def
      is_upper_def in_range_def Let_def split: if_splits)

lemma parse_chunk_size_hex:
  assumes n: "n \<le> uint64_max" shows "parse_chunk_size (to_hex n) = Inr n"
proof -
  have "find_char CHR '';'' (to_hex n) = None" by (simp add: find_char_None hex_not)
  then show ?thesis by (simp only: parse_chunk_size_def option.case sum.case parse_number_to_hex [OF n])
qed

lemma buffered_line:
  assumes "b @ later = line @ CRLF @ rest" "CR \<notin> set line" "LF \<notin> set line"
  shows "find_sub CRLF b = (if length b < length line + 2 then None else Some (length line))"
    "length b \<ge> length line + 2 \<Longrightarrow> take (length line) b = line \<and> drop (length line + 2) b @ later = rest"
proof -
  have long: "\<exists>suf. b = line @ CRLF @ suf \<and> suf @ later = rest" if "length b \<ge> length line + 2"
    using assms(1) that by (auto simp: append_eq_append_conv2 append_eq_Cons_conv)
  then show "length b \<ge> length line + 2 \<Longrightarrow> take (length line) b = line \<and> drop (length line + 2) b @ later = rest"
    by auto
  show "find_sub CRLF b = (if length b < length line + 2 then None else Some (length line))"
  proof (cases "length b < length line + 2")
    case True
    have "LF \<notin> set b"
      using prefix_of_line [OF assms(1) True] assms(3) set_mono_prefix by fastforce
    then have "\<not> prefix CRLF (drop j b)" for j
      by (auto simp: prefix_def dest!: arg_cong [where f = set] dest: in_set_dropD)
    then show ?thesis using True by (simp add: find_sub_None_iff)
  next
    case False
    then show ?thesis using long find_crlf [OF assms(2)] by fastforce
  qed
qed

lemma read_chunk_size_stream:
  assumes "quiet opts" "idle_deadline io = None" "n \<le> uint64_max" "stream opts io = to_hex n @ CRLF @ rest"
  shows "\<exists>io'. read_chunk_size opts None io = (Inr n, io') \<and> stream opts io' = rest \<and> same_body io io'"
proof -
  have lim: "length (to_hex n) \<le> chunk_line_limit" using to_hex_length [OF assms(3)] by (simp add: chunk_line_limit_def)
  have none: "CR \<notin> set (to_hex n)" "LF \<notin> set (to_hex n)" by (simp_all add: hex_not)
  note line = buffered_line [OF assms(4) [unfolded stream_def] none]
  show ?thesis
  proof (cases "length (buffer io) < length (to_hex n) + 2")
    case True
    have dl: "body_deadline None io = None" using assms(2) by (simp add: body_deadline_def)
    obtain io' where "read_line opts chunk_line_limit None (body_phase io) 0 io = (Inr (to_hex n), io')"
      "stream opts io' = rest" "same_body io io'"
      using read_line_stream [OF assms(1,4) none lim] by auto
    then show ?thesis
      using line(1) True by (simp add: read_chunk_size_def dl parse_chunk_size_hex [OF assms(3)])
  next
    case False
    then have "read_chunk_size opts None io = (Inr n, io\<lparr>buffer := drop (length (to_hex n) + 2) (buffer io)\<rparr>)"
      using line lim by (simp add: read_chunk_size_def substr_def parse_chunk_size_hex [OF assms(3)])
    then show ?thesis using line(2) False by (simp add: stream_def)
  qed
qed

lemma read_chunk_end_stream:
  assumes "quiet opts"
  shows "idle_deadline io = None \<Longrightarrow> stream opts io = CRLF @ rest \<Longrightarrow>
    \<exists>io'. read_chunk_end opts None io = (Inr (), io') \<and> stream opts io' = rest \<and> same_body io io'"
proof (induction "length (incoming io)" arbitrary: io rule: less_induct)
  case less
  show ?case
  proof (cases "length (buffer io) < 2")
    case True
    have "arriving (read_timeout opts) (incoming io) \<noteq> []"
      using less.prems True by (auto simp: stream_def dest: arg_cong [where f = length])
    from read_more_quiet [OF assms less.prems(1) this] obtain d bs r where
      inc: "incoming io = (d, Inr (Chunk bs)) # r"
      and read: "read_more opts None io = (Inr (Chunk bs), io\<lparr>clock := clock io + d, incoming := r\<rparr>)"
      and arr: "arriving (read_timeout opts) (incoming io) = bs @ arriving (read_timeout opts) r" .
    let ?io = "io\<lparr>clock := clock io + d, incoming := r, buffer := buffer io @ bs\<rparr>"
    have "read_chunk_end opts None io = read_chunk_end opts None ?io"
      using True by (intro trans [OF read_chunk_end.simps]) (simp add: read)
    moreover have "stream opts ?io = CRLF @ rest" using less.prems(2) arr by (simp add: stream_def)
    ultimately show ?thesis using less.hyps [of ?io] less.prems(1) inc by (auto simp: same_body_def)
  next
    case False
    then obtain suf where "buffer io = CRLF @ suf" "suf @ arriving (read_timeout opts) (incoming io) = rest"
      using less.prems(2) by (auto simp: stream_def append_eq_append_conv2 append_eq_Cons_conv)
    then show ?thesis by (subst read_chunk_end.simps) (simp add: stream_def)
  qed
qed

lemma handed_trans:
  assumes "handed opts p s io io1" "handed opts q rest io1 io2" shows "handed opts (p @ q) rest io io2"
  using assms by (simp add: handed_def)

lemma handed_same: "same_body io io1 \<Longrightarrow> idle_deadline io = None \<Longrightarrow> stream opts io1 = rest \<Longrightarrow> handed opts [] rest io io1"
  by (simp add: handed_def same_body_def taken_def)

lemma read_trailers_stream:
  assumes "quiet opts" "2 \<le> max_header_size opts" "idle_deadline io = None" "stream opts io = CRLF @ rest"
  shows "\<exists>io'. read_trailers opts None 0 h io = (Inr (), h, io') \<and> stream opts io' = rest \<and> same_body io io'"
proof -
  have dl: "body_deadline None io = None" using assms(3) by (simp add: body_deadline_def)
  obtain io' where "read_line opts (max_header_size opts) None ''Response trailer'' 0 io = (Inr [], io')"
    "stream opts io' = rest" "same_body io io'"
    using read_line_stream [OF assms(1), of io "[]" rest "max_header_size opts" 0 "''Response trailer''"] assms(4)
    by auto
  then show ?thesis using assms(2) by (subst read_trailers.simps) (simp add: dl)
qed

lemma read_chunked_stream:
  assumes "quiet opts" "willing opts" "max_body_size opts \<le> uint64_max" "2 \<le> max_header_size opts"
  shows "[] \<notin> set cs \<Longrightarrow> received io + length (concat cs) \<le> max_body_size opts \<Longrightarrow> idle_deadline io = None \<Longrightarrow>
    stream opts io = concat (map make_chunk_frame cs) @ last_chunk @ rest \<Longrightarrow>
    \<exists>io'. read_chunked opts (awaits opts) None h io = (Inr (), h, io') \<and> handed opts (concat cs) rest io io'"
proof (induction cs arbitrary: io)
  case Nil
  have "to_hex 0 = ''0''" by code_simp
  then have "stream opts io = to_hex 0 @ CRLF @ CRLF @ rest"
    using Nil.prems(4) by (simp add: last_chunk_def)
  from read_chunk_size_stream [OF assms(1) Nil.prems(3) _ this] obtain io1 where
    s: "read_chunk_size opts None io = (Inr 0, io1)" "stream opts io1 = CRLF @ rest" "same_body io io1" by auto
  then have "idle_deadline io1 = None" using Nil.prems(3) by (simp add: same_body_def)
  from read_trailers_stream [OF assms(1,4) this s(2)] obtain io2 where
    t: "read_trailers opts None 0 h io1 = (Inr (), h, io2)" "stream opts io2 = rest" "same_body io1 io2" by blast
  have "read_chunked opts (awaits opts) None h io = (Inr (), h, io2)"
    by (subst read_chunked.simps) (simp add: chunk_round_def s t)
  then show ?case
    using handed_same [OF same_body_trans [OF s(3) t(3)] Nil.prems(3) t(2)] by auto
next
  case (Cons c cs)
  let ?tail = "concat (map make_chunk_frame cs) @ last_chunk @ rest"
  have lim: "length c \<le> max_body_size opts" "received io + length c \<le> max_body_size opts"
    using Cons.prems(2) by simp_all
  have "stream opts io = to_hex (length c) @ CRLF @ (c @ CRLF @ ?tail)"
    using Cons.prems(4) by (simp add: make_chunk_frame_def [of c])
  from read_chunk_size_stream [OF assms(1) Cons.prems(3) _ this] obtain io1 where
    s: "read_chunk_size opts None io = (Inr (length c), io1)" "stream opts io1 = c @ CRLF @ ?tail" "same_body io io1"
    using lim(1) assms(3) by auto
  then have io1: "idle_deadline io1 = None" "received io1 + length c \<le> max_body_size opts"
    using Cons.prems(3) lim(2) by (simp_all add: same_body_def)
  from read_payload_stream [OF assms(1,2) io1(2,1) s(2) refl] obtain io2 where
    p: "read_payload opts (awaits opts) None ''Unexpected end of HTTP chunk'' None (length c) io1 = (Inr (), io2)"
      "handed opts c (CRLF @ ?tail) io1 io2" by blast
  then have io2: "idle_deadline io2 = None" "stream opts io2 = CRLF @ ?tail" by (simp_all add: handed_def)
  from read_chunk_end_stream [OF assms(1) io2] obtain io3 where
    e: "read_chunk_end opts None io2 = (Inr (), io3)" "stream opts io3 = ?tail" "same_body io2 io3" by blast
  have "handed opts ([] @ c @ []) ?tail io io3"
    by (rule handed_trans [OF handed_same [OF s(3) Cons.prems(3) s(2)]
        handed_trans [OF p(2) handed_same [OF e(3) io2(1) e(2)]]])
  then have h3: "handed opts c ?tail io io3" by simp
  then have "\<exists>io'. read_chunked opts (awaits opts) None h io3 = (Inr (), h, io') \<and> handed opts (concat cs) rest io3 io'"
    using Cons.prems by (intro Cons.IH) (simp_all add: handed_def)
  then obtain io' where io': "read_chunked opts (awaits opts) None h io3 = (Inr (), h, io')"
    "handed opts (concat cs) rest io3 io'" by blast
  have guards: "c \<noteq> []" "\<not> (length c > max_body_size opts \<or> received io1 > max_body_size opts - length c)"
    using Cons.prems(1) lim io1(2) by auto
  then have "chunk_round opts (awaits opts) None h io = (Inr True, h, io3)"
    by (simp add: chunk_round_def s(1) p(1) e(1))
  then have "read_chunked opts (awaits opts) None h io = (Inr (), h, io')"
    using io'(1) by (subst read_chunked.simps) simp
  then show ?case using handed_trans [OF h3 io'(2)] by auto
qed

text \<open>What the caller of \<^verbatim>\<open>read_body\<close> sees when the body \<open>p\<close> has arrived.\<close>

definition received_body :: "read_options \<Rightarrow> bytes \<Rightarrow> bytes \<Rightarrow> io \<Rightarrow> io \<Rightarrow> bytes \<Rightarrow> bool" where
  "received_body opts p rest io io' b \<longleftrightarrow> stream opts io' = rest \<and> write_side io' = write_side io \<and>
     (if collects opts then b = p else concat (delivered io') = concat (delivered io) @ p)"

lemma received_body_handed:
  "handed opts p rest (fresh io) io' \<Longrightarrow> received_body opts p rest io io' (body io')"
  by (simp add: handed_def received_body_def taken_def split: if_splits)

lemma stream_fresh [simp]: "stream opts (fresh io) = stream opts io"
  by (simp add: stream_def)

text \<open>A body of Content-Length \<open>n\<close> is the first \<open>n\<close> bytes of the stream, handed to the caller or to
  its callback in order, however the transport cuts it, and the bytes after it are left for the next
  message.\<close>

lemma read_body_fixed:
  assumes "quiet opts" "willing opts" "\<not> chunked head" "content_length head = Some (length p)"
    and "length p \<le> max_body_size opts" "stream opts io = p @ rest"
  shows "\<exists>b io'. read_body opts head eof False io = (Inr b, head_fields head, io') \<and> received_body opts p rest io io' b"
proof -
  from read_payload_stream [OF assms(1,2), of "fresh io" "length p" p rest "''Truncated HTTP body''" "Some (length p)"]
  obtain io' where "read_payload opts (awaits opts) None ''Truncated HTTP body'' (Some (length p)) (length p) (fresh io)
      = (Inr (), io')" "handed opts p rest (fresh io) io'" using assms(5,6) by auto
  then show ?thesis
    using assms received_body_handed
    by (auto simp: read_body_def Let_def quiet_def read_fixed_def awaits_def simp flip: fresh_def)
qed

text \<open>C22: What \<^verbatim>\<open>make_chunk_frame\<close> writes, \<^verbatim>\<open>read_body\<close> reads: the chunks and the last chunk, cut by the
  transport in any way, give back the concatenated payload, and the stream after them is untouched.\<close>

theorem read_body_chunked:
  assumes "quiet opts" "willing opts" "max_body_size opts \<le> uint64_max" "2 \<le> max_header_size opts"
    and "chunked head" "[] \<notin> set cs" "length (concat cs) \<le> max_body_size opts"
    and "stream opts io = concat (map make_chunk_frame cs) @ last_chunk @ rest"
  shows "\<exists>b io'. read_body opts head eof False io = (Inr b, head_fields head, io')
    \<and> received_body opts (concat cs) rest io io' b"
proof -
  from read_chunked_stream [OF assms(1-4,6), of "fresh io" rest "head_fields head"]
  obtain io' where "read_chunked opts (awaits opts) None (head_fields head) (fresh io) = (Inr (), head_fields head, io')"
    "handed opts (concat cs) rest (fresh io) io'" using assms(7,8) by auto
  then show ?thesis
    using assms received_body_handed
    by (auto simp: read_body_def Let_def quiet_def awaits_def simp flip: fresh_def)
qed

section \<open>Trailers\<close>

fun allowed_trailer :: "bytes \<times> bytes \<Rightarrow> bool" where
  "allowed_trailer (name, v) \<longleftrightarrow> valid_header_name name \<and> valid_header_value v
     \<and> \<not> list_ex (\<lambda>f. iequals name f) forbidden_trailers"

lemma parse_trailer_allowed: "parse_trailer line = Inr p \<Longrightarrow> allowed_trailer p"
  by (cases p) (simp add: parse_trailer_def Let_def split: option.splits if_splits)

lemma read_trailers_allowed:
  "\<exists>ts. fst (snd (read_trailers opts fd tb h io)) = h @ ts \<and> list_all allowed_trailer ts"
proof (induction opts fd tb h io rule: read_trailers.induct)
  case (1 opts fd tb h io)
  define r where "r = read_line opts (max_header_size opts) (body_deadline fd io) ''Response trailer'' 0 io"
  show ?case
  proof (cases "\<exists>l p. fst r = Inr l \<and> parse_trailer l = Inr p \<and> l \<noteq> [] \<and>
      \<not> (length l > max_header_size opts \<or> tb > max_header_size opts - length l
         \<or> max_header_size opts - tb - length l < 2)")
    case True
    then obtain l name v where l: "fst r = Inr l" "parse_trailer l = Inr (name, v)" "l \<noteq> []"
      and g: "(length l > max_header_size opts \<or> tb > max_header_size opts - length l
         \<or> max_header_size opts - tb - length l < 2) = False"
      by auto
    then have "read_trailers opts fd tb h io =
        read_trailers opts fd (tb + length l + 2) (headers_add h name v) (snd r)"
      by (intro trans [OF read_trailers.simps])
        (simp only: r_def [symmetric] Let_def l g if_False sum.case prod.case)
    moreover from 1 [OF r_def l(1) _ l(3) l(2) refl] g obtain ts where
      "fst (snd (read_trailers opts fd (tb + length l + 2) (headers_add h name v) (snd r))) = headers_add h name v @ ts"
      "list_all allowed_trailer ts" by auto
    moreover have "allowed_trailer (name, v)" by (rule parse_trailer_allowed [OF l(2)])
    ultimately show ?thesis by (intro exI [of _ "(name, v) # ts"]) (simp add: headers_add_def)
  next
    case False
    then have "fst (snd (read_trailers opts fd tb h io)) = h"
      by (subst read_trailers.simps) (auto simp: r_def [symmetric] Let_def split: sum.split)
    then show ?thesis by (intro exI [of _ "[]"]) simp
  qed
qed

lemma chunk_round_headers:
  "\<exists>ts. fst (snd (chunk_round opts aw fd h io)) = h @ ts \<and> list_all allowed_trailer ts"
proof (cases "\<exists>io1. read_chunk_size opts fd io = (Inr 0, io1)")
  case True
  then obtain io1 where s: "read_chunk_size opts fd io = (Inr 0, io1)" ..
  have "fst (snd (chunk_round opts aw fd h io)) = fst (snd (read_trailers opts fd 0 h io1))"
    by (simp add: chunk_round_def s split: prod.split sum.split)
  then show ?thesis using read_trailers_allowed by simp
next
  case False
  then have "fst (snd (chunk_round opts aw fd h io)) = h"
    by (simp add: chunk_round_def split: prod.split sum.split)
  then show ?thesis by (intro exI [of _ "[]"]) simp
qed

lemma read_chunked_headers:
  "\<exists>ts. fst (snd (read_chunked opts aw fd h io)) = h @ ts \<and> list_all allowed_trailer ts"
proof (induction opts aw fd h io rule: read_chunked.induct)
  case (1 opts aw fd h io)
  obtain c h1 io1 where round: "chunk_round opts aw fd h io = (c, h1, io1)" by (metis prod.exhaust)
  with chunk_round_headers [of opts aw fd h io] obtain ts where ts: "h1 = h @ ts" "list_all allowed_trailer ts" by auto
  show ?case
  proof (cases "c = Inr True")
    case True
    have "read_chunked opts aw fd h io = read_chunked opts aw fd h1 io1"
      by (intro trans [OF read_chunked.simps]) (simp add: round True)
    moreover obtain us where "fst (snd (read_chunked opts aw fd h1 io1)) = h1 @ us" "list_all allowed_trailer us"
      using 1 [OF round [symmetric] True refl] by auto
    ultimately show ?thesis using ts by (intro exI [of _ "ts @ us"]) simp
  next
    case False
    then have "fst (snd (read_chunked opts aw fd h io)) = h1"
      by (subst read_chunked.simps) (auto simp: round split: sum.split)
    then show ?thesis using ts by auto
  qed
qed

text \<open>Whatever the peer sends and whether or not the body is accepted, reading it only appends
  trailer fields to the head, and none of them is a framing, routing or authentication field.\<close>

lemma read_body_trailers:
  "\<exists>ts. fst (snd (read_body opts head eof nb io)) = head_fields head @ ts \<and> list_all allowed_trailer ts"
proof (cases "\<not> nb \<and> chunked head")
  case True
  then show ?thesis
    using read_chunked_headers [of opts "awaits opts"
        "map_option (\<lambda>t. clock io + t) (first_body_byte_timeout opts)" "head_fields head" "fresh io"]
    by (simp add: read_body_def Let_def awaits_def split_beta flip: fresh_def)
next
  case False
  then have "fst (snd (read_body opts head eof nb io)) = head_fields head"
    by (auto simp: read_body_def Let_def split: option.split prod.split)
  then show ?thesis by (intro exI [of _ "[]"]) simp
qed

section \<open>Runs\<close>

definition plain_options :: read_options where
  "plain_options = \<lparr>max_header_size = 64, max_body_size = 16, read_timeout = 100, header_timeout = None,
     first_body_byte_timeout = None, idle_timeout = None, deadline = None, auto_decompress = False,
     cancelled = None, on_response_head = None, on_data = None, on_data_async = None, on_progress = None\<rparr>"

definition plain_head :: "nat option \<Rightarrow> bool \<Rightarrow> parsed_head" where
  "plain_head len chunks = \<lparr>start_line = [], head_fields = [], content_length = len, chunked = chunks, hosts = 0,
     invalid_host = False, connection_close = False, connection_keep_alive = False, has_expect = False,
     expect_continue = False\<rparr>"

definition cut_stream :: "bytes list \<Rightarrow> io" where
  "cut_stream reads = \<lparr>clock = 0, incoming = map (\<lambda>bs. (1, Inr (Chunk bs))) reads, buffer = [], received = 0,
     body = [], idle_deadline = None, delivered = [], outgoing = [], sent = [], closes_at = None,
     up_reported = 0, down_reported = 0, head_reported = None\<rparr>"

lemma quiet_plain: "quiet plain_options" "willing plain_options" "collects plain_options"
  "max_body_size plain_options = 16" "max_header_size plain_options = 64"
  by (simp_all add: quiet_def willing_def collects_def plain_options_def)

lemma fixed_run:
  "read_body plain_options (plain_head (Some 3) False) False False (cut_stream [''a'', ''bcd'']) =
     (Inr ''abc'', [], (cut_stream [])\<lparr>clock := 2, buffer := ''d'', received := 3, body := ''abc''\<rparr>)"
  by code_simp

lemma read_body_bounded_witness:
  "received ((cut_stream [])\<lparr>clock := 2, buffer := ''d'', received := 3, body := ''abc''\<rparr>) \<le> max_body_size plain_options
     \<and> length ''abc'' \<le> max_body_size plain_options"
  by (rule read_body_bounded [OF fixed_run])

lemma read_body_complete_witness:
  "received ((cut_stream [])\<lparr>clock := 2, buffer := ''d'', received := 3, body := ''abc''\<rparr>) = 3
     \<and> collects plain_options \<and> length ''abc'' = 3"
proof -
  have "collects plain_options" by (simp add: collects_def plain_options_def)
  then show ?thesis using read_body_complete [OF fixed_run, of 3] by (simp add: plain_head_def)
qed

lemma read_body_fixed_witness:
  "\<exists>b io'. read_body plain_options (plain_head (Some 3) False) False False (cut_stream [''a'', ''bcd'']) =
     (Inr b, head_fields (plain_head (Some 3) False), io') \<and>
     received_body plain_options ''abc'' ''d'' (cut_stream [''a'', ''bcd'']) io' b"
  by (rule read_body_fixed)
    (simp_all add: quiet_plain plain_head_def stream_def cut_stream_def, simp add: plain_options_def)

lemma read_body_chunked_witness:
  "\<exists>b io'. read_body plain_options (plain_head None True) False False
       (cut_stream [''2'' @ [CR], [LF] @ ''ab'' @ CRLF, ''1'' @ CRLF @ ''c'' @ CRLF @ ''0'' @ CRLF, CRLF @ ''x'']) =
     (Inr b, head_fields (plain_head None True), io') \<and>
     received_body plain_options (concat [''ab'', ''c'']) ''x''
       (cut_stream [''2'' @ [CR], [LF] @ ''ab'' @ CRLF, ''1'' @ CRLF @ ''c'' @ CRLF @ ''0'' @ CRLF, CRLF @ ''x'']) io' b"
proof -
  have "make_chunk_frame ''ab'' = ''2'' @ CRLF @ ''ab'' @ CRLF" "make_chunk_frame ''c'' = ''1'' @ CRLF @ ''c'' @ CRLF"
    by code_simp+
  then show ?thesis
    by (intro read_body_chunked)
      (simp_all add: quiet_plain plain_head_def stream_def cut_stream_def last_chunk_def,
       simp_all add: plain_options_def)
qed

end
