(* ===== verification/Http_Write.thy ===== *)
theory Http_Write
  imports Http_Body
begin

text \<open>
  The write side of \<^verbatim>\<open>src/protocol.cpp\<close>: \<^verbatim>\<open>write_body_bytes\<close>, \<^verbatim>\<open>write_chunk\<close>, \<^verbatim>\<open>write_response\<close>,
  \<^verbatim>\<open>RequestBodySink\<close> and \<^verbatim>\<open>write_request\<close>.  What is written is the list of the writes that have
  completed, so the bytes on the wire are its concatenation.  The lemmas say that a message that is
  reported as written is on the wire complete and framed as its head says.
\<close>

section \<open>Blocks\<close>

definition block_size :: nat where
  "block_size = 64 * 1024"

lemma block_size_pos [simp]: "0 < block_size"
  by (simp add: block_size_def)

function blocks :: "bytes \<Rightarrow> bytes list" where
  "blocks data = (if data = [] then [] else take block_size data # blocks (drop block_size data))"
  by pat_completeness auto
termination
  by (relation "measure length") auto

declare blocks.simps [simp del]

lemma blocks_concat: "concat (blocks data) = data"
  by (induction data rule: blocks.induct) (subst blocks.simps, auto)

lemma blocks_nonempty: "[] \<notin> set (blocks data)"
  by (induction data rule: blocks.induct) (subst blocks.simps, auto)

text \<open>The loop of \<^verbatim>\<open>write_body_bytes\<close> and of \<^verbatim>\<open>write_chunk_blocks\<close>.\<close>

function write_blocks ::
    "bytes \<Rightarrow> (bytes \<Rightarrow> bytes) \<Rightarrow> nat \<Rightarrow> bytes \<Rightarrow> io \<Rightarrow> error_info \<times> io" where
  "write_blocks expired frame dl data io =
     (if data = [] then (no_error, io)
      else if dl \<le> clock io then (error_of E_timeout expired, io)
      else
        let count = min (length data) block_size;
            r = connection_write (frame (take count data)) (dl - clock io) io
        in if is_error (fst r) then r else write_blocks expired frame dl (drop count data) (snd r))"
  by pat_completeness auto
termination
  by (relation "measure (\<lambda>(_, _, _, data, _). length data)") auto

declare write_blocks.simps [simp del]

definition write_body_bytes :: "bytes \<Rightarrow> nat \<Rightarrow> io \<Rightarrow> error_info \<times> io" where
  "write_body_bytes data timeout io =
     write_blocks ''Body write timed out'' id (clock io + max timeout 1) data io"

definition write_chunk_blocks :: "bytes \<Rightarrow> nat \<Rightarrow> io \<Rightarrow> error_info \<times> io" where
  "write_chunk_blocks data timeout io =
     (if data = [] then (no_error, io)
      else write_blocks ''Chunk write timed out'' make_chunk_frame (clock io + max timeout 1) data io)"

definition write_chunk :: "bytes \<Rightarrow> nat \<Rightarrow> io \<Rightarrow> error_info \<times> io" where
  "write_chunk data timeout io =
     (if data \<noteq> [] \<and> length data \<le> block_size
      then connection_write (make_chunk_frame data) (max timeout 1) io
      else write_chunk_blocks data timeout io)"

definition write_last_chunk :: "nat \<Rightarrow> io \<Rightarrow> error_info \<times> io" where
  "write_last_chunk timeout io = connection_write last_chunk timeout io"

section \<open>Responses\<close>

definition write_response_head ::
    "request \<Rightarrow> response \<Rightarrow> bool \<Rightarrow> nat option \<Rightarrow> nat \<Rightarrow> io \<Rightarrow> error_info \<times> io" where
  "write_response_head req res chunks len timeout io =
     (case build_response_head req res chunks len of
        Inl e \<Rightarrow> (e, io) | Inr out \<Rightarrow> connection_write out timeout io)"

definition write_response :: "request \<Rightarrow> response \<Rightarrow> nat \<Rightarrow> io \<Rightarrow> error_info \<times> io" where
  "write_response req res timeout io =
     (let omit = (iequals (req_method req) ''HEAD'' \<or> status_has_no_body (status res))
      in if \<not> omit \<and> res_body res \<noteq> [] \<and> length (res_body res) \<le> block_size
         then (case build_response_head req res False (Some (length (res_body res))) of
                 Inl e \<Rightarrow> (e, io)
               | Inr out \<Rightarrow> connection_write (out @ res_body res) timeout io)
         else
           (case write_response_head req res False (Some (length (res_body res))) timeout io of
              (e, io') \<Rightarrow>
                if is_error e \<or> omit \<or> res_body res = [] then (e, io')
                else write_body_bytes (res_body res) timeout io'))"

section \<open>The sink of a streamed request body\<close>

type_synonym progress = "nat \<Rightarrow> nat option \<Rightarrow> nat \<times> verdict"

record request_sink =
  sk_chunked :: bool
  sk_total :: "nat option"
  sk_remaining :: "nat option"
  sk_timeout :: nat
  sk_progress :: "progress option"
  sk_uploaded :: nat
  sk_error :: error_info
  sk_finished :: bool

definition new_sink :: "bool \<Rightarrow> nat option \<Rightarrow> nat \<Rightarrow> progress option \<Rightarrow> request_sink" where
  "new_sink chunks len timeout prog =
     \<lparr>sk_chunked = chunks, sk_total = len, sk_remaining = len, sk_timeout = timeout, sk_progress = prog,
      sk_uploaded = 0, sk_error = no_error, sk_finished = False\<rparr>"

definition in_phase :: "transfer_phase \<Rightarrow> nat \<Rightarrow> error_info \<Rightarrow> error_info" where
  "in_phase ph n e =
     e\<lparr>transfer := Some \<lparr>phase = ph, uploaded = n, downloaded = 0, response_started = False\<rparr>\<rparr>"

definition attach_context :: "request_sink \<Rightarrow> error_info \<Rightarrow> error_info" where
  "attach_context sk e = in_phase P_request_body (sk_uploaded sk) e"

definition upload_outcome :: "verdict \<Rightarrow> error_info" where
  "upload_outcome v = (case v of
     Accept \<Rightarrow> no_error
   | Refuse \<Rightarrow> error_of E_cancelled ''HTTP upload progress callback cancelled the transfer''
   | Raise what \<Rightarrow> error_of E_internal (''HTTP upload progress callback failed: '' @ what)
   | Raise_other \<Rightarrow> error_of E_internal ''HTTP upload progress callback failed'')"

definition report_upload :: "progress option \<Rightarrow> nat \<Rightarrow> nat option \<Rightarrow> io \<Rightarrow> error_info \<times> io" where
  "report_upload prog n whole io = (case prog of
     None \<Rightarrow> (no_error, io)
   | Some f \<Rightarrow> (case f n whole of (cost, v) \<Rightarrow>
       (upload_outcome v, io\<lparr>clock := clock io + cost, up_reported := n\<rparr>)))"

definition sink_open :: "request_sink \<Rightarrow> io \<Rightarrow> bool" where
  "sink_open sk io \<longleftrightarrow> \<not> is_error (sk_error sk) \<and> \<not> sk_finished sk \<and> connection_open io"

definition sink_write :: "bytes \<Rightarrow> request_sink \<Rightarrow> io \<Rightarrow> bool \<times> request_sink \<times> io" where
  "sink_write data sk io =
     (if is_error (sk_error sk) \<or> sk_finished sk \<or> \<not> connection_open io then (False, sk, io)
      else if data = [] then (True, sk, io)
      else if (case sk_remaining sk of None \<Rightarrow> False | Some n \<Rightarrow> length data > n)
      then (False, sk\<lparr>sk_error := attach_context sk
              (error_of E_protocol ''Streamed request body exceeds declared Content-Length'')\<rparr>, io)
      else
        (case (if sk_chunked sk then write_chunk data (sk_timeout sk) io
               else connection_write data (sk_timeout sk) io) of
           (e, io1) \<Rightarrow>
             if is_error e then (False, sk\<lparr>sk_error := attach_context sk e\<rparr>, io1)
             else
               let sk1 = sk\<lparr>sk_remaining := map_option (\<lambda>n. n - length data) (sk_remaining sk),
                            sk_uploaded := sk_uploaded sk + length data\<rparr>
               in (case report_upload (sk_progress sk1) (sk_uploaded sk1) (sk_total sk1) io1 of
                     (e2, io2) \<Rightarrow>
                       if is_error e2 then (False, sk1\<lparr>sk_error := attach_context sk1 e2\<rparr>, io2)
                       else (True, sk1, io2))))"

definition sink_flush :: "request_sink \<Rightarrow> io \<Rightarrow> bool" where
  "sink_flush sk io = sink_open sk io"

definition sink_finish :: "request_sink \<Rightarrow> io \<Rightarrow> error_info \<times> request_sink \<times> io" where
  "sink_finish sk io =
     (if sk_finished sk then (sk_error sk, sk, io)
      else
        let sk1 = sk\<lparr>sk_finished := True\<rparr>
        in if is_error (sk_error sk1) then (sk_error sk1, sk1, io)
           else if (case sk_remaining sk1 of None \<Rightarrow> False | Some n \<Rightarrow> n \<noteq> 0)
           then (attach_context sk1 (error_of E_protocol
                   ''Streamed request body is shorter than declared Content-Length''), sk1, io)
           else if sk_chunked sk1 then
             (case write_last_chunk (sk_timeout sk1) io of
                (e, io') \<Rightarrow> (if is_error e then attach_context sk1 e else e, sk1, io'))
           else (no_error, sk1, io))"

section \<open>Requests\<close>

text \<open>
  The producer of a streamed body is the caller's coroutine: it writes and flushes through the
  \<^verbatim>\<open>StreamWriter\<close>, goes on with what it is told, takes its time, and returns or throws.
\<close>

datatype producer =
    Produced
  | Throw_stream error_info
  | Throw_std bytes
  | Throw_other
  | Pause nat producer
  | Write bytes "bool \<Rightarrow> producer"
  | Flush "bool \<Rightarrow> producer"

text \<open>What a producer writes when every write and flush succeeds.\<close>

primrec produced :: "producer \<Rightarrow> bytes" where
  "produced Produced = []"
| "produced (Throw_stream e) = []"
| "produced (Throw_std what) = []"
| "produced Throw_other = []"
| "produced (Pause t p) = produced p"
| "produced (Write d k) = d @ produced (k True)"
| "produced (Flush k) = produced (k True)"

text \<open>Whether it then returns, and does not throw.\<close>

primrec returns :: "producer \<Rightarrow> bool" where
  "returns Produced = True"
| "returns (Throw_stream e) = False"
| "returns (Throw_std what) = False"
| "returns Throw_other = False"
| "returns (Pause t p) = returns p"
| "returns (Write d k) = returns (k True)"
| "returns (Flush k) = returns (k True)"

primrec run_producer :: "producer \<Rightarrow> request_sink \<Rightarrow> io \<Rightarrow> error_info option \<times> request_sink \<times> io" where
  "run_producer Produced sk io = (None, sk, io)"
| "run_producer (Throw_stream e) sk io = (Some e, sk, io)"
| "run_producer (Throw_std what) sk io =
     (Some (error_of E_internal (''Streamed request producer failed: '' @ what)), sk, io)"
| "run_producer Throw_other sk io =
     (Some (error_of E_internal ''Streamed request producer failed''), sk, io)"
| "run_producer (Pause t p) sk io = run_producer p sk (io\<lparr>clock := clock io + t\<rparr>)"
| "run_producer (Write data k) sk io =
     (let r = sink_write data sk io in run_producer (k (fst r)) (fst (snd r)) (snd (snd r)))"
| "run_producer (Flush k) sk io = run_producer (k (sink_flush sk io)) sk io"

fun sink_write_all :: "bytes list \<Rightarrow> request_sink \<Rightarrow> io \<Rightarrow> request_sink \<times> io" where
  "sink_write_all [] sk io = (sk, io)"
| "sink_write_all (b # bs) sk io =
     (let r = sink_write b sk io
      in if fst r then sink_write_all bs (fst (snd r)) (snd (snd r)) else snd r)"

text \<open>The head of a request: the framing, the defaults and the fields left out.\<close>

definition build_request_head :: "request \<Rightarrow> bool \<Rightarrow> nat option \<Rightarrow> bytes \<Rightarrow> bytes result" where
  "build_request_head req streaming len wire_target =
     (let chunks = (streaming \<and> len = None);
          framing = (if chunks then (''Transfer-Encoding'', ''chunked'')
                     else (''Content-Length'',
                       to_string (case len of Some n \<Rightarrow> if streaming then n else length (req_body req)
                                  | None \<Rightarrow> length (req_body req))));
          omitted = [if chunks then ''Content-Length'' else ''Transfer-Encoding''];
          overrides = [framing]
            @ (if find_header (req_headers req) ''Connection'' = None
               then [(''Connection'', if req_keep_alive req then ''keep-alive'' else ''close'')] else [])
            @ (if find_header (req_headers req) ''User-Agent'' = None
               then [(''User-Agent'', ''chhttp/0.4'')] else [])
      in serialize_head
           (req_method req @ '' '' @ wire_target @ (if req_version req = 10 then '' HTTP/1.0'' else '' HTTP/1.1''))
           (req_headers req) overrides omitted)"

definition write_request ::
    "request \<Rightarrow> producer option \<Rightarrow> nat option \<Rightarrow> bytes \<Rightarrow> nat \<Rightarrow> progress option \<Rightarrow> io \<Rightarrow> error_info \<times> io" where
  "write_request req body_stream body_stream_length wire_target timeout prog io =
     (if \<not> valid_header_name (req_method req) \<or> wire_target = [] \<or> list_ex url_space wire_target
         \<or> (req_version req \<noteq> 10 \<and> req_version req \<noteq> 11)
      then (error_of E_protocol ''Invalid outbound HTTP request line'', io)
      else if body_stream \<noteq> None \<and> req_body req \<noteq> []
      then (error_of E_invalid_argument ''Configure either a buffered or streamed request body'', io)
      else if body_stream \<noteq> None \<and> body_stream_length = None \<and> req_version req = 10
      then (error_of E_invalid_argument
              ''HTTP/1.0 streamed request bodies require a Content-Length'', io)
      else
        (case build_request_head req (body_stream \<noteq> None) body_stream_length wire_target of
           Inl e \<Rightarrow> (e, io)
         | Inr out \<Rightarrow>
             (case body_stream of
                Some p \<Rightarrow>
                  (case connection_write out timeout io of
                     (e, io1) \<Rightarrow>
                       if is_error e then (in_phase P_request_head 0 e, io1)
                       else
                         (case run_producer p
                             (new_sink (body_stream_length = None) body_stream_length timeout prog) io1 of
                            (Some e2, sk, io2) \<Rightarrow> (in_phase P_request_body (sk_uploaded sk) e2, io2)
                          | (None, sk, io2) \<Rightarrow>
                              (case sink_finish sk io2 of (e2, _, io3) \<Rightarrow> (e2, io3))))
              | None \<Rightarrow>
                  if length (req_body req) > block_size then
                    (case connection_write out timeout io of
                       (e, io1) \<Rightarrow>
                         if is_error e then (in_phase P_request_head 0 e, io1)
                         else
                           (case sink_write_all (blocks (req_body req))
                               (new_sink False (Some (length (req_body req))) timeout prog) io1 of
                              (sk, io2) \<Rightarrow> (case sink_finish sk io2 of (e2, _, io3) \<Rightarrow> (e2, io3))))
                  else
                    (case connection_write (out @ req_body req) timeout io of
                       (e, io1) \<Rightarrow>
                         if is_error e
                         then (in_phase (if req_body req = [] then P_request_head else P_request_body) 0 e, io1)
                         else if req_body req = [] then (no_error, io1)
                         else (case report_upload prog (length (req_body req)) (Some (length (req_body req))) io1 of
                           (e2, io2) \<Rightarrow>
                             (if is_error e2 then in_phase P_request_body (length (req_body req)) e2 else no_error,
                              io2))))))"

section \<open>What is on the wire\<close>

definition wire :: "io \<Rightarrow> bytes" where
  "wire io = concat (sent io)"

lemma wire_updates [simp]:
  "wire (io\<lparr>clock := t\<rparr>) = wire io" "wire (io\<lparr>outgoing := x\<rparr>) = wire io"
  "wire (io\<lparr>up_reported := n\<rparr>) = wire io" "wire (io\<lparr>head_reported := h\<rparr>) = wire io"
  by (simp_all add: wire_def)

lemma connection_write_wire:
  "connection_write data t io = (e, io') \<Longrightarrow> \<not> is_error e \<Longrightarrow> wire io' = wire io @ data"
  by (auto simp: connection_write_def wire_def make_error_def is_error_def split: if_splits list.splits)

lemma write_blocks_wire:
  "\<not> is_error (fst (write_blocks ex frame dl data io)) \<Longrightarrow>
     wire (snd (write_blocks ex frame dl data io)) = wire io @ concat (map frame (blocks data))"
proof (induction ex frame dl data io rule: write_blocks.induct)
  case (1 ex frame dl data io)
  show ?case
  proof (cases "data = [] \<or> dl \<le> clock io")
    case True
    then show ?thesis using "1.prems" by (auto simp: write_blocks.simps [of ex frame dl data] blocks.simps [of data])
  next
    case False
    define c where "c = min (length data) block_size"
    define r where "r = connection_write (frame (take c data)) (dl - clock io) io"
    have step: "write_blocks ex frame dl data io =
        (if is_error (fst r) then r else write_blocks ex frame dl (drop c data) (snd r))"
      using False by (subst write_blocks.simps) (simp add: c_def r_def Let_def)
    with "1.prems" have ok: "\<not> is_error (fst r)" by (auto split: if_splits)
    have c: "take c data = take block_size data" "drop c data = drop block_size data"
      by (simp_all add: c_def min_def)
    have "wire (snd r) = wire io @ frame (take c data)"
      using ok connection_write_wire unfolding r_def by (metis prod.collapse)
    moreover have "blocks data = take c data # blocks (drop c data)"
      using False by (simp add: c blocks.simps [of data])
    ultimately show ?thesis
      using "1.IH" [OF _ _ c_def r_def ok] "1.prems" False step ok by simp
  qed
qed

lemma write_body_bytes_wire:
  "write_body_bytes data t io = (e, io') \<Longrightarrow> \<not> is_error e \<Longrightarrow> wire io' = wire io @ data"
  using write_blocks_wire [of "''Body write timed out''" id "clock io + max t 1" data io]
  by (simp add: write_body_bytes_def blocks_concat)

lemma write_chunk_wire:
  assumes "write_chunk data t io = (e, io')" "\<not> is_error e" "data \<noteq> []"
  shows "\<exists>cs. [] \<notin> set cs \<and> concat cs = data \<and> wire io' = wire io @ concat (map make_chunk_frame cs)"
proof (cases "length data \<le> block_size")
  case True
  then have "wire io' = wire io @ make_chunk_frame data"
    using assms connection_write_wire by (simp add: write_chunk_def)
  then show ?thesis using assms(3) by (intro exI [of _ "[data]"]) simp
next
  case False
  then have "wire io' = wire io @ concat (map make_chunk_frame (blocks data))"
    using assms write_blocks_wire [of "''Chunk write timed out''" make_chunk_frame "clock io + max t 1" data io]
    by (simp add: write_chunk_def write_chunk_blocks_def)
  then show ?thesis using blocks_concat blocks_nonempty by blast
qed

text \<open>The bytes that follow a response head.\<close>

definition response_payload :: "request \<Rightarrow> response \<Rightarrow> bytes" where
  "response_payload req res =
     (if iequals (req_method req) ''HEAD'' \<or> status_has_no_body (status res) then [] else res_body res)"

text \<open>A response reported as written is on the wire as the head built for it followed by exactly the
  body, or by nothing where HTTP forbids a body, whether it was coalesced or cut into blocks.\<close>

lemma write_response_wire:
  assumes "write_response req res timeout io = (e, io')" "\<not> is_error e"
  shows "\<exists>out. build_response_head req res False (Some (length (res_body res))) = Inr out
    \<and> wire io' = wire io @ out @ response_payload req res"
proof -
  let ?omit = "iequals (req_method req) ''HEAD'' \<or> status_has_no_body (status res)"
  obtain err out where b: "build_response_head req res False (Some (length (res_body res))) = Inl err \<and> is_error err
      \<or> build_response_head req res False (Some (length (res_body res))) = Inr out"
    by (cases "build_response_head req res False (Some (length (res_body res)))")
      (auto simp: build_response_head_def serialize_head_def split_beta Let_def split: if_splits)
  then have head: "build_response_head req res False (Some (length (res_body res))) = Inr out"
    using assms by (auto simp: write_response_def write_response_head_def Let_def split: if_splits)
  obtain e1 io1 where w: "connection_write out timeout io = (e1, io1)" by (rule prod.exhaust)
  show ?thesis
  proof (cases "\<not> ?omit \<and> res_body res \<noteq> [] \<and> length (res_body res) \<le> block_size")
    case True
    then have "connection_write (out @ res_body res) timeout io = (e, io')"
      using assms(1) by (simp add: write_response_def head)
    from connection_write_wire [OF this assms(2)] show ?thesis
      using True head by (auto simp: response_payload_def)
  next
    case False
    have wr: "write_response_head req res False (Some (length (res_body res))) timeout io = (e1, io1)"
      by (simp add: write_response_head_def head w)
    have rest: "(if is_error e1 \<or> ?omit \<or> res_body res = [] then (e1, io1)
        else write_body_bytes (res_body res) timeout io1) = (e, io')"
      using assms(1) unfolding write_response_def Let_def if_not_P [OF False] wr prod.case .
    then have ok: "\<not> is_error e1" using assms(2) by (auto split: if_splits)
    from rest ok write_body_bytes_wire assms(2) have "wire io' = wire io1 @ response_payload req res"
      by (auto simp: response_payload_def split: if_splits)
    then show ?thesis using connection_write_wire [OF w ok] head by simp
  qed
qed

section \<open>Streamed requests\<close>

text \<open>
  What a sink without an error has put on the wire after \<open>base\<close>: the pieces \<open>cs\<close>, framed or bare, and
  never more than was declared.
\<close>

definition framed :: "bool \<Rightarrow> bytes list \<Rightarrow> bytes" where
  "framed chunks cs = (if chunks then concat (map make_chunk_frame cs) else concat cs)"

definition sink_inv :: "bytes \<Rightarrow> nat option \<Rightarrow> request_sink \<Rightarrow> io \<Rightarrow> bool" where
  "sink_inv base len sk io \<longleftrightarrow> is_error (sk_error sk) \<or>
     (\<exists>cs. [] \<notin> set cs \<and> wire io = base @ framed (sk_chunked sk) cs \<and> sk_uploaded sk = length (concat cs)
        \<and> sk_remaining sk = map_option (\<lambda>n. n - length (concat cs)) len
        \<and> (case len of None \<Rightarrow> True | Some n \<Rightarrow> length (concat cs) \<le> n))"

lemma sink_inv_new: "wire io = base \<Longrightarrow> sink_inv base len (new_sink c len t p) io"
  by (auto simp: sink_inv_def new_sink_def framed_def intro!: exI [of _ "[]"] split: option.split)

lemma framed_append [simp]: "framed c (xs @ ys) = framed c xs @ framed c ys"
  by (simp add: framed_def)

lemma report_upload_wire: "wire (snd (report_upload p n w io)) = wire io"
  by (simp add: report_upload_def split: option.split prod.split)

lemma sink_write_frame:
  "sk_chunked (fst (snd (sink_write d sk io))) = sk_chunked sk"
  "sk_finished (fst (snd (sink_write d sk io))) = sk_finished sk"
  "is_error (sk_error sk) \<Longrightarrow> is_error (sk_error (fst (snd (sink_write d sk io))))"
  by (simp_all add: sink_write_def split_beta Let_def)

lemma attach_context_error [simp]: "is_error (attach_context sk e) = is_error e"
  by (simp add: attach_context_def in_phase_def is_error_def)

lemma sink_write_inv:
  assumes "sink_inv base len sk io"
  shows "sink_inv base len (fst (snd (sink_write d sk io))) (snd (snd (sink_write d sk io)))"
proof (cases "is_error (sk_error sk) \<or> sk_finished sk \<or> \<not> connection_open io \<or> d = []
    \<or> (case sk_remaining sk of None \<Rightarrow> False | Some n \<Rightarrow> length d > n)")
  case True
  then show ?thesis using assms by (auto simp: sink_write_def sink_inv_def)
next
  case False
  then have g: "(is_error (sk_error sk) \<or> sk_finished sk \<or> \<not> connection_open io) = False" "(d = []) = False"
    "(case sk_remaining sk of None \<Rightarrow> False | Some n \<Rightarrow> length d > n) = False" by auto
  obtain e io1 where w: "(if sk_chunked sk then write_chunk d (sk_timeout sk) io
    else connection_write d (sk_timeout sk) io) = (e, io1)" by (rule prod.exhaust)
  define sk1 where "sk1 = sk\<lparr>sk_remaining := map_option (\<lambda>n. n - length d) (sk_remaining sk),
    sk_uploaded := sk_uploaded sk + length d\<rparr>"
  obtain e2 io2 where p: "report_upload (sk_progress sk1) (sk_uploaded sk1) (sk_total sk1) io1 = (e2, io2)"
    by (rule prod.exhaust)
  have out: "snd (sink_write d sk io) = (if is_error e then (sk\<lparr>sk_error := attach_context sk e\<rparr>, io1)
      else if is_error e2 then (sk1\<lparr>sk_error := attach_context sk1 e2\<rparr>, io2) else (sk1, io2))"
    unfolding sink_write_def g if_False w prod.case Let_def sk1_def [symmetric] p
    by (simp split: if_split)
  show ?thesis
  proof (cases "is_error e \<or> is_error e2")
    case True
    then show ?thesis unfolding out sink_inv_def by auto
  next
    case ok: False
    obtain ds where ds: "[] \<notin> set ds" "concat ds = d" "wire io1 = wire io @ framed (sk_chunked sk) ds"
    proof (cases "sk_chunked sk")
      case True
      then show thesis using that write_chunk_wire [of d "sk_timeout sk" io e io1] w ok g(2)
        by (auto simp: framed_def)
    next
      case False
      then show thesis using that [of "[d]"] connection_write_wire [of d "sk_timeout sk" io e io1] w ok g(2)
        by (auto simp: framed_def)
    qed
    obtain cs where cs: "[] \<notin> set cs" "wire io = base @ framed (sk_chunked sk) cs"
      "sk_uploaded sk = length (concat cs)" "sk_remaining sk = map_option (\<lambda>n. n - length (concat cs)) len"
      "case len of None \<Rightarrow> True | Some n \<Rightarrow> length (concat cs) \<le> n"
      using assms g(1) unfolding sink_inv_def by blast
    have "wire io2 = wire io1" using report_upload_wire p by (metis snd_conv)
    then have "wire io2 = base @ framed (sk_chunked sk1) (cs @ ds)" using cs(2) ds(3) by (simp add: sk1_def)
    moreover have "sk_uploaded sk1 = length (concat (cs @ ds))" using cs(3) ds(2) by (simp add: sk1_def)
    moreover have "sk_remaining sk1 = map_option (\<lambda>n. n - length (concat (cs @ ds))) len"
      using cs(4) ds(2) by (cases len) (simp_all add: sk1_def)
    moreover have "case len of None \<Rightarrow> True | Some n \<Rightarrow> length (concat (cs @ ds)) \<le> n"
      using cs(4,5) g(3) ds(2) by (auto split: option.splits)
    ultimately show ?thesis
      using ok cs(1) ds(1) unfolding out sink_inv_def by (auto simp del: concat_append framed_append intro!: exI [of _ "cs @ ds"])
  qed
qed

lemma sink_inv_clock: "sink_inv base len sk (io\<lparr>clock := t\<rparr>) = sink_inv base len sk io"
  by (simp add: sink_inv_def)

definition sink_steps :: "request_sink \<Rightarrow> request_sink \<Rightarrow> bool" where
  "sink_steps sk sk' \<longleftrightarrow> sk_chunked sk' = sk_chunked sk \<and> sk_finished sk' = sk_finished sk"

lemma sink_write_steps: "sink_steps sk (fst (snd (sink_write d sk io)))"
  by (simp add: sink_steps_def sink_write_frame)

lemma sink_steps_trans: "sink_steps a b \<Longrightarrow> sink_steps b c \<Longrightarrow> sink_steps a c"
  by (simp add: sink_steps_def)

lemma run_producer_inv:
  "sink_inv base len sk io \<Longrightarrow> run_producer p sk io = (e, sk', io') \<Longrightarrow>
     sink_inv base len sk' io' \<and> sink_steps sk sk'"
proof (induction p arbitrary: sk io)
  case (Write d k)
  have "sink_inv base len (fst (snd (sink_write d sk io))) (snd (snd (sink_write d sk io)))"
    by (rule sink_write_inv [OF Write.prems(1)])
  from Write.IH [OF rangeI this, of "fst (sink_write d sk io)"] Write.prems(2)
  have "sink_inv base len sk' io' \<and> sink_steps (fst (snd (sink_write d sk io))) sk'" by (simp add: Let_def)
  then show ?case using sink_steps_trans [OF sink_write_steps] by blast
next
  case (Flush k)
  from Flush.IH [OF rangeI Flush.prems(1)] Flush.prems(2) show ?case by simp
next
  case (Pause t p)
  from Pause.IH [OF _ Pause.prems(2) [simplified]] Pause.prems(1) show ?case by (simp add: sink_inv_clock)
qed (simp_all add: sink_steps_def)

lemma sink_write_all_inv:
  "sink_inv base len sk io \<Longrightarrow> sink_write_all bs sk io = (sk', io') \<Longrightarrow>
     sink_inv base len sk' io' \<and> sink_steps sk sk'"
proof (induction bs arbitrary: sk io)
  case (Cons b bs)
  define r where "r = sink_write b sk io"
  have inv: "sink_inv base len (fst (snd r)) (snd (snd r))"
    unfolding r_def by (rule sink_write_inv [OF Cons.prems(1)])
  have steps: "sink_steps sk (fst (snd r))" unfolding r_def by (rule sink_write_steps)
  show ?case
  proof (cases "fst r")
    case True
    then have "sink_write_all bs (fst (snd r)) (snd (snd r)) = (sk', io')"
      using Cons.prems(2) by (simp add: r_def Let_def)
    from Cons.IH [OF inv this] show ?thesis using sink_steps_trans [OF steps] by blast
  next
    case False
    then have "snd r = (sk', io')" using Cons.prems(2) by (simp add: r_def Let_def)
    then show ?thesis using inv steps by simp
  qed
qed (simp add: sink_steps_def)

text \<open>The body of a streamed request as its head announces it.\<close>

definition announced_body :: "nat option \<Rightarrow> bytes list \<Rightarrow> bytes \<Rightarrow> bool" where
  "announced_body len cs out \<longleftrightarrow> (case len of
     None \<Rightarrow> [] \<notin> set cs \<and> out = concat (map make_chunk_frame cs) @ last_chunk
   | Some n \<Rightarrow> out = concat cs \<and> length out = n)"

lemma sink_finish_wire:
  assumes "sink_inv base len sk io" "sk_chunked sk \<longleftrightarrow> len = None" "\<not> sk_finished sk"
    and "sink_finish sk io = (e, sk', io')" "\<not> is_error e"
  shows "\<exists>cs out. wire io' = base @ out \<and> announced_body len cs out"
proof -
  have noerr: "\<not> is_error (sk_error sk)"
    using assms(3-5) by (auto simp: sink_finish_def Let_def)
  then obtain cs where cs: "[] \<notin> set cs" "wire io = base @ framed (sk_chunked sk) cs"
    "sk_remaining sk = map_option (\<lambda>n. n - length (concat cs)) len"
    "case len of None \<Rightarrow> True | Some n \<Rightarrow> length (concat cs) \<le> n"
    using assms(1) by (auto simp: sink_inv_def)
  show ?thesis
  proof (cases len)
    case None
    obtain e1 io1 where w: "write_last_chunk (sk_timeout sk) io = (e1, io1)" by (rule prod.exhaust)
    have "\<not> is_error e1 \<and> io' = io1"
      using assms(2-5) noerr cs(3) None w by (auto simp: sink_finish_def Let_def split: if_splits)
    then have "wire io' = wire io @ last_chunk"
      using w connection_write_wire by (simp add: write_last_chunk_def)
    then show ?thesis using cs(1,2) assms(2) None
      by (intro exI [of _ cs]) (simp add: announced_body_def framed_def)
  next
    case (Some n)
    then have "io' = io" "n - length (concat cs) = 0"
      using assms(2-5) noerr cs(3) by (auto simp: sink_finish_def Let_def split: if_splits)
    then show ?thesis using cs assms(2) Some
      by (intro exI [of _ cs]) (simp add: announced_body_def framed_def)
  qed
qed

text \<open>A producer that only throws \<^verbatim>\<open>StreamError\<close>s with an error in them.\<close>

primrec throws_errors :: "producer \<Rightarrow> bool" where
  "throws_errors Produced = True"
| "throws_errors (Throw_stream e) = is_error e"
| "throws_errors (Throw_std what) = True"
| "throws_errors Throw_other = True"
| "throws_errors (Pause t p) = throws_errors p"
| "throws_errors (Write d k) = (\<forall>b. throws_errors (k b))"
| "throws_errors (Flush k) = (\<forall>b. throws_errors (k b))"

lemma run_producer_throws:
  "throws_errors p \<Longrightarrow> run_producer p sk io = (Some e, sk', io') \<Longrightarrow> is_error e"
proof (induction p arbitrary: sk io)
  case (Write d k)
  then show ?case using Write.IH [OF rangeI] by (simp add: Let_def)
next
  case (Flush k)
  then show ?case using Flush.IH [OF rangeI, of "sink_flush sk io"] by simp
next
  case (Pause t p)
  then show ?case by simp
qed auto

lemma build_request_head_error:
  "build_request_head req st len wire_target = Inl e \<Longrightarrow> is_error e"
  by (auto simp: build_request_head_def serialize_head_def Let_def split_beta split: if_splits)


lemma sink_write_unframed:
  assumes "\<not> sk_chunked sk" "\<not> is_error (sk_error (fst (snd (sink_write b sk io))))"
  shows "wire (snd (snd (sink_write b sk io))) = wire io @ (if fst (sink_write b sk io) then b else [])"
proof -
  obtain e io1 where w: "connection_write b (sk_timeout sk) io = (e, io1)" by (rule prod.exhaust)
  have "wire (snd (report_upload p n t io1)) = wire io1" for p n t by (rule report_upload_wire)
  then show ?thesis
    using assms connection_write_wire [OF w]
    by (cases "is_error (sk_error sk) \<or> sk_finished sk \<or> \<not> connection_open io")
      (simp add: sink_write_def, simp add: sink_write_def w split_beta Let_def split: if_splits)
qed

lemma sink_write_all_unframed:
  "\<not> sk_chunked sk \<Longrightarrow> sink_write_all bs sk io = (sk', io') \<Longrightarrow> \<not> is_error (sk_error sk') \<Longrightarrow>
     \<exists>k. wire io' = wire io @ concat (take k bs)"
proof (induction bs arbitrary: sk io)
  case (Cons b bs)
  define r where "r = sink_write b sk io"
  show ?case
  proof (cases "fst r")
    case True
    then have rest: "sink_write_all bs (fst (snd r)) (snd (snd r)) = (sk', io')"
      using Cons.prems(2) by (simp add: r_def Let_def)
    have "is_error (sk_error s) \<Longrightarrow> sink_write_all bs s j = (s', j') \<Longrightarrow> is_error (sk_error s')" for s j s' j'
      by (induction bs arbitrary: s j) (simp_all add: Let_def sink_write_def)
    then have ok: "\<not> is_error (sk_error (fst (snd r)))" using rest Cons.prems(3) by blast
    have un: "\<not> sk_chunked (fst (snd r))" using Cons.prems(1) by (simp add: r_def sink_write_frame)
    from Cons.IH [OF un rest Cons.prems(3)] obtain k where
      "wire io' = wire (snd (snd r)) @ concat (take k bs)" by blast
    then show ?thesis
      using sink_write_unframed [OF Cons.prems(1) ok [unfolded r_def], folded r_def] True
      by (intro exI [of _ "Suc k"]) simp
  next
    case False
    then have "snd r = (sk', io')" using Cons.prems(2) by (simp add: r_def Let_def)
    then show ?thesis
      using sink_write_unframed [OF Cons.prems(1), of b io, folded r_def] Cons.prems(3) False
      by (intro exI [of _ 0]) simp
  qed
qed (simp add: exI [of _ 0])

text \<open>A buffered request reported as written is on the wire as its head followed by its body,
  whether it went out in one write or in blocks.\<close>

lemma write_request_wire:
  assumes "write_request req None len wire_target timeout prog io = (e, io')" "\<not> is_error e"
  shows "\<exists>hd. build_request_head req False len wire_target = Inr hd \<and> wire io' = wire io @ hd @ req_body req"
proof -
  have guards: "(\<not> valid_header_name (req_method req) \<or> wire_target = [] \<or> list_ex url_space wire_target
         \<or> (req_version req \<noteq> 10 \<and> req_version req \<noteq> 11)) = False"
    using assms(1,2) unfolding write_request_def by (auto split: if_splits)
  note step = assms(1) [unfolded write_request_def guards if_False, simplified]
  obtain hd where h: "build_request_head req False len wire_target = Inr hd"
  proof (cases "build_request_head req False len wire_target")
    case (Inl err)
    then show thesis using step assms(2) build_request_head_error by auto
  qed (use that in blast)
  have phase: "is_error (in_phase ph n e) = is_error e" for ph n e by (simp add: in_phase_def is_error_def)
  let ?n = "length (req_body req)"
  show ?thesis
  proof (cases "?n > block_size")
    case True
    obtain e1 io1 where w: "connection_write hd timeout io = (e1, io1)" by (rule prod.exhaust)
    obtain sk io2 where r: "sink_write_all (blocks (req_body req)) (new_sink False (Some ?n) timeout prog) io1 = (sk, io2)"
      by (rule prod.exhaust)
    have ok: "\<not> is_error e1" and fin: "\<exists>sk3. sink_finish sk io2 = (e, sk3, io')"
      using step True assms(2) by (auto simp: h w r phase split: if_splits prod.splits)
    have "sink_inv (wire io @ hd) (Some ?n) (new_sink False (Some ?n) timeout prog) io1"
      by (rule sink_inv_new [OF connection_write_wire [OF w ok]])
    from sink_write_all_inv [OF this r] have inv: "sink_inv (wire io @ hd) (Some ?n) sk io2"
      and steps: "sk_chunked sk \<longleftrightarrow> Some ?n = None" "\<not> sk_finished sk"
      by (simp_all add: sink_steps_def new_sink_def)
    from fin obtain sk3 where f: "sink_finish sk io2 = (e, sk3, io')" ..
    from sink_finish_wire [OF inv steps f assms(2)] obtain out where
      out: "wire io' = (wire io @ hd) @ out" "length out = ?n" by (auto simp: announced_body_def)
    have noerr: "\<not> is_error (sk_error sk)" "io' = io2"
      using f assms(2) steps by (auto simp: sink_finish_def Let_def split: if_splits)
    have "\<not> sk_chunked (new_sink False (Some ?n) timeout prog)" by (simp add: new_sink_def)
    from sink_write_all_unframed [OF this r noerr(1)] obtain k where
      k: "wire io2 = wire io1 @ concat (take k (blocks (req_body req)))" by blast
    have "concat (take k (blocks (req_body req))) @ concat (drop k (blocks (req_body req))) = req_body req"
      by (simp flip: concat_append add: blocks_concat)
    moreover have "concat (take k (blocks (req_body req))) = out"
      using k out(1) noerr(2) connection_write_wire [OF w ok] by simp
    ultimately have "out = req_body req" using out(2) by (metis append_eq_append_conv append_Nil2)
    then show ?thesis using h out(1) by simp
  next
    case False
    obtain e1 io1 where w: "connection_write (hd @ req_body req) timeout io = (e1, io1)" by (rule prod.exhaust)
    have ok: "\<not> is_error e1 \<and> wire io' = wire io1"
      using step False assms(2) report_upload_wire [of prog ?n "Some ?n" io1]
      by (auto simp: h w phase split: if_splits prod.splits)
    then show ?thesis using h connection_write_wire [OF w] by simp
  qed
qed

section \<open>What writing leaves alone\<close>

text \<open>What writing never touches.\<close>

definition read_side :: "io \<Rightarrow> (nat \<times> read_chunk result) list \<times> bytes \<times> bytes list \<times> nat option" where
  "read_side io = (incoming io, buffer io, delivered io, closes_at io)"

lemma read_side_updates [simp]:
  "read_side (io\<lparr>clock := t\<rparr>) = read_side io" "read_side (io\<lparr>outgoing := x\<rparr>) = read_side io"
  "read_side (io\<lparr>sent := y\<rparr>) = read_side io" "read_side (io\<lparr>up_reported := n\<rparr>) = read_side io"
  "read_side (io\<lparr>down_reported := n\<rparr>) = read_side io" "read_side (io\<lparr>head_reported := h\<rparr>) = read_side io"
  by (simp_all add: read_side_def)

lemma connection_write_read_side [simp]: "read_side (snd (connection_write d t io)) = read_side io"
  by (simp add: connection_write_def split: list.split)

lemma write_blocks_read_side [simp]: "read_side (snd (write_blocks ex frame dl data io)) = read_side io"
proof (induction ex frame dl data io rule: write_blocks.induct)
  case (1 ex frame dl data io)
  show ?case
  proof (cases "data = [] \<or> dl \<le> clock io")
    case True
    then show ?thesis by (auto simp: write_blocks.simps [of ex frame dl data io])
  next
    case False
    define c where "c = min (length data) block_size"
    define r where "r = connection_write (frame (take c data)) (dl - clock io) io"
    have step: "write_blocks ex frame dl data io =
        (if is_error (fst r) then r else write_blocks ex frame dl (drop c data) (snd r))"
      using False by (subst write_blocks.simps) (simp add: c_def r_def Let_def)
    have r: "read_side (snd r) = read_side io" by (simp add: r_def)
    show ?thesis
    proof (cases "is_error (fst r)")
      case True
      then show ?thesis using step r by simp
    next
      case F: False
      then show ?thesis using "1.IH" [OF _ _ c_def r_def F] False step r by simp
    qed
  qed
qed

lemma write_chunk_read_side [simp]: "read_side (snd (write_chunk d t io)) = read_side io"
  by (simp add: write_chunk_def write_chunk_blocks_def)

lemma report_upload_read_side [simp]: "read_side (snd (report_upload prog n w io)) = read_side io"
  by (simp add: report_upload_def split: option.split prod.split)

lemma sink_write_read_side [simp]: "read_side (snd (snd (sink_write d sk io))) = read_side io"
  by (simp add: sink_write_def Let_def split_beta)

lemma sink_finish_read_side [simp]: "read_side (snd (snd (sink_finish sk io))) = read_side io"
  by (simp add: sink_finish_def Let_def split_beta write_last_chunk_def)

lemma run_producer_read_side [simp]: "read_side (snd (snd (run_producer p sk io))) = read_side io"
  by (induction p arbitrary: sk io) (simp_all add: Let_def)

lemma sink_write_all_read_side [simp]: "read_side (snd (sink_write_all bs sk io)) = read_side io"
  by (induction bs sk io rule: sink_write_all.induct) (simp_all add: Let_def)

lemma write_request_read_side: "read_side (snd (write_request req s l w t prog io)) = read_side io"
  by (simp add: write_request_def split_beta split: sum.split option.split)

lemma read_side_stream: "read_side io = read_side io' \<Longrightarrow> stream opts io = stream opts io'"
  by (simp add: read_side_def stream_def)

section \<open>Runs\<close>

definition idle_io :: io where
  "idle_io = \<lparr>clock = 0, incoming = [], buffer = [], received = 0, body = [], idle_deadline = None,
     delivered = [], outgoing = [], sent = [], closes_at = None, up_reported = 0, down_reported = 0,
     head_reported = None\<rparr>"

definition ok_response :: response where
  "ok_response = \<lparr>status = 200, version = 11, res_headers = [], res_body = ''hi'', res_keep_alive = True\<rparr>"

text \<open>A producer that writes two pieces, the second only if the first was taken.\<close>

definition two_pieces :: producer where
  "two_pieces = Write ''ab'' (\<lambda>b. if b then Write ''c'' (\<lambda>_. Produced) else Throw_other)"

lemma free_write:
  "outgoing io = [] \<Longrightarrow>
     connection_write data t io = (no_error, io\<lparr>sent := sent io @ (if data = [] then [] else [data])\<rparr>)"
  by (simp add: connection_write_def)

lemma idle_outgoing [simp]: "outgoing idle_io = []" "closes_at idle_io = None"
  by (simp_all add: idle_io_def)

lemma to_string_plain: "c \<in> set (to_string n) \<Longrightarrow> 32 \<le> code c \<and> code c \<noteq> 127"
  by (auto dest!: to_string_digit simp: is_digit_def in_range_def)

lemma plain_line: "valid_header_name ''GET''" "\<not> url_space CHR ''/''"
  by (simp_all add: valid_header_name_iff token_char_def separators_def in_range_def url_space_def)

lemma default_fields:
  "valid_field (''Transfer-Encoding'', ''chunked'')" "valid_field (''Connection'', ''keep-alive'')"
  "valid_field (''User-Agent'', ''chhttp/0.4'')" "valid_field (''Server'', ''chhttp/0.4'')"
  "valid_field (''Content-Length'', to_string n)"
proof -
  have "valid_header_name ''Content-Length''"
    by (simp add: valid_header_name_iff token_char_def separators_def in_range_def)
  then show "valid_field (''Content-Length'', to_string n)" by (simp add: valid_field_def to_string_valid)
qed (simp_all add: valid_field_def valid_header_name_iff valid_header_value_iff token_char_def separators_def
    field_value_char_def in_range_def)

lemma plain_request_head: "\<exists>out. build_request_head new_request st len ''/'' = Inr out"
proof -
  have "find_idx (\<lambda>c. c = CR \<or> c = LF) ''GET / HTTP/1.1'' = None" by (simp add: find_idx_None)
  then show ?thesis
    by (simp add: build_request_head_def serialize_head_def new_request_def Let_def default_fields split_beta)
qed

lemma ok_response_head: "\<exists>out. build_response_head new_request ok_response chunks len = Inr out"
proof -
  have "find_idx (\<lambda>c. c = CR \<or> c = LF) (''HTTP/1.1 '' @ to_string 200 @ '' '' @ status_reason_view 200) = None"
    by (auto simp: find_idx_None status_reason_view_def status_reasons_def dest!: to_string_digit
        simp: is_digit_def in_range_def)
  then show ?thesis
    by (simp add: build_response_head_def serialize_head_def response_framing_def ok_response_def new_request_def
        Let_def default_fields split_beta split: option.split)
qed

lemma write_response_wire_witness:
  "\<exists>out. build_response_head new_request ok_response False (Some (length (res_body ok_response))) = Inr out
    \<and> wire (snd (write_response new_request ok_response 10 idle_io)) =
        wire idle_io @ out @ response_payload new_request ok_response"
proof (rule write_response_wire [OF prod.collapse [symmetric]])
  show "\<not> is_error (fst (write_response new_request ok_response 10 idle_io))"
  proof -
    obtain out where
      b: "build_response_head new_request ok_response False (Some (length (res_body ok_response))) = Inr out"
      using ok_response_head by blast
    have "length (res_body ok_response) \<le> block_size" "res_body ok_response \<noteq> []"
      by (simp_all add: ok_response_def block_size_def)
    then show ?thesis by (simp add: write_response_def write_response_head_def b free_write Let_def)
  qed
qed


lemma write_request_wire_witness:
  "\<exists>hd. build_request_head new_request False None ''/'' = Inr hd
    \<and> wire (snd (write_request new_request None None ''/'' 10 None idle_io)) = wire idle_io @ hd @ req_body new_request"
proof (rule write_request_wire [OF prod.collapse [symmetric]])
  show "\<not> is_error (fst (write_request new_request None None ''/'' 10 None idle_io))"
    using plain_request_head [of False None] by (auto simp: write_request_def free_write plain_line new_request_def)
qed

end
