(* ===== verification/Http_Message.thy ===== *)
theory Http_Message
  imports Http_Body_Facts Http_Write
begin

text \<open>
  Whole messages (\<^verbatim>\<open>src/protocol.cpp\<close>): \<^verbatim>\<open>read_request_body\<close>, \<^verbatim>\<open>read_request\<close> and \<^verbatim>\<open>read_response\<close>, in the
  build without \<^verbatim>\<open>CHHTTP_HAS_COMPRESSION\<close>: there \<^verbatim>\<open>StreamingDecoder::create\<close> always fails, so what the
  source does with a decoder is not reached.  The main result is that what one side of the library
  writes the other side reads, and that the next message of the connection is left untouched.
\<close>

section \<open>Requests\<close>

definition create_decoder :: "bytes \<Rightarrow> nat \<Rightarrow> unit result" where
  "create_decoder encoding max_output = fail E_compression ''Compression support is disabled''"

definition wants_decoding :: "read_options \<Rightarrow> headers \<Rightarrow> bytes option" where
  "wants_decoding opts h = (case find_header h ''Content-Encoding'' of
     Some encoding \<Rightarrow>
       if auto_decompress opts \<and> encoding \<noteq> [] \<and> \<not> iequals encoding ''identity'' then Some encoding else None
   | None \<Rightarrow> None)"

definition continue_response :: bytes where
  "continue_response = ''HTTP/1.1 100 Continue'' @ CRLF @ CRLF"

definition body_head :: "request_body_state \<Rightarrow> parsed_head" where
  "body_head st = (empty_head [])\<lparr>head_fields := bs_headers st, content_length := bs_length st,
     chunked := bs_chunked st\<rparr>"

text \<open>The caller still observes the fields when the body fails.\<close>

definition finish_request_body ::
    "read_options \<Rightarrow> request_body_state \<Rightarrow> io \<Rightarrow> bytes result \<times> request_body_state \<times> io" where
  "finish_request_body opts st io =
     (case read_body opts (body_head st) False False io of (r, h, io') \<Rightarrow> (r, st\<lparr>bs_headers := h\<rparr>, io'))"

text \<open>A decoder that cannot be created leaves the fields moved out of the state.\<close>

definition read_request_body ::
    "read_options \<Rightarrow> request_body_state \<Rightarrow> io \<Rightarrow> bytes result \<times> request_body_state \<times> io" where
  "read_request_body opts st io =
     (case (if bs_expect st \<and> \<not> continue_sent st then connection_write continue_response (read_timeout opts) io
            else (no_error, io)) of
        (e, io1) \<Rightarrow>
          if is_error e then (Inl e, st, io1)
          else
            let st1 = (if bs_expect st then st\<lparr>continue_sent := True\<rparr> else st)
            in (case wants_decoding opts (bs_headers st1) of
                  Some encoding \<Rightarrow>
                    (map_sum id (\<lambda>_. []) (create_decoder encoding (max_body_size opts)),
                     st1\<lparr>bs_headers := []\<rparr>, io1)
                | None \<Rightarrow> finish_request_body opts st1 io1))"

definition read_request :: "read_options \<Rightarrow> io \<Rightarrow> request result \<times> io" where
  "read_request opts io =
     (case read_request_head opts False io of
        (Inl e, io1) \<Rightarrow> (Inl e, io1)
      | (Inr (req, st), io1) \<Rightarrow>
          (case read_request_body opts st io1 of
             (Inl e, _, io2) \<Rightarrow> (Inl e, io2)
           | (Inr b, st', io2) \<Rightarrow> (Inr (req\<lparr>req_body := b, req_headers := bs_headers st'\<rparr>), io2)))"

section \<open>Responses\<close>

text \<open>
  \<^verbatim>\<open>from_chars\<close> into the \<^verbatim>\<open>int\<close> status also takes a minus sign; three characters with one are below
  100, which is refused with the same error as a text that is not a number.
\<close>

definition parse_status_line :: "bytes \<Rightarrow> (nat \<times> nat) result" where
  "parse_status_line sl =
     (case find_char SP sl of
        None \<Rightarrow> fail E_protocol ''Malformed HTTP status line''
      | Some first_space \<Rightarrow>
          (case parse_version (substr sl 0 (Some first_space)) of
             None \<Rightarrow> fail E_protocol ''Unsupported HTTP response version''
           | Some ver \<Rightarrow>
               let text = substr sl (first_space + 1)
                     (map_option (\<lambda>second. second - first_space - 1) (find_char_from SP (first_space + 1) sl))
               in (case parse_number 10 (2 ^ 31 - 1) text of
                     Some n \<Rightarrow>
                       if length text \<noteq> 3 \<or> n < 100 then fail E_protocol ''Invalid HTTP response status''
                       else Inr (ver, n)
                   | None \<Rightarrow> fail E_protocol ''Invalid HTTP response status'')))"

definition response_has_no_body :: "bytes \<Rightarrow> nat \<Rightarrow> bool" where
  "response_has_no_body request_method n \<longleftrightarrow> iequals request_method ''HEAD''
     \<or> (iequals request_method ''CONNECT'' \<and> n \<ge> 200 \<and> n < 300) \<or> status_has_no_body (int n)"

definition informational :: "nat \<Rightarrow> bool" where
  "informational n \<longleftrightarrow> n \<ge> 100 \<and> n < 200 \<and> n \<noteq> 101"

definition head_outcome :: "verdict \<Rightarrow> error_info" where
  "head_outcome v = (case v of
     Accept \<Rightarrow> no_error
   | Refuse \<Rightarrow> error_of E_cancelled ''HTTP response head callback rejected the response''
   | Raise what \<Rightarrow> error_of E_internal (''HTTP response head callback failed: '' @ what)
   | Raise_other \<Rightarrow> error_of E_internal ''HTTP response head callback failed'')"

definition report_head :: "read_options \<Rightarrow> response_head \<Rightarrow> io \<Rightarrow> error_info \<times> io" where
  "report_head opts rh io = (case on_response_head opts of
     None \<Rightarrow> (no_error, io)
   | Some f \<Rightarrow> (case f rh of (cost, v) \<Rightarrow>
       let io' = io\<lparr>clock := clock io + cost, head_reported := Some (v = Accept)\<rparr>
       in if v \<noteq> Accept then (head_outcome v, io')
          else if past_deadline opts io' then (error_of E_timeout ''Request deadline exceeded'', io')
          else (no_error, io')))"

definition finish_response ::
    "read_options \<Rightarrow> parsed_head \<Rightarrow> bool \<Rightarrow> bool \<Rightarrow> nat \<Rightarrow> nat \<Rightarrow> bool \<Rightarrow> io \<Rightarrow> response result \<times> io" where
  "finish_response opts h until_eof no_body ver n keep io =
     (case (if no_body then (Inr [], head_fields h, io) else read_body opts h until_eof no_body io) of
        (Inl e, _, io') \<Rightarrow> (Inl e, io')
      | (Inr b, hs, io') \<Rightarrow>
          (Inr \<lparr>status = int n, version = ver, res_headers = hs, res_body = b, res_keep_alive = keep\<rparr>, io'))"

text \<open>One round of the loop: \<open>None\<close> is an informational response, after which the next one is read.\<close>

definition read_response_once :: "read_options \<Rightarrow> bytes \<Rightarrow> io \<Rightarrow> response option result \<times> io" where
  "read_response_once opts request_method io =
     (case (case find_sub (CRLF @ CRLF) (buffer io) of
              Some e \<Rightarrow> (buffered_head_bytes (buffer io) e opts, io)
            | None \<Rightarrow> read_head_bytes opts io) of
        (Inl e, io1) \<Rightarrow> (Inl e, io1)
      | (Inr bs, io1) \<Rightarrow>
        (case parse_head bs of
           Inl e \<Rightarrow> (Inl e, io1)
         | Inr h \<Rightarrow>
           (case parse_status_line (start_line h) of
              Inl e \<Rightarrow> (Inl e, io1)
            | Inr (ver, n) \<Rightarrow>
              let io2 = io1\<lparr>buffer := drop (length bs + 2) (buffer io1)\<rparr>;
                  no_body = response_has_no_body request_method n;
                  until_eof = (\<not> no_body \<and> \<not> chunked h \<and> content_length h = None);
                  keep = (keep_alive ver h \<and> \<not> until_eof)
              in if informational n then (Inr None, io2)
                 else
                   (case report_head opts
                       \<lparr>rh_status = int n, rh_version = ver, rh_headers = head_fields h, rh_keep_alive = keep\<rparr> io2 of
                      (e, io3) \<Rightarrow>
                        if is_error e then (Inl e, io3)
                        else
                          (case (if no_body then None else wants_decoding opts (head_fields h)) of
                             Some encoding \<Rightarrow> (map_sum id (\<lambda>_. None) (create_decoder encoding (max_body_size opts)), io3)
                           | None \<Rightarrow>
                               (case finish_response opts h until_eof no_body ver n keep io3 of
                                  (res, io4) \<Rightarrow> (map_sum id Some res, io4)))))))"

text \<open>A head that is found lies in the buffer, and only reading has happened.\<close>

lemma read_head_loop_step:
  assumes "find_sub_from (CRLF @ CRLF) sf (buffer io) = None" "\<not> length (buffer io) \<ge> max_header_size opts"
    and "timed_read opts dl ''Response header'' io = (Inr (Chunk bs), io1)"
  shows "read_head_loop opts dl sf io = read_head_loop opts dl
    (if length (buffer io) > 3 then length (buffer io) - 3 else 0) (io1\<lparr>buffer := buffer io1 @ bs\<rparr>)"
  using assms(2) by (intro trans [OF read_head_loop.simps])
    (simp only: assms(1,3) option.case if_False prod.case sum.case read_chunk.case)

lemma read_head_loop_stop:
  assumes "find_sub_from (CRLF @ CRLF) sf (buffer io) = None"
    and "length (buffer io) \<ge> max_header_size opts \<or>
      (\<nexists>bs io1. timed_read opts dl ''Response header'' io = (Inr (Chunk bs), io1))"
  shows "\<exists>e. fst (read_head_loop opts dl sf io) = Inl e"
proof -
  obtain c io1 where r: "timed_read opts dl ''Response header'' io = (c, io1)" by (rule prod.exhaust)
  with assms(2) have "length (buffer io) \<ge> max_header_size opts \<or> (\<exists>e. c = Inl e) \<or> c = Inr Closed"
    by (metis read_chunk.exhaust sum.exhaust)
  then show ?thesis by (subst read_head_loop.simps) (auto simp: assms(1) [simplified] r)
qed

lemma read_head_loop_pending:
  "read_head_loop opts dl sf io = (Inr bs, io') \<Longrightarrow>
     pending io' \<le> pending io \<and> (\<exists>e. e + 4 \<le> length (buffer io') \<and> length bs = e + 2)"
proof (induction "pending io" arbitrary: io sf rule: less_induct)
  case less
  show ?case
  proof (cases "find_sub_from (CRLF @ CRLF) sf (buffer io)")
    case (Some e)
    then obtain i where i: "find_sub (CRLF @ CRLF) (drop sf (buffer io)) = Some i" "e = sf + i"
      by (auto simp: find_sub_from_def)
    from find_sub_SomeD [OF i(1), THEN conjunct1] i(2) have "e + 4 \<le> length (buffer io)" by simp
    moreover have "bs = substr (buffer io) 0 (Some (e + 2))" "io' = io"
      using less.prems Some
      by (auto simp: read_head_loop.simps [of opts dl sf] buffered_head_bytes_def split: if_splits)
    ultimately show ?thesis by (intro conjI exI [of _ e]) (simp_all add: substr_def)
  next
    case None
    show ?thesis
    proof (cases "\<not> length (buffer io) \<ge> max_header_size opts \<and>
        (\<exists>b io1. timed_read opts dl ''Response header'' io = (Inr (Chunk b), io1))")
      case True
      then obtain b io1 where r: "timed_read opts dl ''Response header'' io = (Inr (Chunk b), io1)" by blast
      note step = read_head_loop_step [OF None _ r]
      have lt: "pending (io1\<lparr>buffer := buffer io1 @ b\<rparr>) < pending io" by (rule pending_chunk [OF r])
      from less.hyps [OF lt less.prems [unfolded step [OF True [THEN conjunct1]]]] lt show ?thesis by auto
    next
      case False
      then show ?thesis using read_head_loop_stop [OF None, of opts dl] less.prems by force
    qed
  qed
qed

lemma map_sum_None: "map_sum id Some r \<noteq> Inr None"
  by (cases r) auto

lemma read_response_once_pending:
  assumes "read_response_once opts m io = (Inr None, io')" shows "pending io' < pending io"
proof -
  obtain r io1 where head: "(case find_sub (CRLF @ CRLF) (buffer io) of
      Some e \<Rightarrow> (buffered_head_bytes (buffer io) e opts, io) | None \<Rightarrow> read_head_bytes opts io) = (r, io1)"
    by (rule prod.exhaust)
  note step = assms [unfolded read_response_once_def head prod.case]
  then obtain bs h ver n where r: "r = Inr bs" "parse_head bs = Inr h" "parse_status_line (start_line h) = Inr (ver, n)"
    by (auto split: sum.splits prod.splits)
  have io': "io' = io1\<lparr>buffer := drop (length bs + 2) (buffer io1)\<rparr>"
    using step unfolding r sum.case prod.case Let_def
    by (auto simp: create_decoder_def map_sum_None split: if_splits prod.splits option.splits)
  have le: "pending io1 \<le> pending io \<and> length (buffer io1) > 0"
  proof (cases "find_sub (CRLF @ CRLF) (buffer io)")
    case None
    then have "read_head_loop opts (map_option (\<lambda>t. clock io + t) (header_timeout opts)) 0 io = (Inr bs, io1)"
      using head r(1) by (simp add: read_head_bytes_def)
    from read_head_loop_pending [OF this] show ?thesis by auto
  next
    case (Some e)
    from find_sub_SomeD [OF Some] head Some show ?thesis by auto
  qed
  then have "pending (io1\<lparr>buffer := drop (length bs + 2) (buffer io1)\<rparr>) < pending io1"
    by (simp add: pending_def)
  then show ?thesis using le unfolding io' by simp
qed

function read_response :: "read_options \<Rightarrow> bytes \<Rightarrow> io \<Rightarrow> response result \<times> io" where
  "read_response opts request_method io =
     (case read_response_once opts request_method io of
        (Inl e, io') \<Rightarrow> (Inl e, io')
      | (Inr (Some res), io') \<Rightarrow> (Inr res, io')
      | (Inr None, io') \<Rightarrow> read_response opts request_method io')"
  by pat_completeness auto
termination
proof (relation "measure (\<lambda>(_, _, io). pending io)", goal_cases)
  case (2 opts m io x io' y)
  then show ?case using read_response_once_pending [of opts m io io'] by simp
qed simp

declare read_response.simps [simp del]

section \<open>Heads that arrive\<close>

lemma find_sub_prefix:
  assumes "find_sub p (b @ m) = Some e" "sf \<le> e" "p \<noteq> []"
  shows "find_sub_from p sf b = (if e + length p \<le> length b then Some e else None)"
proof -
  from find_sub_SomeD [OF assms(1)] have pre: "prefix p (drop e (b @ m))"
    and least: "\<And>j. j < e \<Longrightarrow> \<not> prefix p (drop j (b @ m))" by auto
  have up: "prefix p (drop j (b @ m)) \<and> j + length p \<le> length b" if "prefix p (drop j b)" for j
  proof -
    have "prefix (drop j b) (drop j (b @ m))" by simp
    moreover have "length p \<le> length (drop j b)" using that by (rule prefix_length_le)
    moreover have "0 < length p" using assms(3) by simp
    ultimately show ?thesis using that prefix_order.trans [of p "drop j b"] by (simp only: length_drop) linarith
  qed
  show ?thesis
  proof (cases "e + length p \<le> length b")
    case True
    then have "prefix p (drop e b)"
      by (intro prefix_length_prefix [OF pre]) simp_all
    have "find_sub p (drop sf b) = Some (e - sf)"
    proof (rule find_sub_eqI)
      show "prefix p (drop (e - sf) (drop sf b))" using \<open>prefix p (drop e b)\<close> assms(2) by simp
      show "e - sf \<le> length (drop sf b)" using True by simp
      fix j
      assume "j < e - sf"
      then have "j + sf < e" by simp
      then show "\<not> prefix p (drop j (drop sf b))" using least up [of "j + sf"] by (metis drop_drop)
    qed
    then show ?thesis using assms(2) True by (simp add: find_sub_from_def)
  next
    case False
    have "\<not> prefix p (drop (sf + j) b)" for j
    proof
      assume a: "prefix p (drop (sf + j) b)"
      from up [OF a] least have "e \<le> sf + j" by (metis not_less)
      with up [OF a] False show False by simp
    qed
    then show ?thesis using False by (simp add: find_sub_from_def find_sub_None_iff add.commute)
  qed
qed

lemma read_head_loop_stream:
  assumes "quiet opts" "find_sub (CRLF @ CRLF) full = Some e" "e + 4 \<le> max_header_size opts"
  shows "stream opts io = full \<Longrightarrow> sf \<le> e \<Longrightarrow>
    \<exists>io'. read_head_loop opts None sf io = (Inr (take (e + 2) full), io') \<and> stream opts io' = full
      \<and> e + 4 \<le> length (buffer io') \<and> same_body io io'"
proof (induction "pending io" arbitrary: io sf rule: less_induct)
  case less
  let ?later = "arriving (read_timeout opts) (incoming io)"
  have full: "full = buffer io @ ?later" using less.prems(1) by (simp add: stream_def)
  have find: "find_sub_from (CRLF @ CRLF) sf (buffer io) = (if e + 4 \<le> length (buffer io) then Some e else None)"
    using find_sub_prefix [OF assms(2) [unfolded full] less.prems(2)] by simp
  show ?case
  proof (cases "e + 4 \<le> length (buffer io)")
    case True
    then have "read_head_loop opts None sf io = (Inr (take (e + 2) full), io)"
      using assms(3) find [simplified] full
      by (subst read_head_loop.simps) (simp add: buffered_head_bytes_def substr_def)
    then show ?thesis using less.prems(1) True by simp
  next
    case False
    have "e + 4 \<le> length full" using find_sub_SomeD [OF assms(2)] by simp
    with False have "?later \<noteq> []" using full by auto
    from quiet_read [OF assms(1) this, of "''Response header''"] obtain d bs rest where
      read: "timed_read opts None ''Response header'' io = (Inr (Chunk bs), io\<lparr>clock := clock io + d, incoming := rest\<rparr>)"
      and str: "stream opts (io\<lparr>clock := clock io + d, incoming := rest, buffer := buffer io @ bs\<rparr>) = stream opts io"
      by blast
    let ?io1 = "io\<lparr>clock := clock io + d, incoming := rest\<rparr>"
    let ?io = "?io1\<lparr>buffer := buffer ?io1 @ bs\<rparr>"
    let ?sf = "if length (buffer io) > 3 then length (buffer io) - 3 else 0"
    have none: "find_sub_from (CRLF @ CRLF) sf (buffer io) = None" using find False by simp
    have lim: "\<not> length (buffer io) \<ge> max_header_size opts" using False assms(3) by simp
    have now: "stream opts ?io = full" using str less.prems(1) by simp
    have sf: "?sf \<le> e" using False by (auto simp: not_le)
    from less.hyps [OF pending_chunk [OF read] now sf] obtain io' where
      io': "read_head_loop opts None ?sf ?io = (Inr (take (e + 2) full), io')" "stream opts io' = full"
        "e + 4 \<le> length (buffer io')" "same_body ?io io'" by blast
    have "read_head_loop opts None sf io = (Inr (take (e + 2) full), io')"
      using read_head_loop_step [OF none lim read] io'(1) by (simp only:)
    then show ?thesis using io'(2-4) by (auto simp: same_body_def)
  qed
qed

text \<open>Both ways of getting at a head: buffered already, or read.\<close>

definition take_head :: "read_options \<Rightarrow> io \<Rightarrow> bytes result \<times> io" where
  "take_head opts io = (case find_sub (CRLF @ CRLF) (buffer io) of
     Some e \<Rightarrow> (buffered_head_bytes (buffer io) e opts, io) | None \<Rightarrow> read_head_bytes opts io)"

lemma take_head_stream:
  assumes "quiet opts" "find_sub (CRLF @ CRLF) full = Some e" "e + 4 \<le> max_header_size opts" "stream opts io = full"
  shows "\<exists>io'. take_head opts io = (Inr (take (e + 2) full), io')
    \<and> stream opts (io'\<lparr>buffer := drop (e + 4) (buffer io')\<rparr>) = drop (e + 4) full \<and> same_body io io'"
proof -
  have full: "full = buffer io @ arriving (read_timeout opts) (incoming io)" using assms(4) by (simp add: stream_def)
  have find: "find_sub (CRLF @ CRLF) (buffer io) = (if e + 4 \<le> length (buffer io) then Some e else None)"
    using find_sub_prefix [OF assms(2) [unfolded full], of 0] by (simp add: find_sub_from_def option.map_ident)
  have rest: "stream opts (j\<lparr>buffer := drop (e + 4) (buffer j)\<rparr>) = drop (e + 4) full"
    if "stream opts j = full" "e + 4 \<le> length (buffer j)" for j
    using that by (auto simp: stream_def)
  show ?thesis
  proof (cases "e + 4 \<le> length (buffer io)")
    case True
    then have "take_head opts io = (Inr (take (e + 2) full), io)"
      using find assms(3) full by (simp add: take_head_def buffered_head_bytes_def substr_def)
    then show ?thesis using rest [OF assms(4) True] by simp
  next
    case False
    then have "take_head opts io = read_head_loop opts None 0 io"
      using find assms(1) by (simp add: take_head_def read_head_bytes_def quiet_def)
    then show ?thesis using read_head_loop_stream [OF assms(1-4), of 0] rest by auto
  qed
qed

section \<open>Printed heads\<close>

lemma find_end_line:
  "CR \<notin> set l \<Longrightarrow> find_sub (CRLF @ CRLF) (l @ CRLF @ CRLF @ s) = Some (length l)"
  by (induction l) (auto simp: find_sub_Cons)

lemma find_end_skip:
  "CR \<notin> set l \<Longrightarrow> c \<noteq> CR \<Longrightarrow> find_sub (CRLF @ CRLF) (l @ CRLF @ c # s) =
     map_option (\<lambda>e. length l + 2 + e) (find_sub (CRLF @ CRLF) (c # s))"
  by (induction l) (auto simp: find_sub_Cons option.map_comp comp_def)

lemma find_end_lines:
  "list_all (\<lambda>l. l \<noteq> [] \<and> CR \<notin> set l) (l # ls) \<Longrightarrow>
     find_sub (CRLF @ CRLF) (concat (map (\<lambda>l. l @ CRLF) (l # ls)) @ CRLF @ rest) =
       Some (length (concat (map (\<lambda>l. l @ CRLF) (l # ls))) - 2)"
proof (induction ls arbitrary: l)
  case Nil
  then show ?case using find_end_line [of l rest] by simp
next
  case (Cons k ks)
  then obtain c k' where k: "k = c # k'" "c \<noteq> CR" by (cases k) auto
  let ?t = "concat (map (\<lambda>l. l @ CRLF) (k # ks)) @ CRLF @ rest"
  have "find_sub (CRLF @ CRLF) (l @ CRLF @ ?t) = map_option (\<lambda>e. length l + 2 + e) (find_sub (CRLF @ CRLF) ?t)"
    using find_end_skip [of l c] Cons.prems k by simp
  moreover have "find_sub (CRLF @ CRLF) ?t = Some (length (concat (map (\<lambda>l. l @ CRLF) (k # ks))) - 2)"
    using Cons.IH [of k] Cons.prems by simp
  ultimately show ?case by simp
qed

lemma find_head_end:
  assumes "valid_header_value sl" "sl \<noteq> []" "list_all valid_field fs"
  shows "find_sub (CRLF @ CRLF) (sl @ CRLF @ print_fields fs @ CRLF @ rest) =
    Some (length (sl @ CRLF @ print_fields fs) - 2)"
proof -
  let ?line = "\<lambda>item. fst item @ '': '' @ snd item"
  have print: "print_fields fs = concat (map (\<lambda>l. l @ CRLF) (map ?line fs))"
    by (simp add: print_fields_def field_line_def comp_def)
  have "CR \<notin> set sl" using assms(1) by (auto simp: valid_header_value_iff)
  moreover have "list_all (\<lambda>l. l \<noteq> [] \<and> CR \<notin> set l) (map ?line fs)"
    using assms(3) by (auto simp: list_all_iff dest: valid_field_chars)
  ultimately show ?thesis
    using find_end_lines [of sl "map ?line fs" rest] assms(2) unfolding print by simp
qed

lemma to_string_3: "100 \<le> n \<Longrightarrow> n \<le> 999 \<Longrightarrow> length (to_string n) = 3"
proof -
  assume "100 \<le> n" "n \<le> 999"
  then have "\<not> n < 10" "\<not> n div 10 < 10" "n div 10 div 10 < 10" by auto
  then show ?thesis
    unfolding to_string_def by (simp add: to_digits.simps [of 10 n] to_digits.simps [of 10 "n div 10"]
        to_digits.simps [of 10 "n div 10 div 10"])
qed

lemma parse_status_line_print:
  assumes "version res \<in> {10, 11}" "100 \<le> status res" "status res \<le> 999"
  shows "parse_status_line (status_line res) = Inr (version res, nat (status res))"
proof -
  define v where "v = (if version res = 10 then ''HTTP/1.0'' else ''HTTP/1.1'')"
  let ?n = "nat (status res)" and ?reason = "status_reason_view (status res)"
  have sl: "status_line res = v @ SP # to_string ?n @ SP # ?reason" by (simp add: status_line_def v_def)
  have v: "SP \<notin> set v" "length v = 8" "parse_version v = Some (version res)"
    using assms(1) by (auto simp: v_def parse_version_def)
  have n: "SP \<notin> set (to_string ?n)" by (auto dest!: to_string_digit simp: is_digit_def in_range_def)
  have len: "length (to_string ?n) = 3" using assms(2,3) by (intro to_string_3) auto
  have first: "find_char SP (status_line res) = Some 8"
    using v by (simp add: sl search_simps)
  have second: "find_char_from SP 9 (status_line res) = Some 12"
    using n v(2) len by (simp add: sl find_char_from_def search_simps)
  have "parse_number 10 (2 ^ 31 - 1) (to_string ?n) = Some ?n"
    using assms(2,3) by (intro parse_number_to_string) auto
  moreover have "substr (status_line res) (8 + 1)
      (map_option (\<lambda>second. second - 8 - 1) (find_char_from SP (8 + 1) (status_line res))) = to_string ?n"
    using second v(2) len by (simp add: substr_def) (simp add: sl)
  moreover have "substr (status_line res) 0 (Some 8) = v" using v(2) by (simp add: sl substr_def)
  moreover have "\<not> (length (to_string ?n) \<noteq> 3 \<or> ?n < 100)" using len assms(2) by simp
  ultimately show ?thesis
    by (simp only: parse_status_line_def first v(3) option.case Let_def if_False)
qed

section \<open>What one side writes the other reads\<close>

lemma response_body_announced:
  assumes "\<not> response_has_no_body m (nat (status res))" "200 \<le> status res"
  shows "announced res False (Some n) = (False, Some n)"
  using assms by (auto simp: announced_def response_has_no_body_def status_has_no_body_def)

lemma report_head_willing:
  assumes "quiet opts" "willing opts"
  shows "\<exists>t h. report_head opts rh io = (no_error, io\<lparr>clock := t, head_reported := h\<rparr>)"
proof (cases "on_response_head opts")
  case None
  then show ?thesis
    by (intro exI [of _ "clock io"] exI [of _ "head_reported io"]) (cases io, simp add: report_head_def)
next
  case (Some f)
  have "snd (f rh) = Accept" "\<And>x. \<not> past_deadline opts x"
    using assms Some by (auto simp: willing_def quiet_def past_deadline_def)
  then show ?thesis using Some by (cases "f rh") (auto simp: report_head_def)
qed

text \<open>What the server writes the client reads.\<close>

lemma response_read:
  assumes written: "write_response req res timeout server = (e, server')" "\<not> is_error e" "wire server = []"
    and peer: "quiet opts" "willing opts" "\<not> auto_decompress opts"
    and arrive: "stream opts io = wire server' @ rest"
    and fits: "length (wire server') \<le> max_header_size opts + length (response_payload req res)"
      "length (res_body res) \<le> max_body_size opts" "length (res_body res) \<le> uint64_max"
    and kind: "200 \<le> status res" "\<not> iequals (req_method req) ''CONNECT''"
  shows "\<exists>r io'. read_response opts (req_method req) io = (Inr r, io')
    \<and> status r = status res \<and> version r = version res
    \<and> received_body opts (response_payload req res) rest io io' (res_body r)
    \<and> (version res = 11 \<longrightarrow> (res_keep_alive r \<longleftrightarrow> req_keep_alive req \<and> res_keep_alive res))"
proof -
  let ?n = "length (res_body res)" and ?p = "response_payload req res" and ?m = "req_method req"
  obtain out where b: "build_response_head req res False (Some ?n) = Inr out" and w: "wire server' = out @ ?p"
    using write_response_wire [OF written(1,2)] written(3) by auto
  have "case Some ?n of None \<Rightarrow> True | Some n \<Rightarrow> n \<le> uint64_max" using fits(3) by simp
  from response_head_printed [OF b this] obtain fs h where
    out: "out = status_line res @ CRLF @ print_fields fs @ CRLF" "list_all valid_field fs"
    and h: "parse_head (status_line res @ CRLF @ print_fields fs) = Inr h" "start_line h = status_line res"
      "(chunked h, content_length h) = announced res False (Some ?n)"
      "connection_close h \<longleftrightarrow> \<not> (req_keep_alive req \<and> res_keep_alive res)" by metis
  note sl = build_response_headD(2-6) [OF b]
  let ?hd = "status_line res @ CRLF @ print_fields fs"
  let ?full = "?hd @ CRLF @ ?p @ rest"
  define e where "e = length ?hd - 2"
  have hd2: "length ?hd = e + 2" by (simp add: e_def)
  have full: "stream opts io = ?full" using arrive w out(1) by simp
  have find: "find_sub (CRLF @ CRLF) ?full = Some e"
    unfolding e_def using find_head_end [OF sl(1,2) out(2), of "?p @ rest"] by simp
  have lim: "e + 4 \<le> max_header_size opts" using fits(1) w out(1) hd2 by simp
  have cut: "take (e + 2) ?full = ?hd" unfolding hd2 [symmetric] by simp
  have "e + 4 = length (?hd @ CRLF)" using hd2 by simp
  then have after: "drop (e + 4) ?full = ?p @ rest" by (metis append_assoc append_eq_conv_conj)
  from take_head_stream [OF peer(1) find lim full, unfolded cut after] obtain io1 where
    take: "take_head opts io = (Inr ?hd, io1)"
    and left: "stream opts (io1\<lparr>buffer := drop (e + 4) (buffer io1)\<rparr>) = ?p @ rest" and same: "same_body io io1"
    by blast
  let ?io = "io1\<lparr>buffer := drop (e + 4) (buffer io1)\<rparr>"
  have status: "parse_status_line (start_line h) = Inr (version res, nat (status res))"
    using parse_status_line_print [OF sl(3-5)] h(2) by simp
  have noinfo: "\<not> informational (nat (status res))" using kind(1) by (auto simp: informational_def)
  have payload: "?p = (if response_has_no_body ?m (nat (status res)) then [] else res_body res)"
    using kind by (simp add: response_payload_def response_has_no_body_def)
  have dec: "wants_decoding opts x = None" for x using peer(3) by (simp add: wants_decoding_def split: option.split)
  have framing: "\<not> chunked h \<and> content_length h = Some (length ?p)" if "\<not> response_has_no_body ?m (nat (status res))"
    using h(3) response_body_announced [OF that kind(1)] payload that by simp
  define ue where "ue \<longleftrightarrow> \<not> response_has_no_body ?m (nat (status res)) \<and> \<not> chunked h \<and> content_length h = None"
  have ue: "ue = False" using framing by (auto simp: ue_def)
  let ?keep = "keep_alive (version res) h"
  obtain tm hr where rh: "report_head opts \<lparr>rh_status = int (nat (status res)), rh_version = version res,
      rh_headers = head_fields h, rh_keep_alive = (?keep \<and> \<not> ue)\<rparr> ?io = (no_error, ?io\<lparr>clock := tm, head_reported := hr\<rparr>)"
    using report_head_willing [OF peer(1,2)] by blast
  let ?io2 = "?io\<lparr>clock := tm, head_reported := hr\<rparr>"
  have left2: "stream opts ?io2 = ?p @ rest" using left by simp
  have "\<exists>x io'. (if response_has_no_body ?m (nat (status res)) then (Inr [], head_fields h, ?io2)
      else read_body opts h ue (response_has_no_body ?m (nat (status res))) ?io2) = (Inr x, head_fields h, io')
      \<and> received_body opts ?p rest io io' x"
  proof (cases "response_has_no_body ?m (nat (status res))")
    case True
    then show ?thesis using payload left2 same by (auto simp: received_body_def same_body_def)
  next
    case False
    have "length ?p \<le> max_body_size opts" using payload False fits(2) by simp
    from read_body_fixed [OF peer(1,2) _ _ this left2, of h ue] framing [OF False] obtain x io' where
      "read_body opts h ue False ?io2 = (Inr x, head_fields h, io')" "received_body opts ?p rest ?io2 io' x" by blast
    then show ?thesis using False same by (auto simp: received_body_def same_body_def)
  qed
  then obtain x io' where x: "(if response_has_no_body ?m (nat (status res)) then (Inr [], head_fields h, ?io2)
      else read_body opts h ue (response_has_no_body ?m (nat (status res))) ?io2) = (Inr x, head_fields h, io')"
    "received_body opts ?p rest io io' x" by blast
  have len: "length ?hd + 2 = e + 4" using hd2 by simp
  have "read_response_once opts ?m io = (Inr (Some \<lparr>status = int (nat (status res)), version = version res,
      res_headers = head_fields h, res_body = x, res_keep_alive = ?keep\<rparr>), io')"
    unfolding read_response_once_def take [unfolded take_head_def] prod.case sum.case h(1) status Let_def len
      ue_def [symmetric] rh if_not_P [OF noinfo] dec if_cancel option.case finish_response_def x
    by (simp add: ue)
  then have "read_response opts ?m io = (Inr \<lparr>status = int (nat (status res)), version = version res,
      res_headers = head_fields h, res_body = x, res_keep_alive = ?keep\<rparr>, io')"
    by (subst read_response.simps) simp
  moreover have "version res = 11 \<longrightarrow> (?keep \<longleftrightarrow> req_keep_alive req \<and> res_keep_alive res)"
    using h(4) by (simp add: keep_alive_def)
  ultimately show ?thesis using x(2) kind(1) by auto
qed



end
