(* ===== verification/Http_Exchange.thy ===== *)
theory Http_Exchange
  imports Http_Message
begin

text \<open>
  The request half of an exchange: the head a client prints (\<^verbatim>\<open>write_request\<close>) is accepted by the
  server's parser (\<^verbatim>\<open>read_request\<close>) with the same method, target, fields and body.
\<close>

section \<open>The printed request head\<close>

definition request_line :: "request \<Rightarrow> bytes \<Rightarrow> bytes" where
  "request_line req t = req_method req @ '' '' @ t @ (if req_version req = 10 then '' HTTP/1.0'' else '' HTTP/1.1'')"

definition request_overrides :: "request \<Rightarrow> nat \<Rightarrow> (bytes \<times> bytes) list" where
  "request_overrides req n =
     (''Content-Length'', to_string n)
     # (if find_header (req_headers req) ''Connection'' = None
        then [(''Connection'', if req_keep_alive req then ''keep-alive'' else ''close'')] else [])
     @ (if find_header (req_headers req) ''User-Agent'' = None then [(''User-Agent'', ''chhttp/0.4'')] else [])"

definition request_fields :: "request \<Rightarrow> headers" where
  "request_fields req =
     emitted_fields (request_overrides req (length (req_body req))) [''Transfer-Encoding''] (req_headers req)"

lemma request_names:
  "\<not> iequals ''Content-Length'' ''Connection''" "\<not> iequals ''Content-Length'' ''User-Agent''"
  "\<not> iequals ''Content-Length'' ''Transfer-Encoding''" "\<not> iequals ''Transfer-Encoding'' ''Content-Length''"
  "\<not> iequals ''Transfer-Encoding'' ''Connection''" "\<not> iequals ''Transfer-Encoding'' ''User-Agent''"
  "\<not> iequals ''Connection'' ''Content-Length''" "\<not> iequals ''Connection'' ''User-Agent''"
  "\<not> iequals ''Connection'' ''Transfer-Encoding''"
  by code_simp+

lemma request_distinct: "distinct_names (request_overrides req n)"
proof -
  have "lower ''Content-Length'' \<noteq> lower ''Connection''" "lower ''Content-Length'' \<noteq> lower ''User-Agent''"
    "lower ''Connection'' \<noteq> lower ''User-Agent''"
    using request_names by (simp_all add: iequals_iff)
  then show ?thesis
    by (cases "find_header (req_headers req) ''Connection''"; cases "find_header (req_headers req) ''User-Agent''")
      (simp_all add: distinct_names_def request_overrides_def)
qed

lemma request_fields_framing:
  "headers_get_all (request_fields req) ''Content-Length'' = [to_string (length (req_body req))]"
  "headers_get_all (request_fields req) ''Transfer-Encoding'' = []"
  by (simp_all add: request_fields_def emitted_fields_all request_distinct)
    (auto simp: request_overrides_def override_of_Cons override_of_def request_names split: option.split)

lemma request_fields_connection:
  "headers_get_all (request_fields req) ''Connection'' =
     (if find_header (req_headers req) ''Connection'' = None
      then [if req_keep_alive req then ''keep-alive'' else ''close'']
      else headers_get_all (req_headers req) ''Connection'')"
  by (simp add: request_fields_def emitted_fields_all request_distinct)
    (auto simp: request_overrides_def override_of_Cons override_of_def request_names split: option.split)

lemma request_fields_kept:
  assumes "\<not> list_ex (iequals n) [''Content-Length'', ''Transfer-Encoding'', ''Connection'', ''User-Agent'']"
  shows "headers_get_all (request_fields req) n = headers_get_all (req_headers req) n"
  using assms by (simp add: request_fields_def emitted_fields_all request_distinct)
    (auto simp: request_overrides_def override_of_Cons override_of_def split: option.split)

lemma build_request_headD:
  assumes "build_request_head req False len t = Inr out"
  shows "serialize_head (request_line req t) (req_headers req) (request_overrides req (length (req_body req)))
    [''Transfer-Encoding''] = Inr out"
proof -
  have "(case len of Some n \<Rightarrow> if False then n else length (req_body req) | None \<Rightarrow> length (req_body req)) =
      length (req_body req)" by (cases len) simp_all
  then show ?thesis
    using assms by (simp add: build_request_head_def request_line_def request_overrides_def Let_def)
qed

section \<open>The request line\<close>

lemma rfind_char_last: "c \<notin> set b \<Longrightarrow> rfind_char c (a @ c # b) = Some (length a)"
  using find_char_split [of c "rev b" "rev a"] by (simp add: rfind_char_def)

lemma parse_printed_line:
  assumes "valid_header_name (req_method req)" "t \<noteq> []" "\<not> list_ex url_space t"
    "req_version req \<in> {10, 11}"
  shows "parse_request_line (request_line req t) =
    Inr (new_request\<lparr>req_method := req_method req, req_target := t, req_version := req_version req\<rparr>)"
proof -
  define m where "m = req_method req"
  define v where "v = (if req_version req = 10 then ''HTTP/1.0'' else ''HTTP/1.1'')"
  have line: "request_line req t = m @ SP # t @ SP # v" by (simp add: request_line_def m_def v_def)
  have sp: "SP \<notin> set m" using assms(1) token_char_excludes by (auto simp: m_def valid_header_name_iff)
  have spt: "SP \<notin> set t" using assms(3) by (auto simp: list_ex_iff url_space_def)
  have spv: "SP \<notin> set v" "parse_version v = Some (req_version req)"
    using assms(4) by (auto simp: v_def parse_version_def)
  have first: "find_char SP (request_line req t) = Some (length m)"
    unfolding line using find_char_split [OF sp] by simp
  have "request_line req t = (m @ SP # t) @ SP # v" by (simp add: line)
  then have last: "rfind_char SP (request_line req t) = Some (length m + 1 + length t)"
    using rfind_char_last [OF spv(1), of "m @ SP # t"] by simp
  have second: "find_char_from SP (length m + 1) (request_line req t) = Some (length m + 1 + length t)"
    unfolding line find_char_from_def using find_char_split [OF spt, of v] by simp
  have parts: "substr (request_line req t) 0 (Some (length m)) = m"
    "substr (request_line req t) (length m + 1) (Some (length m + 1 + length t - length m - 1)) = t"
    "substr (request_line req t) (length m + 1 + length t + 1) None = v"
    by (simp_all add: line substr_def)
  have "length m + 1 + length t \<noteq> length m" by simp
  then show ?thesis
    unfolding parse_request_line_def first last option.case prod.case second Let_def parts
    using assms(1-3) spv(2) by (simp add: m_def)
qed

section \<open>The head as the server sees it\<close>

lemma request_head_printed:
  assumes b: "build_request_head req False len t = Inr out"
    and body: "length (req_body req) \<le> uint64_max"
    and line: "valid_header_name (req_method req)" "t \<noteq> []" "\<not> list_ex url_space t" "req_version req \<in> {10, 11}"
  obtains h where "out = request_line req t @ CRLF @ print_fields (request_fields req) @ CRLF"
    "list_all valid_field (request_fields req)" "valid_header_value (request_line req t)"
    "parse_head (request_line req t @ CRLF @ print_fields (request_fields req)) = Inr h"
    "start_line h = request_line req t" "head_fields h = trim_fields (request_fields req)" "head_spec h"
    "\<not> chunked h" "content_length h = Some (length (req_body req))"
proof -
  let ?sl = "request_line req t" and ?fs = "request_fields req" and ?n = "length (req_body req)"
  have "valid_header_value (req_method req)" using line(1) by (rule valid_name_value)
  moreover have "valid_header_value t" using line(3)
    by (auto simp: valid_header_value_iff list_ex_iff url_space_def field_value_char_def)
  moreover have "valid_header_value ''HTTP/1.0''" "valid_header_value ''HTTP/1.1''" "field_value_char SP"
    by (simp_all add: valid_header_value_iff field_value_char_def)
  ultimately have sl: "valid_header_value ?sl" "?sl \<noteq> []"
    by (auto simp: request_line_def valid_header_value_iff)
  have out: "out = ?sl @ CRLF @ print_fields ?fs @ CRLF" and valid: "list_all valid_field ?fs"
    using serialize_head_print [OF build_request_headD [OF b]] emitted_valid
    by (auto simp: request_fields_def)
  have "field_elements (trim_fields ?fs) ''Content-Length'' = (case Some ?n of None \<Rightarrow> [] | Some n \<Rightarrow> [to_string n])"
    "case Some ?n of None \<Rightarrow> True | Some n \<Rightarrow> n \<le> uint64_max"
    "field_elements (trim_fields ?fs) ''Transfer-Encoding'' = (if False then [''chunked''] else [])"
    "\<not> False \<or> Some ?n = None"
    using body by (simp_all add: field_elements_trim request_fields_framing)
  from parse_framed_head [OF sl valid this] obtain h where
    h: "parse_head (?sl @ CRLF @ print_fields ?fs) = Inr h" "content_length h = Some ?n" "chunked h = False"
      "head_fields h = trim_fields ?fs" "start_line h = ?sl" by metis
  from that [OF out valid sl(1) h(1,5,4) parse_head_spec [OF h(1)]] h(2,3) show ?thesis by simp
qed

lemma route_target_other:
  assumes "route_target rt new_request = Inr r0" "query r = []"
  shows "route_target rt r = Inr (r\<lparr>path := path r0, query := query r0\<rparr>)"
proof -
  define raw where "raw = substr rt 0 (find_char CHR ''?'' rt)"
  obtain d where d: "url_decode (if raw = [] then ''/'' else raw) False = Inr d"
    using assms(1) by (cases "url_decode (if raw = [] then ''/'' else raw) False")
      (simp_all only: route_target_def Let_def raw_def [symmetric] sum.case sum.distinct)
  show ?thesis
    using assms unfolding route_target_def Let_def raw_def [symmetric] d sum.case
    by (auto simp: new_request_def split: option.splits)
qed

lemma request_fields_flags:
  assumes "find_header (req_headers req) ''Connection'' = None"
  shows "has_token (trim_fields (request_fields req)) ''Connection'' ''close'' \<longleftrightarrow> \<not> req_keep_alive req"
    "has_token (trim_fields (request_fields req)) ''Connection'' ''keep-alive'' \<longleftrightarrow> req_keep_alive req"
proof -
  have tok: "header_value_has_token ''close'' ''close''" "\<not> header_value_has_token ''keep-alive'' ''close''"
    "header_value_has_token ''keep-alive'' ''keep-alive''" "\<not> header_value_has_token ''close'' ''keep-alive''"
    by (simp_all add: header_value_has_token_iff split_on_no_sep trim_token iequals_def)
  have conn: "headers_get_all (trim_fields (request_fields req)) ''Connection'' =
      [if req_keep_alive req then ''keep-alive'' else ''close'']"
    using assms by (simp add: get_all_trim request_fields_connection trim_token)
  show "has_token (trim_fields (request_fields req)) ''Connection'' ''close'' \<longleftrightarrow> \<not> req_keep_alive req"
    "has_token (trim_fields (request_fields req)) ''Connection'' ''keep-alive'' \<longleftrightarrow> req_keep_alive req"
    using tok by (simp_all add: has_token_all conn)
qed

lemma parse_printed_request:
  assumes h: "parse_head bs = Inr h" "start_line h = request_line req t" "head_fields h = trim_fields (request_fields req)"
      "head_spec h" "\<not> chunked h" "content_length h = Some (length (req_body req))"
    and line: "valid_header_name (req_method req)" "t \<noteq> []" "\<not> list_ex url_space t" "req_version req \<in> {10, 11}"
    and route: "routing_target t = Inr rt" "route_target rt new_request = Inr r0"
    and host: "headers_get_all (req_headers req) ''Host'' = [hv]" "\<not> bad_host (trim_ows hv)"
    and expect: "\<not> headers_contains (req_headers req) ''Expect''"
  shows "parse_request_head buf bs False =
    (Inr (new_request\<lparr>req_method := req_method req, req_target := t, req_version := req_version req,
            req_keep_alive := keep_alive (req_version req) h, path := path r0, query := query r0\<rparr>,
          \<lparr>bs_headers = head_fields h, bs_length = Some (length (req_body req)), bs_chunked = False,
           bs_expect = False, continue_sent = False\<rparr>), drop (length bs + 2) buf)"
proof -
  have names: "\<not> list_ex (iequals n) [''Content-Length'', ''Transfer-Encoding'', ''Connection'', ''User-Agent'']"
    if "n \<in> {''Host'', ''Expect''}" for n using that by (auto simp: iequals_def)
  have "headers_get_all (head_fields h) ''Host'' = [trim_ows hv]"
    using request_fields_kept [OF names, of "''Host''"] host(1) h(3) by (simp add: get_all_trim)
  then have hosts: "hosts h = 1" "\<not> invalid_host h" using h(4) host(2) by (simp_all add: head_spec_def)
  have "headers_get_all (head_fields h) ''Expect'' = []"
    using request_fields_kept [OF names, of "''Expect''"] expect h(3)
    by (simp add: get_all_trim find_header_get_all split: list.splits flip: find_header_None)
  then have expects: "\<not> has_expect h" "\<not> expect_continue h"
    using h(4) by (simp_all add: head_spec_def has_token_all find_header_get_all flip: find_header_None)
  let ?r = "new_request\<lparr>req_method := req_method req, req_target := t, req_version := req_version req\<rparr>"
  have r: "req_version ?r = req_version req" "req_target ?r = t" "query (?r\<lparr>req_keep_alive := k\<rparr>) = []" for k
    by (simp_all add: new_request_def)
  show ?thesis
    unfolding parse_request_head_def h(1,2) sum.case parse_printed_line [OF line] r(1,2) Let_def route(1)
      route_target_other [OF route(2) r(3)]
    using hosts expects h(5,6) by simp
qed

text \<open>The request as the server sees it once it knows where the target leads.\<close>

definition request_seen :: "request \<Rightarrow> bytes \<Rightarrow> request \<Rightarrow> bool \<Rightarrow> request" where
  "request_seen req t r0 keep = new_request\<lparr>req_method := req_method req, req_target := t,
     req_version := req_version req, req_keep_alive := keep, path := path r0, query := query r0\<rparr>"

lemma request_head_read:
  assumes written: "write_request req None len t timeout prog client = (e, client')" "\<not> is_error e" "wire client = []"
    and peer: "quiet opts" and arrive: "stream opts io = wire client' @ rest"
    and fits: "length (wire client') \<le> max_header_size opts + length (req_body req)" "length (req_body req) \<le> uint64_max"
    and route: "routing_target t = Inr rt" "route_target rt new_request = Inr r0"
    and host: "headers_get_all (req_headers req) ''Host'' = [hv]" "\<not> bad_host (trim_ows hv)"
    and expect: "\<not> headers_contains (req_headers req) ''Expect''"
  shows "\<exists>keep io'. read_request_head opts False io = (Inr (request_seen req t r0 keep,
      \<lparr>bs_headers = trim_fields (request_fields req), bs_length = Some (length (req_body req)), bs_chunked = False,
       bs_expect = False, continue_sent = False\<rparr>), io')
    \<and> stream opts io' = req_body req @ rest \<and> same_body io io'
    \<and> (find_header (req_headers req) ''Connection'' = None \<longrightarrow> keep = req_keep_alive req)"
proof -
  let ?sl = "request_line req t" and ?fs = "request_fields req" and ?p = "req_body req"
  let ?hd = "?sl @ CRLF @ print_fields ?fs"
  have line: "valid_header_name (req_method req)" "t \<noteq> []" "\<not> list_ex url_space t" "req_version req \<in> {10, 11}"
    using written(1,2) unfolding write_request_def by (auto split: if_splits)
  obtain out where b: "build_request_head req False len t = Inr out" and w: "wire client' = out @ ?p"
    using write_request_wire [OF written(1,2)] written(3) by auto
  from request_head_printed [OF b fits(2) line] obtain h where
    out: "out = ?sl @ CRLF @ print_fields ?fs @ CRLF" "list_all valid_field ?fs" "valid_header_value ?sl"
    and h: "parse_head ?hd = Inr h" "start_line h = ?sl" "head_fields h = trim_fields ?fs" "head_spec h"
      "\<not> chunked h" "content_length h = Some (length ?p)" by metis
  let ?full = "?hd @ CRLF @ ?p @ rest"
  define k where "k = length ?hd - 2"
  have hd2: "length ?hd = k + 2" by (simp add: k_def)
  have full: "stream opts io = ?full" using arrive w out(1) by simp
  have "?sl \<noteq> []" by (simp add: request_line_def)
  from find_head_end [OF out(3) this out(2), of "?p @ rest"]
  have find: "find_sub (CRLF @ CRLF) ?full = Some k" unfolding k_def by simp
  have lim: "k + 4 \<le> max_header_size opts" using fits(1) w out(1) hd2 by simp
  have cut: "take (k + 2) ?full = ?hd" unfolding hd2 [symmetric] by simp
  have "k + 4 = length (?hd @ CRLF)" using hd2 by simp
  then have after: "drop (k + 4) ?full = ?p @ rest" by (metis append_assoc append_eq_conv_conj)
  from take_head_stream [OF peer find lim full, unfolded cut after] obtain io1 where
    take: "take_head opts io = (Inr ?hd, io1)"
    and left: "stream opts (io1\<lparr>buffer := drop (k + 4) (buffer io1)\<rparr>) = ?p @ rest" and same: "same_body io io1"
    by blast
  have len: "length ?hd + 2 = k + 4" using hd2 by simp
  have "read_request_head opts False io = (Inr (request_seen req t r0 (keep_alive (req_version req) h),
      \<lparr>bs_headers = head_fields h, bs_length = Some (length ?p), bs_chunked = False, bs_expect = False,
       continue_sent = False\<rparr>), io1\<lparr>buffer := drop (k + 4) (buffer io1)\<rparr>)"
    unfolding read_request_head_def take [unfolded take_head_def] prod.case sum.case
      parse_printed_request [OF h line route host expect] len request_seen_def ..
  moreover have "keep_alive (req_version req) h \<longleftrightarrow> req_keep_alive req"
    if "find_header (req_headers req) ''Connection'' = None"
    using h(3,4) request_fields_flags [OF that] line(4)
    by (simp add: keep_alive_def head_spec_def del: if_split) auto
  ultimately show ?thesis using h(3) left same by auto
qed

lemma request_body_read:
  assumes peer: "quiet opts" "willing opts" "wants_decoding opts (bs_headers st) = None"
    and st: "bs_length st = Some (length p)" "\<not> bs_chunked st" "\<not> bs_expect st"
    and arrive: "stream opts io = p @ rest" "length p \<le> max_body_size opts"
  shows "\<exists>b io'. read_request_body opts st io = (Inr b, st, io') \<and> received_body opts p rest io io' b"
proof -
  have "\<not> chunked (body_head st)" "content_length (body_head st) = Some (length p)" "head_fields (body_head st) = bs_headers st"
    using st by (simp_all add: body_head_def)
  from read_body_fixed [OF peer(1,2) this(1,2) arrive(2,1), of False] this(3) obtain x io' where
    x: "read_body opts (body_head st) False False io = (Inr x, bs_headers st, io')" "received_body opts p rest io io' x"
    by auto
  then show ?thesis using st(3) peer(3) by (simp add: read_request_body_def finish_request_body_def)
qed

lemma request_read:
  assumes written: "write_request req None len t timeout prog client = (e, client')" "\<not> is_error e" "wire client = []"
    and peer: "quiet opts" "willing opts" "\<not> auto_decompress opts"
    and arrive: "stream opts io = wire client' @ rest"
    and fits: "length (wire client') \<le> max_header_size opts + length (req_body req)"
      "length (req_body req) \<le> max_body_size opts" "length (req_body req) \<le> uint64_max"
    and route: "routing_target t = Inr rt" "route_target rt new_request = Inr r0"
    and host: "headers_get_all (req_headers req) ''Host'' = [hv]" "\<not> bad_host (trim_ows hv)"
    and expect: "\<not> headers_contains (req_headers req) ''Expect''"
  shows "\<exists>r io'. read_request opts io = (Inr r, io')
    \<and> req_method r = req_method req \<and> req_target r = t \<and> req_version r = req_version req
    \<and> path r = path r0 \<and> query r = query r0
    \<and> req_headers r = trim_fields (request_fields req)
    \<and> received_body opts (req_body req) rest io io' (req_body r)
    \<and> (find_header (req_headers req) ''Connection'' = None \<longrightarrow> req_keep_alive r = req_keep_alive req)"
proof -
  let ?st = "\<lparr>bs_headers = trim_fields (request_fields req), bs_length = Some (length (req_body req)),
     bs_chunked = False, bs_expect = False, continue_sent = False\<rparr>"
  from request_head_read [OF written peer(1) arrive fits(1,3) route host expect] obtain keep io1 where
    head: "read_request_head opts False io = (Inr (request_seen req t r0 keep, ?st), io1)"
      "stream opts io1 = req_body req @ rest" "same_body io io1"
      "find_header (req_headers req) ''Connection'' = None \<longrightarrow> keep = req_keep_alive req"
    by (elim exE conjE) (rule that)
  have "\<exists>b io'. read_request_body opts ?st io1 = (Inr b, ?st, io') \<and> received_body opts (req_body req) rest io1 io' b"
    by (rule request_body_read [OF peer(1,2) _ _ _ _ head(2) fits(2)])
      (simp_all add: peer(3) wants_decoding_def split: option.split)
  then obtain b io' where
    body: "read_request_body opts ?st io1 = (Inr b, ?st, io')" "received_body opts (req_body req) rest io1 io' b" by blast
  have "received_body opts (req_body req) rest io io' b"
    using body(2) head(3) by (auto simp: received_body_def same_body_def)
  then show ?thesis using head(4) by (simp add: read_request_def head(1) body(1) request_seen_def)
qed

text \<open>C3: A request written by the client side is read by the server side, however the transport cuts it,
  with the method, target, version, fields and body that were sent (the framing fields being the
  writer's), routed to the path and query of its target, and with the bytes after it left in the stream;
  unless the caller set a Connection field both sides agree on keeping the connection.\<close>

theorem request_roundtrip:
  assumes written: "write_request req None len t timeout prog client = (e, client')" "\<not> is_error e" "wire client = []"
    and peer: "quiet opts" "willing opts" "\<not> auto_decompress opts"
    and arrive: "stream opts io = wire client' @ rest"
    and fits: "length (wire client') \<le> max_header_size opts + length (req_body req)"
      "length (req_body req) \<le> max_body_size opts" "length (req_body req) \<le> uint64_max"
    and route: "routing_target t = Inr rt" "route_target rt new_request = Inr r0"
    and host: "headers_get_all (req_headers req) ''Host'' = [hv]" "\<not> bad_host (trim_ows hv)"
    and expect: "\<not> headers_contains (req_headers req) ''Expect''"
  shows "\<exists>r io'. read_request opts io = (Inr r, io')
    \<and> req_method r = req_method req \<and> req_target r = t \<and> req_version r = req_version req
    \<and> path r = path r0 \<and> query r = query r0
    \<and> req_headers r = trim_fields (request_fields req)
    \<and> received_body opts (req_body req) rest io io' (req_body r)
    \<and> (find_header (req_headers req) ''Connection'' = None \<longrightarrow> req_keep_alive r = req_keep_alive req)"
  by (rule request_read [OF assms])

definition put_request :: request where
  "put_request = new_request\<lparr>req_method := ''PUT'', req_headers := [(''Host'', ''a'')], req_body := ''hi''\<rparr>"

definition put_wire :: bytes where
  "put_wire = wire (snd (write_request put_request None None ''/x?q=1'' 10 None idle_io))"

lemma put_request_written: "\<not> is_error (fst (write_request put_request None None ''/x?q=1'' 10 None idle_io))"
proof -
  have fields: "valid_field (''Host'', ''a'')" "valid_header_name ''PUT''" "\<not> list_ex url_space ''/x?q=1''"
    by (simp_all add: valid_field_def valid_header_name_iff valid_header_value_iff token_char_def separators_def
        field_value_char_def in_range_def url_space_def)
  have "find_idx (\<lambda>c. c = CR \<or> c = LF) ''PUT /x?q=1 HTTP/1.1'' = None" by (simp add: find_idx_None)
  moreover have "iequals ''Host'' ''Connection'' = False" "iequals ''Host'' ''User-Agent'' = False" by code_simp+
  ultimately have "\<exists>out. build_request_head put_request False None ''/x?q=1'' = Inr out"
    using fields(1)
    by (simp add: build_request_head_def serialize_head_def put_request_def new_request_def Let_def default_fields split_beta)
  moreover have "length (req_body put_request) \<le> block_size" by (simp add: put_request_def new_request_def block_size_def)
  ultimately show ?thesis
    using fields
    by (auto simp: write_request_def free_write put_request_def new_request_def report_upload_def)
qed

lemma request_roundtrip_witness:
  "\<exists>r io'. read_request (plain_options\<lparr>max_header_size := length put_wire\<rparr>) (cut_stream [put_wire, ''next'']) = (Inr r, io')
    \<and> req_method r = req_method put_request \<and> req_target r = ''/x?q=1'' \<and> req_version r = req_version put_request
    \<and> path r = path (new_request\<lparr>path := ''/x'', query := [(''q'', ''1'')]\<rparr>)
    \<and> query r = query (new_request\<lparr>path := ''/x'', query := [(''q'', ''1'')]\<rparr>)
    \<and> req_headers r = trim_fields (request_fields put_request)
    \<and> received_body (plain_options\<lparr>max_header_size := length put_wire\<rparr>) (req_body put_request) ''next''
        (cut_stream [put_wire, ''next'']) io' (req_body r)
    \<and> (find_header (req_headers put_request) ''Connection'' = None \<longrightarrow> req_keep_alive r = req_keep_alive put_request)"
proof (rule request_roundtrip [OF prod.collapse [symmetric] put_request_written])
  show "routing_target ''/x?q=1'' = Inr ''/x?q=1''" by (simp add: routing_target_def)
  show "route_target ''/x?q=1'' new_request = Inr (new_request\<lparr>path := ''/x'', query := [(''q'', ''1'')]\<rparr>)"
    by code_simp
  show "headers_get_all (req_headers put_request) ''Host'' = [''a'']" by code_simp
  show "\<not> bad_host (trim_ows ''a'')" by code_simp
  show "\<not> headers_contains (req_headers put_request) ''Expect''" by code_simp
qed (simp_all add: quiet_def willing_def plain_options_def stream_def cut_stream_def wire_def idle_io_def put_wire_def
    put_request_def new_request_def)

end
