(* ===== verification/Client_Pool.thy ===== *)
theory Client_Pool
  imports Chhttp_Prelude
begin

text \<open>
  The connection pool of the client (\<^verbatim>\<open>src/client.cpp\<close>, \<^verbatim>\<open>AsyncClient::Impl\<close>): the idle connections,
  the count and the queue of waiters of one origin, and every interleaving of the requests that share
  them.  The maps \<^verbatim>\<open>pool\<close>, \<^verbatim>\<open>connection_counts\<close> and \<^verbatim>\<open>pool_waiters\<close> are indexed by the same key
  and no operation touches two keys, so the state is the entry of one key; an absent entry is the empty
  one.  Operations run on the loop thread and are atomic between two suspensions.
\<close>

section \<open>The entry of an origin\<close>

text \<open>The vector \<^verbatim>\<open>pool[key]\<close> is kept with its back first.\<close>

record 'c origin_pool =
  idle :: "'c list"
  count :: nat
  waiting :: "nat list"

definition empty_pool :: "'c origin_pool" where
  "empty_pool = \<lparr>idle = [], count = 0, waiting = []\<rparr>"

text \<open>The inner loop of \<^verbatim>\<open>acquire\<close>: the last idle connection that is still open; closed ones are uncounted.\<close>

fun take_idle :: "('c \<Rightarrow> bool) \<Rightarrow> 'c list \<Rightarrow> nat \<Rightarrow> 'c option \<times> 'c list \<times> nat" where
  "take_idle open_now [] n = (None, [], n)"
| "take_idle open_now (c # cs) n =
     (if open_now c then (Some c, cs, n) else take_idle open_now cs (if n \<noteq> 0 then n - 1 else n))"

datatype 'c slot = Reused 'c | Fresh | Full

text \<open>One round of the loop of \<^verbatim>\<open>acquire\<close>; a limit of zero is no limit.\<close>

definition acquire_slot :: "('c \<Rightarrow> bool) \<Rightarrow> nat \<Rightarrow> 'c origin_pool \<Rightarrow> 'c slot \<times> 'c origin_pool" where
  "acquire_slot open_now limit p =
     (case take_idle open_now (idle p) (count p) of
        (Some c, cs, n) \<Rightarrow> (Reused c, p\<lparr>idle := cs, count := n\<rparr>)
      | (None, cs, n) \<Rightarrow>
          if limit = 0 \<or> n < limit then (Fresh, p\<lparr>idle := cs, count := n + 1\<rparr>)
          else (Full, p\<lparr>idle := cs, count := n\<rparr>))"

text \<open>The counting half of \<^verbatim>\<open>release_slot\<close>: the last slot takes the entry of the pool with it.\<close>

definition uncount :: "'c origin_pool \<Rightarrow> 'c origin_pool" where
  "uncount p =
     (if count p = 0 then p
      else if count p = 1 then p\<lparr>count := 0, idle := []\<rparr> else p\<lparr>count := count p - 1\<rparr>)"

text \<open>The bookkeeping of \<^verbatim>\<open>release\<close>: whether the connection was kept.\<close>

definition keep_idle :: "nat \<Rightarrow> bool \<Rightarrow> 'c \<Rightarrow> 'c origin_pool \<Rightarrow> bool \<times> 'c origin_pool" where
  "keep_idle pool_size usable c p =
     (if usable \<and> length (idle p) < pool_size then (True, p\<lparr>idle := c # idle p\<rparr>) else (False, p))"

section \<open>Requests that share an origin\<close>

text \<open>
  Where a request is.  The flag is \<^verbatim>\<open>slot_notified\<close> of its waiter and, once that has resumed, its
  \<^verbatim>\<open>notified_origin\<close>: it was woken for a slot that it has neither taken nor passed on.
\<close>

datatype 'c phase =
    Absent
  | Trying bool
  | Waiting
  | Nudged bool
  | Connecting
  | Using 'c
  | Exited

record 'c pool_state =
  entry :: "'c origin_pool"
  phases :: "nat \<Rightarrow> 'c phase"
  closed :: "'c \<Rightarrow> bool"

record pool_options =
  idle_limit :: nat
  slot_limit :: nat

definition new_pool :: "'c pool_state" where
  "new_pool = \<lparr>entry = empty_pool, phases = (\<lambda>_. Absent), closed = (\<lambda>_. False)\<rparr>"

definition enter :: "nat \<Rightarrow> 'c phase \<Rightarrow> 'c pool_state \<Rightarrow> 'c pool_state" where
  "enter i ph s = s\<lparr>phases := (phases s)(i := ph)\<rparr>"

text \<open>Waiters that were notified already are dropped on the way to the one that is woken.\<close>

fun first_waiter :: "(nat \<Rightarrow> bool) \<Rightarrow> nat list \<Rightarrow> nat option \<times> nat list" where
  "first_waiter asleep [] = (None, [])"
| "first_waiter asleep (i # is) = (if asleep i then (Some i, is) else first_waiter asleep is)"

definition asleep :: "'c pool_state \<Rightarrow> nat \<Rightarrow> bool" where
  "asleep s i \<longleftrightarrow> (case phases s i of Waiting \<Rightarrow> True | _ \<Rightarrow> False)"

definition wake_pool_waiter :: "'c pool_state \<Rightarrow> 'c pool_state" where
  "wake_pool_waiter s =
     (case first_waiter (asleep s) (waiting (entry s)) of
        (w, rest) \<Rightarrow>
          let s' = s\<lparr>entry := (entry s)\<lparr>waiting := rest\<rparr>\<rparr>
          in case w of None \<Rightarrow> s' | Some i \<Rightarrow> enter i (Nudged True) s')"

definition release_slot :: "'c pool_state \<Rightarrow> 'c pool_state" where
  "release_slot s = wake_pool_waiter (s\<lparr>entry := uncount (entry s)\<rparr>)"

definition release :: "pool_options \<Rightarrow> bool \<Rightarrow> 'c \<Rightarrow> 'c pool_state \<Rightarrow> 'c pool_state" where
  "release opts reusable c s =
     (case keep_idle (idle_limit opts) (reusable \<and> \<not> closed s c) c (entry s) of
        (True, p) \<Rightarrow> wake_pool_waiter (s\<lparr>entry := p\<rparr>)
      | (False, p) \<Rightarrow> release_slot (s\<lparr>entry := p\<rparr>))"

text \<open>A request that finds no slot queues up and gives up the notification it came with.\<close>

definition try_acquire :: "pool_options \<Rightarrow> nat \<Rightarrow> 'c pool_state \<Rightarrow> 'c pool_state" where
  "try_acquire opts i s =
     (case acquire_slot (\<lambda>c. \<not> closed s c) (slot_limit opts) (entry s) of
        (Reused c, p) \<Rightarrow> enter i (Using c) (s\<lparr>entry := p\<rparr>)
      | (Fresh, p) \<Rightarrow> enter i Connecting (s\<lparr>entry := p\<rparr>)
      | (Full, p) \<Rightarrow> enter i Waiting (s\<lparr>entry := p\<lparr>waiting := waiting p @ [i]\<rparr>\<rparr>))"

text \<open>\<^verbatim>\<open>PoolAwaiter::await_resume\<close>: out of the queue, with the notification when there is one.\<close>

definition resume_waiter :: "nat \<Rightarrow> 'c pool_state \<Rightarrow> 'c pool_state" where
  "resume_waiter i s =
     enter i (Trying (case phases s i of Nudged b \<Rightarrow> b | _ \<Rightarrow> False))
       (s\<lparr>entry := (entry s)\<lparr>waiting := removeAll i (waiting (entry s))\<rparr>\<rparr>)"

text \<open>The destructor of \<^verbatim>\<open>Registration\<close>: a notification that was not used is handed on.\<close>

definition leave :: "nat \<Rightarrow> 'c pool_state \<Rightarrow> 'c pool_state" where
  "leave i s = (case phases s i of
     Trying True \<Rightarrow> wake_pool_waiter (enter i Exited s) | _ \<Rightarrow> enter i Exited s)"

inductive pool_step :: "pool_options \<Rightarrow> 'c pool_state \<Rightarrow> 'c pool_state \<Rightarrow> bool" for opts where
  pool_arrive: "phases s i = Absent \<Longrightarrow> pool_step opts s (enter i (Trying False) s)"
| pool_try: "phases s i = Trying b \<Longrightarrow> pool_step opts s (try_acquire opts i s)"
| pool_cancel: "phases s i = Waiting \<Longrightarrow> pool_step opts s (enter i (Nudged False) s)"
| pool_timer: "phases s i \<in> {Waiting, Nudged b} \<Longrightarrow> pool_step opts s (resume_waiter i s)"
| pool_connected: "phases s i = Connecting \<Longrightarrow> pool_step opts s (enter i (Using c) s)"
| pool_refused: "phases s i = Connecting \<Longrightarrow> pool_step opts s (release_slot (enter i (Trying False) s))"
| pool_release: "phases s i = Using c \<Longrightarrow> pool_step opts s (release opts reusable c (enter i (Trying False) s))"
| pool_discard: "phases s i = Using c \<Longrightarrow> pool_step opts s (release_slot (enter i (Trying False) s))"
| pool_leave: "phases s i = Trying b \<Longrightarrow> pool_step opts s (leave i s)"
| pool_closed: "pool_step opts s (s\<lparr>closed := (closed s)(c := True)\<rparr>)"

inductive pool_reachable :: "pool_options \<Rightarrow> 'c pool_state \<Rightarrow> bool" for opts where
  pool_new: "pool_reachable opts new_pool"
| pool_next: "pool_reachable opts s \<Longrightarrow> pool_step opts s s' \<Longrightarrow> pool_reachable opts s'"

section \<open>Counting requests\<close>

definition tally :: "('c phase \<Rightarrow> bool) \<Rightarrow> 'c pool_state \<Rightarrow> nat" where
  "tally P s = card {i. P (phases s i)}"

definition present :: "'c pool_state \<Rightarrow> bool" where
  "present s \<longleftrightarrow> finite {i. phases s i \<noteq> Absent}"

definition occupying :: "'c phase \<Rightarrow> bool" where
  "occupying ph \<longleftrightarrow> (case ph of Connecting \<Rightarrow> True | Using c \<Rightarrow> True | _ \<Rightarrow> False)"

definition carrying :: "'c phase \<Rightarrow> bool" where
  "carrying ph \<longleftrightarrow> (case ph of Trying b \<Rightarrow> b | Nudged b \<Rightarrow> b | _ \<Rightarrow> False)"

lemma occupying_simps [simp]:
  "occupying Connecting" "occupying (Using c)" "\<not> occupying Absent" "\<not> occupying (Trying b)"
  "\<not> occupying Waiting" "\<not> occupying (Nudged b)" "\<not> occupying Exited"
  by (simp_all add: occupying_def)

lemma carrying_simps [simp]:
  "carrying (Trying b) = b" "carrying (Nudged b) = b" "\<not> carrying Absent" "\<not> carrying Waiting"
  "\<not> carrying Connecting" "\<not> carrying (Using c)" "\<not> carrying Exited"
  by (simp_all add: carrying_def)

lemma present_update:
  assumes "finite {j. f j \<noteq> Absent}" shows "finite {j. (f(i := ph)) j \<noteq> Absent}"
proof -
  have "{j. (f(i := ph)) j \<noteq> Absent} \<subseteq> insert i {j. f j \<noteq> Absent}" by auto
  then show ?thesis using assms by (meson finite_insert finite_subset)
qed

lemma present_enter [simp]: "present s \<Longrightarrow> present (enter i ph s)"
  using present_update [of "phases s" i ph] by (simp add: present_def enter_def del: fun_upd_apply)

lemma phases_enter [simp]: "phases (enter i ph s) j = (if j = i then ph else phases s j)"
  "entry (enter i ph s) = entry s" "closed (enter i ph s) = closed s"
  by (simp_all add: enter_def)

lemma state_updates [simp]:
  "present (s\<lparr>entry := p\<rparr>) = present s" "tally P (s\<lparr>entry := p\<rparr>) = tally P s"
  "present (s\<lparr>closed := q\<rparr>) = present s" "tally P (s\<lparr>closed := q\<rparr>) = tally P s"
  by (simp_all add: present_def tally_def)

lemma tally_enter:
  assumes "present s" "\<not> P Absent"
  shows "tally P (enter i ph s) + (if P (phases s i) then 1 else 0) = tally P s + (if P ph then 1 else 0)"
proof -
  define A where "A = {j. j \<noteq> i \<and> P (phases s j)}"
  have "A \<subseteq> {j. phases s j \<noteq> Absent}" using assms(2) by (auto simp: A_def)
  then have fin: "finite A" "i \<notin> A" using assms(1) by (auto simp: present_def A_def intro: finite_subset)
  have "{j. P (phases (enter i ph s) j)} = (if P ph then insert i A else A)"
    "{j. P (phases s j)} = (if P (phases s i) then insert i A else A)" by (auto simp: A_def)
  then show ?thesis using fin by (simp add: tally_def)
qed

lemmas occupying_enter = tally_enter [of _ occupying, OF _ occupying_simps(3)]
lemmas carrying_enter = tally_enter [of _ carrying, OF _ carrying_simps(3)]

section \<open>The invariant\<close>

definition queue_inv :: "'c pool_state \<Rightarrow> bool" where
  "queue_inv s \<longleftrightarrow> distinct (waiting (entry s)) \<and> (\<forall>i. asleep s i \<longrightarrow> i \<in> set (waiting (entry s)))
     \<and> (\<forall>i \<in> set (waiting (entry s)). asleep s i \<or> phases s i = Nudged False)"

definition count_inv :: "pool_options \<Rightarrow> 'c pool_state \<Rightarrow> bool" where
  "count_inv opts s \<longleftrightarrow> present s \<and> count (entry s) = length (idle (entry s)) + tally occupying s
     \<and> (slot_limit opts \<noteq> 0 \<longrightarrow> count (entry s) \<le> slot_limit opts)
     \<and> length (idle (entry s)) \<le> idle_limit opts"

text \<open>While somebody sleeps, every free slot and idle connection is promised to a request on its way, but
  for \<open>k\<close> of them.\<close>

definition promised :: "nat \<Rightarrow> pool_options \<Rightarrow> 'c pool_state \<Rightarrow> bool" where
  "promised k opts s \<longleftrightarrow> (\<forall>i. asleep s i \<longrightarrow> slot_limit opts \<noteq> 0
     \<and> slot_limit opts - count (entry s) + length (idle (entry s)) \<le> tally carrying s + k)"

definition pool_inv :: "pool_options \<Rightarrow> 'c pool_state \<Rightarrow> bool" where
  "pool_inv opts s \<longleftrightarrow> queue_inv s \<and> count_inv opts s \<and> promised 0 opts s"

lemma asleep_iff: "asleep s i \<longleftrightarrow> phases s i = Waiting"
  by (simp add: asleep_def split: phase.split)

lemma first_waiter_None: "first_waiter P xs = (None, ys) \<Longrightarrow> ys = [] \<and> (\<forall>x \<in> set xs. \<not> P x)"
  by (induction P xs rule: first_waiter.induct) (auto split: if_splits)

lemma first_waiter_Some:
  "first_waiter P xs = (Some x, ys) \<Longrightarrow> \<exists>zs. xs = zs @ x # ys \<and> P x \<and> (\<forall>z \<in> set zs. \<not> P z)"
proof (induction P xs rule: first_waiter.induct)
  case (2 P i xs)
  show ?case
  proof (cases "P i")
    case True
    then show ?thesis using "2.prems" by auto
  next
    case False
    with 2 obtain zs where "xs = zs @ x # ys \<and> P x \<and> (\<forall>z \<in> set zs. \<not> P z)" by auto
    then show ?thesis using False by (intro exI [of _ "i # zs"]) simp
  qed
qed simp

lemma wake_inv:
  assumes "queue_inv s" "count_inv opts s" "promised 1 opts s" shows "pool_inv opts (wake_pool_waiter s)"
proof (cases "first_waiter (asleep s) (waiting (entry s))")
  case (Pair w rest)
  show ?thesis
  proof (cases w)
    case None
    from first_waiter_None [OF Pair [unfolded None]] have none: "rest = []" "\<And>i. \<not> asleep s i"
      using assms(1) unfolding queue_inv_def by auto
    have s': "wake_pool_waiter s = s\<lparr>entry := (entry s)\<lparr>waiting := []\<rparr>\<rparr>"
      using Pair none(1) by (simp add: wake_pool_waiter_def None Let_def)
    show ?thesis unfolding s' using none(2) assms(2)
      by (auto simp: pool_inv_def queue_inv_def count_inv_def promised_def asleep_iff)
  next
    case (Some i)
    from first_waiter_Some [OF Pair [unfolded Some]] obtain zs where
      zs: "waiting (entry s) = zs @ i # rest" "asleep s i" "\<forall>z \<in> set zs. \<not> asleep s z" by auto
    have s': "wake_pool_waiter s = enter i (Nudged True) (s\<lparr>entry := (entry s)\<lparr>waiting := rest\<rparr>\<rparr>)"
      using Pair by (simp add: wake_pool_waiter_def Some Let_def)
    have "queue_inv (wake_pool_waiter s)"
      using assms(1) zs unfolding s' queue_inv_def by (auto simp: asleep_iff)
    moreover have "count_inv opts (wake_pool_waiter s)"
      using assms(2) zs(2) occupying_enter [of "s\<lparr>entry := (entry s)\<lparr>waiting := rest\<rparr>\<rparr>" i "Nudged True"]
      unfolding s' count_inv_def by (auto simp: asleep_iff)
    moreover have "promised 0 opts (wake_pool_waiter s)"
      using assms(2,3) zs(2) carrying_enter [of "s\<lparr>entry := (entry s)\<lparr>waiting := rest\<rparr>\<rparr>" i "Nudged True"]
      unfolding s' promised_def count_inv_def by (auto simp: asleep_iff)
    ultimately show ?thesis by (simp add: pool_inv_def)
  qed
qed

lemma queue_inv_out: "queue_inv s \<Longrightarrow> \<not> asleep s i \<Longrightarrow> phases s i \<noteq> Nudged False \<Longrightarrow> i \<notin> set (waiting (entry s))"
  by (auto simp: queue_inv_def)

lemma quiet_enter:
  assumes "pool_inv opts s" "i \<notin> set (waiting (entry s))" "ph \<noteq> Waiting"
    and "occupying ph = occupying (phases s i)" "carrying ph = carrying (phases s i)"
  shows "pool_inv opts (enter i ph s)"
proof -
  have p: "present s" using assms(1) by (simp add: pool_inv_def count_inv_def)
  have "tally occupying (enter i ph s) = tally occupying s" "tally carrying (enter i ph s) = tally carrying s"
    using occupying_enter [OF p, of i ph] carrying_enter [OF p, of i ph] assms(4,5) by (auto split: if_splits)
  then show ?thesis using assms(1-3) p
    by (auto simp: pool_inv_def queue_inv_def count_inv_def promised_def asleep_iff)
qed

text \<open>The slot of a request that has just let go of it.\<close>

definition owed :: "pool_options \<Rightarrow> 'c pool_state \<Rightarrow> bool" where
  "owed opts s \<longleftrightarrow> queue_inv s \<and> promised 0 opts s \<and> present s
     \<and> count (entry s) = length (idle (entry s)) + tally occupying s + 1
     \<and> (slot_limit opts \<noteq> 0 \<longrightarrow> count (entry s) \<le> slot_limit opts) \<and> length (idle (entry s)) \<le> idle_limit opts"

lemma owed_enter:
  assumes "pool_inv opts s" "occupying (phases s i)" shows "owed opts (enter i (Trying False) s)"
proof -
  have p: "present s" using assms(1) by (simp add: pool_inv_def count_inv_def)
  have here: "\<not> asleep s i" "phases s i \<noteq> Nudged False" "\<not> carrying (phases s i)"
    using assms(2) by (auto simp: asleep_iff occupying_def split: phase.splits)
  have out: "i \<notin> set (waiting (entry s))"
    using queue_inv_out [OF _ here(1,2)] assms(1) by (simp add: pool_inv_def)
  have "tally occupying s = tally occupying (enter i (Trying False) s) + 1"
    "tally carrying (enter i (Trying False) s) = tally carrying s"
    using occupying_enter [OF p, of i "Trying False"] carrying_enter [OF p, of i "Trying False"] assms(2) here(3) by auto
  then show ?thesis using assms(1) out p
    by (auto simp: owed_def pool_inv_def queue_inv_def count_inv_def promised_def asleep_iff)
qed

lemma release_slot_inv:
  assumes "owed opts s" shows "pool_inv opts (release_slot s)"
proof -
  have u: "count (uncount (entry s)) = count (entry s) - 1" "idle (uncount (entry s)) = idle (entry s)"
    "waiting (uncount (entry s)) = waiting (entry s)"
    using assms by (auto simp: uncount_def owed_def)
  show ?thesis unfolding release_slot_def
  proof (rule wake_inv)
    show "queue_inv (s\<lparr>entry := uncount (entry s)\<rparr>)"
      using assms u by (simp add: owed_def queue_inv_def asleep_iff)
    show "count_inv opts (s\<lparr>entry := uncount (entry s)\<rparr>)"
      using assms u by (auto simp: owed_def count_inv_def)
    show "promised 1 opts (s\<lparr>entry := uncount (entry s)\<rparr>)"
      using assms u by (fastforce simp: owed_def promised_def asleep_iff)
  qed
qed

lemma release_inv:
  assumes "owed opts s" shows "pool_inv opts (release opts reusable c s)"
proof (cases "reusable \<and> \<not> closed s c \<and> length (idle (entry s)) < idle_limit opts")
  case True
  define p where "p = (entry s)\<lparr>idle := c # idle (entry s)\<rparr>"
  have r: "release opts reusable c s = wake_pool_waiter (s\<lparr>entry := p\<rparr>)"
    using True by (simp add: release_def keep_idle_def p_def)
  show ?thesis unfolding r
  proof (rule wake_inv)
    show "queue_inv (s\<lparr>entry := p\<rparr>)" using assms by (simp add: owed_def queue_inv_def asleep_iff p_def)
    show "count_inv opts (s\<lparr>entry := p\<rparr>)" using assms True by (auto simp: owed_def count_inv_def p_def)
    show "promised 1 opts (s\<lparr>entry := p\<rparr>)"
      using assms by (fastforce simp: owed_def promised_def asleep_iff p_def)
  qed
next
  case False
  then have "keep_idle (idle_limit opts) (reusable \<and> \<not> closed s c) c (entry s) = (False, entry s)"
    by (auto simp: keep_idle_def)
  then have "release opts reusable c s = release_slot s" by (simp add: release_def)
  then show ?thesis using release_slot_inv [OF assms] by simp
qed

lemma take_idle_counts:
  "take_idle f cs n = (r, cs', n') \<Longrightarrow> length cs \<le> n \<Longrightarrow>
     (case r of None \<Rightarrow> cs' = [] \<and> n' + length cs = n
      | Some c \<Rightarrow> f c \<and> c \<in> set cs \<and> n' + length cs = n + length cs' + 1 \<and> length cs' < length cs)"
proof (induction f cs n rule: take_idle.induct)
  case (2 f c cs n)
  show ?case
  proof (cases "f c")
    case True
    then show ?thesis using "2.prems" by auto
  next
    case False
    have n: "n \<noteq> 0" "length cs \<le> n - 1" using "2.prems" by auto
    have "take_idle f cs (n - 1) = (r, cs', n')" using "2.prems" False n by simp
    from "2.IH" [OF False] this n show ?thesis by (cases r) auto
  qed
qed auto

lemma try_acquire_inv:
  assumes inv: "pool_inv opts s" and here: "phases s i = Trying b" shows "pool_inv opts (try_acquire opts i s)"
proof -
  have p: "present s" using inv by (simp add: pool_inv_def count_inv_def)
  have out: "i \<notin> set (waiting (entry s))"
    using inv here queue_inv_out [of s i] by (auto simp: pool_inv_def asleep_iff)
  obtain r cs n where t: "take_idle (\<lambda>c. \<not> closed s c) (idle (entry s)) (count (entry s)) = (r, cs, n)"
    by (metis prod_cases3)
  have len: "length (idle (entry s)) \<le> count (entry s)" using inv by (simp add: pool_inv_def count_inv_def)
  note counts = take_idle_counts [OF t len]
  have tallies: "tally occupying (enter i ph s) = tally occupying s + (if occupying ph then 1 else 0)"
    "tally carrying (enter i ph s) + (if b then 1 else 0) = tally carrying s + (if carrying ph then 1 else 0)" for ph
    using occupying_enter [OF p, of i ph] carrying_enter [OF p, of i ph] here by auto
  consider c where "r = Some c" | "r = None" "slot_limit opts = 0 \<or> n < slot_limit opts"
    | "r = None" "slot_limit opts \<noteq> 0" "\<not> n < slot_limit opts" by fastforce
  then show ?thesis
  proof cases
    case 1
    define q where "q = (entry s)\<lparr>idle := cs, count := n\<rparr>"
    have s': "try_acquire opts i s = enter i (Using c) (s\<lparr>entry := q\<rparr>)"
      using t 1 by (simp add: try_acquire_def acquire_slot_def q_def)
    have e: "enter i (Using c) (s\<lparr>entry := q\<rparr>) = (enter i (Using c) s)\<lparr>entry := q\<rparr>" by (simp add: enter_def)
    show ?thesis using inv out p counts 1 tallies [of "Using c"] unfolding s' e
      by (fastforce simp: q_def pool_inv_def queue_inv_def count_inv_def promised_def asleep_iff split: if_splits)
  next
    case 2
    define q where "q = (entry s)\<lparr>idle := cs, count := n + 1\<rparr>"
    have s': "try_acquire opts i s = enter i Connecting (s\<lparr>entry := q\<rparr>)"
      using t 2 by (simp add: try_acquire_def acquire_slot_def q_def)
    have e: "enter i Connecting (s\<lparr>entry := q\<rparr>) = (enter i Connecting s)\<lparr>entry := q\<rparr>" by (simp add: enter_def)
    show ?thesis using inv out p counts 2 tallies [of Connecting] unfolding s' e
      by (fastforce simp: q_def pool_inv_def queue_inv_def count_inv_def promised_def asleep_iff split: if_splits)
  next
    case 3
    define q where "q = (entry s)\<lparr>idle := cs, count := n, waiting := waiting (entry s) @ [i]\<rparr>"
    have s': "try_acquire opts i s = enter i Waiting (s\<lparr>entry := q\<rparr>)"
      using t 3 by (simp add: try_acquire_def acquire_slot_def q_def)
    have e: "enter i Waiting (s\<lparr>entry := q\<rparr>) = (enter i Waiting s)\<lparr>entry := q\<rparr>" by (simp add: enter_def)
    show ?thesis using inv out p counts 3 tallies [of Waiting] unfolding s' e
      by (auto simp: q_def pool_inv_def queue_inv_def count_inv_def promised_def asleep_iff split: if_splits)
  qed
qed

lemma resume_waiter_inv:
  assumes inv: "pool_inv opts s" and here: "phases s i \<in> {Waiting, Nudged b}"
  shows "pool_inv opts (resume_waiter i s)"
proof -
  define ph where "ph = (Trying (case phases s i of Nudged b \<Rightarrow> b | _ \<Rightarrow> False) :: 'a phase)"
  define q where "q = (entry s)\<lparr>waiting := removeAll i (waiting (entry s))\<rparr>"
  have s': "resume_waiter i s = (enter i ph s)\<lparr>entry := q\<rparr>" by (simp add: resume_waiter_def ph_def q_def enter_def)
  have p: "present s" using inv by (simp add: pool_inv_def count_inv_def)
  have "\<not> occupying ph" "carrying ph = carrying (phases s i)" "\<not> occupying (phases s i)" "ph \<noteq> Waiting" "\<And>x. ph \<noteq> Nudged x"
    using here by (auto simp: ph_def)
  then have ph: "ph \<noteq> Waiting" "\<And>x. ph \<noteq> Nudged x" "tally occupying (enter i ph s) = tally occupying s"
    "tally carrying (enter i ph s) = tally carrying s"
    using occupying_enter [OF p, of i ph] carrying_enter [OF p, of i ph] by (auto split: if_splits)
  show ?thesis using inv p ph unfolding s'
    by (auto simp: q_def pool_inv_def queue_inv_def count_inv_def promised_def asleep_iff distinct_removeAll)
qed

lemma leave_inv:
  assumes inv: "pool_inv opts s" and here: "phases s i = Trying b" shows "pool_inv opts (leave i s)"
proof -
  have p: "present s" using inv by (simp add: pool_inv_def count_inv_def)
  have out: "i \<notin> set (waiting (entry s))"
    using inv here queue_inv_out [of s i] by (auto simp: pool_inv_def asleep_iff)
  show ?thesis
  proof (cases b)
    case True
    have ph: "tally occupying (enter i Exited s) = tally occupying s" "tally carrying s = tally carrying (enter i Exited s) + 1"
      using occupying_enter [OF p, of i Exited] carrying_enter [OF p, of i Exited] here True by auto
    have "pool_inv opts (wake_pool_waiter (enter i Exited s))"
      by (rule wake_inv) (use inv out p ph in \<open>auto simp: pool_inv_def queue_inv_def count_inv_def promised_def asleep_iff\<close>)
    then show ?thesis using here True by (simp add: leave_def)
  next
    case False
    have "pool_inv opts (enter i Exited s)"
      by (rule quiet_enter [OF inv out]) (simp_all add: here False)
    then show ?thesis using here False by (simp add: leave_def)
  qed
qed

lemma cancel_inv:
  assumes inv: "pool_inv opts s" and here: "phases s i = Waiting" shows "pool_inv opts (enter i (Nudged False) s)"
proof -
  have p: "present s" using inv by (simp add: pool_inv_def count_inv_def)
  have "tally occupying (enter i (Nudged False) s) = tally occupying s"
    "tally carrying (enter i (Nudged False) s) = tally carrying s"
    using occupying_enter [OF p, of i "Nudged False"] carrying_enter [OF p, of i "Nudged False"] here by auto
  then show ?thesis using inv p
    by (auto simp: pool_inv_def queue_inv_def count_inv_def promised_def asleep_iff)
qed

lemma pool_step_inv: "pool_step opts s s' \<Longrightarrow> pool_inv opts s \<Longrightarrow> pool_inv opts s'"
proof (induction rule: pool_step.induct)
  case (pool_arrive s i)
  then have "i \<notin> set (waiting (entry s))" by (auto simp: pool_inv_def queue_inv_def asleep_iff)
  then show ?case by (rule quiet_enter [OF pool_arrive.prems]) (simp_all add: pool_arrive.hyps)
next
  case (pool_connected s i c)
  then have "i \<notin> set (waiting (entry s))" by (auto simp: pool_inv_def queue_inv_def asleep_iff)
  then show ?case by (rule quiet_enter [OF pool_connected.prems]) (simp_all add: pool_connected.hyps)
next
  case (pool_closed s c)
  then show ?case by (auto simp: pool_inv_def queue_inv_def count_inv_def promised_def asleep_iff)
qed (simp_all add: try_acquire_inv cancel_inv resume_waiter_inv leave_inv release_inv release_slot_inv owed_enter)

lemma pool_inv_new: "pool_inv opts new_pool"
  by (simp add: pool_inv_def queue_inv_def count_inv_def promised_def asleep_iff new_pool_def empty_pool_def
      present_def tally_def)

lemma pool_reachable_inv: "pool_reachable opts s \<Longrightarrow> pool_inv opts s"
proof (induction rule: pool_reachable.induct)
  case pool_new
  show ?case by (rule pool_inv_new)
next
  case (pool_next s s')
  show ?case by (rule pool_step_inv [OF pool_next.hyps(2) pool_next.IH])
qed

section \<open>Properties\<close>

lemma tally_positive: "0 < tally P s \<Longrightarrow> \<exists>i. P (phases s i)"
  unfolding tally_def by (metis (mono_tags, lifting) card.empty empty_Collect_eq less_numeral_extra(3))

text \<open>C31: However the requests to one origin interleave, with connections that close at any time, the
  pool counts exactly its idle connections and the requests that connect or use one, never more than the
  limit, and keeps no more idle ones than allowed; and no wake-up is lost: while a request sleeps in the
  queue, either every slot is in use or a request that was woken for a slot is on its way and will take it
  or hand it on.\<close>

theorem no_lost_wakeup:
  assumes "pool_reachable opts s"
  shows "count (entry s) = length (idle (entry s)) + card {i. occupying (phases s i)}
    \<and> (slot_limit opts = 0 \<or> count (entry s) \<le> slot_limit opts)
    \<and> length (idle (entry s)) \<le> idle_limit opts
    \<and> (phases s i = Waiting \<longrightarrow> i \<in> set (waiting (entry s))
         \<and> (card {i. occupying (phases s i)} = slot_limit opts \<or> (\<exists>j. phases s j \<in> {Trying True, Nudged True})))"
proof -
  have inv: "queue_inv s" "count_inv opts s" "promised 0 opts s"
    using pool_reachable_inv [OF assms] by (simp_all add: pool_inv_def)
  have "card {i. occupying (phases s i)} = slot_limit opts \<or> (\<exists>j. phases s j \<in> {Trying True, Nudged True})"
    if "phases s i = Waiting"
  proof (cases "tally carrying s = 0")
    case True
    with that inv(2,3) have "length (idle (entry s)) = 0" "count (entry s) = slot_limit opts"
      by (auto simp: promised_def asleep_iff count_inv_def)
    then show ?thesis using inv(2) by (simp add: count_inv_def tally_def)
  next
    case False
    then obtain j where "carrying (phases s j)" using tally_positive [of carrying s] by auto
    then have "phases s j \<in> {Trying True, Nudged True}" by (auto simp: carrying_def split: phase.splits)
    then show ?thesis by blast
  qed
  then show ?thesis using inv by (auto simp: count_inv_def queue_inv_def tally_def asleep_iff)
qed

definition crowded :: "nat pool_state" where
  "crowded = try_acquire \<lparr>idle_limit = 8, slot_limit = 1\<rparr> 1 (enter 1 (Trying False)
     (try_acquire \<lparr>idle_limit = 8, slot_limit = 1\<rparr> 0 (enter 0 (Trying False) new_pool)))"

lemma no_lost_wakeup_witness:
  "phases crowded 1 = Waiting \<and> 1 \<in> set (waiting (entry crowded))
     \<and> (card {i. occupying (phases crowded i)} = 1 \<or> (\<exists>j. phases crowded j \<in> {Trying True, Nudged True}))"
proof -
  let ?opts = "\<lparr>idle_limit = 8, slot_limit = 1\<rparr>"
  have "pool_reachable ?opts (enter 0 (Trying False) new_pool :: nat pool_state)"
    by (rule pool_next [OF pool_new pool_arrive]) (simp add: new_pool_def)
  then have "pool_reachable ?opts (try_acquire ?opts 0 (enter 0 (Trying False) new_pool) :: nat pool_state)"
    by (rule pool_next [OF _ pool_try [of _ 0 False]]) simp
  then have "pool_reachable ?opts (enter 1 (Trying False)
      (try_acquire ?opts 0 (enter 0 (Trying False) new_pool)) :: nat pool_state)"
    by (rule pool_next [OF _ pool_arrive]) (simp add: try_acquire_def acquire_slot_def new_pool_def empty_pool_def)
  then have "pool_reachable ?opts crowded"
    unfolding crowded_def by (rule pool_next [OF _ pool_try [of _ 1 False]]) simp
  from no_lost_wakeup [OF this, of 1] show ?thesis
    by (simp add: crowded_def try_acquire_def acquire_slot_def new_pool_def empty_pool_def)
qed

end
