(* ===== verification/Base64.thy ===== *)
theory Base64
  imports Errors
begin

text \<open>
  Base64 (\<^verbatim>\<open>base64_encode_blocks\<close>, \<^verbatim>\<open>base64_encode\<close>, \<^verbatim>\<open>base64_decode\<close> of \<^verbatim>\<open>src/common.cpp\<close>) and the
  incremental \<^verbatim>\<open>Base64Encoder\<close> with \<^verbatim>\<open>base64_encoded_size\<close> of \<^verbatim>\<open>src/streaming_body.cpp\<close>.  The shifts
  and masks of the source stay below 24 bits of a \<^verbatim>\<open>std::uint32_t\<close>, so they are written with the
  bit operations of \<open>nat\<close>; a conversion to \<^verbatim>\<open>char\<close> is \<open>char_of\<close>, which reduces modulo 256.  The
  \<^verbatim>\<open>std::length_error\<close> for outputs above \<^verbatim>\<open>max_size()\<close> has no counterpart for lists.
\<close>

unbundle bit_operations_syntax

section \<open>Bit arithmetic\<close>

lemma push_or [bytes_simps]: "y < 2 ^ n \<Longrightarrow> push_bit n x OR y = x * 2 ^ n + (y::nat)"
proof -
  assume y: "y < 2 ^ n"
  then have "take_bit n y = y" by (simp add: take_bit_nat_eq_self)
  then have "\<And>k. bit y k \<Longrightarrow> k < n" by (metis bit_take_bit_iff)
  then have "push_bit n x + y = push_bit n x OR y"
    by (intro disjunctive_add_eq_or bit_eqI) (auto simp: bit_simps dest: leD)
  then show ?thesis by (simp add: push_bit_eq_mult)
qed

lemma and_ones: "(x::nat) AND mask n = x mod 2 ^ n"
  by (simp add: take_bit_eq_mask [symmetric] take_bit_eq_mod)

lemma and_low:
  "(x::nat) AND 63 = x mod 64" "x AND 15 = x mod 16" "x AND 3 = x mod 4" "x AND 255 = x mod 256"
  using and_ones [of x 6] and_ones [of x 4] and_ones [of x 2] and_ones [of x 8]
  by (simp_all add: mask_eq_exp_minus_1)

lemma sextets_split:
  assumes "r2 \<le> 3" "r4 \<le> 15" "r6 \<le> (63::nat)" "q4 \<le> 15" "q6 \<le> 3"
  shows "((4 * q + r2) * 65536 + (16 * q4 + r4) * 256 + (64 * q6 + r6)) div 262144 = q"
    "((4 * q + r2) * 65536 + (16 * q4 + r4) * 256 + (64 * q6 + r6)) div 4096 mod 64 = r2 * 16 + q4"
    "((4 * q + r2) * 65536 + (16 * q4 + r4) * 256 + (64 * q6 + r6)) div 64 mod 64 = r4 * 4 + q6"
    "((4 * q + r2) * 65536 + (16 * q4 + r4) * 256 + (64 * q6 + r6)) mod 64 = r6"
proof -
  let ?n = "(4 * q + r2) * 65536 + (16 * q4 + r4) * 256 + (64 * q6 + r6)"
  show "?n div 262144 = q" by (rule div_nat_eqI) (use assms in simp_all)
  have "?n div 4096 = 64 * q + (r2 * 16 + q4)" by (rule div_nat_eqI) (use assms in simp_all)
  then show "?n div 4096 mod 64 = r2 * 16 + q4" using assms by simp
  have "?n div 64 = 64 * (64 * q + 16 * r2 + q4) + (r4 * 4 + q6)"
    by (rule div_nat_eqI) (use assms in simp_all)
  moreover have "r4 * 4 + q6 < 64" using assms by simp
  ultimately show "?n div 64 mod 64 = r4 * 4 + q6" by (simp only: mod_mult_self4 mod_less)
  have "?n = 64 * ((4 * q + r2) * 1024 + (16 * q4 + r4) * 4 + q6) + r6" by simp
  then show "?n mod 64 = r6" using assms by (simp only: mod_mult_self4 mod_less)
qed

lemma sextets:
  assumes "b < 256" "c < (256::nat)"
  shows "(a * 65536 + b * 256 + c) div 262144 = a div 4"
   "(a * 65536 + b * 256 + c) div 4096 mod 64 = (a mod 4) * 16 + b div 16"
   "(a * 65536 + b * 256 + c) div 64 mod 64 = (b mod 16) * 4 + c div 64"
   "(a * 65536 + b * 256 + c) mod 64 = c mod 64"
proof -
  have "b div 16 < 16" "c div 64 < 4" using assms by simp_all
  then have "a mod 4 \<le> 3" "b mod 16 \<le> 15" "c mod 64 \<le> 63" "b div 16 \<le> 15" "c div 64 \<le> 3"
    by linarith+
  note sextets_split [OF this, of "a div 4", unfolded mult_div_mod_eq]
  then show "(a * 65536 + b * 256 + c) div 262144 = a div 4"
   "(a * 65536 + b * 256 + c) div 4096 mod 64 = (a mod 4) * 16 + b div 16"
   "(a * 65536 + b * 256 + c) div 64 mod 64 = (b mod 16) * 4 + c div 64"
   "(a * 65536 + b * 256 + c) mod 64 = c mod 64"
    by simp_all
qed

section \<open>Encoding\<close>

definition alphabet :: bytes where
  "alphabet = ''ABCDEFGHIJKLMNOPQRSTUVWXYZabcdefghijklmnopqrstuvwxyz0123456789+/''"

definition encode_bits :: "char \<Rightarrow> char \<Rightarrow> char \<Rightarrow> nat" where
  "encode_bits f s t = (push_bit 16 (code f) OR push_bit 8 (code s)) OR code t"

text \<open>The callers of \<^verbatim>\<open>base64_encode_blocks\<close> pass a multiple of three bytes.\<close>

fun base64_encode_blocks :: "bytes \<Rightarrow> bytes" where
  "base64_encode_blocks (f # s # t # rest) =
     (let bits = encode_bits f s t
      in [alphabet ! (drop_bit 18 bits AND 63), alphabet ! (drop_bit 12 bits AND 63),
          alphabet ! (drop_bit 6 bits AND 63), alphabet ! (bits AND 63)])
     @ base64_encode_blocks rest"
| "base64_encode_blocks _ = []"

definition base64_encode :: "bytes \<Rightarrow> bytes" where
  "base64_encode s =
     (let complete = length s - length s mod 3;
          head = base64_encode_blocks (substr s 0 (Some complete))
      in if complete \<noteq> length s then
           let tail = take 3 (drop complete s @ replicate 3 CHR 0x00);
               block = (base64_encode_blocks tail)[3 := CHR ''='']
           in head @ (if length s - complete = 1 then block[2 := CHR ''=''] else block)
         else head)"

section \<open>Decoding\<close>

definition decode_table :: "char \<Rightarrow> nat" where
  "decode_table c = (case find_char c alphabet of Some i \<Rightarrow> i | None \<Rightarrow> 0xff)"

text \<open>
  The inner loop over a quartet with padding or invalid bytes: \<open>index\<close> is the position in the
  quartet, \<open>final\<close> says whether it is the last one.  The result is the bits and the padding.
\<close>

fun decode_quartet :: "bool \<Rightarrow> nat \<Rightarrow> nat \<Rightarrow> nat \<Rightarrow> bytes \<Rightarrow> (nat \<times> nat) result" where
  "decode_quartet final index bits padding [] = Inr (bits, padding)"
| "decode_quartet final index bits padding (ch # rest) =
     (if ch = CHR ''='' then
        (if index < 2 \<or> \<not> final then fail E_protocol ''Invalid Base64 padding''
         else decode_quartet final (index + 1) (push_bit 6 bits) (padding + 1) rest)
      else if decode_table ch = 0xff \<or> padding \<noteq> 0 then fail E_protocol ''Invalid Base64 character''
      else decode_quartet final (index + 1) (push_bit 6 bits OR decode_table ch) padding rest)"

fun base64_decode_loop :: "bytes \<Rightarrow> bytes result" where
  "base64_decode_loop (p # q # r # s # rest) =
     (let a = decode_table p; b = decode_table q; c = decode_table r; d = decode_table s
      in if a OR b OR c OR d < 64 then
           map_sum id (\<lambda>out. char_of (push_bit 2 a OR drop_bit 4 b)
             # char_of (push_bit 4 b OR drop_bit 2 c) # char_of (push_bit 6 c OR d) # out)
             (base64_decode_loop rest)
         else (case decode_quartet (rest = []) 0 0 0 [p, q, r, s] of
           Inl e \<Rightarrow> Inl e
         | Inr (bits, padding) \<Rightarrow>
             map_sum id (\<lambda>out. [char_of (drop_bit 16 bits AND 255)]
               @ (if padding < 2 then [char_of (drop_bit 8 bits AND 255)] else [])
               @ (if padding = 0 then [char_of (bits AND 255)] else []) @ out)
               (base64_decode_loop rest)))"
| "base64_decode_loop _ = Inr []"

definition base64_decode :: "bytes \<Rightarrow> bytes result" where
  "base64_decode s =
     (if length s mod 4 \<noteq> 0 then fail E_protocol ''Invalid Base64 length'' else base64_decode_loop s)"

declare base64_encode_blocks.simps(1) [simp del] base64_decode_loop.simps(1) [simp del]

section \<open>Decoding undoes encoding\<close>

lemma length_alphabet [simp]: "length alphabet = 64"
  by (simp add: alphabet_def)

lemma distinct_alphabet: "distinct alphabet"
  by (simp add: alphabet_def)

lemma find_char_distinct: "distinct xs \<Longrightarrow> i < length xs \<Longrightarrow> find_char (xs ! i) xs = Some i"
proof -
  assume d: "distinct xs" and i: "i < length xs"
  have "xs = take i xs @ xs ! i # drop (Suc i) xs" using i by (rule id_take_nth_drop)
  moreover from this d have "xs ! i \<notin> set (take i xs)"
    by (metis disjoint_iff distinct_append list.set_intros(1))
  ultimately show ?thesis using find_char_split [of "xs ! i" "take i xs" "drop (Suc i) xs"] i by simp
qed

lemma decode_alphabet [simp]: "i < 64 \<Longrightarrow> decode_table (alphabet ! i) = i"
  using find_char_distinct [OF distinct_alphabet, of i] by (simp add: decode_table_def)

lemma alphabet_no_pad: "i < 64 \<Longrightarrow> alphabet ! i \<noteq> CHR ''=''"
proof -
  have "CHR ''='' \<notin> set alphabet" by (simp add: alphabet_def)
  then show "i < 64 \<Longrightarrow> alphabet ! i \<noteq> CHR ''=''" by (metis length_alphabet nth_mem)
qed

lemma encode_bits_sum: "encode_bits f s t = code f * 65536 + code s * 256 + code t"
proof -
  have "push_bit 16 (code f) OR push_bit 8 (code s) = push_bit 8 (push_bit 8 (code f) OR code s)"
    by simp
  then have "encode_bits f s t = push_bit 8 (push_bit 8 (code f) OR code s) OR code t"
    unfolding encode_bits_def by (rule arg_cong)
  also have "\<dots> = code f * 65536 + code s * 256 + code t"
    by (simp add: push_or del: push_bit_or)
  finally show ?thesis .
qed

lemma base64_block:
  "base64_encode_blocks (f # s # t # rest) =
     [alphabet ! (code f div 4), alphabet ! (code f mod 4 * 16 + code s div 16),
      alphabet ! (code s mod 16 * 4 + code t div 64), alphabet ! (code t mod 64)]
     @ base64_encode_blocks rest"
proof -
  have "code f div 4 < 64" by (rule less_mult_imp_div_less) simp
  then have "code f div 4 mod 64 = code f div 4" by simp
  then show ?thesis
    by (simp add: base64_encode_blocks.simps encode_bits_sum drop_bit_eq_div and_low sextets Let_def)
qed

lemma or_less_exp: "x < 2 ^ n \<Longrightarrow> y < 2 ^ n \<Longrightarrow> x OR y < (2 ^ n :: nat)"
  by (metis take_bit_nat_eq_self take_bit_or take_bit_nat_less_exp)

lemma or_less_64: "x < 64 \<Longrightarrow> y < 64 \<Longrightarrow> x OR y < (64::nat)"
  using or_less_exp [of x 6 y] by simp

lemma bytes_of_sextets:
  assumes "a < 256" "b < 256" "c < (256::nat)"
  shows "a div 4 * 4 + (a mod 4 * 16 + b div 16) div 16 = a"
    "((a mod 4 * 16 + b div 16) * 16 + (b mod 16 * 4 + c div 64) div 4) mod 256 = b"
    "((b mod 16 * 4 + c div 64) * 64 + c mod 64) mod 256 = c"
proof -
  have q: "b div 16 < 16" "c div 64 < 4" using assms by simp_all
  then have "(a mod 4 * 16 + b div 16) div 16 = a mod 4"
    "(b mod 16 * 4 + c div 64) div 4 = b mod 16" by simp_all
  then show "a div 4 * 4 + (a mod 4 * 16 + b div 16) div 16 = a"
    "((a mod 4 * 16 + b div 16) * 16 + (b mod 16 * 4 + c div 64) div 4) mod 256 = b"
    using assms(2) by (simp_all add: algebra_simps)
  show "((b mod 16 * 4 + c div 64) * 64 + c mod 64) mod 256 = c"
    using assms(3) by (simp add: algebra_simps)
qed

lemma sextet_bounds:
  "code f div 4 < 64" "code f mod 4 * 16 + code s div 16 < 64" "code s mod 16 * 4 + code t div 64 < 64"
  "code s div 16 < 16" "code t div 64 < 4"
proof -
  show "code f div 4 < 64" "code s div 16 < 16" "code t div 64 < 4"
    by (rule less_mult_imp_div_less; simp)+
  moreover have "code f mod 4 < 4" "code s mod 16 < 16" by simp_all
  ultimately show "code f mod 4 * 16 + code s div 16 < 64" "code s mod 16 * 4 + code t div 64 < 64"
    by linarith+
qed

lemma decode_full_block:
  assumes "i < 64" "j < 64" "k < 64" "l < 64"
  shows "base64_decode_loop (alphabet ! i # alphabet ! j # alphabet ! k # alphabet ! l # rest) =
    map_sum id (\<lambda>out. char_of (i * 4 + j div 16) # char_of (j * 16 + k div 4)
      # char_of (k * 64 + l) # out) (base64_decode_loop rest)"
proof -
  have "j div 16 < 4" "k div 4 < 16" using assms by (auto intro: less_mult_imp_div_less)
  then show ?thesis
    using assms by (simp add: base64_decode_loop.simps Let_def or_less_64 push_or drop_bit_eq_div)
qed

lemma char_of_mod: "n mod 256 = code c \<Longrightarrow> char_of n = c"
  by (metis char_of_mod_256 char_of_char)

lemma decode_encoded_blocks:
  "length s mod 3 = 0 \<Longrightarrow>
     base64_decode_loop (base64_encode_blocks s @ rest) = map_sum id (\<lambda>out. s @ out) (base64_decode_loop rest)"
proof (induction s rule: base64_encode_blocks.induct)
  case (1 f s t r)
  then have "length r mod 3 = 0" by (simp add: mod_Suc split: if_splits)
  have c: "char_of (code f div 4 * 4 + (code f mod 4 * 16 + code s div 16) div 16) = f"
    "char_of ((code f mod 4 * 16 + code s div 16) * 16 + (code s mod 16 * 4 + code t div 64) div 4) = s"
    "char_of ((code s mod 16 * 4 + code t div 64) * 64 + code t mod 64) = t"
    using bytes_of_sextets [of "code f" "code s" "code t"] by (simp_all add: char_of_mod)
  have "code t mod 64 < 64" by simp
  note decode_full_block [OF sextet_bounds(1) [of f] sextet_bounds(2) [of f s] sextet_bounds(3) [of s t] this]
  then show ?case
    unfolding base64_block append.simps c using 1(1) [OF \<open>length r mod 3 = 0\<close>]
    by (simp add: sum.map_comp comp_def)
next
  case "2_1"
  then show ?case by (cases "base64_decode_loop rest") simp_all
qed simp_all

lemma length_encode_blocks: "length s mod 3 = 0 \<Longrightarrow> length (base64_encode_blocks s) = length s div 3 * 4"
  by (induction s rule: base64_encode_blocks.induct)
    (auto simp: base64_encode_blocks.simps mod_Suc Let_def split: if_splits)

text \<open>The three shapes of a final group.\<close>

lemma short_list:
  assumes "length s < 3"
  obtains "s = []" | x where "s = [x]" | x y where "s = [x, y]"
  using assms by (cases s; cases "tl s"; cases "tl (tl s)") auto

lemma base64_encode_split:
  assumes "length s mod 3 = 0" "length r < 3"
  shows "base64_encode (s @ r) = base64_encode_blocks s @ base64_encode r"
proof -
  have "(length s + length r) mod 3 = length r"
    using assms by (metis add_0 mod_add_left_eq mod_less)
  then show ?thesis
    using assms by (simp add: base64_encode_def Let_def substr_def)
qed

lemma base64_tail:
  "base64_encode [] = []"
  "base64_encode [f] = [alphabet ! (code f div 4), alphabet ! (code f mod 4 * 16), CHR ''='', CHR ''='']"
  "base64_encode [f, s] = [alphabet ! (code f div 4), alphabet ! (code f mod 4 * 16 + code s div 16),
     alphabet ! (code s mod 16 * 4), CHR ''='']"
proof -
  have pad: "take 3 ([f] @ replicate 3 CHR 0x00) = [f, CHR 0x00, CHR 0x00]"
    "take 3 ([f, s] @ replicate 3 CHR 0x00) = [f, s, CHR 0x00]"
    by (simp_all add: numeral_3_eq_3)
  have upd: "[a, b, c, d :: char][3 := x, 2 := y] = [a, b, y, x]" "[a, b, c, d][3 := x] = [a, b, c, x]"
    for a b c d x y by (simp_all add: numeral_3_eq_3 numeral_2_eq_2)
  have "code s mod 16 * 4 + 0 div 64 = code s mod 16 * 4" by simp
  have less: "length [f] mod 3 = 1" "length [f, s] mod 3 = 2" by simp_all
  show "base64_encode [] = []" by (simp add: base64_encode_def substr_def)
  show "base64_encode [f] = [alphabet ! (code f div 4), alphabet ! (code f mod 4 * 16), CHR ''='', CHR ''='']"
    "base64_encode [f, s] = [alphabet ! (code f div 4), alphabet ! (code f mod 4 * 16 + code s div 16),
       alphabet ! (code s mod 16 * 4), CHR ''='']"
    unfolding base64_encode_def Let_def less substr_def
    by (simp_all add: pad [simplified] base64_block upd)
qed

lemma or_255_big: "\<not> x OR 255 < (64::nat)" "\<not> x OR (y OR 255) < (64::nat)"
  "\<not> x OR (y OR (z OR 255)) < (64::nat)"
proof -
  have big: "\<not> v OR 255 < (64::nat)" for v
  proof
    assume "v OR 255 < 64"
    then have "take_bit 6 (v OR 255) = v OR 255" unfolding take_bit_nat_eq_self_iff by simp
    then have "bit (v OR 255) 7 = bit (take_bit 6 (v OR 255)) 7" by simp
    moreover have "bit (255 :: nat) 7" by (simp add: bit_iff_odd)
    ultimately show False by (simp add: bit_take_bit_iff bit_or_iff)
  qed
  show "\<not> x OR 255 < (64::nat)" "\<not> x OR (y OR 255) < (64::nat)" "\<not> x OR (y OR (z OR 255)) < (64::nat)"
    using big [of x] big [of "x OR y"] big [of "x OR y OR z"] by (simp_all add: or.assoc)
qed

text \<open>What the padding branch computes on the encoder's final group.\<close>

lemma decode_padded:
  assumes "i < 64" "j < 64" "k < 64"
  shows "base64_decode_loop [alphabet ! i, alphabet ! j, CHR ''='', CHR ''=''] =
      Inr [char_of ((i * 64 + j) * 4096 div 65536)]"
    "base64_decode_loop [alphabet ! i, alphabet ! j, alphabet ! k, CHR ''=''] =
      Inr [char_of (((i * 64 + j) * 64 + k) * 64 div 65536),
           char_of (((i * 64 + j) * 64 + k) * 64 div 256)]"
proof -
  have pad: "decode_table CHR ''='' = 255" by (simp add: decode_table_def alphabet_def find_char_def)
  have char_mod: "(char_of (n mod 256) :: char) = char_of n" for n :: nat
    by (simp add: char_of_mod_256)
  have q: "decode_quartet True 0 0 0 [alphabet ! i, alphabet ! j, CHR ''='', CHR ''=''] =
      Inr (push_bit 6 (push_bit 6 (i * 64 + j)), 2)"
    "decode_quartet True 0 0 0 [alphabet ! i, alphabet ! j, alphabet ! k, CHR ''=''] =
      Inr (push_bit 6 ((i * 64 + j) * 64 + k), 1)"
    using assms by (simp_all add: pad alphabet_no_pad push_or del: push_bit_push_bit)
  show "base64_decode_loop [alphabet ! i, alphabet ! j, CHR ''='', CHR ''=''] =
      Inr [char_of ((i * 64 + j) * 4096 div 65536)]"
    "base64_decode_loop [alphabet ! i, alphabet ! j, alphabet ! k, CHR ''=''] =
      Inr [char_of (((i * 64 + j) * 64 + k) * 64 div 65536),
           char_of (((i * 64 + j) * 64 + k) * 64 div 256)]"
    using assms
    by (simp_all add: base64_decode_loop.simps Let_def pad or_255_big q
        drop_bit_eq_div push_bit_eq_mult and_low char_mod del: decode_quartet.simps)
qed

lemma regroup:
  "x = 4 * a + b \<Longrightarrow> y = 16 * c + d \<Longrightarrow>
     ((a * 64 + (b * 16 + c)) * 64 + d * 4) * 64 = x * 65536 + (y::nat) * 256"
  by simp

lemma decode_tail: "length r < 3 \<Longrightarrow> base64_decode_loop (base64_encode r) = Inr r"
proof (erule short_list)
  fix x assume r: "r = [x]"
  have "(code x div 4 * 64 + code x mod 4 * 16) * 4096 div 65536 = code x" by simp
  then show ?thesis
    using decode_padded(1) [OF sextet_bounds(1) [of x], of "code x mod 4 * 16" 0] sextet_bounds(2) [of x "CHR 0x00"]
    by (simp add: r base64_tail)
next
  fix x y assume r: "r = [x, y]"
  have "code x = 4 * (code x div 4) + code x mod 4" "code y = 16 * (code y div 16) + code y mod 16"
    by simp_all
  from regroup [OF this]
  have n: "((code x div 4 * 64 + (code x mod 4 * 16 + code y div 16)) * 64 + code y mod 16 * 4) * 64 =
      code x * 65536 + code y * 256" .
  have d: "(code x * 65536 + code y * 256) div 65536 = code x"
    "(code x * 65536 + code y * 256) div 256 = code x * 256 + code y"
    by (rule div_nat_eqI; simp)+
  have k: "code y mod 16 * 4 < 64" using sextet_bounds(3) [of y "CHR 0x00"] by simp
  have "char_of (code x * 256 + code y) = y" by (rule char_of_mod) simp
  with decode_padded(2) [OF sextet_bounds(1) [of x] sextet_bounds(2) [of x y] k, unfolded n d]
  show ?thesis by (simp add: r base64_tail)
qed (simp add: base64_tail)

lemma whole_groups:
  obtains s r where "v = s @ r" "length s mod 3 = 0" "length r < 3"
proof (rule that)
  have "length v div 3 * 3 \<le> length v" by simp
  then show "v = take (length v div 3 * 3) v @ drop (length v div 3 * 3) v"
    "length (take (length v div 3 * 3) v) mod 3 = 0" by (simp_all add: min_absorb2)
  show "length (drop (length v div 3 * 3) v) < 3" by (simp add: minus_div_mult_eq_mod)
qed

lemma base64_decode_encode_loop: "base64_decode_loop (base64_encode v) = Inr v"
proof -
  obtain s r where "v = s @ r" "length s mod 3 = 0" "length r < 3" by (rule whole_groups)
  then show ?thesis by (simp add: base64_encode_split decode_encoded_blocks decode_tail)
qed

section \<open>The incremental encoder\<close>

text \<open>
  \<^verbatim>\<open>pending_\<close> and \<^verbatim>\<open>pending_size_\<close> together are the list \<open>pending\<close>.  A thrown
  \<^verbatim>\<open>std::logic_error\<close> is \<open>None\<close>.
\<close>

record base64_encoder =
  pending :: bytes
  finished :: bool

definition encoder_update :: "base64_encoder \<Rightarrow> bytes \<Rightarrow> (bytes \<times> base64_encoder) option" where
  "encoder_update e data =
     (if finished e then None
      else let cursor = min (3 - length (pending e)) (length data);
               filled = pending e @ take cursor data;
               first = (if length filled = 3 then base64_encode_blocks filled else []);
               kept = (if length filled = 3 then [] else filled);
               complete = (length data - cursor) div 3 * 3;
               second = (if complete \<noteq> 0 then base64_encode_blocks (substr data cursor (Some complete)) else [])
           in Some (first @ second, e\<lparr>pending := kept @ drop (cursor + complete) data\<rparr>))"

definition encoder_finish :: "base64_encoder \<Rightarrow> bytes \<times> base64_encoder" where
  "encoder_finish e =
     (if finished e then ([], e)
      else if pending e = [] then ([], e\<lparr>finished := True\<rparr>)
      else let first = code (pending e ! 0);
               second = (if length (pending e) = 2 then code (pending e ! 1) else 0)
           in ([alphabet ! drop_bit 2 first,
                alphabet ! (push_bit 4 (first AND 3) OR drop_bit 4 second),
                if length (pending e) = 2 then alphabet ! push_bit 2 (second AND 15) else CHR ''='',
                CHR ''=''],
               e\<lparr>pending := [], finished := True\<rparr>))"

definition encoder_reset :: "base64_encoder \<Rightarrow> base64_encoder" where
  "encoder_reset e = e\<lparr>pending := [], finished := False\<rparr>"

text \<open>Feeding chunks in order.\<close>

fun encoder_feed :: "base64_encoder \<Rightarrow> bytes list \<Rightarrow> (bytes \<times> base64_encoder) option" where
  "encoder_feed e [] = Some ([], e)"
| "encoder_feed e (c # cs) =
     (case encoder_update e c of None \<Rightarrow> None
      | Some (out, e') \<Rightarrow> (case encoder_feed e' cs of None \<Rightarrow> None
          | Some (outs, e'') \<Rightarrow> Some (out @ outs, e'')))"

definition base64_encoded_size :: "nat \<Rightarrow> nat option" where
  "base64_encoded_size input_size =
     (if input_size > uint64_max - 2 then None
      else let groups = (input_size + 2) div 3
           in if groups > uint64_max div 4 then None else Some (groups * 4))"

definition encoder_ok :: "base64_encoder \<Rightarrow> bool" where
  "encoder_ok e \<longleftrightarrow> \<not> finished e \<and> length (pending e) < 3"

lemma blocks_append:
  "length s mod 3 = 0 \<Longrightarrow> base64_encode_blocks (s @ t) = base64_encode_blocks s @ base64_encode_blocks t"
proof (induction s rule: base64_encode_blocks.induct)
  case (1 f s t r)
  then have "length r mod 3 = 0" by (simp add: mod_Suc split: if_splits)
  with 1 show ?case by (simp add: base64_encode_blocks.simps(1) Let_def)
qed simp_all

lemma encoder_update_spec:
  assumes "encoder_ok e"
  obtains out e' full where "encoder_update e data = Some (out, e')" "encoder_ok e'"
    "pending e @ data = full @ pending e'" "length full mod 3 = 0" "out = base64_encode_blocks full"
proof (cases "length (pending e) + length data < 3")
  case True
  then have "encoder_update e data = Some ([], e\<lparr>pending := pending e @ data\<rparr>)"
    using assms by (simp add: encoder_update_def encoder_ok_def Let_def min_def)
  from that [OF this, of "[]"] show ?thesis using assms True by (simp add: encoder_ok_def)
next
  case False
  define cursor where "cursor = 3 - length (pending e)"
  define complete where "complete = (length data - cursor) div 3 * 3"
  have cur: "cursor \<le> length data" "length (pending e) + cursor = 3"
    using assms False by (auto simp: cursor_def encoder_ok_def)
  have com: "cursor + complete \<le> length data" "length data - (cursor + complete) < 3" "complete mod 3 = 0"
    using cur(1) by (simp_all add: complete_def minus_div_mult_eq_mod diff_diff_left [symmetric])
  let ?head = "pending e @ take cursor data" and ?mid = "take complete (drop cursor data)"
  have "(if complete \<noteq> 0 then base64_encode_blocks ?mid else []) = base64_encode_blocks ?mid"
    by simp
  then have upd: "encoder_update e data = Some (base64_encode_blocks ?head @ base64_encode_blocks ?mid,
      e\<lparr>pending := drop (cursor + complete) data\<rparr>)"
    using assms cur
    unfolding encoder_update_def encoder_ok_def Let_def substr_def option.case
    by (simp only: cursor_def [symmetric] complete_def [symmetric] min_absorb1) simp
  have "data = take cursor data @ ?mid @ drop (cursor + complete) data"
    by (metis append_take_drop_id drop_drop add.commute)
  then have "pending e @ data = (?head @ ?mid) @ drop (cursor + complete) data" by simp
  moreover have "length ?head = 3" "length ?mid mod 3 = 0"
    using cur com by (simp_all add: min_absorb2)
  then have "length (?head @ ?mid) mod 3 = 0" "length ?head mod 3 = 0"
    by (simp_all only: length_append mod_add_self1) simp
  ultimately show ?thesis
    using that [OF upd, of "?head @ ?mid"] assms com(2)
    by (simp add: encoder_ok_def blocks_append del: length_append append_assoc)
qed

lemma encoder_feed_spec:
  assumes "encoder_ok e"
  shows "\<exists>out e' full. encoder_feed e cs = Some (out, e') \<and> encoder_ok e'
     \<and> pending e @ concat cs = full @ pending e' \<and> length full mod 3 = 0 \<and> out = base64_encode_blocks full"
  using assms
proof (induction cs arbitrary: e)
  case Nil
  then show ?case by (intro exI [of _ "[]"] exI [of _ e]) simp
next
  case (Cons c cs)
  obtain out e' full where u: "encoder_update e c = Some (out, e')" "encoder_ok e'"
    "pending e @ c = full @ pending e'" "length full mod 3 = 0" "out = base64_encode_blocks full"
    using encoder_update_spec [OF Cons.prems] by metis
  from Cons.IH [OF u(2)] obtain outs e'' full' where f: "encoder_feed e' cs = Some (outs, e'')"
    "encoder_ok e''" "pending e' @ concat cs = full' @ pending e''" "length full' mod 3 = 0"
    "outs = base64_encode_blocks full'" by auto
  have "pending e @ concat (c # cs) = (full @ full') @ pending e''"
    using u(3) f(3) by (metis append.assoc concat.simps(2))
  moreover have "length (full @ full') mod 3 = 0" using u(4) f(4) by (simp add: mod_add_eq [symmetric])
  ultimately show ?case
    using u f by (intro exI [of _ "out @ outs"] exI [of _ e''] exI [of _ "full @ full'"])
      (simp add: blocks_append)
qed

lemma encoder_finish_tail: "encoder_ok e \<Longrightarrow> fst (encoder_finish e) = base64_encode (pending e)"
  unfolding encoder_ok_def
proof (elim conjE short_list)
  fix x y assume e: "\<not> finished e" "pending e = [x, y]"
  then show ?thesis using sextet_bounds(4) [of y]
    by (simp add: encoder_finish_def base64_tail and_low drop_bit_eq_div Let_def push_or)
      (simp add: push_bit_eq_mult)
qed (simp_all add: encoder_finish_def base64_tail and_low drop_bit_eq_div push_bit_eq_mult Let_def)

lemma length_base64_encode: "length (base64_encode v) = (length v + 2) div 3 * 4"
proof -
  obtain s r where v: "v = s @ r" "length s mod 3 = 0" "length r < 3" by (rule whole_groups)
  have r: "length (base64_encode r) = (length r + 2) div 3 * 4"
    using v(3) by (elim short_list) (simp_all add: base64_tail)
  obtain k where "length s = 3 * k" using v(2) by (auto simp: mod_eq_0_iff_dvd)
  moreover from this have "(length s + length r + 2) div 3 = k + (length r + 2) div 3" by simp
  ultimately show ?thesis using v r by (simp add: base64_encode_split length_encode_blocks)
qed

section \<open>Properties\<close>

text \<open>Decoding the encoding of any byte string gives the byte string back.\<close>

lemma base64_decode_encode: "base64_decode (base64_encode s) = Inr s"
  by (simp add: base64_decode_def length_base64_encode base64_decode_encode_loop)

text \<open>Feeding a fresh incremental encoder any sequence of chunks never throws, and its output
  followed by what \<open>finish\<close> returns is the one-shot encoding of the concatenation.\<close>

lemma encoder_chunks:
  "map_option (\<lambda>(out, e). out @ fst (encoder_finish e)) (encoder_feed (encoder_reset e0) chunks) =
     Some (base64_encode (concat chunks))"
proof -
  have "encoder_ok (encoder_reset e0)" "pending (encoder_reset e0) = []"
    by (simp_all add: encoder_ok_def encoder_reset_def)
  with encoder_feed_spec [of "encoder_reset e0" chunks] show ?thesis
    by (auto simp: encoder_finish_tail base64_encode_split encoder_ok_def)
qed

text \<open>The advertised encoded size is the length of the encoding, and it is absent exactly when that
  length does not fit 64 bits.\<close>

theorem encoded_size_exact:
  "base64_encoded_size (length s) =
     (if length (base64_encode s) \<le> uint64_max then Some (length (base64_encode s)) else None)"
  by (auto simp: base64_encoded_size_def length_base64_encode Let_def)

end
