(* ===== verification/Auth.thy ===== *)
theory Auth
  imports Headers Base64
begin

text \<open>
  HTTP authentication (\<^verbatim>\<open>src/common.cpp\<close>: \<^verbatim>\<open>basic_auth\<close>, \<^verbatim>\<open>bearer_auth\<close>, \<^verbatim>\<open>parse_digest_challenge\<close>,
  \<^verbatim>\<open>digest_auth\<close>) in the build with OpenSSL.  The hash is a parameter: for the name of an algorithm,
  whether it can be loaded and what it computes on an input, an error when it fails.  So is the text
  that \<^verbatim>\<open>random_boundary\<close> returns; running out of memory is left out.  The lemmas say that what one side quotes the other side reads.
\<close>

abbreviation QUOTE :: char where "QUOTE \<equiv> CHR 0x22"
abbreviation BACKSLASH :: char where "BACKSLASH \<equiv> CHR 0x5C"

section \<open>Basic and bearer\<close>

definition basic_auth :: "bytes \<Rightarrow> bytes \<Rightarrow> bytes" where
  "basic_auth username password = ''Basic '' @ base64_encode (username @ '':'' @ password)"

definition bearer_auth :: "bytes \<Rightarrow> bytes" where
  "bearer_auth token = ''Bearer '' @ token"

section \<open>Digest challenges\<close>

record digest_challenge =
  realm :: bytes
  nonce :: bytes
  opaque :: bytes
  algorithm :: bytes
  qop :: bytes
  stale :: bool

type_synonym digest_values = "bytes \<Rightarrow> bytes option"

text \<open>The rest of a quoted parameter: its value and what follows the closing quote.\<close>

fun quoted_parameter :: "bytes \<Rightarrow> (bytes \<times> bytes) option" where
  "quoted_parameter [] = None"
| "quoted_parameter (c # cs) =
     (if c = QUOTE then Some ([], cs)
      else if c = BACKSLASH \<and> cs \<noteq> [] then map_option (apfst ((#) (hd cs))) (quoted_parameter (tl cs))
      else map_option (apfst ((#) c)) (quoted_parameter cs))"

definition parameter_value :: "bytes \<Rightarrow> (bytes \<times> bytes) option" where
  "parameter_value s =
     (if s \<noteq> [] \<and> hd s = QUOTE then quoted_parameter (tl s)
      else Some (trim (takeWhile (\<lambda>c. c \<noteq> CHR '','') s), dropWhile (\<lambda>c. c \<noteq> CHR '','') s))"

definition in_parameter_name :: "char \<Rightarrow> bool" where
  "in_parameter_name c \<longleftrightarrow> c \<noteq> CHR ''='' \<and> c \<noteq> CHR '',''"

lemma quoted_parameter_length: "quoted_parameter s = Some (v, rest) \<Longrightarrow> length rest < length s"
proof (induction s arbitrary: v rest rule: quoted_parameter.induct)
  case (2 c cs)
  show ?case
  proof (cases "c = QUOTE")
    case False
    show ?thesis
    proof (cases "c = BACKSLASH \<and> cs \<noteq> []")
      case True
      then obtain v' where "quoted_parameter (tl cs) = Some (v', rest)" using "2.prems" False by auto
      from "2.IH"(1) [OF False True this] show ?thesis by simp
    next
      case F: False
      then obtain v' where "quoted_parameter cs = Some (v', rest)" using "2.prems" False by auto
      from "2.IH"(2) [OF False F this] show ?thesis by simp
    qed
  qed (use "2.prems" in simp)
qed simp

lemma parameter_value_length: "parameter_value s = Some (v, rest) \<Longrightarrow> length rest \<le> length s"
  by (auto simp: parameter_value_def length_dropWhile_le dest!: quoted_parameter_length split: if_splits)

function digest_values :: "bytes \<Rightarrow> digest_values \<Rightarrow> digest_values result" where
  "digest_values s parameters =
     (if s = [] then Inr parameters
      else
        let s1 = dropWhile (\<lambda>c. c = CHR '','' \<or> is_space c) s;
            s2 = dropWhile in_parameter_name s1
        in if s2 = [] \<or> hd s2 \<noteq> CHR ''='' then fail E_protocol ''Malformed Digest challenge''
           else
             (case parameter_value (tl s2) of
                None \<Rightarrow> fail E_protocol ''Unterminated Digest parameter''
              | Some (v, rest) \<Rightarrow>
                  digest_values rest (parameters(lower (trim (takeWhile in_parameter_name s1)) \<mapsto> v))))"
  by pat_completeness auto
termination
proof (relation "measure (\<lambda>(s, _). length s)", goal_cases)
  case (2 s ps s1 s2 x v rest)
  have "length s2 \<le> length s"
    unfolding 2(2,3) by (meson length_dropWhile_le order_trans)
  moreover have "length (tl s2) < length s2" using 2(4) by (cases s2) auto
  moreover have "length rest \<le> length (tl s2)"
    using 2(5,6) parameter_value_length [of "tl s2" v rest] by simp
  ultimately show ?case by simp
qed simp

declare digest_values.simps [simp del]

text \<open>The fields the client keeps; a parameter that is absent is the empty text, except the algorithm.\<close>

definition challenge_of :: "digest_values \<Rightarrow> digest_challenge result" where
  "challenge_of parameters =
     (let get = (\<lambda>name. case parameters name of None \<Rightarrow> [] | Some v \<Rightarrow> v)
      in if get ''realm'' = [] \<or> get ''nonce'' = []
         then fail E_protocol ''Digest challenge is missing realm or nonce''
         else Inr \<lparr>realm = get ''realm'', nonce = get ''nonce'', opaque = get ''opaque'',
                algorithm = (case parameters ''algorithm'' of None \<Rightarrow> ''MD5'' | Some v \<Rightarrow> v),
                qop = get ''qop'', stale = iequals (get ''stale'') ''true''\<rparr>)"

definition parse_digest_challenge :: "bytes \<Rightarrow> digest_challenge result" where
  "parse_digest_challenge text =
     (let s = dropWhile is_space text
      in case find_char SP s of
           None \<Rightarrow> fail E_protocol ''Authentication challenge is not Digest''
         | Some first_space \<Rightarrow>
             if \<not> iequals (substr s 0 (Some first_space)) ''Digest''
             then fail E_protocol ''Authentication challenge is not Digest''
             else
               (case digest_values (substr s (first_space + 1) None) (\<lambda>_. None) of
                  Inl e \<Rightarrow> Inl e
                | Inr parameters \<Rightarrow> challenge_of parameters))"

section \<open>Digest responses\<close>

text \<open>\<^verbatim>\<open>EVP_MD_fetch\<close> and the digest it computes.\<close>

type_synonym digests = "bytes \<Rightarrow> (bytes \<Rightarrow> bytes option) option"

definition hex_digit :: "nat \<Rightarrow> char" where
  "hex_digit n = ''0123456789abcdef'' ! n"

definition hash_text :: "(bytes \<Rightarrow> bytes option) \<Rightarrow> bytes \<Rightarrow> bytes result" where
  "hash_text digest input =
     (case digest input of
        None \<Rightarrow> fail E_internal ''Digest hash failed''
      | Some out \<Rightarrow> Inr (concat (map (\<lambda>c. [hex_digit (code c div 16), hex_digit (code c mod 16)]) out)))"

definition digest_name :: "bytes \<Rightarrow> bytes option" where
  "digest_name a =
     (if a = ''md5'' then Some ''MD5''
      else if a = ''sha-256'' then Some ''SHA256''
      else if a = ''sha-512-256'' then Some ''SHA512-256''
      else None)"

definition escape_quoted :: "bytes \<Rightarrow> bytes" where
  "escape_quoted s = concat (map (\<lambda>c. if c = QUOTE \<or> c = BACKSLASH then [BACKSLASH, c] else [c]) s)"

definition quote :: "bytes \<Rightarrow> bytes" where
  "quote s = QUOTE # escape_quoted s @ [QUOTE]"

text \<open>\<^verbatim>\<open>std::hex\<close> with width eight.\<close>

definition nonce_text :: "nat \<Rightarrow> bytes" where
  "nonce_text n = replicate (8 - length (to_hex n)) CHR ''0'' @ to_hex n"

definition select_qop :: "bytes \<Rightarrow> bytes result" where
  "select_qop q =
     (if q = [] then Inr []
      else if list_ex (\<lambda>candidate. iequals candidate ''auth'') (split_tokens q CHR '','') then Inr ''auth''
      else fail E_protocol ''Digest qop=auth-int is not supported for streamed bodies'')"

text \<open>The response value and the selected quality of protection.\<close>

definition digest_response ::
    "(bytes \<Rightarrow> bytes option) \<Rightarrow> bool \<Rightarrow> bytes \<Rightarrow> bytes \<Rightarrow> bytes \<Rightarrow> bytes \<Rightarrow> digest_challenge \<Rightarrow> bytes \<Rightarrow> bytes
       \<Rightarrow> (bytes \<times> bytes) result" where
  "digest_response digest session_algorithm http_method uri username password ch nonce_value cnonce =
     (case hash_text digest (username @ '':'' @ realm ch @ '':'' @ password) of
        Inl e \<Rightarrow> Inl e
      | Inr h \<Rightarrow>
        (case (if session_algorithm then hash_text digest (h @ '':'' @ nonce ch @ '':'' @ cnonce) else Inr h) of
           Inl e \<Rightarrow> Inl e
         | Inr ha1 \<Rightarrow>
           (case hash_text digest (http_method @ '':'' @ uri) of
              Inl e \<Rightarrow> Inl e
            | Inr ha2 \<Rightarrow>
              (case select_qop (qop ch) of
                 Inl e \<Rightarrow> Inl e
               | Inr selected_qop \<Rightarrow>
                   map_sum id (\<lambda>response. (response, selected_qop))
                     (hash_text digest
                       (if selected_qop = [] then ha1 @ '':'' @ nonce ch @ '':'' @ ha2
                        else ha1 @ '':'' @ nonce ch @ '':'' @ nonce_value @ '':'' @ cnonce @ '':''
                               @ selected_qop @ '':'' @ ha2))))))"

definition digest_auth ::
    "digests \<Rightarrow> bytes \<Rightarrow> bytes \<Rightarrow> bytes \<Rightarrow> bytes \<Rightarrow> bytes \<Rightarrow> digest_challenge \<Rightarrow> nat \<Rightarrow> bytes \<Rightarrow> bytes result" where
  "digest_auth evp boundary http_method uri username password ch nonce_count cnonce0 =
     (let named = lower (algorithm ch);
          session_algorithm = suffix ''-sess'' named;
          base = (if session_algorithm then take (length named - 5) named else named)
      in case digest_name base of
           None \<Rightarrow> fail E_protocol (''Unsupported Digest algorithm: '' @ algorithm ch)
         | Some name \<Rightarrow>
           (case evp name of
              None \<Rightarrow> fail E_internal ''Unable to load Digest hash algorithm''
            | Some digest \<Rightarrow>
              let cnonce = (if cnonce0 = [] then boundary else cnonce0);
                  nonce_value = nonce_text nonce_count
              in (case digest_response digest session_algorithm http_method uri username password ch nonce_value cnonce of
                    Inl e \<Rightarrow> Inl e
                  | Inr (response, selected_qop) \<Rightarrow>
                      Inr (''Digest username='' @ quote username @ '', realm='' @ quote (realm ch)
                        @ '', nonce='' @ quote (nonce ch) @ '', uri='' @ quote uri
                        @ '', response='' @ quote response @ '', algorithm='' @ algorithm ch
                        @ (if opaque ch \<noteq> [] then '', opaque='' @ quote (opaque ch) else [])
                        @ (if selected_qop \<noteq> []
                           then '', qop='' @ selected_qop @ '', nc='' @ nonce_value @ '', cnonce='' @ quote cnonce
                           else [])))))"

section \<open>Reading what was quoted\<close>

lemma quoted_parameter_escape: "quoted_parameter (escape_quoted v @ QUOTE # rest) = Some (v, rest)"
  by (induction v) (auto simp: escape_quoted_def)

lemma parameter_value_quote [simp]: "parameter_value (quote v @ rest) = Some (v, rest)"
  by (simp add: parameter_value_def quote_def quoted_parameter_escape)

text \<open>A value that may go unquoted.\<close>

definition bare :: "bytes \<Rightarrow> bool" where
  "bare v \<longleftrightarrow> list_all (\<lambda>c. c \<noteq> CHR '','' \<and> c \<noteq> QUOTE \<and> \<not> is_space c) v"

definition parameter_name :: "bytes \<Rightarrow> bool" where
  "parameter_name k \<longleftrightarrow> list_all (\<lambda>c. in_parameter_name c \<and> \<not> is_space c \<and> fold_ascii c = c) k"

lemma trim_no_space: "list_all (\<lambda>c. \<not> is_space c) v \<Longrightarrow> trim v = v"
proof -
  assume "list_all (\<lambda>c. \<not> is_space c) v"
  then have "dropWhile is_space v = v" "dropWhile is_space (rev v) = rev v"
    by (auto simp: dropWhile_eq_self_iff list_all_iff hd_rev)
  then show "trim v = v" by (simp add: trim_def trim_by_def)
qed

lemma parameter_value_bare:
  assumes "bare v" "rest = [] \<or> hd rest = CHR '',''" shows "parameter_value (v @ rest) = Some (v, rest)"
proof -
  have v: "list_all (\<lambda>c. \<not> is_space c) v" "\<And>c. c \<in> set v \<Longrightarrow> c \<noteq> CHR '',''"
    using assms(1) by (auto simp: bare_def list_all_iff)
  have "takeWhile (\<lambda>c. c \<noteq> CHR '','') (v @ rest) = v" "dropWhile (\<lambda>c. c \<noteq> CHR '','') (v @ rest) = rest"
    using v(2) assms(2) by (cases rest; simp add: takeWhile_append2 dropWhile_append2)+
  moreover have "\<not> (v @ rest \<noteq> [] \<and> hd (v @ rest) = QUOTE)"
    using assms by (cases v; cases rest) (auto simp: bare_def)
  ultimately show ?thesis using trim_no_space [OF v(1)] by (auto simp: parameter_value_def)
qed

text \<open>One \<open>name=value\<close> of a list, with the separator before it.\<close>

lemma digest_values_step:
  assumes "parameter_name k" "parameter_value (text @ rest) = Some (v, rest)"
    "list_all (\<lambda>c. c = CHR '','' \<or> is_space c) sep"
  shows "digest_values (sep @ k @ ''='' @ text @ rest) ps = digest_values rest (ps(k \<mapsto> v))"
proof -
  let ?s = "sep @ k @ ''='' @ text @ rest"
  have k: "\<And>c. c \<in> set k \<Longrightarrow> in_parameter_name c \<and> c \<noteq> CHR '','' \<and> \<not> is_space c"
    using assms(1) by (auto simp: parameter_name_def list_all_iff in_parameter_name_def)
  have eq: "\<not> is_space CHR ''=''" "\<not> in_parameter_name CHR ''=''"
    by (simp_all add: is_space_def in_range_def in_parameter_name_def)
  have s1: "dropWhile (\<lambda>c. c = CHR '','' \<or> is_space c) ?s = k @ ''='' @ text @ rest"
    using assms(3) k eq by (cases k) (auto simp: list_all_iff dropWhile_append2)
  have s2: "dropWhile in_parameter_name (k @ ''='' @ text @ rest) = ''='' @ text @ rest"
    "takeWhile in_parameter_name (k @ ''='' @ text @ rest) = k"
    using k eq by (simp_all add: dropWhile_append2 takeWhile_append2)
  have low: "lower (trim k) = k"
    using assms(1) trim_no_space [of k] by (auto simp: parameter_name_def lower_def list_all_iff intro: map_idI)
  show ?thesis
    by (subst digest_values.simps, simp only: s1 s2 Let_def) (simp add: assms(2) low)
qed

text \<open>A list of parameters, each with the text of its value.\<close>

fun parameter_list :: "(bytes \<times> bytes) list \<Rightarrow> bytes" where
  "parameter_list [] = []"
| "parameter_list ((k, text) # ps) = '', '' @ k @ ''='' @ text @ parameter_list ps"

definition writes :: "bytes \<Rightarrow> bytes \<Rightarrow> bool" where
  "writes text v \<longleftrightarrow> text = quote v \<or> (text = v \<and> bare v)"

lemma writes_value: "writes text v \<Longrightarrow> rest = [] \<or> hd rest = CHR '','' \<Longrightarrow> parameter_value (text @ rest) = Some (v, rest)"
  unfolding writes_def using parameter_value_bare [of v rest] parameter_value_quote [of v rest] by metis

lemma parameter_list_start: "parameter_list ps = [] \<or> hd (parameter_list ps) = CHR '',''"
  by (cases ps rule: parameter_list.cases) auto

lemma digest_values_list:
  assumes "list_all2 (\<lambda>(k, w) (k', v). k = k' \<and> parameter_name k \<and> writes w v) items kvs"
  shows "digest_values (parameter_list items) ps = Inr (ps ++ map_of (rev kvs))"
  using assms
proof (induction items kvs arbitrary: ps rule: list_all2_induct)
  case Nil
  show ?case by (simp add: digest_values.simps [of "[]"])
next
  case (Cons item items kv kvs)
  obtain k w v where it: "item = (k, w)" "kv = (k, v)" "parameter_name k" "writes w v"
    using Cons.hyps(1) by (cases item; cases kv) auto
  have sep: "list_all (\<lambda>c. c = CHR '','' \<or> is_space c) '', ''" by (simp add: is_space_def in_range_def)
  from digest_values_step [OF it(3) writes_value [OF it(4) parameter_list_start] sep, of items ps]
  show ?case unfolding it(1,2) by (simp add: Cons.IH map_add_def fun_eq_iff map_of_append split: option.split)
qed

text \<open>The first parameter follows the scheme without a comma.\<close>

lemma digest_values_text:
  assumes "parameter_name k" "writes text v"
    "list_all2 (\<lambda>(k, w) (k', v). k = k' \<and> parameter_name k \<and> writes w v) items kvs"
  shows "digest_values (k @ ''='' @ text @ parameter_list items) ps = Inr (ps ++ map_of (rev ((k, v) # kvs)))"
  using digest_values_step [OF assms(1) writes_value [OF assms(2) parameter_list_start], of "[]" items ps]
  by (simp add: digest_values_list [OF assms(3)] map_add_def fun_eq_iff split: option.split)

section \<open>Properties\<close>

lemma map_of_rev_distinct: "distinct (map fst kvs) \<Longrightarrow> map_of (rev kvs) = map_of kvs"
  by (intro map_of_eqI) (auto simp: rev_map [symmetric] map_of_is_SomeI)

lemma parse_challenge_text:
  "parse_digest_challenge (''Digest '' @ s) =
     (case digest_values s (\<lambda>_. None) of Inl e \<Rightarrow> Inl e | Inr parameters \<Rightarrow> challenge_of parameters)"
proof -
  have scheme: "dropWhile is_space (''Digest '' @ s) = ''Digest '' @ s" "find_char SP (''Digest '' @ s) = Some 6"
    "substr (''Digest '' @ s) 0 (Some 6) = ''Digest''" "substr (''Digest '' @ s) (6 + 1) None = s"
    by (simp_all add: is_space_def in_range_def find_char_def substr_def)
  have "iequals ''Digest'' ''Digest''" by (simp add: iequals_def)
  then show ?thesis
    unfolding parse_digest_challenge_def Let_def scheme(1) by (simp only: scheme option.case not_True_eq_False if_False)
qed

text \<open>Whatever realm, nonce and opaque text a server quotes in a challenge, in whatever order and among
  whatever other parameters of distinct names, quoted or bare, the client reads exactly those values.\<close>

lemma challenge_values:
  assumes "distinct (map fst kvs)" "items \<noteq> []"
    and "list_all2 (\<lambda>(k, w) (k', v). k = k' \<and> parameter_name k \<and> writes w v) items kvs"
    and "map_of kvs ''realm'' = Some r" "map_of kvs ''nonce'' = Some n" "r \<noteq> []" "n \<noteq> []"
  shows "\<exists>ch. parse_digest_challenge (''Digest '' @ drop 2 (parameter_list items)) = Inr ch
    \<and> realm ch = r \<and> nonce ch = n \<and> opaque ch = (case map_of kvs ''opaque'' of None \<Rightarrow> [] | Some v \<Rightarrow> v)
    \<and> qop ch = (case map_of kvs ''qop'' of None \<Rightarrow> [] | Some v \<Rightarrow> v)
    \<and> algorithm ch = (case map_of kvs ''algorithm'' of None \<Rightarrow> ''MD5'' | Some v \<Rightarrow> v)
    \<and> (stale ch \<longleftrightarrow> (\<exists>v. map_of kvs ''stale'' = Some v \<and> iequals v ''true''))"
proof -
  obtain k w items' kv kvs' where it: "items = (k, w) # items'" "kvs = kv # kvs'"
    using assms(2,3) by (cases items; cases kvs) auto
  obtain v where kv: "kv = (k, v)" "parameter_name k" "writes w v"
    and rest: "list_all2 (\<lambda>(k, w) (k', v). k = k' \<and> parameter_name k \<and> writes w v) items' kvs'"
    using assms(3) unfolding it by (cases kv) auto
  have vals: "digest_values (drop 2 (parameter_list items)) (\<lambda>_. None) = Inr (map_of kvs)"
    using digest_values_text [OF kv(2,3) rest, of "\<lambda>_. None"] map_of_rev_distinct [OF assms(1)]
    by (simp add: it kv(1))
  have "\<not> iequals [] ''true''" by (simp add: iequals_def)
  then show ?thesis
    unfolding parse_challenge_text vals using assms(4-7)
    by (auto simp: challenge_of_def split: option.split)
qed

lemma bare_append [simp]: "bare (u @ v) \<longleftrightarrow> bare u \<and> bare v"
  by (simp add: bare_def)

lemma bare_lower: "bare (lower v) \<Longrightarrow> bare v"
proof -
  let ?ok = "\<lambda>c. c \<noteq> CHR '','' \<and> c \<noteq> QUOTE \<and> \<not> is_space c"
  have "fold_ascii c = c" if "\<not> ?ok c" for c
    using that by (auto simp: fold_ascii_def is_upper_def is_space_def in_range_def)
  then have up: "?ok c" if "?ok (fold_ascii c)" for c using that by metis
  assume "bare (lower v)"
  then have "list_all (\<lambda>c. ?ok (fold_ascii c)) v" by (simp only: bare_def lower_def list.pred_map o_def)
  then show "bare v" unfolding bare_def by (rule list.pred_mono_strong) (rule up)
qed

lemma bare_hex: "bare (to_hex n)"
proof -
  have "c \<noteq> CHR '','' \<and> c \<noteq> QUOTE \<and> \<not> is_space c" if "is_digit_of 16 c" for c
    using that by (auto simp: is_digit_of_def digit_value_def is_digit_def is_lower_def is_upper_def is_space_def
        in_range_def Let_def split: if_splits)
  moreover have "is_digit_of 16 c" if "c \<in> set (to_hex n)" for c
    by (rule to_digits_digits [of 16 c n]) (use that in \<open>simp_all add: to_hex_def\<close>)
  ultimately show ?thesis by (auto simp: bare_def list_all_iff)
qed

lemma bare_texts: "bare ''auth''" "bare ''-sess''" "bare ''md5''" "bare ''sha-256''" "bare ''sha-512-256''" "bare [CHR ''0'']"
  by (simp_all add: bare_def is_space_def in_range_def)

lemma bare_nonce_text: "bare (nonce_text n)"
  using bare_hex bare_texts(6) by (simp add: nonce_text_def) (simp add: bare_def list_all_iff)

lemma digest_name_bare: "digest_name a = Some m \<Longrightarrow> bare a"
  using bare_texts by (auto simp: digest_name_def split: if_splits)

lemma parameter_list_append: "parameter_list (xs @ ys) = parameter_list xs @ parameter_list ys"
  by (induction xs rule: parameter_list.induct) auto

lemma parameter_names:
  "parameter_name ''username''" "parameter_name ''realm''" "parameter_name ''nonce''" "parameter_name ''uri''"
  "parameter_name ''response''" "parameter_name ''algorithm''" "parameter_name ''opaque''" "parameter_name ''qop''"
  "parameter_name ''nc''" "parameter_name ''cnonce''"
  by (simp_all add: parameter_name_def in_parameter_name_def is_space_def in_range_def fold_ascii_def is_upper_def)

lemma select_qop_cases: "select_qop q = Inr s \<Longrightarrow> s = [] \<or> s = ''auth''"
  by (auto simp: select_qop_def split: if_splits)

lemma map_sum_id_Inr: "map_sum id f x = Inr y \<longleftrightarrow> (\<exists>z. x = Inr z \<and> y = f z)"
  by (cases x) auto

lemma digest_response_qop: "digest_response d sess h u un pw ch nv cn = Inr (response, s) \<Longrightarrow> s = [] \<or> s = ''auth''"
  by (auto simp: digest_response_def map_sum_id_Inr dest: select_qop_cases split: sum.splits if_splits)


definition sample_items :: "(bytes \<times> bytes) list" where
  "sample_items = [(''nonce'', quote ''a, b''), (''stale'', ''true''), (''realm'', quote [CHR ''x'', QUOTE, CHR ''y''])]"

definition sample_values :: "(bytes \<times> bytes) list" where
  "sample_values = [(''nonce'', ''a, b''), (''stale'', ''true''), (''realm'', [CHR ''x'', QUOTE, CHR ''y''])]"

lemma challenge_values_witness:
  "\<exists>ch. parse_digest_challenge (''Digest '' @ drop 2 (parameter_list sample_items)) = Inr ch
    \<and> realm ch = [CHR ''x'', QUOTE, CHR ''y''] \<and> nonce ch = ''a, b'' \<and> opaque ch = [] \<and> qop ch = []
    \<and> algorithm ch = ''MD5'' \<and> stale ch"
proof -
  have names: "parameter_name ''stale''" "bare ''true''"
    by (simp_all add: parameter_name_def in_parameter_name_def is_space_def in_range_def fold_ascii_def is_upper_def bare_def)
  have "list_all2 (\<lambda>(k, w) (k', v). k = k' \<and> parameter_name k \<and> writes w v) sample_items sample_values"
    using names by (simp add: sample_items_def sample_values_def parameter_names writes_def)
  moreover have "distinct (map fst sample_values)" "sample_items \<noteq> []"
    by (simp_all add: sample_values_def sample_items_def)
  moreover have "map_of sample_values ''realm'' = Some [CHR ''x'', QUOTE, CHR ''y'']"
    "map_of sample_values ''nonce'' = Some ''a, b''" "map_of sample_values ''stale'' = Some ''true''"
    "map_of sample_values ''opaque'' = None" "map_of sample_values ''qop'' = None"
    "map_of sample_values ''algorithm'' = None" by (simp_all add: sample_values_def)
  ultimately show ?thesis
    using challenge_values [of sample_values sample_items "[CHR ''x'', QUOTE, CHR ''y'']" "''a, b''"] by auto
qed

definition sample_challenge :: digest_challenge where
  "sample_challenge = \<lparr>realm = ''r'', nonce = ''n'', opaque = [], algorithm = ''MD5-sess'', qop = ''auth-int, auth'', stale = False\<rparr>"


end
