(* ===== verification/Client_Exchange.thy ===== *)
theory Client_Exchange
  imports Http_Exchange Client_Pool Auth
begin

text \<open>
  The client (\<^verbatim>\<open>src/client.cpp\<close>: \<^verbatim>\<open>acquire\<close>, \<^verbatim>\<open>release\<close>, \<^verbatim>\<open>discard\<close>, \<^verbatim>\<open>exchange\<close>, \<^verbatim>\<open>request\<close> and their
  helpers), in the build with OpenSSL's hashes and without its TLS.  One request runs at a time, as in
  the blocking \<^verbatim>\<open>Client\<close>; how requests share the pool is theory \<open>Client_Pool\<close>, whose operations this
  theory uses.  What the network does is a parameter: for the number of the attempt, the host, the port
  and the timeout, how long \<^verbatim>\<open>Connection::connect\<close> takes and the connection it gives.  The
  \<^verbatim>\<open>cancellation\<close> flag is the time from which it is set; \<^verbatim>\<open>stop_token\<close> is left out.
\<close>

section \<open>Options and state\<close>

datatype authentication_type = A_none | A_basic | A_bearer | A_digest

record authentication_options =
  auth_type :: authentication_type
  auth_username :: bytes
  auth_password :: bytes
  auth_token :: bytes

record proxy_options =
  proxy_url :: bytes
  proxy_username :: bytes
  proxy_password :: bytes

record client_options =
  cl_connect_timeout :: nat
  cl_read_timeout :: nat
  cl_write_timeout :: nat
  cl_max_response_body_size :: nat
  max_redirects :: nat
  connection_pool_size :: nat
  max_connections_per_origin :: nat
  follow_redirects :: bool
  cl_keep_alive :: bool
  cl_auto_decompress :: bool
  default_headers :: headers
  proxy :: proxy_options
  authentication :: authentication_options

record request_options =
  ro_on_response_head :: "(response_head \<Rightarrow> nat \<times> verdict) option"
  ro_on_data :: "(bytes \<Rightarrow> nat \<times> verdict) option"
  ro_on_data_async :: "(bytes \<Rightarrow> nat \<times> verdict) option"
  ro_on_upload_progress :: "progress option"
  ro_on_download_progress :: "progress option"
  ro_on_progress :: "(nat \<Rightarrow> nat \<Rightarrow> nat \<times> verdict) option"
  ro_cancelled_at :: "nat option"
  ro_deadline :: "nat option"
  ro_total_timeout :: "nat option"
  ro_connect_timeout :: "nat option"
  ro_read_timeout :: "nat option"
  ro_write_timeout :: "nat option"
  ro_header_timeout :: "nat option"
  ro_first_body_byte_timeout :: "nat option"
  ro_idle_timeout :: "nat option"
  ro_max_response_body_size :: "nat option"
  ro_auto_decompress :: "bool option"

text \<open>The request with its streamed body.\<close>

record outgoing_request =
  msg :: request
  body_stream :: "producer option"
  body_length :: "nat option"

text \<open>
  What is outside: connection attempts, what \<^verbatim>\<open>set_no_delay\<close> answers on the connection of an attempt, the
  hashes and the random text of digest authentication.
\<close>

record network =
  dial :: "nat \<Rightarrow> bytes \<Rightarrow> nat \<Rightarrow> nat \<Rightarrow> nat \<times> io result"
  no_delay :: "nat \<Rightarrow> error_info"
  evp :: digests
  boundary :: bytes

text \<open>The clock, the pools, the number of attempts to connect, and the history of written requests.\<close>

record client =
  now :: nat
  pools :: "bytes \<Rightarrow> io origin_pool"
  dialled :: nat
  written :: "(parsed_url \<times> request \<times> bytes) list"

record lease =
  lease_io :: io
  reused :: bool

definition default :: "'a option \<Rightarrow> 'a \<Rightarrow> 'a" where
  "default x d = (case x of None \<Rightarrow> d | Some v \<Rightarrow> v)"

section \<open>Helpers\<close>

definition idempotent_method :: "bytes \<Rightarrow> bool" where
  "idempotent_method m \<longleftrightarrow> iequals m ''GET'' \<or> iequals m ''HEAD'' \<or> iequals m ''OPTIONS''"

definition redirect_status :: "int \<Rightarrow> bool" where
  "redirect_status n \<longleftrightarrow> n = 301 \<or> n = 302 \<or> n = 303 \<or> n = 307 \<or> n = 308"

definition connection_phase :: "error_info \<Rightarrow> transfer_phase" where
  "connection_phase e = (case err_code e of
     E_resolve \<Rightarrow> P_resolve
   | E_tls_unavailable \<Rightarrow> P_tls_handshake
   | E_tls_configuration \<Rightarrow> P_tls_handshake
   | E_tls_handshake \<Rightarrow> P_tls_handshake
   | E_tls_verification \<Rightarrow> P_tls_handshake
   | _ \<Rightarrow> P_connect)"

definition with_transfer :: "error_info \<Rightarrow> transfer_phase \<Rightarrow> nat \<Rightarrow> nat \<Rightarrow> bool \<Rightarrow> error_info" where
  "with_transfer e ph up down started =
     e\<lparr>transfer := Some \<lparr>phase = ph, uploaded = up, downloaded = down, response_started = started\<rparr>\<rparr>"

definition effective_deadline :: "nat \<Rightarrow> request_options \<Rightarrow> nat option" where
  "effective_deadline t ro = (case ro_total_timeout ro of
     None \<Rightarrow> ro_deadline ro
   | Some whole \<Rightarrow> (case ro_deadline ro of
       None \<Rightarrow> Some (t + whole) | Some d \<Rightarrow> if t + whole < d then Some (t + whole) else Some d))"

definition limited_timeout :: "nat \<Rightarrow> nat option \<Rightarrow> nat \<Rightarrow> nat result" where
  "limited_timeout timeout dl t = (case dl of
     None \<Rightarrow> Inr (max timeout 1)
   | Some d \<Rightarrow> if d \<le> t then fail E_timeout ''Request deadline exceeded''
       else Inr (max (min timeout (d - t)) 1))"

definition cancelled_by :: "request_options \<Rightarrow> nat \<Rightarrow> bool" where
  "cancelled_by ro t \<longleftrightarrow> (case ro_cancelled_at ro of None \<Rightarrow> False | Some c \<Rightarrow> c \<le> t)"

definition expired :: "request_options \<Rightarrow> nat \<Rightarrow> bool" where
  "expired ro t \<longleftrightarrow> (case ro_deadline ro of None \<Rightarrow> False | Some d \<Rightarrow> t \<ge> d)"

section \<open>Connections\<close>

definition pool_key :: "client_options \<Rightarrow> parsed_url \<Rightarrow> bytes" where
  "pool_key cl url = origin url @ ''|'' @ proxy_url (proxy cl)"

definition set_pool :: "bytes \<Rightarrow> io origin_pool \<Rightarrow> client \<Rightarrow> client" where
  "set_pool key p st = st\<lparr>pools := (pools st)(key := p)\<rparr>"

definition free_slot :: "bytes \<Rightarrow> client \<Rightarrow> client" where
  "free_slot key st = set_pool key (uncount (pools st key)) st"

definition open_at :: "nat \<Rightarrow> io \<Rightarrow> bool" where
  "open_at t io = connection_open (io\<lparr>clock := t\<rparr>)"

text \<open>The read options of a tunnel, with the defaults of \<^verbatim>\<open>HttpReadOptions\<close>.\<close>

definition tunnel_options :: "client_options \<Rightarrow> request_options \<Rightarrow> read_options" where
  "tunnel_options cl ro =
     \<lparr>max_header_size = 64 * 1024, max_body_size = 1024 * 1024,
      read_timeout = default (ro_read_timeout ro) (cl_read_timeout cl), header_timeout = ro_header_timeout ro,
      first_body_byte_timeout = None, idle_timeout = None, deadline = ro_deadline ro, auto_decompress = False,
      cancelled = Some (cancelled_by ro), on_response_head = None, on_data = None, on_data_async = None,
      on_progress = None\<rparr>"

definition tunnel_request :: "client_options \<Rightarrow> parsed_url \<Rightarrow> request" where
  "tunnel_request cl url =
     (let h = headers_set [] ''Host'' (authority url)
      in new_request\<lparr>req_method := ''CONNECT'', req_target := authority url,
           req_headers := (if proxy_username (proxy cl) = [] then h
             else headers_set h ''Proxy-Authorization''
                    (basic_auth (proxy_username (proxy cl)) (proxy_password (proxy cl))))\<rparr>)"

text \<open>The tunnel through a proxy: no error when the proxy agreed.  Its read buffer is dropped.\<close>

definition open_tunnel :: "client_options \<Rightarrow> request_options \<Rightarrow> parsed_url \<Rightarrow> io \<Rightarrow> error_info \<times> io" where
  "open_tunnel cl ro url io =
     (case limited_timeout (default (ro_write_timeout ro) (cl_write_timeout cl)) (ro_deadline ro) (clock io) of
        Inl e \<Rightarrow> (e, io)
      | Inr timeout \<Rightarrow>
        (case write_request (tunnel_request cl url) None None (authority url) timeout None io of
           (e, io1) \<Rightarrow>
             if is_error e then (e, io1)
             else (case read_response (tunnel_options cl ro) ''CONNECT'' (io1\<lparr>buffer := []\<rparr>) of
               (Inl e, io2) \<Rightarrow> (e, io2)
             | (Inr res, io2) \<Rightarrow>
                 if status res \<noteq> 200
                 then (error_of E_proxy ''HTTPS CONNECT proxy rejected tunnel'', io2)
                 else (no_error, io2\<lparr>buffer := []\<rparr>))))"

text \<open>The endpoint of a connection: the origin or the proxy.\<close>

definition endpoint :: "client_options \<Rightarrow> parsed_url \<Rightarrow> parsed_url result" where
  "endpoint cl url =
     (if proxy_url (proxy cl) = [] then Inr url
      else (case parse_url (proxy_url (proxy cl)) [] of
        Inl e \<Rightarrow> Inl e
      | Inr p \<Rightarrow> if secure p then fail E_proxy ''TLS proxies are not supported'' else Inr p))"

text \<open>What is checked on a connection that was made: an error closes it.\<close>

definition set_up :: "network \<Rightarrow> client_options \<Rightarrow> request_options \<Rightarrow> parsed_url \<Rightarrow> nat \<Rightarrow> io \<Rightarrow> error_info \<times> io" where
  "set_up net cl ro url attempt_number io =
     (if cancelled_by ro (clock io) then (error_of E_cancelled ''Request cancelled'', io)
      else if is_error (no_delay net attempt_number) then (no_delay net attempt_number, io)
      else
        (case (if proxy_url (proxy cl) \<noteq> [] \<and> secure url then open_tunnel cl ro url io else (no_error, io)) of
           (e, io1) \<Rightarrow>
             if is_error e then (e, io1)
             else if secure url then (error_of E_tls_unavailable ''TLS support is disabled'', io1)
             else (no_error, io1)))"

text \<open>The second half of \<^verbatim>\<open>acquire\<close>, with a slot in hand.\<close>

definition connect_lease ::
    "network \<Rightarrow> client_options \<Rightarrow> request_options \<Rightarrow> parsed_url \<Rightarrow> client \<Rightarrow> lease result \<times> client" where
  "connect_lease net cl ro url st =
     (let key = pool_key cl url
      in case endpoint cl url of
           Inl e \<Rightarrow> (Inl e, free_slot key st)
         | Inr ep \<Rightarrow>
           (case limited_timeout (default (ro_connect_timeout ro) (cl_connect_timeout cl)) (ro_deadline ro) (now st) of
              Inl e \<Rightarrow> (Inl e, free_slot key st)
            | Inr timeout \<Rightarrow>
              (case dial net (dialled st) (host ep) (port ep) timeout of
                 (elapsed, r) \<Rightarrow>
                   let st1 = st\<lparr>now := now st + elapsed, dialled := dialled st + 1\<rparr>
                   in case r of
                        Inl e \<Rightarrow> (Inl e, free_slot key st1)
                      | Inr io \<Rightarrow>
                        (case set_up net cl ro url (dialled st) (io\<lparr>clock := now st1, buffer := []\<rparr>) of
                           (e, io1) \<Rightarrow>
                             let st2 = st1\<lparr>now := clock io1\<rparr>
                             in if is_error e then (Inl e, free_slot key st2)
                                else (Inr \<lparr>lease_io = io1, reused = False\<rparr>, st2)))))"

text \<open>\<open>None\<close> is a request that waits for another one to give up its slot.\<close>

definition acquire ::
    "network \<Rightarrow> client_options \<Rightarrow> request_options \<Rightarrow> parsed_url \<Rightarrow> client \<Rightarrow> (lease result \<times> client) option" where
  "acquire net cl ro url st =
     (let key = pool_key cl url
      in if cancelled_by ro (now st) then Some (fail E_cancelled ''Request cancelled while queued'', st)
         else if expired ro (now st)
         then Some (fail E_timeout ''Request deadline exceeded in connection queue'', st)
         else (case acquire_slot (open_at (now st)) (max_connections_per_origin cl) (pools st key) of
                 (Reused io, p) \<Rightarrow>
                   Some (Inr \<lparr>lease_io = io\<lparr>clock := now st\<rparr>, reused = True\<rparr>, set_pool key p st)
               | (Fresh, p) \<Rightarrow> Some (connect_lease net cl ro url (set_pool key p st))
               | (Full, _) \<Rightarrow> None))"

definition give_back :: "client_options \<Rightarrow> bytes \<Rightarrow> bool \<Rightarrow> io \<Rightarrow> client \<Rightarrow> client" where
  "give_back cl key reusable io st =
     (if \<not> reusable \<or> \<not> cl_keep_alive cl \<or> \<not> open_at (now st) io then free_slot key st
      else (case keep_idle (connection_pool_size cl) True io (pools st key) of
        (True, p) \<Rightarrow> set_pool key p st
      | (False, p) \<Rightarrow> free_slot key (set_pool key p st)))"

section \<open>One attempt\<close>

definition add_default_headers :: "bool \<Rightarrow> headers \<Rightarrow> headers \<Rightarrow> headers" where
  "add_default_headers allow_automatic_auth defaults h =
     foldl (\<lambda>h (name, v).
       if \<not> allow_automatic_auth \<and> (iequals name ''Authorization'' \<or> iequals name ''Cookie'') then h
       else if \<not> headers_contains h name then headers_add h name v else h) h defaults"

definition add_authorization :: "client_options \<Rightarrow> headers \<Rightarrow> headers" where
  "add_authorization cl h = (case auth_type (authentication cl) of
     A_basic \<Rightarrow> headers_set h ''Authorization''
       (basic_auth (auth_username (authentication cl)) (auth_password (authentication cl)))
   | A_bearer \<Rightarrow> headers_set h ''Authorization'' (bearer_auth (auth_token (authentication cl)))
   | _ \<Rightarrow> h)"

text \<open>The fields the client puts into a request before it is sent.\<close>

definition prepare :: "client_options \<Rightarrow> parsed_url \<Rightarrow> bool \<Rightarrow> outgoing_request \<Rightarrow> outgoing_request" where
  "prepare cl url allow_automatic_auth out =
     (let h1 = headers_set (add_default_headers allow_automatic_auth (default_headers cl) (req_headers (msg out)))
                 ''Host'' (authority url);
          h2 = (if allow_automatic_auth \<and> \<not> headers_contains h1 ''Authorization''
                then add_authorization cl h1 else h1);
          h3 = (if proxy_url (proxy cl) \<noteq> [] \<and> \<not> secure url \<and> proxy_username (proxy cl) \<noteq> []
                then headers_set h2 ''Proxy-Authorization''
                       (basic_auth (proxy_username (proxy cl)) (proxy_password (proxy cl)))
                else h2)
      in out\<lparr>msg := (msg out)\<lparr>req_headers := h3, req_keep_alive := cl_keep_alive cl\<rparr>\<rparr>)"

definition wire_target :: "client_options \<Rightarrow> parsed_url \<Rightarrow> bytes" where
  "wire_target cl url =
     (if proxy_url (proxy cl) \<noteq> [] \<and> \<not> secure url then origin url @ target url else target url)"

text \<open>The callbacks of an exchange are always there; those of the caller are asked when given.\<close>

definition upload_progress :: "request_options \<Rightarrow> progress" where
  "upload_progress ro n whole = (case ro_on_upload_progress ro of None \<Rightarrow> (0, Accept) | Some f \<Rightarrow> f n whole)"

definition download_progress :: "request_options \<Rightarrow> progress" where
  "download_progress ro n whole = (case ro_on_download_progress ro of
     Some f \<Rightarrow> f n whole
   | None \<Rightarrow> (case ro_on_progress ro of None \<Rightarrow> (0, Accept) | Some f \<Rightarrow> f n (default whole 0)))"

definition response_options :: "client_options \<Rightarrow> request_options \<Rightarrow> read_options" where
  "response_options cl ro =
     \<lparr>max_header_size = 64 * 1024,
      max_body_size = default (ro_max_response_body_size ro) (cl_max_response_body_size cl),
      read_timeout = default (ro_read_timeout ro) (cl_read_timeout cl), header_timeout = ro_header_timeout ro,
      first_body_byte_timeout = ro_first_body_byte_timeout ro, idle_timeout = ro_idle_timeout ro,
      deadline = ro_deadline ro, auto_decompress = default (ro_auto_decompress ro) (cl_auto_decompress cl),
      cancelled = Some (cancelled_by ro),
      on_response_head = Some (\<lambda>rh. case ro_on_response_head ro of None \<Rightarrow> (0, Accept) | Some f \<Rightarrow> f rh),
      on_data = ro_on_data ro, on_data_async = ro_on_data_async ro, on_progress = Some (download_progress ro)\<rparr>"

datatype attempt = Again | Failed error_info | Answered response

definition may_retry :: "lease \<Rightarrow> bool \<Rightarrow> outgoing_request \<Rightarrow> bool" where
  "may_retry l first out \<longleftrightarrow> reused l \<and> first \<and> idempotent_method (req_method (msg out)) \<and> body_stream out = None"

text \<open>A connection after a failure is closed and its slot given up.\<close>

definition after_write_error ::
    "request_options \<Rightarrow> outgoing_request \<Rightarrow> bool \<Rightarrow> lease \<Rightarrow> error_info \<Rightarrow> io \<Rightarrow> attempt" where
  "after_write_error ro out first l e io =
     (let ph = (case transfer e of Some t \<Rightarrow> phase t | None \<Rightarrow> P_request_body)
      in if cancelled_by ro (clock io)
         then Failed (with_transfer (error_of E_cancelled ''Request cancelled'') ph (up_reported io) 0 False)
         else if may_retry l first out then Again
         else Failed (with_transfer e ph (up_reported io) 0 False))"

definition after_read_error ::
    "request_options \<Rightarrow> outgoing_request \<Rightarrow> bool \<Rightarrow> lease \<Rightarrow> error_info \<Rightarrow> io \<Rightarrow> attempt" where
  "after_read_error ro out first l e io =
     (let started = (head_reported io \<noteq> None);
          ph = (if head_reported io = Some True then P_response_body else P_response_head)
      in if cancelled_by ro (clock io)
         then Failed (with_transfer (error_of E_cancelled ''Request cancelled'') ph
                       (up_reported io) (down_reported io) started)
         else if \<not> started \<and> may_retry l first out then Again
         else Failed (with_transfer e ph (up_reported io) (down_reported io) started))"

text \<open>Writing the request on a lease and reading the response.\<close>

definition use_lease ::
    "client_options \<Rightarrow> request_options \<Rightarrow> parsed_url \<Rightarrow> outgoing_request \<Rightarrow> bool \<Rightarrow> lease \<Rightarrow> client \<Rightarrow> attempt \<times> client" where
  "use_lease cl ro url out first l st =
     (let key = pool_key cl url
      in if cancelled_by ro (now st)
         then (Failed (with_transfer (error_of E_cancelled ''Request cancelled'') P_connect 0 0 False), free_slot key st)
         else
           (case limited_timeout (default (ro_write_timeout ro) (cl_write_timeout cl)) (ro_deadline ro) (now st) of
              Inl e \<Rightarrow> (Failed (with_transfer e P_request_head 0 0 False), free_slot key st)
            | Inr timeout \<Rightarrow>
              (case write_request (msg out) (body_stream out) (body_length out) (wire_target cl url) timeout
                  (Some (upload_progress ro))
                  ((lease_io l)\<lparr>up_reported := 0, down_reported := 0, head_reported := None\<rparr>) of
                 (e, io1) \<Rightarrow>
                   let st1 = st\<lparr>now := clock io1, written := written st @ [(url, msg out, wire_target cl url)]\<rparr>
                   in if is_error e then (after_write_error ro out first l e io1, free_slot key st1)
                      else
                        (case read_response (response_options cl ro) (req_method (msg out)) io1 of
                           (Inl e2, io2) \<Rightarrow>
                             (after_read_error ro out first l e2 io2, free_slot key (st1\<lparr>now := clock io2\<rparr>))
                         | (Inr res, io2) \<Rightarrow>
                             let st2 = st1\<lparr>now := clock io2\<rparr>
                             in if cancelled_by ro (clock io2)
                                then (Failed (with_transfer (error_of E_cancelled ''Request cancelled'') P_response_body
                                        (up_reported io2) (down_reported io2) (head_reported io2 \<noteq> None)),
                                      free_slot key st2)
                                else (Answered res,
                                      give_back cl key (req_keep_alive (msg out) \<and> res_keep_alive res) io2 st2)))))"

definition attempt_once ::
    "network \<Rightarrow> client_options \<Rightarrow> request_options \<Rightarrow> parsed_url \<Rightarrow> outgoing_request \<Rightarrow> bool \<Rightarrow> client
       \<Rightarrow> (attempt \<times> client) option" where
  "attempt_once net cl ro url out first st =
     (case acquire net cl ro url st of
        None \<Rightarrow> None
      | Some (Inl e, st1) \<Rightarrow> Some (Failed (with_transfer e (connection_phase e) 0 0 False), st1)
      | Some (Inr l, st1) \<Rightarrow> Some (use_lease cl ro url out first l st1))"

text \<open>The loop over the two attempts.\<close>

definition attempts ::
    "network \<Rightarrow> client_options \<Rightarrow> request_options \<Rightarrow> parsed_url \<Rightarrow> outgoing_request \<Rightarrow> client
       \<Rightarrow> (response result \<times> client) option" where
  "attempts net cl ro url out st =
     (let final = (\<lambda>a st. case a of
          Answered res \<Rightarrow> Some (Inr res, st)
        | Failed e \<Rightarrow> Some (Inl e, st)
        | Again \<Rightarrow> Some (Inl (with_transfer (error_of E_connect ''Unable to use pooled connection'') P_connect 0 0 False), st))
      in case attempt_once net cl ro url out True st of
           None \<Rightarrow> None
         | Some (Again, st1) \<Rightarrow> (case attempt_once net cl ro url out False st1 of
             None \<Rightarrow> None | Some (a, st2) \<Rightarrow> final a st2)
         | Some (a, st1) \<Rightarrow> final a st1)"

section \<open>Exchanges\<close>

text \<open>What a 401 answer leads to: no answer, or the request with its credentials.\<close>

definition digest_request ::
    "network \<Rightarrow> client_options \<Rightarrow> parsed_url \<Rightarrow> outgoing_request \<Rightarrow> response \<Rightarrow> outgoing_request result option" where
  "digest_request net cl url out res =
     (case parse_digest_challenge (headers_get (res_headers res) ''WWW-Authenticate'' []) of
        Inl _ \<Rightarrow> None
      | Inr ch \<Rightarrow>
        (case digest_auth (evp net) (boundary net) (req_method (msg out)) (target url)
            (auth_username (authentication cl)) (auth_password (authentication cl)) ch 1 [] of
           Inl e \<Rightarrow> Some (Inl e)
         | Inr a \<Rightarrow> Some (Inr (out\<lparr>msg := (msg out)\<lparr>req_headers :=
                      headers_set (req_headers (msg out)) ''Authorization'' a\<rparr>\<rparr>))))"

definition next_hop :: "parsed_url \<Rightarrow> bytes \<Rightarrow> parsed_url result" where
  "next_hop url location =
     (case resolve_url (origin url @ target url) location of
        Inl e \<Rightarrow> Inl e | Inr resolved \<Rightarrow> parse_url resolved [])"

definition headers_without :: "bytes list \<Rightarrow> headers \<Rightarrow> headers" where
  "headers_without names h = foldl (\<lambda>h name. snd (headers_erase h name)) h names"

definition redirect_request :: "int \<Rightarrow> bool \<Rightarrow> parsed_url \<Rightarrow> outgoing_request \<Rightarrow> outgoing_request" where
  "redirect_request st_code same_origin next_url out =
     (let r = msg out;
          r1 = (if same_origin then r
                else r\<lparr>req_headers := headers_without [''Authorization'', ''Cookie''] (req_headers r)\<rparr>);
          out1 = (if (st_code = 303 \<and> \<not> iequals (req_method r) ''HEAD'')
                     \<or> ((st_code = 301 \<or> st_code = 302) \<and> iequals (req_method r) ''POST'')
                  then \<lparr>msg = r1\<lparr>req_method := ''GET'', req_body := [],
                          req_headers := headers_without
                            [''Content-Type'', ''Content-Length'', ''Transfer-Encoding'', ''Expect''] (req_headers r1)\<rparr>,
                        body_stream = None, body_length = None\<rparr>
                  else out\<lparr>msg := r1\<rparr>)
      in out1\<lparr>msg := (msg out1)\<lparr>req_target := target next_url\<rparr>\<rparr>)"

text \<open>What follows a response: it is the answer, or the exchange goes on.\<close>

datatype decision =
    Done "response result"
  | Authenticate outgoing_request
  | Follow parsed_url outgoing_request bool

definition decide ::
    "network \<Rightarrow> client_options \<Rightarrow> parsed_url \<Rightarrow> outgoing_request \<Rightarrow> nat \<Rightarrow> bool \<Rightarrow> bool \<Rightarrow> response \<Rightarrow> decision" where
  "decide net cl url out redirects digest_attempted allow_automatic_auth res =
     (case (if status res = 401 \<and> \<not> digest_attempted \<and> allow_automatic_auth
               \<and> auth_type (authentication cl) = A_digest
            then digest_request net cl url out res else None) of
        Some (Inl e) \<Rightarrow> Done (Inl e)
      | Some (Inr out1) \<Rightarrow> Authenticate out1
      | None \<Rightarrow>
        if follow_redirects cl \<and> redirect_status (status res) \<and> headers_contains (res_headers res) ''Location''
        then
          if redirects \<ge> max_redirects cl
          then Done (fail E_redirect_limit ''HTTP redirect limit exceeded'')
          else (case next_hop url (headers_get (res_headers res) ''Location'' []) of
                  Inl e \<Rightarrow> Done (Inl e)
                | Inr next_url \<Rightarrow>
                    let same_origin = (origin next_url = origin url)
                    in Follow next_url (redirect_request (status res) same_origin next_url out)
                         (same_origin \<and> allow_automatic_auth))
        else Done (Inr res))"

lemma decide_Authenticate:
  "decide net cl url out redirects dig allow res = Authenticate out1 \<Longrightarrow>
     \<not> dig \<and> allow \<and> digest_request net cl url out res = Some (Inr out1)"
  by (auto simp: decide_def Let_def split: if_splits option.splits sum.splits)

lemma decide_Follow:
  "decide net cl url out redirects dig allow res = Follow u out1 a \<Longrightarrow>
     redirects < max_redirects cl \<and> a = (origin u = origin url \<and> allow)
     \<and> out1 = redirect_request (status res) (origin u = origin url) u out"
  by (auto simp: decide_def Let_def split: if_splits option.splits sum.splits)

function exchange ::
    "network \<Rightarrow> client_options \<Rightarrow> request_options \<Rightarrow> parsed_url \<Rightarrow> outgoing_request \<Rightarrow> nat \<Rightarrow> bool \<Rightarrow> bool \<Rightarrow> client
       \<Rightarrow> (response result \<times> client) option" where
  "exchange net cl ro url out0 redirects digest_attempted allow_automatic_auth st =
     (if cancelled_by ro (now st)
      then Some (Inl (with_transfer (error_of E_cancelled ''Request cancelled'') P_none 0 0 False), st)
      else if expired ro (now st)
      then Some (Inl (with_transfer (error_of E_timeout ''Request deadline exceeded'') P_none 0 0 False), st)
      else
        let out = prepare cl url allow_automatic_auth out0
        in (case attempts net cl ro url out st of
              None \<Rightarrow> None
            | Some (Inl e, st1) \<Rightarrow> Some (Inl e, st1)
            | Some (Inr res, st1) \<Rightarrow>
              (case decide net cl url out redirects digest_attempted allow_automatic_auth res of
                 Done r \<Rightarrow> Some (r, st1)
               | Authenticate out1 \<Rightarrow> exchange net cl ro url out1 redirects True allow_automatic_auth st1
               | Follow next_url out1 allow1 \<Rightarrow>
                   exchange net cl ro next_url out1 (redirects + 1) False allow1 st1)))"
  by pat_completeness auto
termination
  by (relation "measures [\<lambda>(_, cl, _, _, _, redirects, _). max_redirects cl - redirects,
      \<lambda>(_, _, _, _, _, _, digest_attempted, _). if digest_attempted then 0 else 1]")
    (auto dest: decide_Authenticate decide_Follow)

declare exchange.simps [simp del]

section \<open>Requests\<close>

definition client_request ::
    "network \<Rightarrow> client_options \<Rightarrow> bytes \<Rightarrow> request_options \<Rightarrow> outgoing_request \<Rightarrow> client
       \<Rightarrow> (response result \<times> client) option" where
  "client_request net cl base_url ro0 out st =
     (case parse_url base_url [] of
        Inl e \<Rightarrow> Some (Inl e, st)
      | Inr base \<Rightarrow>
        if ro_on_data ro0 \<noteq> None \<and> ro_on_data_async ro0 \<noteq> None
        then Some (fail E_invalid_argument ''Configure either on_data or on_data_async'', st)
        else if ro_on_download_progress ro0 \<noteq> None \<and> ro_on_progress ro0 \<noteq> None
        then Some (fail E_invalid_argument ''Configure either on_download_progress or on_progress'', st)
        else if body_stream out \<noteq> None \<and> req_body (msg out) \<noteq> []
        then Some (fail E_invalid_argument ''Configure either a buffered or streamed request body'', st)
        else if body_stream out = None \<and> body_length out \<noteq> None
        then Some (fail E_invalid_argument ''A streamed body length requires a body producer'', st)
        else
          let ro = ro0\<lparr>ro_deadline := effective_deadline (now st) ro0\<rparr>
          in (case parse_url (req_target (msg out)) (origin base @ target base) of
                Inl e \<Rightarrow> Some (Inl e, st)
              | Inr url \<Rightarrow>
                if cancelled_by ro (now st)
                then Some (Inl (with_transfer (error_of E_cancelled ''Request cancelled'') P_none 0 0 False), st)
                else if expired ro (now st)
                then Some (Inl (with_transfer (error_of E_timeout ''Request deadline exceeded'') P_none 0 0 False), st)
                else if max_connections_per_origin cl \<noteq> 0
                     \<and> count (pools st (pool_key cl url)) \<ge> max_connections_per_origin cl
                     \<and> idle (pools st (pool_key cl url)) = []
                then None
                else exchange net cl ro url (out\<lparr>msg := (msg out)\<lparr>req_target := target url\<rparr>\<rparr>) 0 False True st))"

definition new_client :: client where
  "new_client = \<lparr>now = 0, pools = (\<lambda>_. empty_pool), dialled = 0, written = []\<rparr>"

end
