(* ===== verification/Client_Facts.thy ===== *)
theory Client_Facts
  imports Client_Exchange
begin

text \<open>
  What an exchange of the client guarantees: it always returns and leaves no slot taken; it writes a
  bounded number of requests, and a request that may not be repeated once; credentials stay with the
  origin they were meant for; an answer that redirects is followed or reported.
\<close>

section \<open>Slots\<close>

definition pool_ok :: "client_options \<Rightarrow> io origin_pool \<Rightarrow> bool" where
  "pool_ok cl p \<longleftrightarrow> count p = length (idle p) \<and> length (idle p) \<le> connection_pool_size cl"

definition client_ok :: "client_options \<Rightarrow> client \<Rightarrow> bool" where
  "client_ok cl st \<longleftrightarrow> (\<forall>key. pool_ok cl (pools st key))"

text \<open>One connection of the key is in use.\<close>

definition client_leased :: "client_options \<Rightarrow> bytes \<Rightarrow> client \<Rightarrow> bool" where
  "client_leased cl key st \<longleftrightarrow> count (pools st key) = length (idle (pools st key)) + 1
     \<and> length (idle (pools st key)) \<le> connection_pool_size cl \<and> (\<forall>k. k \<noteq> key \<longrightarrow> pool_ok cl (pools st k))"

lemma client_updates [simp]:
  "client_ok cl (st\<lparr>now := t\<rparr>) = client_ok cl st" "client_ok cl (st\<lparr>dialled := n\<rparr>) = client_ok cl st"
  "client_ok cl (st\<lparr>written := w\<rparr>) = client_ok cl st" "client_leased cl k (st\<lparr>now := t\<rparr>) = client_leased cl k st"
  "client_leased cl k (st\<lparr>dialled := n\<rparr>) = client_leased cl k st"
  "client_leased cl k (st\<lparr>written := w\<rparr>) = client_leased cl k st"
  by (simp_all add: client_ok_def client_leased_def)

lemma free_slot_ok: "client_leased cl key st \<Longrightarrow> client_ok cl (free_slot key st)"
  by (auto simp: client_leased_def client_ok_def pool_ok_def free_slot_def set_pool_def uncount_def)

lemma give_back_ok: "client_leased cl key st \<Longrightarrow> client_ok cl (give_back cl key reusable io st)"
proof -
  assume leased: "client_leased cl key st"
  have free: "client_ok cl (free_slot key st)" by (rule free_slot_ok [OF leased])
  have same: "set_pool key (pools st key) st = st" by (simp add: set_pool_def)
  show ?thesis
  proof (cases "length (idle (pools st key)) < connection_pool_size cl")
    case True
    then have "client_ok cl (set_pool key ((pools st key)\<lparr>idle := io # idle (pools st key)\<rparr>) st)"
      using leased by (auto simp: client_leased_def client_ok_def pool_ok_def set_pool_def)
    then show ?thesis using free True by (simp add: give_back_def keep_idle_def)
  next
    case False
    then show ?thesis using free by (simp add: give_back_def keep_idle_def same)
  qed
qed

lemma connect_lease_ok:
  assumes "client_leased cl (pool_key cl url) st" "connect_lease net cl ro url st = (r, st')"
  shows "case r of Inl e \<Rightarrow> client_ok cl st' | Inr l \<Rightarrow> client_leased cl (pool_key cl url) st'"
  using assms free_slot_ok
  by (fastforce simp: connect_lease_def Let_def split: sum.splits prod.splits if_splits)

lemma acquire_ok:
  assumes "client_ok cl st"
  shows "\<exists>r st'. acquire net cl ro url st = Some (r, st') \<and>
    (case r of Inl e \<Rightarrow> client_ok cl st' | Inr l \<Rightarrow> client_leased cl (pool_key cl url) st')"
proof (cases "cancelled_by ro (now st) \<or> expired ro (now st)")
  case True
  then show ?thesis using assms by (auto simp: acquire_def Let_def)
next
  case False
  define key where "key = pool_key cl url"
  let ?p = "pools st key"
  have p: "pool_ok cl ?p" "\<And>k. pool_ok cl (pools st k)" using assms by (simp_all add: client_ok_def)
  obtain r cs n where t: "take_idle (open_at (now st)) (idle ?p) (count ?p) = (r, cs, n)" by (metis prod_cases3)
  note counts = take_idle_counts [OF t]
  show ?thesis
  proof (cases r)
    case None
    then have e: "cs = []" "n = 0" using counts p(1) by (simp_all add: pool_ok_def)
    let ?st = "set_pool key (?p\<lparr>idle := [], count := 1\<rparr>) st"
    have "acquire net cl ro url st = Some (connect_lease net cl ro url ?st)"
      using False t None e unfolding acquire_def Let_def key_def [symmetric]
      by (auto simp: acquire_slot_def)
    moreover have "client_leased cl key ?st"
      using p(2) by (simp add: client_leased_def set_pool_def)
    moreover obtain q st2 where "connect_lease net cl ro url ?st = (q, st2)" by (rule prod.exhaust)
    ultimately show ?thesis
      using connect_lease_ok [of cl url ?st net ro q st2] unfolding key_def by auto
  next
    case (Some io)
    let ?st = "set_pool key (?p\<lparr>idle := cs, count := n\<rparr>) st"
    have "acquire net cl ro url st = Some (Inr \<lparr>lease_io = io\<lparr>clock := now st\<rparr>, reused = True\<rparr>, ?st)"
      using False t Some unfolding acquire_def Let_def key_def [symmetric] by (simp add: acquire_slot_def)
    moreover have "length cs \<le> connection_pool_size cl" "n = length cs + 1"
      using counts Some p(1) by (simp_all add: pool_ok_def)
    then have "client_leased cl key ?st" using p(2) by (simp add: client_leased_def set_pool_def)
    ultimately show ?thesis by (simp add: key_def)
  qed
qed

lemma use_lease_ok:
  "client_leased cl (pool_key cl url) st \<Longrightarrow> use_lease cl ro url out first l st = (a, st') \<Longrightarrow> client_ok cl st'"
  using free_slot_ok give_back_ok
  by (fastforce simp: use_lease_def Let_def split: sum.splits prod.splits if_splits)

lemma attempt_once_ok:
  assumes "client_ok cl st"
  shows "\<exists>a st'. attempt_once net cl ro url out first st = Some (a, st') \<and> client_ok cl st'"
proof -
  obtain r st1 where acq: "acquire net cl ro url st = Some (r, st1)"
    and r: "case r of Inl e \<Rightarrow> client_ok cl st1 | Inr l \<Rightarrow> client_leased cl (pool_key cl url) st1"
    using acquire_ok [OF assms] by blast
  show ?thesis
  proof (cases r)
    case (Inr l)
    obtain a st2 where "use_lease cl ro url out first l st1 = (a, st2)" by (rule prod.exhaust)
    then show ?thesis using acq r Inr use_lease_ok by (auto simp: attempt_once_def)
  qed (use acq r in \<open>auto simp: attempt_once_def\<close>)
qed

lemma attempts_ok:
  assumes "client_ok cl st"
  shows "\<exists>r st'. attempts net cl ro url out st = Some (r, st') \<and> client_ok cl st'"
proof -
  obtain a st1 where a: "attempt_once net cl ro url out True st = Some (a, st1)" "client_ok cl st1"
    using attempt_once_ok [OF assms] by blast
  obtain b st2 where b: "attempt_once net cl ro url out False st1 = Some (b, st2)" "client_ok cl st2"
    using attempt_once_ok [OF a(2)] by blast
  show ?thesis using a b by (cases a; cases b) (simp_all add: attempts_def)
qed

text \<open>How an exchange goes on after its attempts.\<close>

definition refused :: "request_options \<Rightarrow> client \<Rightarrow> bool" where
  "refused ro st \<longleftrightarrow> cancelled_by ro (now st) \<or> expired ro (now st)"

lemma exchange_refused:
  "refused ro st \<Longrightarrow> \<exists>e. exchange net cl ro url out redirects dig allow st = Some (Inl e, st)"
  by (subst exchange.simps) (auto simp: refused_def)

lemma exchange_step:
  assumes "\<not> refused ro st" "attempts net cl ro url (prepare cl url allow out) st = Some (r, st1)"
  shows "exchange net cl ro url out redirects dig allow st =
    (case r of Inl e \<Rightarrow> Some (Inl e, st1)
     | Inr res \<Rightarrow> (case decide net cl url (prepare cl url allow out) redirects dig allow res of
         Done r \<Rightarrow> Some (r, st1)
       | Authenticate out1 \<Rightarrow> exchange net cl ro url out1 redirects True allow st1
       | Follow u out1 a \<Rightarrow> exchange net cl ro u out1 (redirects + 1) False a st1))"
  using assms by (subst exchange.simps) (simp add: refused_def split: sum.split)

lemma exchange_stuck:
  assumes "\<not> refused ro st" "attempts net cl ro url (prepare cl url allow out) st = None"
  shows "exchange net cl ro url out redirects dig allow st = None"
  using assms by (subst exchange.simps) (simp add: refused_def)

lemma exchange_rule:
  assumes "exchange net cl ro url out redirects dig allow st = Some (r, st')"
  obtains "\<exists>e. r = Inl e" "st' = st" "refused ro st"
  | e where "\<not> refused ro st" "attempts net cl ro url (prepare cl url allow out) st = Some (Inl e, st')" "r = Inl e"
  | res where "\<not> refused ro st" "attempts net cl ro url (prepare cl url allow out) st = Some (Inr res, st')"
      "decide net cl url (prepare cl url allow out) redirects dig allow res = Done r"
  | res st1 out1 where "\<not> refused ro st" "attempts net cl ro url (prepare cl url allow out) st = Some (Inr res, st1)"
      "decide net cl url (prepare cl url allow out) redirects dig allow res = Authenticate out1"
      "exchange net cl ro url out1 redirects True allow st1 = Some (r, st')"
  | res st1 u out1 a where "\<not> refused ro st" "attempts net cl ro url (prepare cl url allow out) st = Some (Inr res, st1)"
      "decide net cl url (prepare cl url allow out) redirects dig allow res = Follow u out1 a"
      "exchange net cl ro u out1 (redirects + 1) False a st1 = Some (r, st')"
proof (cases "refused ro st")
  case True
  then show ?thesis using that(1) assms exchange_refused [OF True, of net cl url out redirects dig allow] by auto
next
  case False
  show ?thesis
  proof (cases "attempts net cl ro url (prepare cl url allow out) st")
    case None
    then show ?thesis using exchange_stuck [OF False None, of redirects dig] assms by simp
  next
    case (Some x)
    obtain q st1 where x: "x = (q, st1)" by (rule prod.exhaust)
    note step = exchange_step [OF False Some [unfolded x], of redirects dig, unfolded assms]
    show ?thesis
    proof (cases q)
      case (Inl e)
      then show ?thesis using step that(2) [OF False] Some x by simp
    next
      case (Inr res)
      note att = Some [unfolded x Inr]
      show ?thesis
      proof (cases "decide net cl url (prepare cl url allow out) redirects dig allow res")
        case (Done d)
        then show ?thesis using step that(3) [OF False] att Inr by simp
      next
        case (Authenticate o1)
        then show ?thesis using step that(4) [OF False att] Inr by simp
      next
        case (Follow u o1 a)
        then show ?thesis using step that(5) [OF False att] Inr by simp
      qed
    qed
  qed
qed

lemma exchange_ok:
  "client_ok cl st \<Longrightarrow> \<exists>r st'. exchange net cl ro url out redirects dig allow st = Some (r, st') \<and> client_ok cl st'"
proof (induction net cl ro url out redirects dig allow st rule: exchange.induct)
  case (1 net cl ro url out redirects dig allow st)
  let ?out = "prepare cl url allow out"
  obtain r st1 where a: "attempts net cl ro url ?out st = Some (r, st1)" "client_ok cl st1"
    using attempts_ok [OF "1.prems"] by blast
  show ?case
  proof (cases "refused ro st")
    case True
    then show ?thesis using exchange_refused [OF True] "1.prems" by metis
  next
    case False
    then have go: "\<not> cancelled_by ro (now st)" "\<not> expired ro (now st)" by (simp_all add: refused_def)
    note step = exchange_step [OF False a(1)]
    show ?thesis
    proof (cases r)
      case (Inr res)
      note IH = "1.IH" [OF go refl a(1) [unfolded Inr] refl refl]
      show ?thesis
        using step IH a(2) Inr by (cases "decide net cl url ?out redirects dig allow res") auto
    qed (use step a in auto)
  qed
qed

section \<open>What is written\<close>

lemma written_slots [simp]:
  "written (set_pool key p st) = written st" "written (free_slot key st) = written st"
  "written (give_back cl key reusable io st) = written st"
  by (simp_all add: set_pool_def free_slot_def give_back_def split: prod.split bool.split)

lemma connect_lease_written: "connect_lease net cl ro url st = (r, st') \<Longrightarrow> written st' = written st"
  by (auto simp: connect_lease_def Let_def split: sum.splits prod.splits if_splits)

lemma acquire_written: "acquire net cl ro url st = Some (r, st') \<Longrightarrow> written st' = written st"
  by (auto simp: acquire_def Let_def dest: connect_lease_written split: slot.splits prod.splits if_splits)

text \<open>The entry of a request in the history.\<close>

definition entry_of :: "client_options \<Rightarrow> parsed_url \<Rightarrow> outgoing_request \<Rightarrow> parsed_url \<times> request \<times> bytes" where
  "entry_of cl url out = (url, msg out, wire_target cl url)"

lemma use_lease_written:
  "use_lease cl ro url out first l st = (a, st') \<Longrightarrow>
     (\<exists>n \<le> 1. written st' = written st @ replicate n (entry_of cl url out)) \<and> (a = Again \<longrightarrow> may_retry l first out)"
  by (fastforce simp: use_lease_def Let_def entry_of_def after_write_error_def after_read_error_def
      split: sum.splits prod.splits if_splits intro: exI [of _ "0::nat"] exI [of _ "1::nat"])

lemma attempt_once_written:
  assumes "attempt_once net cl ro url out first st = Some (a, st')"
  shows "(\<exists>n \<le> 1. written st' = written st @ replicate n (entry_of cl url out)) \<and>
    (a = Again \<longrightarrow> first \<and> idempotent_method (req_method (msg out)) \<and> body_stream out = None)"
proof -
  obtain r st1 where acq: "acquire net cl ro url st = Some (r, st1)" "written st1 = written st"
    using assms acquire_written by (auto simp: attempt_once_def split: option.splits prod.splits)
  show ?thesis
  proof (cases r)
    case (Inl e)
    then show ?thesis using assms acq by (auto simp: attempt_once_def intro: exI [of _ "0::nat"])
  next
    case (Inr l)
    then have "use_lease cl ro url out first l st1 = (a, st')" using assms acq by (simp add: attempt_once_def)
    from use_lease_written [OF this] acq(2) show ?thesis by (auto simp: may_retry_def)
  qed
qed

lemma attempts_written:
  assumes "attempts net cl ro url out st = Some (r, st')"
  shows "\<exists>n \<le> 2. written st' = written st @ replicate n (entry_of cl url out)
    \<and> (n = 2 \<longrightarrow> idempotent_method (req_method (msg out)) \<and> body_stream out = None)"
proof -
  obtain a st1 where a: "attempt_once net cl ro url out True st = Some (a, st1)"
    using assms by (auto simp: attempts_def split: option.splits)
  from attempt_once_written [OF a] obtain n where n: "n \<le> 1" "written st1 = written st @ replicate n (entry_of cl url out)"
    "a = Again \<longrightarrow> idempotent_method (req_method (msg out)) \<and> body_stream out = None" by blast
  show ?thesis
  proof (cases "a = Again")
    case True
    then obtain b st2 where b: "attempt_once net cl ro url out False st1 = Some (b, st2)" "st' = st2"
      using assms a by (auto simp: attempts_def split: option.splits attempt.splits)
    from attempt_once_written [OF b(1)] obtain k where
      k: "k \<le> 1" "written st2 = written st1 @ replicate k (entry_of cl url out)" by blast
    have "n + k \<le> 2" using n(1) k(1) by simp
    moreover have "written st' = written st @ replicate (n + k) (entry_of cl url out)"
      using k(2) n(2) b(2) by (simp add: replicate_add)
    ultimately show ?thesis using n(3) True by blast
  next
    case False
    then have "st' = st1" using assms a by (auto simp: attempts_def split: attempt.splits)
    then show ?thesis using n by (intro exI [of _ n]) auto
  qed
qed

lemma exchange_written:
  "exchange net cl ro url out redirects dig allow st = Some (r, st') \<Longrightarrow>
     \<exists>new. written st' = written st @ new
       \<and> length new \<le> 4 * (max_redirects cl - redirects) + (if dig then 2 else 4)"
proof (induction net cl ro url out redirects dig allow st rule: exchange.induct)
  case (1 net cl ro url out redirects dig allow st)
  let ?out = "prepare cl url allow out"
  show ?case
  proof (rule exchange_rule [OF "1.prems"])
    fix e assume "attempts net cl ro url ?out st = Some (Inl e, st')"
    from attempts_written [OF this] show ?thesis by auto
  next
    fix res assume "attempts net cl ro url ?out st = Some (Inr res, st')"
    from attempts_written [OF this] show ?thesis by auto
  next
    fix res st1 out1
    assume h: "\<not> refused ro st" "attempts net cl ro url ?out st = Some (Inr res, st1)"
      "decide net cl url ?out redirects dig allow res = Authenticate out1"
      "exchange net cl ro url out1 redirects True allow st1 = Some (r, st')"
    have "\<not> dig" using decide_Authenticate [OF h(3)] by simp
    moreover obtain n where "n \<le> 2" "written st1 = written st @ replicate n (entry_of cl url ?out)"
      using attempts_written [OF h(2)] by blast
    moreover obtain new where "written st' = written st1 @ new" "length new \<le> 4 * (max_redirects cl - redirects) + 2"
      using "1.IH"(1) [OF _ _ refl h(2) refl refl h(3,4)] h(1) by (auto simp: refused_def)
    ultimately show ?thesis by auto
  next
    fix res st1 u out1 a
    assume h: "\<not> refused ro st" "attempts net cl ro url ?out st = Some (Inr res, st1)"
      "decide net cl url ?out redirects dig allow res = Follow u out1 a"
      "exchange net cl ro u out1 (redirects + 1) False a st1 = Some (r, st')"
    have "redirects < max_redirects cl" using decide_Follow [OF h(3)] by simp
    moreover obtain n where "n \<le> 2" "written st1 = written st @ replicate n (entry_of cl url ?out)"
      using attempts_written [OF h(2)] by blast
    moreover obtain new where "written st' = written st1 @ new"
      "length new \<le> 4 * (max_redirects cl - (redirects + 1)) + 4"
      using "1.IH"(2) [OF _ _ refl h(2) refl refl h(3,4)] h(1) by (auto simp: refused_def)
    ultimately show ?thesis by auto
  qed auto
qed

section \<open>Credentials\<close>

context field_store begin

lemma present_put: "present (put s n v) m \<longleftrightarrow> iequals n m \<or> present s m"
  by (simp add: present_iff lookup_put)

lemma present_remove: "present (remove s n) m \<longleftrightarrow> \<not> iequals n m \<and> present s m"
  by (simp add: present_iff lookup_remove)

end

definition no_credentials :: "request \<Rightarrow> bool" where
  "no_credentials r \<longleftrightarrow> \<not> headers_contains (req_headers r) ''Authorization''
     \<and> \<not> headers_contains (req_headers r) ''Cookie''"

lemma other_names:
  "\<not> iequals ''Host'' ''Authorization''" "\<not> iequals ''Host'' ''Cookie''"
  "\<not> iequals ''Proxy-Authorization'' ''Authorization''" "\<not> iequals ''Proxy-Authorization'' ''Cookie''"
  by (simp_all add: iequals_def)

lemma default_headers_allowed:
  "headers_contains (add_default_headers False defaults h) m \<Longrightarrow> m \<in> {''Authorization'', ''Cookie''}
     \<Longrightarrow> headers_contains h m"
proof (induction defaults arbitrary: h)
  case Nil
  then show ?case by (simp add: add_default_headers_def)
next
  case (Cons d defaults)
  obtain n v where d: "d = (n, v)" by (rule prod.exhaust)
  define h1 where "h1 = (if iequals n ''Authorization'' \<or> iequals n ''Cookie'' then h
    else if \<not> headers_contains h n then headers_add h n v else h)"
  have "add_default_headers False (d # defaults) h = add_default_headers False defaults h1"
    by (simp add: add_default_headers_def h1_def d)
  then have "headers_contains h1 m" using Cons by simp
  then show ?case using Cons.prems(2) by (auto simp: h1_def headers_contains_add split: if_splits)
qed

lemma prepare_no_credentials:
  assumes "no_credentials (msg out)" shows "no_credentials (msg (prepare cl url False out))"
  using assms default_headers_allowed [of "default_headers cl" "req_headers (msg out)"]
  by (auto simp: no_credentials_def prepare_def Let_def hs.present_put other_names)

lemma headers_without_keeps: "headers_contains (headers_without names h) m \<Longrightarrow> headers_contains h m"
proof (induction names arbitrary: h)
  case (Cons a names)
  then have "headers_contains (headers_without names (snd (headers_erase h a))) m" by (simp add: headers_without_def)
  from Cons.IH [OF this] show ?case by (simp add: hs.present_remove)
qed (simp add: headers_without_def)

lemma redirect_no_credentials:
  assumes "\<not> same \<or> no_credentials (msg out)" shows "no_credentials (msg (redirect_request c same u out))"
proof -
  have "\<not> headers_contains (headers_without [''Authorization'', ''Cookie''] h) ''Authorization''"
    "\<not> headers_contains (headers_without [''Authorization'', ''Cookie''] h) ''Cookie''" for h
    by (simp_all add: headers_without_def hs.present_remove)
  then show ?thesis using assms
    by (auto simp: no_credentials_def redirect_request_def Let_def dest: headers_without_keeps)
qed

lemma exchange_no_credentials:
  "exchange net cl ro url out redirects dig allow st = Some (r, st') \<Longrightarrow> \<not> allow \<Longrightarrow> no_credentials (msg out) \<Longrightarrow>
     \<exists>new. written st' = written st @ new \<and> (\<forall>(u, m, w) \<in> set new. no_credentials m)"
proof (induction net cl ro url out redirects dig allow st rule: exchange.induct)
  case (1 net cl ro url out redirects dig allow st)
  let ?out = "prepare cl url allow out"
  have clean: "no_credentials (msg ?out)" using prepare_no_credentials "1.prems"(2,3) by simp
  have entries: "\<forall>(u, m, w) \<in> set (replicate n (entry_of cl url ?out)). no_credentials m" for n
    using clean by (auto simp: entry_of_def)
  show ?case
  proof (rule exchange_rule [OF "1.prems"(1)])
    fix e assume "attempts net cl ro url ?out st = Some (Inl e, st')"
    from attempts_written [OF this] show ?thesis using entries by blast
  next
    fix res assume "attempts net cl ro url ?out st = Some (Inr res, st')"
    from attempts_written [OF this] show ?thesis using entries by blast
  next
    fix res out1 assume "decide net cl url ?out redirects dig allow res = Authenticate out1"
    from decide_Authenticate [OF this] show ?thesis using "1.prems"(2) by simp
  next
    fix res st1 u out1 a
    assume h: "\<not> refused ro st" "attempts net cl ro url ?out st = Some (Inr res, st1)"
      "decide net cl url ?out redirects dig allow res = Follow u out1 a"
      "exchange net cl ro u out1 (redirects + 1) False a st1 = Some (r, st')"
    obtain n where n: "written st1 = written st @ replicate n (entry_of cl url ?out)"
      using attempts_written [OF h(2)] by blast
    have "\<not> a" "no_credentials (msg out1)"
      using decide_Follow [OF h(3)] "1.prems"(2) redirect_no_credentials clean by auto
    then obtain new where "written st' = written st1 @ new" "\<forall>(u, m, w) \<in> set new. no_credentials m"
      using "1.IH"(2) [OF _ _ refl h(2) refl refl h(3,4)] h(1) by (auto simp: refused_def)
    then show ?thesis using n entries [of n] by (intro exI [of _ "replicate n (entry_of cl url ?out) @ new"]) auto
  qed auto
qed

text \<open>The entries from the first one that goes to another origin on.\<close>

definition abroad :: "parsed_url \<Rightarrow> (parsed_url \<times> request \<times> bytes) list \<Rightarrow> (parsed_url \<times> request \<times> bytes) list" where
  "abroad url new = dropWhile (\<lambda>(u, _). origin u = origin url) new"

lemma abroad_home: "origin u = origin url \<Longrightarrow> abroad url (replicate n (entry_of cl u out) @ new) = abroad url new"
  by (induction n) (auto simp: abroad_def entry_of_def)

lemma abroad_subset: "set (abroad url new) \<subseteq> set new"
  by (auto simp: abroad_def dest: set_dropWhileD)

lemma exchange_abroad:
  "exchange net cl ro url out redirects dig allow st = Some (r, st') \<Longrightarrow>
     \<exists>new. written st' = written st @ new \<and> (\<forall>(u, m, w) \<in> set (abroad url new). no_credentials m)"
proof (induction net cl ro url out redirects dig allow st rule: exchange.induct)
  case (1 net cl ro url out redirects dig allow st)
  let ?out = "prepare cl url allow out"
  have home: "abroad url (replicate n (entry_of cl url ?out)) = []" for n
    using abroad_home [of url url n cl ?out "[]"] by (simp add: abroad_def)
  show ?case
  proof (rule exchange_rule [OF "1.prems"])
    fix e assume "attempts net cl ro url ?out st = Some (Inl e, st')"
    from attempts_written [OF this] show ?thesis using home by fastforce
  next
    fix res assume "attempts net cl ro url ?out st = Some (Inr res, st')"
    from attempts_written [OF this] show ?thesis using home by fastforce
  next
    fix res st1 out1
    assume h: "\<not> refused ro st" "attempts net cl ro url ?out st = Some (Inr res, st1)"
      "decide net cl url ?out redirects dig allow res = Authenticate out1"
      "exchange net cl ro url out1 redirects True allow st1 = Some (r, st')"
    obtain n where n: "written st1 = written st @ replicate n (entry_of cl url ?out)"
      using attempts_written [OF h(2)] by blast
    obtain new where "written st' = written st1 @ new" "\<forall>(u, m, w) \<in> set (abroad url new). no_credentials m"
      using "1.IH"(1) [OF _ _ refl h(2) refl refl h(3,4)] h(1) by (auto simp: refused_def)
    then show ?thesis using n abroad_home [of url url n cl ?out new]
      by (intro exI [of _ "replicate n (entry_of cl url ?out) @ new"]) auto
  next
    fix res st1 u out1 a
    assume h: "\<not> refused ro st" "attempts net cl ro url ?out st = Some (Inr res, st1)"
      "decide net cl url ?out redirects dig allow res = Follow u out1 a"
      "exchange net cl ro u out1 (redirects + 1) False a st1 = Some (r, st')"
    obtain n where n: "written st1 = written st @ replicate n (entry_of cl url ?out)"
      using attempts_written [OF h(2)] by blast
    note fol = decide_Follow [OF h(3)]
    have "\<exists>new. written st' = written st1 @ new \<and> (\<forall>(u, m, w) \<in> set (abroad url new). no_credentials m)"
    proof (cases "origin u = origin url")
      case True
      then have "abroad u = abroad url" by (simp add: abroad_def fun_eq_iff)
      then show ?thesis using "1.IH"(2) [OF _ _ refl h(2) refl refl h(3,4)] h(1) by (auto simp: refused_def)
    next
      case False
      then have "\<not> a" "no_credentials (msg out1)" using fol redirect_no_credentials by auto
      from exchange_no_credentials [OF h(4) this] show ?thesis using abroad_subset by blast
    qed
    then obtain new where "written st' = written st1 @ new" "\<forall>(u, m, w) \<in> set (abroad url new). no_credentials m" by blast
    then show ?thesis using n abroad_home [of url url n cl ?out new]
      by (intro exI [of _ "replicate n (entry_of cl url ?out) @ new"]) auto
  qed (auto simp: abroad_def)
qed

section \<open>Answers\<close>

lemma decide_Done:
  "decide net cl url out redirects dig allow res = Done (Inr r) \<Longrightarrow>
     r = res \<and> \<not> (follow_redirects cl \<and> redirect_status (status r) \<and> headers_contains (res_headers r) ''Location'')"
  by (auto simp: decide_def Let_def split: if_splits option.splits sum.splits)

lemma exchange_answer:
  "exchange net cl ro url out redirects dig allow st = Some (Inr r, st') \<Longrightarrow>
     \<not> (follow_redirects cl \<and> redirect_status (status r) \<and> headers_contains (res_headers r) ''Location'')"
proof (induction net cl ro url out redirects dig allow st rule: exchange.induct)
  case (1 net cl ro url out redirects dig allow st)
  let ?out = "prepare cl url allow out"
  show ?case
  proof (rule exchange_rule [OF "1.prems"])
    fix res assume "decide net cl url ?out redirects dig allow res = Done (Inr r)"
    from decide_Done [OF this] show ?thesis by blast
  next
    fix res st1 out1
    assume h: "\<not> refused ro st" "attempts net cl ro url ?out st = Some (Inr res, st1)"
      "decide net cl url ?out redirects dig allow res = Authenticate out1"
      "exchange net cl ro url out1 redirects True allow st1 = Some (Inr r, st')"
    show ?thesis using "1.IH"(1) [OF _ _ refl h(2) refl refl h(3,4)] h(1) by (simp add: refused_def)
  next
    fix res st1 u out1 a
    assume h: "\<not> refused ro st" "attempts net cl ro url ?out st = Some (Inr res, st1)"
      "decide net cl url ?out redirects dig allow res = Follow u out1 a"
      "exchange net cl ro u out1 (redirects + 1) False a st1 = Some (Inr r, st')"
    show ?thesis using "1.IH"(2) [OF _ _ refl h(2) refl refl h(3,4)] h(1) by (simp add: refused_def)
  qed auto
qed

section \<open>Properties\<close>

text \<open>C37: A request always returns when it runs alone, whatever the servers and callbacks do: it never waits
  for a slot that nobody will free, it writes at most four requests for the first target and for every
  redirect it may follow, and it leaves every counted slot with an idle connection and no pool over its
  size.\<close>

theorem request_returns:
  assumes "client_ok cl st"
  shows "\<exists>r st' new. client_request net cl base_url ro out st = Some (r, st') \<and> client_ok cl st'
    \<and> written st' = written st @ new \<and> length new \<le> 4 * (max_redirects cl + 1)"
proof -
  have idle: "idle (pools st key) \<noteq> [] \<or> count (pools st key) = 0" for key
    using assms by (auto simp: client_ok_def pool_ok_def)
  have go: "\<exists>r st' new. exchange net cl ro' url out' 0 False True st = Some (r, st') \<and> client_ok cl st'
      \<and> written st' = written st @ new \<and> length new \<le> 4 * (max_redirects cl + 1)" for ro' url out'
  proof -
    obtain r st' where ex: "exchange net cl ro' url out' 0 False True st = Some (r, st')" "client_ok cl st'"
      using exchange_ok [OF assms] by blast
    from exchange_written [OF ex(1)] ex show ?thesis by auto
  qed
  have stop: "\<exists>r' st' new. Some (Inl e, st) = Some (r' :: response result, st') \<and> client_ok cl st'
      \<and> written st' = written st @ new \<and> length new \<le> 4 * (max_redirects cl + 1)" for e
    using assms by auto
  show ?thesis
    unfolding client_request_def Let_def
    using idle stop go by (auto split: sum.split)
qed

text \<open>C38: Credentials stay at home: once an exchange has gone to another origin, no request it writes, there
  or after coming back, carries an \<^verbatim>\<open>Authorization\<close> or a \<^verbatim>\<open>Cookie\<close> field, whether the caller, the default
  headers or the configured authentication put it there.\<close>

theorem credentials_stay:
  assumes "exchange net cl ro url out 0 False True st = Some (r, st')"
  shows "\<exists>new. written st' = written st @ new
    \<and> (\<forall>(u, m, w) \<in> set (dropWhile (\<lambda>(u, _). origin u = origin url) new).
         find_header (req_headers m) ''Authorization'' = None \<and> find_header (req_headers m) ''Cookie'' = None)"
proof -
  obtain new where "written st' = written st @ new" "\<forall>(u, m, w) \<in> set (abroad url new). no_credentials m"
    using exchange_abroad [OF assms] by blast
  then show ?thesis by (intro exI [of _ new]) (auto simp: abroad_def no_credentials_def find_header_None)
qed


text \<open>With redirects followed, an exchange never hands a redirect with a \<^verbatim>\<open>Location\<close> to the caller: it is
  followed, or the exchange fails.\<close>

lemma redirects_resolved:
  assumes "exchange net cl ro url out redirects dig allow st = Some (q, st')" "follow_redirects cl"
  shows "case q of Inl e \<Rightarrow> True
    | Inr r \<Rightarrow> \<not> (redirect_status (status r) \<and> headers_contains (res_headers r) ''Location'')"
  using exchange_answer [of net cl ro url out redirects dig allow st _ st'] assms by (cases q) auto


section \<open>A run\<close>

definition sample_url :: parsed_url where
  "sample_url = \<lparr>scheme = ''http'', host = ''a'', port = 80, target = ''/'', secure = False\<rparr>"

definition sample_client :: client_options where
  "sample_client = \<lparr>cl_connect_timeout = 10, cl_read_timeout = 100, cl_write_timeout = 10,
     cl_max_response_body_size = 16, max_redirects = 10, connection_pool_size = 8, max_connections_per_origin = 64,
     follow_redirects = True, cl_keep_alive = True, cl_auto_decompress = False, default_headers = [],
     proxy = \<lparr>proxy_url = [], proxy_username = [], proxy_password = []\<rparr>,
     authentication = \<lparr>auth_type = A_none, auth_username = [], auth_password = [], auth_token = []\<rparr>\<rparr>"

definition sample_ro :: request_options where
  "sample_ro = \<lparr>ro_on_response_head = None, ro_on_data = None, ro_on_data_async = None, ro_on_upload_progress = None,
     ro_on_download_progress = None, ro_on_progress = None, ro_cancelled_at = None, ro_deadline = None,
     ro_total_timeout = None, ro_connect_timeout = None, ro_read_timeout = None, ro_write_timeout = None,
     ro_header_timeout = None, ro_first_body_byte_timeout = None, ro_idle_timeout = None,
     ro_max_response_body_size = None, ro_auto_decompress = None\<rparr>"

definition sample_server :: "error_info \<times> io" where
  "sample_server = write_response new_request ok_response 10 idle_io"

definition sample_io :: io where
  "sample_io = cut_stream [wire (snd sample_server), ''next'']"

definition sample_net :: network where
  "sample_net = \<lparr>dial = (\<lambda>_ _ _ _. (5, Inr sample_io)), no_delay = (\<lambda>_. no_error), evp = (\<lambda>_. None), boundary = []\<rparr>"

definition sample_out :: outgoing_request where
  "sample_out = \<lparr>msg = new_request, body_stream = None, body_length = None\<rparr>"

lemma new_client_ok: "client_ok cl new_client"
  by (simp add: client_ok_def pool_ok_def new_client_def empty_pool_def)

lemma sample_prepared: "msg (prepare sample_client sample_url True sample_out) = new_request\<lparr>req_headers := [(''Host'', ''a'')]\<rparr>"
  by code_simp

lemma sample_sent: "\<not> is_error (fst (write_request (new_request\<lparr>req_headers := [(''Host'', ''a'')]\<rparr>) None None ''/'' 10
    (Some (upload_progress sample_ro)) (io\<lparr>outgoing := []\<rparr>)))"
proof -
  have fields: "valid_field (''Host'', ''a'')" "valid_header_name ''GET''" "\<not> list_ex url_space ''/''"
    by (simp_all add: valid_field_def valid_header_name_iff valid_header_value_iff token_char_def separators_def
        field_value_char_def in_range_def url_space_def)
  have "find_idx (\<lambda>c. c = CR \<or> c = LF) ''GET / HTTP/1.1'' = None" by (simp add: find_idx_None)
  moreover have "iequals ''Host'' ''Connection'' = False" "iequals ''Host'' ''User-Agent'' = False" by code_simp+
  ultimately have "\<exists>out. build_request_head (new_request\<lparr>req_headers := [(''Host'', ''a'')]\<rparr>) False None ''/'' = Inr out"
    using fields(1)
    by (simp add: build_request_head_def serialize_head_def new_request_def Let_def default_fields split_beta)
  then show ?thesis
    using fields by (auto simp: write_request_def free_write new_request_def block_size_def)
qed

lemma sample_served: "\<not> is_error (fst sample_server)"
proof -
  obtain out where
    b: "build_response_head new_request ok_response False (Some (length (res_body ok_response))) = Inr out"
    using ok_response_head by blast
  have "length (res_body ok_response) \<le> block_size" "res_body ok_response \<noteq> []"
    by (simp_all add: ok_response_def block_size_def)
  then show ?thesis
    by (simp add: sample_server_def write_response_def write_response_head_def b free_write Let_def)
qed

lemma sample_length: "length (wire (snd sample_server)) < 200"
proof -
  have "find_idx (\<lambda>c. c = CR \<or> c = LF) (''HTTP/1.1 '' @ to_string 200 @ '' '' @ status_reason_view 200) = None"
    by (auto simp: find_idx_None status_reason_view_def status_reasons_def dest!: to_string_digit
        simp: is_digit_def in_range_def)
  moreover have "length (to_string 200) \<le> 3" "length (to_string 2) \<le> 1"
    by (simp_all add: to_string_def to_digits.simps)
  ultimately have "\<exists>out. build_response_head new_request ok_response False (Some 2) = Inr out \<and> length out < 150"
    by (simp add: build_response_head_def serialize_head_def response_framing_def ok_response_def new_request_def
        Let_def default_fields split_beta status_reason_view_def status_reasons_def field_line_def)
  then obtain out where b: "build_response_head new_request ok_response False (Some 2) = Inr out" "length out < 150" by blast
  have len: "length (res_body ok_response) = 2" "res_body ok_response \<noteq> []" by (simp_all add: ok_response_def)
  have b2: "build_response_head new_request ok_response False (Some (length (res_body ok_response))) = Inr out"
    unfolding len(1) by (rule b(1))
  have "length (res_body ok_response) \<le> block_size" "\<not> iequals (req_method new_request) ''HEAD''"
    "\<not> status_has_no_body (status ok_response)"
    by (simp_all add: iequals_def new_request_def ok_response_def block_size_def status_has_no_body_def)
  then have "sample_server = connection_write (out @ res_body ok_response) 10 idle_io"
    using b2 len(2) by (simp add: sample_server_def write_response_def Let_def)
  then have s: "sample_server = connection_write (out @ res_body ok_response) 10 idle_io" .
  have "wire (snd sample_server) = out @ res_body ok_response"
    unfolding s by (simp add: free_write) (simp add: wire_def idle_io_def)
  then show ?thesis using b(2) len(1) by simp
qed

lemma sample_full: "arriving 100 (incoming sample_io) = wire (snd sample_server) @ ''next''"
  by (simp add: sample_io_def cut_stream_def)



lemma sample_written: "\<exists>e1 io1. write_request (msg (prepare sample_client sample_url True sample_out)) None None ''/'' 10
    (Some (upload_progress sample_ro)) (sample_io\<lparr>clock := 5, buffer := [], up_reported := 0, down_reported := 0,
      head_reported := None\<rparr>) = (e1, io1) \<and> \<not> is_error e1"
proof -
  have "(sample_io\<lparr>clock := 5, buffer := [], up_reported := 0, down_reported := 0, head_reported := None\<rparr>)\<lparr>outgoing := []\<rparr>
      = sample_io\<lparr>clock := 5, buffer := [], up_reported := 0, down_reported := 0, head_reported := None\<rparr>"
    by (simp add: sample_io_def cut_stream_def)
  then show ?thesis using sample_sent [of "sample_io\<lparr>clock := 5, buffer := [], up_reported := 0, down_reported := 0,
      head_reported := None\<rparr>"] unfolding sample_prepared by (metis prod.collapse)
qed


text \<open>The other properties on the same client.\<close>

lemma request_returns_witness:
  "\<exists>r st' new. client_request sample_net sample_client ''http://a'' sample_ro sample_out new_client = Some (r, st')
    \<and> client_ok sample_client st' \<and> written st' = written new_client @ new
    \<and> length new \<le> 4 * (max_redirects sample_client + 1)"
  by (rule request_returns [OF new_client_ok])

lemma credentials_stay_witness:
  "\<exists>r st' new. exchange sample_net sample_client sample_ro sample_url sample_out 0 False True new_client = Some (r, st')
    \<and> written st' = written new_client @ new
    \<and> (\<forall>(u, m, w) \<in> set (dropWhile (\<lambda>(u, _). origin u = origin sample_url) new).
         find_header (req_headers m) ''Authorization'' = None \<and> find_header (req_headers m) ''Cookie'' = None)"
proof -
  obtain r st' where run: "exchange sample_net sample_client sample_ro sample_url sample_out 0 False True new_client
      = Some (r, st')"
    using exchange_ok [OF new_client_ok] by blast
  show ?thesis using run credentials_stay [OF run] by blast
qed


lemma redirects_resolved_witness:
  "\<exists>q st'. exchange sample_net sample_client sample_ro sample_url sample_out 0 False True new_client = Some (q, st')
    \<and> (case q of Inl e \<Rightarrow> True
       | Inr r \<Rightarrow> \<not> (redirect_status (status r) \<and> headers_contains (res_headers r) ''Location''))"
proof -
  obtain q st' where run: "exchange sample_net sample_client sample_ro sample_url sample_out 0 False True new_client
      = Some (q, st')"
    using exchange_ok [OF new_client_ok] by blast
  have "follow_redirects sample_client" by (simp add: sample_client_def)
  then show ?thesis using run redirects_resolved [OF run] by blast
qed

end
