(* ===== verification/Json_Stream.thy ===== *)
theory Json_Stream
  imports Http_Write Base64
begin

text \<open>
  The JSON writer over a body stream, \<^verbatim>\<open>JsonStreamWriter\<close> of \<^verbatim>\<open>src/streaming_body.cpp\<close>: plain strings, written
  in escaped blocks, and strings that are written as Base64 piece by piece.  Each operation is a coroutine
  that goes on with what the writer tells it; what comes behind it is its last argument.
\<close>

section \<open>Escapes\<close>

definition hex_lower :: "nat \<Rightarrow> char" where
  "hex_lower d = ''0123456789abcdef'' ! d"

definition escape_byte :: "char \<Rightarrow> bytes" where
  "escape_byte ch =
     (if ch = DQUOTE then [BSLASH, DQUOTE]
      else if ch = BSLASH then [BSLASH, BSLASH]
      else if ch = CHR 0x08 then [BSLASH, CHR ''b'']
      else if ch = CHR 0x0c then [BSLASH, CHR ''f'']
      else if ch = LF then [BSLASH, CHR ''n'']
      else if ch = CR then [BSLASH, CHR ''r'']
      else if ch = CHR 0x09 then [BSLASH, CHR ''t'']
      else if code ch < 0x20
      then [BSLASH, CHR ''u'', CHR ''0'', CHR ''0'', hex_lower (drop_bit 4 (code ch)), hex_lower (code ch AND 0x0f)]
      else [ch])"

definition json_escape :: "bytes \<Rightarrow> bytes" where
  "json_escape v = concat (map escape_byte v)"

section \<open>The writer\<close>

record json_writer =
  jw_base64 :: base64_encoder
  jw_open :: bool

definition new_json :: json_writer where
  "new_json = \<lparr>jw_base64 = \<lparr>pending = [], finished = False\<rparr>, jw_open = False\<rparr>"

type_synonym json_rest = "bool \<Rightarrow> json_writer \<Rightarrow> producer"

definition json_raw :: "bytes \<Rightarrow> json_writer \<Rightarrow> json_rest \<Rightarrow> producer" where
  "json_raw json w k = (if jw_open w then k False w else Write json (\<lambda>ok. k ok w))"

text \<open>The loop of \<^verbatim>\<open>string\<close> over blocks of 16 KiB.\<close>

function json_blocks :: "bytes \<Rightarrow> producer \<Rightarrow> producer \<Rightarrow> producer" where
  "json_blocks v refused after =
     (if v = [] then after
      else let escaped = json_escape (take (16 * 1024) v);
               rest = json_blocks (drop (16 * 1024) v) refused after
           in if escaped = [] then rest else Write escaped (\<lambda>ok. if ok then rest else refused))"
  by pat_completeness auto
termination
  by (relation "measure (\<lambda>(v, _). length v)") auto

declare json_blocks.simps [simp del]

definition json_string :: "bytes \<Rightarrow> json_writer \<Rightarrow> json_rest \<Rightarrow> producer" where
  "json_string v w k =
     (if jw_open w then k False w
      else Write [DQUOTE] (\<lambda>ok.
        if \<not> ok then k False w else json_blocks v (k False w) (Write [DQUOTE] (\<lambda>ok. k ok w))))"

definition begin_base64_string :: "bytes \<Rightarrow> json_writer \<Rightarrow> json_rest \<Rightarrow> producer" where
  "begin_base64_string front w k =
     (if jw_open w then k False w
      else let w1 = w\<lparr>jw_base64 := encoder_reset (jw_base64 w)\<rparr>
           in Write (DQUOTE # json_escape front) (\<lambda>ok. if ok then k True (w1\<lparr>jw_open := True\<rparr>) else k False w1))"

definition json_base64 :: "bytes \<Rightarrow> json_writer \<Rightarrow> json_rest \<Rightarrow> producer" where
  "json_base64 data w k =
     (if \<not> jw_open w then k False w
      else (case encoder_update (jw_base64 w) data of
              None \<Rightarrow> Throw_std ''Base64 encoder is already finished''
            | Some (out, e) \<Rightarrow>
                let w1 = w\<lparr>jw_base64 := e\<rparr> in if out = [] then k True w1 else Write out (\<lambda>ok. k ok w1)))"

definition end_base64_string :: "json_writer \<Rightarrow> json_rest \<Rightarrow> producer" where
  "end_base64_string w k =
     (if \<not> jw_open w then k False w
      else (case encoder_finish (jw_base64 w) of
              (tail, e) \<Rightarrow>
                let w1 = w\<lparr>jw_base64 := e\<rparr>;
                    quote = Write [DQUOTE] (\<lambda>ok. k ok (w1\<lparr>jw_open := False\<rparr>))
                in if tail = [] then quote else Write tail (\<lambda>ok. if ok then quote else k False w1)))"

section \<open>Reading a string\<close>

text \<open>A reader of JSON strings (RFC 8259), from behind the opening quote: the value and what follows it.\<close>

definition escaped_byte :: "char \<Rightarrow> char option" where
  "escaped_byte e = map_of [(DQUOTE, DQUOTE), (BSLASH, BSLASH), (CHR ''/'', CHR ''/''), (CHR ''b'', CHR 0x08),
     (CHR ''f'', CHR 0x0c), (CHR ''n'', LF), (CHR ''r'', CR), (CHR ''t'', CHR 0x09)] e"

definition hex_read :: "char \<Rightarrow> nat option" where
  "hex_read d = find_char d ''0123456789abcdef''"

text \<open>Code points that take one byte in UTF-8 are enough here.\<close>

fun json_read :: "bytes \<Rightarrow> (bytes \<times> bytes) option" where
  "json_read [] = None"
| "json_read (c # s) =
     (if c = DQUOTE then Some ([], s)
      else if code c < 0x20 then None
      else if c \<noteq> BSLASH then map_option (apfst ((#) c)) (json_read s)
      else (case s of
              [] \<Rightarrow> None
            | e # r \<Rightarrow>
                if e = CHR ''u''
                then (case r of
                        a # b # h # l # t \<Rightarrow>
                          (case (hex_read h, hex_read l) of
                             (Some x, Some y) \<Rightarrow>
                               if a = CHR ''0'' \<and> b = CHR ''0'' \<and> x < 8
                               then map_option (apfst ((#) (char_of (x * 16 + y)))) (json_read t) else None
                           | _ \<Rightarrow> None)
                      | _ \<Rightarrow> None)
                else (case escaped_byte e of
                        None \<Rightarrow> None
                      | Some d \<Rightarrow> map_option (apfst ((#) d)) (json_read r))))"

declare json_read.simps [simp del]

lemma hex_read_lower: "d < 16 \<Longrightarrow> hex_read (hex_lower d) = Some d"
  unfolding hex_read_def hex_lower_def by (rule find_char_distinct) simp_all

lemma json_read_byte: "json_read (escape_byte ch @ s) = map_option (apfst ((#) ch)) (json_read s)"
proof (cases "ch \<in> {DQUOTE, BSLASH, CHR 0x08, CHR 0x0c, LF, CR, CHR 0x09}")
  case True
  then show ?thesis by (auto simp: escape_byte_def escaped_byte_def json_read.simps(2))
next
  case False
  show ?thesis
  proof (cases "code ch < 0x20")
    case True
    have h: "hex_read (hex_lower (drop_bit 4 (code ch))) = Some (code ch div 16)"
      "hex_read (hex_lower (code ch AND 15)) = Some (code ch mod 16)"
      using True by (simp_all add: hex_read_lower drop_bit_eq_div and_low)
    have "code ch div 16 < 8" using True by (simp add: div_less_iff_less_mult)
    with h show ?thesis using True False by (simp add: escape_byte_def json_read.simps(2))
  next
    case big: False
    then show ?thesis using False by (simp add: escape_byte_def json_read.simps(2))
  qed
qed

lemma json_read_escape: "json_read (json_escape v @ DQUOTE # rest) = Some (v, rest)"
proof (induction v)
  case Nil
  then show ?case by (simp add: json_escape_def json_read.simps(2))
next
  case (Cons c v)
  have "json_escape (c # v) = escape_byte c @ json_escape v" by (simp add: json_escape_def)
  then show ?case using Cons by (simp add: json_read_byte)
qed

section \<open>Base64 text needs no escape\<close>

lemma block_chars: "set (base64_encode_blocks s) \<subseteq> set alphabet"
proof (induction s rule: base64_encode_blocks.induct)
  case (1 f s t r)
  then show ?case using sextet_bounds(1) [of f] sextet_bounds(2) [of f s] sextet_bounds(3) [of s t]
    by (simp add: base64_block nth_mem)
qed simp_all

lemma base64_text_chars: "set (base64_encode v) \<subseteq> insert (CHR ''='') (set alphabet)"
proof -
  obtain s r where v: "v = s @ r" "length s mod 3 = 0" "length r < 3" by (rule whole_groups)
  have "code f mod 4 * 16 < 64" "code f mod 16 * 4 < 64" for f by (simp_all add: less_mult_imp_div_less)
  then have "set (base64_encode r) \<subseteq> insert (CHR ''='') (set alphabet)"
    using v(3) by (elim short_list) (simp_all add: base64_tail nth_mem sextet_bounds)
  then show ?thesis using v block_chars [of s] by (auto simp: base64_encode_split)
qed

lemma alphabet_plain: "c \<in> insert (CHR ''='') (set alphabet) \<Longrightarrow> escape_byte c = [c]"
proof -
  have "list_all (\<lambda>c. escape_byte c = [c]) (CHR ''='' # alphabet)" by code_simp
  then show "c \<in> insert (CHR ''='') (set alphabet) \<Longrightarrow> escape_byte c = [c]" by (auto simp: list_all_iff)
qed

lemma escape_base64: "json_escape (base64_encode s) = base64_encode s"
proof -
  have "concat (map escape_byte v) = v" if "\<forall>c \<in> set v. escape_byte c = [c]" for v
    using that by (induction v) simp_all
  then show ?thesis using base64_text_chars [of s] alphabet_plain unfolding json_escape_def by blast
qed

section \<open>Values\<close>

lemma produced_blocks: "produced (json_blocks v refused after) = json_escape v @ produced after"
proof (induction v refused after rule: json_blocks.induct)
  case (1 v refused after)
  show ?case
  proof (cases "v = []")
    case False
    let ?n = "16 * 1024 :: nat"
    have "json_escape v = json_escape (take ?n v) @ json_escape (drop ?n v)"
      by (simp only: json_escape_def map_append [symmetric] concat_append [symmetric] append_take_drop_id)
    then show ?thesis using 1 [OF False refl]
      by (subst json_blocks.simps) (use False in \<open>simp add: Let_def\<close>)
  qed (simp add: json_blocks.simps json_escape_def)
qed

text \<open>The caller's part of a Base64 string: its pieces in order, as long as they are taken.\<close>

fun base64_pieces :: "bytes list \<Rightarrow> json_writer \<Rightarrow> json_rest \<Rightarrow> producer" where
  "base64_pieces [] w k = k True w"
| "base64_pieces (c # cs) w k = json_base64 c w (\<lambda>ok w1. if ok then base64_pieces cs w1 k else k False w1)"

definition base64_value :: "bytes \<Rightarrow> bytes list \<Rightarrow> json_writer \<Rightarrow> json_rest \<Rightarrow> producer" where
  "base64_value front cs w k =
     begin_base64_string front w (\<lambda>ok w1. if \<not> ok then k False w1
       else base64_pieces cs w1 (\<lambda>ok w2. if ok then end_base64_string w2 k else k False w2))"

lemma produced_pieces:
  "jw_open w \<Longrightarrow> encoder_feed (jw_base64 w) cs = Some (out, e) \<Longrightarrow>
     produced (base64_pieces cs w k) = out @ produced (k True (w\<lparr>jw_base64 := e\<rparr>))"
proof (induction cs arbitrary: w out)
  case Nil
  have "w\<lparr>jw_base64 := jw_base64 w\<rparr> = w" by (cases w) simp
  with Nil show ?case by auto
next
  case (Cons c cs)
  then show ?case by (auto simp: json_base64_def Let_def split: option.splits)
qed

lemma produced_end:
  assumes "jw_open w" "encoder_ok (jw_base64 w)"
  shows "produced (end_base64_string w k)
    = base64_encode (pending (jw_base64 w)) @ DQUOTE # produced (k True (w\<lparr>jw_base64 := snd (encoder_finish (jw_base64 w)), jw_open := False\<rparr>))"
  using assms encoder_finish_tail [OF assms(2)] by (auto simp: end_base64_string_def Let_def split: prod.splits)

text \<open>C29: A string of the JSON writer is read back as the value it was given, whatever its bytes and its length, and a
  string written as Base64 in pieces as the text in front of it and the encoding of the pieces joined; the reader
  stops where the writer went on.\<close>

theorem json_strings_read:
  assumes "\<not> jw_open w"
  shows "(\<exists>s. produced (json_string v w k) = DQUOTE # s \<and> json_read s = Some (v, produced (k True w)))
    \<and> (\<exists>s w'. produced (base64_value front cs w k) = DQUOTE # s \<and> \<not> jw_open w'
         \<and> json_read s = Some (front @ base64_encode (concat cs), produced (k True w')))"
proof
  show "\<exists>s. produced (json_string v w k) = DQUOTE # s \<and> json_read s = Some (v, produced (k True w))"
    using assms by (simp add: json_string_def produced_blocks json_read_escape)
  let ?e = "encoder_reset (jw_base64 w)"
  let ?w = "w\<lparr>jw_base64 := ?e, jw_open := True\<rparr>"
  have "encoder_ok ?e" by (simp add: encoder_ok_def encoder_reset_def)
  from encoder_feed_spec [OF this, of cs] obtain out e full where f: "encoder_feed ?e cs = Some (out, e)" "encoder_ok e"
    "concat cs = full @ pending e" "length full mod 3 = 0" "out = base64_encode_blocks full"
    by (auto simp: encoder_reset_def)
  let ?w' = "?w\<lparr>jw_base64 := snd (encoder_finish e), jw_open := False\<rparr>"
  have joined: "out @ base64_encode (pending e) = base64_encode (concat cs)"
    using f(2-5) by (simp add: base64_encode_split encoder_ok_def)
  have whole: "produced (base64_value front cs w k)
      = DQUOTE # json_escape front @ (out @ base64_encode (pending e)) @ DQUOTE # produced (k True ?w')"
    using assms produced_pieces [of ?w cs out e] f(1,2) produced_end [of "?w\<lparr>jw_base64 := e\<rparr>" k]
    by (simp add: base64_value_def begin_base64_string_def Let_def)
  have escaped: "json_escape (front @ base64_encode (concat cs)) = json_escape front @ out @ base64_encode (pending e)"
    using joined escape_base64 [of "concat cs"] by (simp add: json_escape_def)
  have "produced (base64_value front cs w k)
      = DQUOTE # json_escape (front @ base64_encode (concat cs)) @ DQUOTE # produced (k True ?w')"
    unfolding escaped whole by simp
  then show "\<exists>s w'. produced (base64_value front cs w k) = DQUOTE # s \<and> \<not> jw_open w'
         \<and> json_read s = Some (front @ base64_encode (concat cs), produced (k True w'))"
    by (intro exI [of _ "json_escape (front @ base64_encode (concat cs)) @ DQUOTE # produced (k True ?w')"] exI [of _ ?w'])
      (simp add: json_read_escape)
qed

theorem json_strings_read_witness:
  "(\<exists>s. produced (json_string ''a'' new_json (\<lambda>_ _. Produced)) = DQUOTE # s \<and> json_read s = Some (''a'', []))
    \<and> (\<exists>s. produced (base64_value ''x:'' [''ab'', ''c''] new_json (\<lambda>_ _. Produced)) = DQUOTE # s
         \<and> json_read s = Some (''x:'' @ base64_encode ''abc'', []))"
  using json_strings_read [of new_json "''a''" "\<lambda>_ _. Produced" "''x:''" "[''ab'', ''c'']"]
  by (auto simp: new_json_def)

end
