(* ===== verification/Multipart.thy ===== *)
theory Multipart
  imports Http_Message
begin

text \<open>
  Multipart forms (\<^verbatim>\<open>src/streaming_body.cpp\<close>, \<^verbatim>\<open>src/common.cpp\<close>): the parameters of a field, the head of a
  part, the buffered \<^verbatim>\<open>parse_multipart\<close> and \<^verbatim>\<open>make_multipart\<close>, the incremental \<^verbatim>\<open>MultipartParser\<close> and the
  \<^verbatim>\<open>MultipartWriter\<close>, whose file parts are producers.  The two source files hold the same helpers under
  two names; one definition stands for both.
\<close>

section \<open>Parameters\<close>

text \<open>
  The loop of \<^verbatim>\<open>split_parameters\<close>: the parameter read so far and the two flags.  A value that ends inside
  quotes or behind a backslash loses its last parameter.
\<close>

fun parameter_pieces :: "bytes \<Rightarrow> bool \<Rightarrow> bool \<Rightarrow> bytes \<Rightarrow> bytes list" where
  "parameter_pieces cur quoted escaped [] = (if escaped \<or> quoted then [] else [trim cur])"
| "parameter_pieces cur quoted escaped (c # s) =
     (if escaped then parameter_pieces (cur @ [c]) quoted False s
      else if quoted \<and> c = BSLASH then parameter_pieces (cur @ [c]) quoted True s
      else
        let quoted' = (if c = DQUOTE then \<not> quoted else quoted)
        in if c = CHR '';'' \<and> \<not> quoted' then trim cur # parameter_pieces [] quoted' False s
           else parameter_pieces (cur @ [c]) quoted' False s)"

definition split_parameters :: "bytes \<Rightarrow> bytes list" where
  "split_parameters v = parameter_pieces [] False False v"

text \<open>The text behind the opening quote, up to the closing one.\<close>

fun unescape_parameter :: "bytes \<Rightarrow> bytes" where
  "unescape_parameter (c # d # s) =
     (if c = BSLASH \<and> s \<noteq> [] then d # unescape_parameter s else c # unescape_parameter (d # s))"
| "unescape_parameter _ = []"

definition decode_parameter :: "bytes \<Rightarrow> bytes result" where
  "decode_parameter v =
     (let t = trim v
      in if t = [] \<or> hd t \<noteq> DQUOTE then Inr t
         else if length t < 2 \<or> last t \<noteq> DQUOTE then fail E_multipart ''Unterminated quoted parameter''
         else Inr (unescape_parameter (tl t)))"

definition boundary_punctuation :: bytes where
  "boundary_punctuation = CHR 0x27 # ''()+_,-./:=? ''"

definition valid_boundary :: "bytes \<Rightarrow> bool" where
  "valid_boundary b \<longleftrightarrow> b \<noteq> [] \<and> length b \<le> 70 \<and> last b \<noteq> SP
     \<and> list_all (\<lambda>c. is_alnum c \<or> find_char c boundary_punctuation \<noteq> None) b"

fun boundary_parameter :: "bytes list \<Rightarrow> bytes result" where
  "boundary_parameter [] = fail E_multipart ''Missing multipart boundary''"
| "boundary_parameter (p # ps) =
     (case find_char CHR ''='' p of
        None \<Rightarrow> boundary_parameter ps
      | Some i \<Rightarrow>
          if \<not> iequals (trim (substr p 0 (Some i))) ''boundary'' then boundary_parameter ps
          else decode_parameter (substr p (i + 1) None))"

definition given_boundary :: "bytes \<Rightarrow> bytes result" where
  "given_boundary v = (case split_parameters v of
     [] \<Rightarrow> fail E_multipart ''Content-Type is not multipart/form-data''
   | p # ps \<Rightarrow> if \<not> iequals p ''multipart/form-data''
       then fail E_multipart ''Content-Type is not multipart/form-data'' else boundary_parameter ps)"

definition multipart_boundary :: "bytes \<Rightarrow> bytes result" where
  "multipart_boundary v = (case given_boundary v of
     Inl e \<Rightarrow> Inl e
   | Inr b \<Rightarrow> if valid_boundary b then Inr b else fail E_multipart ''Invalid multipart boundary'')"

definition quote_parameter :: "bytes \<Rightarrow> bytes" where
  "quote_parameter s = concat (map (\<lambda>c. if c = CR \<or> c = LF then []
     else if c = BSLASH \<or> c = DQUOTE then [BSLASH, c] else [c]) s)"

section \<open>Parts\<close>

record part =
  part_name :: bytes
  filename :: bytes
  part_type :: bytes
  part_fields :: headers
  content :: bytes

definition empty_part :: part where
  "empty_part = \<lparr>part_name = [], filename = [], part_type = [], part_fields = [], content = []\<rparr>"

fun disposition_parameters :: "bytes list \<Rightarrow> part \<Rightarrow> part result" where
  "disposition_parameters [] p = Inr p"
| "disposition_parameters (x # xs) p =
     (case find_char CHR ''='' x of
        None \<Rightarrow> disposition_parameters xs p
      | Some i \<Rightarrow>
          (case decode_parameter (substr x (i + 1) None) of
             Inl e \<Rightarrow> Inl e
           | Inr v \<Rightarrow>
               let key = trim (substr x 0 (Some i));
                   p1 = (if iequals key ''name'' then p\<lparr>part_name := v\<rparr> else p)
               in disposition_parameters xs (if iequals key ''filename'' then p1\<lparr>filename := v\<rparr> else p1)))"

text \<open>One field of a part: its line, without the line end.\<close>

definition part_line :: "bytes \<Rightarrow> part \<Rightarrow> part result" where
  "part_line line p =
     (if find_char LF line \<noteq> None then fail E_multipart ''Bare LF in multipart header''
      else (case find_char CHR '':'' line of
        None \<Rightarrow> fail E_multipart ''Malformed multipart header''
      | Some i \<Rightarrow>
          let name = trim (substr line 0 (Some i)); v = trim (substr line (i + 1) None)
          in if \<not> valid_header_name name \<or> \<not> valid_header_value v then fail E_multipart ''Invalid multipart header''
             else
               let p1 = p\<lparr>part_fields := headers_add (part_fields p) name v\<rparr>;
                   p2 = (if iequals name ''Content-Type'' then p1\<lparr>part_type := v\<rparr> else p1)
               in if iequals name ''Content-Disposition''
                  then (case split_parameters v of
                          [] \<Rightarrow> fail E_multipart ''Unsupported multipart content disposition''
                        | x # xs \<Rightarrow> if \<not> iequals x ''form-data''
                            then fail E_multipart ''Unsupported multipart content disposition''
                            else disposition_parameters xs p2)
                  else Inr p2))"

function part_lines :: "bytes \<Rightarrow> part \<Rightarrow> part result" where
  "part_lines s p =
     (if s = [] then Inr p
      else (case part_line (substr s 0 (find_sub CRLF s)) p of
              Inl e \<Rightarrow> Inl e
            | Inr p1 \<Rightarrow> (case find_sub CRLF s of None \<Rightarrow> Inr p1 | Some i \<Rightarrow> part_lines (drop (i + 2) s) p1)))"
  by pat_completeness auto
termination
  by (relation "measure (\<lambda>(s, p). length s)") auto

declare part_lines.simps [simp del]

definition parse_part_head :: "bytes \<Rightarrow> part result" where
  "parse_part_head s = (case part_lines s empty_part of
     Inl e \<Rightarrow> Inl e
   | Inr p \<Rightarrow>
       if length (headers_get_all (part_fields p) ''Content-Disposition'') \<noteq> 1
       then fail E_multipart ''Multipart part requires one Content-Disposition''
       else if length (headers_get_all (part_fields p) ''Content-Type'') > 1
       then fail E_multipart ''Multipart part has ambiguous Content-Type headers''
       else Inr p)"

text \<open>False where the source throws \<^verbatim>\<open>std::invalid_argument\<close>.\<close>

definition valid_metadata :: "part \<Rightarrow> bool" where
  "valid_metadata p \<longleftrightarrow> part_name p \<noteq> [] \<and> find_idx (\<lambda>c. c = CR \<or> c = LF) (part_name p) = None
     \<and> find_idx (\<lambda>c. c = CR \<or> c = LF) (filename p) = None
     \<and> (part_type p = [] \<or> valid_header_value (part_type p))
     \<and> list_all (\<lambda>item. valid_header_name (fst item) \<and> valid_header_value (snd item)) (part_fields p)"

definition disposition :: "part \<Rightarrow> bytes" where
  "disposition p = ''form-data; name='' @ [DQUOTE] @ quote_parameter (part_name p) @ [DQUOTE]
     @ (if filename p \<noteq> [] then ''; filename='' @ [DQUOTE] @ quote_parameter (filename p) @ [DQUOTE] else [])"

definition custom_fields :: "headers \<Rightarrow> headers" where
  "custom_fields h = filter (\<lambda>item. \<not> iequals (fst item) ''Content-Disposition'' \<and> \<not> iequals (fst item) ''Content-Type''
     \<and> valid_header_name (fst item) \<and> valid_header_value (snd item)) h"

definition serialize_part_head :: "part \<Rightarrow> bytes" where
  "serialize_part_head p =
     ''Content-Disposition: '' @ disposition p @ CRLF
     @ (if part_type p \<noteq> [] then ''Content-Type: '' @ part_type p @ CRLF else [])
     @ concat (map (\<lambda>(name, v). name @ '': '' @ v @ CRLF) (custom_fields (part_fields p))) @ CRLF"

section \<open>Whole forms\<close>

text \<open>
  One part of a buffered form.  Its field lines are read like those above, but a bare LF and another
  disposition than \<^verbatim>\<open>form-data\<close> are not refused.
\<close>

definition form_line :: "bytes \<Rightarrow> part \<Rightarrow> part result" where
  "form_line line p =
     (case find_char CHR '':'' line of
        None \<Rightarrow> fail E_multipart ''Malformed multipart header''
      | Some i \<Rightarrow>
          let name = trim (substr line 0 (Some i)); v = trim (substr line (i + 1) None)
          in if \<not> valid_header_name name \<or> \<not> valid_header_value v then fail E_multipart ''Invalid multipart header''
             else
               let p1 = p\<lparr>part_fields := headers_add (part_fields p) name v\<rparr>;
                   p2 = (if iequals name ''Content-Type'' then p1\<lparr>part_type := v\<rparr> else p1)
               in if iequals name ''Content-Disposition'' then disposition_parameters (tl (split_parameters v)) p2
                  else Inr p2)"

text \<open>The lines of a head, given without its last line end.\<close>

function form_lines :: "bytes \<Rightarrow> part \<Rightarrow> part result" where
  "form_lines s p =
     (if s = [] then Inr p
      else (case form_line (substr s 0 (find_sub CRLF s)) p of
              Inl e \<Rightarrow> Inl e
            | Inr p1 \<Rightarrow> (case find_sub CRLF s of None \<Rightarrow> Inr p1 | Some i \<Rightarrow> form_lines (drop (i + 2) s) p1)))"
  by pat_completeness auto
termination
  by (relation "measure (\<lambda>(s, p). length s)") auto

declare form_lines.simps [simp del]

text \<open>
  The loop over the delimiters: \<open>parts\<close> are those read so far, \<open>doc\<close> is the text from the cursor on.
\<close>

function form_parts :: "bytes \<Rightarrow> nat \<Rightarrow> part list \<Rightarrow> bytes \<Rightarrow> part list result" where
  "form_parts marker max_parts parts doc =
     (case find_sub marker doc of
        None \<Rightarrow> fail E_multipart ''Multipart body has no closing delimiter''
      | Some i \<Rightarrow>
          let s = drop (i + length marker) doc
          in if take 2 s = ''--'' then Inr parts
             else if take 2 s \<noteq> CRLF then fail E_multipart ''Malformed multipart delimiter''
             else
               (case find_sub (CRLF @ CRLF) (drop 2 s) of
                  None \<Rightarrow> fail E_multipart ''Incomplete multipart headers''
                | Some e \<Rightarrow>
                    (case form_lines (take e (drop 2 s)) empty_part of
                       Inl err \<Rightarrow> Inl err
                     | Inr p \<Rightarrow>
                         let rest = drop (e + 6) s
                         in (case find_sub (CRLF @ marker) rest of
                               None \<Rightarrow> fail E_multipart ''Incomplete multipart body''
                             | Some n \<Rightarrow>
                                 let parts1 = parts @ [p\<lparr>content := take n rest\<rparr>]
                                 in if length parts1 > max_parts then fail E_multipart ''Too many multipart parts''
                                    else form_parts marker max_parts parts1 (drop (n + 2) rest)))))"
  by pat_completeness auto
termination
  by (relation "measure (\<lambda>(marker, m, parts, doc). length doc)")
    (auto dest!: find_sub_SomeD)

declare form_parts.simps [simp del]

definition parse_multipart :: "bytes \<Rightarrow> bytes \<Rightarrow> nat \<Rightarrow> part list result" where
  "parse_multipart doc content_type max_parts = (case given_boundary content_type of
     Inl e \<Rightarrow> Inl e
   | Inr b \<Rightarrow>
       if b = [] then fail E_multipart ''Missing multipart boundary''
       else if \<not> valid_boundary b then fail E_multipart ''Invalid multipart boundary''
       else form_parts (''--'' @ b) max_parts [] doc)"

definition content_type_for :: "bytes \<Rightarrow> bytes" where
  "content_type_for boundary = ''multipart/form-data; boundary='' @ boundary"

text \<open>A boundary that is not valid is replaced by a random one, given here.\<close>

definition make_multipart :: "bytes \<Rightarrow> part list \<Rightarrow> bytes \<Rightarrow> bytes \<times> bytes" where
  "make_multipart random_boundary parts boundary =
     (let b = (if valid_boundary boundary then boundary else random_boundary)
      in (content_type_for b,
          concat (map (\<lambda>p. ''--'' @ b @ CRLF @ serialize_part_head p @ content p @ CRLF) parts) @ ''--'' @ b @ ''--'' @ CRLF))"

section \<open>The incremental parser\<close>

record multipart_options =
  max_parts :: nat
  max_part_header :: nat
  max_part_size :: nat
  max_total_size :: nat

datatype multipart_state = First_boundary | Part_headers | Part_body | Boundary_suffix | Complete

datatype multipart_event = Part_begin nat part | Part_data nat bytes | Part_end nat part

record multipart_parser =
  mp_options :: multipart_options
  mp_error :: error_info
  mp_state :: multipart_state
  mp_boundary :: bytes
  mp_buffer :: bytes
  search_from :: nat
  current :: part
  part_count :: nat
  current_size :: nat
  total_size :: nat

definition new_parser :: "multipart_options \<Rightarrow> bytes \<Rightarrow> multipart_parser" where
  "new_parser opts content_type =
     (let p = \<lparr>mp_options = opts, mp_error = no_error, mp_state = First_boundary, mp_boundary = [], mp_buffer = [],
        search_from = 0, current = empty_part, part_count = 0, current_size = 0, total_size = 0\<rparr>
      in case multipart_boundary content_type of Inl e \<Rightarrow> p\<lparr>mp_error := e\<rparr> | Inr b \<Rightarrow> p\<lparr>mp_boundary := b\<rparr>)"

definition first_marker :: "multipart_parser \<Rightarrow> bytes" where
  "first_marker p = ''--'' @ mp_boundary p"

definition delimiter :: "multipart_parser \<Rightarrow> bytes" where
  "delimiter p = CRLF @ first_marker p"

definition fail_parser :: "bytes \<Rightarrow> multipart_parser \<Rightarrow> multipart_parser" where
  "fail_parser m p = p\<lparr>mp_error := error_of E_multipart m, mp_buffer := []\<rparr>"

text \<open>What a state of the parser does once: on to the check for progress, on at once, out of the loop, or failed.\<close>

datatype progress =
    Next "multipart_event list" multipart_parser
  | Again "multipart_event list" multipart_parser
  | Break "multipart_event list" multipart_parser
  | Failed multipart_parser

text \<open>The first marker that stands at the start of the text or of a line.\<close>

function line_marker :: "bytes \<Rightarrow> nat \<Rightarrow> bytes \<Rightarrow> nat option" where
  "line_marker m start s =
     (if start > length s then None
      else (case find_sub_from m start s of
              None \<Rightarrow> None
            | Some i \<Rightarrow>
                if i \<noteq> 0 \<and> (i < 2 \<or> take 2 (drop (i - 2) s) \<noteq> CRLF) then line_marker m (i + 1) s else Some i))"
  by pat_completeness auto
termination
  by (relation "measure (\<lambda>(m, start, s). Suc (length s) - start)") (auto simp: find_sub_from_def)

declare line_marker.simps [simp del]

definition first_boundary_round :: "multipart_parser \<Rightarrow> progress" where
  "first_boundary_round p =
     (let buf = mp_buffer p; m = first_marker p; limit = max_part_header (mp_options p)
      in case line_marker m (search_from p) buf of
           None \<Rightarrow>
             if length buf > limit \<and> length buf - limit > length m + 2
             then Failed (fail_parser ''Multipart preamble exceeds configured limit'' p)
             else Break [] (p\<lparr>search_from := (if length buf \<ge> length m then length buf - length m + 1 else 0)\<rparr>)
         | Some i \<Rightarrow>
             if i > limit then Failed (fail_parser ''Multipart preamble exceeds configured limit'' p)
             else
               let suffix = i + length m
               in if length buf < suffix + 2 then Break [] (p\<lparr>search_from := i\<rparr>)
                  else
                    let ending = take 2 (drop suffix buf)
                    in if ending \<noteq> CRLF \<and> ending \<noteq> ''--'' then Again [] (p\<lparr>search_from := i + 1\<rparr>)
                       else Next [] (p\<lparr>mp_buffer := drop suffix buf, search_from := 0, mp_state := Boundary_suffix\<rparr>))"

definition suffix_round :: "multipart_parser \<Rightarrow> progress" where
  "suffix_round p =
     (let buf = mp_buffer p
      in if length buf < 2 then Break [] p
         else if prefix ''--'' buf then Next [] (p\<lparr>mp_buffer := drop 2 buf, mp_state := Complete\<rparr>)
         else if prefix CRLF buf then Next [] (p\<lparr>mp_buffer := drop 2 buf, mp_state := Part_headers\<rparr>)
         else Failed (fail_parser ''Malformed multipart delimiter suffix'' p))"

definition headers_round :: "multipart_parser \<Rightarrow> progress" where
  "headers_round p =
     (let buf = mp_buffer p; limit = max_part_header (mp_options p)
      in case find_sub_from (CRLF @ CRLF) (search_from p) buf of
           None \<Rightarrow>
             if length buf > limit \<and> length buf - limit > 3
             then Failed (fail_parser ''Multipart part headers exceed configured limit'' p)
             else Break [] (p\<lparr>search_from := (if length buf > 3 then length buf - 3 else 0)\<rparr>)
         | Some e \<Rightarrow>
             if e > limit then Failed (fail_parser ''Multipart part headers exceed configured limit'' p)
             else (case parse_part_head (take e buf) of
                     Inl err \<Rightarrow> Failed (fail_parser (message err) p)
                   | Inr h \<Rightarrow>
                       if part_count p \<ge> max_parts (mp_options p) then Failed (fail_parser ''Too many multipart parts'' p)
                       else Next [Part_begin (part_count p) h]
                         (p\<lparr>current := h, current_size := 0, part_count := part_count p + 1,
                            mp_buffer := drop (e + 4) buf, search_from := 0, mp_state := Part_body\<rparr>)))"

text \<open>The first bytes of the buffer as data of the part, within the limits; they stay in the buffer.\<close>

definition emit_data :: "nat \<Rightarrow> multipart_parser \<Rightarrow> (multipart_parser, multipart_event list \<times> multipart_parser) sum" where
  "emit_data n p =
     (if n = 0 then Inr ([], p)
      else if n > max_part_size (mp_options p) \<or> current_size p > max_part_size (mp_options p) - n
      then Inl (p\<lparr>mp_error := error_of E_body_too_large ''Multipart part exceeds configured limit''\<rparr>)
      else if n > max_total_size (mp_options p) \<or> total_size p > max_total_size (mp_options p) - n
      then Inl (p\<lparr>mp_error := error_of E_body_too_large ''Multipart data exceeds configured limit''\<rparr>)
      else Inr ([Part_data (part_count p - 1) (take n (mp_buffer p))],
                p\<lparr>current_size := current_size p + n, total_size := total_size p + n\<rparr>))"

definition body_round :: "multipart_parser \<Rightarrow> progress" where
  "body_round p =
     (let buf = mp_buffer p; d = delimiter p
      in case find_sub d buf of
           Some i \<Rightarrow>
             let suffix = i + length d
             in if length buf < suffix + 2
                then (case emit_data i p of
                        Inl p1 \<Rightarrow> Failed p1 | Inr (evs, p1) \<Rightarrow> Break evs (p1\<lparr>mp_buffer := drop i buf\<rparr>))
                else
                  let ending = take 2 (drop suffix buf)
                  in if ending \<noteq> CRLF \<and> ending \<noteq> ''--''
                     then (case emit_data (i + 2) p of
                             Inl p1 \<Rightarrow> Failed p1 | Inr (evs, p1) \<Rightarrow> Again evs (p1\<lparr>mp_buffer := drop (i + 2) buf\<rparr>))
                     else (case emit_data i p of
                             Inl p1 \<Rightarrow> Failed p1
                           | Inr (evs, p1) \<Rightarrow> Next (evs @ [Part_end (part_count p1 - 1) (current p1)])
                               (p1\<lparr>mp_buffer := drop suffix buf, mp_state := Boundary_suffix\<rparr>))
         | None \<Rightarrow>
             let keep = length d + 1
             in if length buf \<le> keep then Break [] p
                else (case emit_data (length buf - keep) p of
                        Inl p1 \<Rightarrow> Failed p1
                      | Inr (evs, p1) \<Rightarrow> Next evs (p1\<lparr>mp_buffer := drop (length buf - keep) buf\<rparr>)))"

definition parse_round :: "multipart_parser \<Rightarrow> progress" where
  "parse_round p = (case mp_state p of
     First_boundary \<Rightarrow> first_boundary_round p
   | Boundary_suffix \<Rightarrow> suffix_round p
   | Part_headers \<Rightarrow> headers_round p
   | Part_body \<Rightarrow> body_round p
   | Complete \<Rightarrow> Break [] (p\<lparr>mp_buffer := []\<rparr>))"

text \<open>A round takes something from the buffer, or moves the search on.\<close>

lemma emit_data_same:
  "emit_data n p = Inr (evs, p') \<Longrightarrow>
     p' = p\<lparr>current_size := current_size p + n, total_size := total_size p + n\<rparr>
     \<and> evs = (if n = 0 then [] else [Part_data (part_count p - 1) (take n (mp_buffer p))])"
  by (auto simp: emit_data_def split: if_splits)

lemma next_shrinks: "parse_round p = Next evs p' \<Longrightarrow> length (mp_buffer p') < length (mp_buffer p)"
  by (auto simp: parse_round_def first_boundary_round_def suffix_round_def headers_round_def body_round_def
      Let_def first_marker_def delimiter_def dest!: emit_data_same find_sub_SomeD prefix_length_le
      simp: find_sub_from_def split: multipart_state.splits option.splits if_splits sum.splits)

lemma line_marker_SomeD:
  "line_marker m start s = Some i \<Longrightarrow> start \<le> i \<and> i + length m \<le> length s \<and> prefix m (drop i s)"
proof (induction m start s rule: line_marker.induct)
  case (1 m start s)
  have le: "\<not> start > length s" using 1(2) by (auto simp: line_marker.simps [of m start s])
  then obtain k where k: "find_sub_from m start s = Some k"
    using 1(2) by (auto simp: line_marker.simps [of m start s] split: option.splits)
  then have bound: "start \<le> k" "k + length m \<le> length s" "prefix m (drop k s)"
    using le by (auto simp: find_sub_from_def add.commute dest!: find_sub_SomeD)
  show ?case
  proof (cases "k \<noteq> 0 \<and> (k < 2 \<or> take 2 (drop (k - 2) s) \<noteq> CRLF)")
    case True
    then have "line_marker m (k + 1) s = Some i" using 1(2) le k by (simp add: line_marker.simps [of m start s])
    from 1(1) [OF le k True this] bound show ?thesis by simp
  next
    case False
    then have "k = i" using 1(2) le k by (simp add: line_marker.simps [of m start s] split: if_splits)
    then show ?thesis using bound by simp
  qed
qed

lemma again_advances:
  assumes "parse_round p = Again evs p'"
  shows "length (mp_buffer p') < length (mp_buffer p)
    \<or> mp_buffer p' = mp_buffer p \<and> search_from p < search_from p' \<and> search_from p' \<le> length (mp_buffer p)"
  using assms
  by (auto simp: parse_round_def first_boundary_round_def suffix_round_def headers_round_def body_round_def
      Let_def first_marker_def delimiter_def dest!: emit_data_same find_sub_SomeD line_marker_SomeD
      split: multipart_state.splits option.splits if_splits sum.splits)

text \<open>\<^verbatim>\<open>parse_available\<close>: the events of the rounds, and the parser, which has an error when one failed.\<close>

function parse_available :: "multipart_parser \<Rightarrow> multipart_event list \<times> multipart_parser" where
  "parse_available p = (case parse_round p of
     Failed p1 \<Rightarrow> ([], p1)
   | Break evs p1 \<Rightarrow> (evs, p1)
   | Again evs p1 \<Rightarrow> (case parse_available p1 of (evs', p2) \<Rightarrow> (evs @ evs', p2))
   | Next evs p1 \<Rightarrow>
       if length (mp_buffer p1) = length (mp_buffer p) \<and> mp_state p1 = mp_state p then (evs, p1)
       else (case parse_available p1 of (evs', p2) \<Rightarrow> (evs @ evs', p2)))"
  by pat_completeness auto
termination
  by (relation "(\<lambda>p. length (mp_buffer p)) <*mlex*> measure (\<lambda>p. Suc (length (mp_buffer p)) - search_from p)")
    (auto simp: wf_mlex mlex_prod_def dest!: next_shrinks again_advances)

declare parse_available.simps [simp del]

definition feed_block :: nat where
  "feed_block = 64 * 1024"

function feed_blocks ::
    "multipart_event list \<Rightarrow> bytes \<Rightarrow> multipart_parser \<Rightarrow> multipart_event list result \<times> multipart_parser" where
  "feed_blocks evs input p =
     (if input = [] \<or> mp_state p = Complete then (Inr evs, p)
      else
        (case parse_available (p\<lparr>mp_buffer := mp_buffer p @ take feed_block input\<rparr>) of
           (new, p1) \<Rightarrow>
             if is_error (mp_error p1) then (Inl (mp_error p1), p1)
             else feed_blocks (evs @ new) (drop feed_block input) p1))"
  by pat_completeness auto
termination
  by (relation "measure (\<lambda>(evs, input, p). length input)") (auto simp: feed_block_def)

declare feed_blocks.simps [simp del]

definition feed_parser :: "bytes \<Rightarrow> multipart_parser \<Rightarrow> multipart_event list result \<times> multipart_parser" where
  "feed_parser input p = (if is_error (mp_error p) then (Inl (mp_error p), p) else feed_blocks [] input p)"

definition finish_parser :: "multipart_parser \<Rightarrow> multipart_event list result \<times> multipart_parser" where
  "finish_parser p = (case feed_parser [] p of
     (Inl e, p1) \<Rightarrow> (Inl e, p1)
   | (Inr evs, p1) \<Rightarrow>
       if mp_state p1 \<noteq> Complete
       then let p2 = fail_parser ''Multipart body has no complete closing delimiter'' p1 in (Inl (mp_error p2), p2)
       else (Inr evs, p1))"

definition parser_complete :: "multipart_parser \<Rightarrow> bool" where
  "parser_complete p \<longleftrightarrow> mp_state p = Complete \<and> \<not> is_error (mp_error p)"

section \<open>The writer\<close>

record writer_part =
  wp_metadata :: part
  wp_producer :: "producer option"
  wp_size :: "nat option"
  wp_data :: bytes

record multipart_writer =
  wr_boundary :: bytes
  wr_parts :: "writer_part list"

definition new_writer :: "bytes \<Rightarrow> bytes \<Rightarrow> multipart_writer" where
  "new_writer random_boundary b =
     \<lparr>wr_boundary = (if valid_boundary b then b else random_boundary), wr_parts = []\<rparr>"

text \<open>\<open>None\<close> where the source throws.\<close>

definition add_part :: "writer_part \<Rightarrow> multipart_writer \<Rightarrow> multipart_writer option" where
  "add_part p w = (if valid_metadata (wp_metadata p) then Some (w\<lparr>wr_parts := wr_parts w @ [p]\<rparr>) else None)"

definition add_field :: "bytes \<Rightarrow> bytes \<Rightarrow> bytes \<Rightarrow> multipart_writer \<Rightarrow> multipart_writer option" where
  "add_field name v content_type =
     add_part \<lparr>wp_metadata = empty_part\<lparr>part_name := name, part_type := content_type\<rparr>, wp_producer = None,
       wp_size = Some (length v), wp_data = v\<rparr>"

definition add_stream ::
    "bytes \<Rightarrow> bytes \<Rightarrow> bytes \<Rightarrow> producer \<Rightarrow> nat option \<Rightarrow> headers \<Rightarrow> multipart_writer \<Rightarrow> multipart_writer option" where
  "add_stream name fname content_type producer sz h =
     add_part \<lparr>wp_metadata = empty_part\<lparr>part_name := name, filename := fname, part_type := content_type,
       part_fields := h\<rparr>, wp_producer = Some producer, wp_size = sz, wp_data = []\<rparr>"

definition part_prefix :: "bytes \<Rightarrow> writer_part \<Rightarrow> bytes" where
  "part_prefix b p = ''--'' @ b @ CRLF @ serialize_part_head (wp_metadata p)"

definition writer_content_type :: "multipart_writer \<Rightarrow> bytes" where
  "writer_content_type w = content_type_for (wr_boundary w)"

definition add_size :: "nat \<Rightarrow> nat \<Rightarrow> nat option" where
  "add_size acc v = (if v > uint64_max - acc then None else Some (acc + v))"

fun parts_length :: "bytes \<Rightarrow> writer_part list \<Rightarrow> nat \<Rightarrow> nat option" where
  "parts_length b [] acc = add_size acc (length b + 6)"
| "parts_length b (p # ps) acc =
     (case wp_size p of
        None \<Rightarrow> None
      | Some n \<Rightarrow>
          Option.bind (add_size acc (length (part_prefix b p))) (\<lambda>t1.
          Option.bind (add_size t1 n) (\<lambda>t2.
          Option.bind (add_size t2 2) (parts_length b ps))))"

definition writer_length :: "multipart_writer \<Rightarrow> nat option" where
  "writer_length w = parts_length (wr_boundary w) (wr_parts w) 0"

text \<open>A producer, and behind it another one when the writer is still open.\<close>

primrec while_open :: "producer \<Rightarrow> producer \<Rightarrow> producer" where
  "while_open Produced q = Flush (\<lambda>still. if still then q else Produced)"
| "while_open (Throw_stream e) q = Throw_stream e"
| "while_open (Throw_std what) q = Throw_std what"
| "while_open Throw_other q = Throw_other"
| "while_open (Pause t p) q = Pause t (while_open p q)"
| "while_open (Write d k) q = Write d (\<lambda>ok. while_open (k ok) q)"
| "while_open (Flush k) q = Flush (\<lambda>ok. while_open (k ok) q)"

definition write_then :: "bytes \<Rightarrow> producer \<Rightarrow> producer" where
  "write_then d q = Write d (\<lambda>ok. if ok then q else Produced)"

fun write_parts :: "bytes \<Rightarrow> writer_part list \<Rightarrow> producer" where
  "write_parts b [] = Write (''--'' @ b @ ''--'' @ CRLF) (\<lambda>ok. Produced)"
| "write_parts b (p # ps) =
     (let rest = write_then CRLF (write_parts b ps)
      in write_then (part_prefix b p)
           (case wp_producer p of
              Some q \<Rightarrow> while_open q rest
            | None \<Rightarrow> if wp_data p \<noteq> [] then write_then (wp_data p) rest else rest))"

definition multipart_producer :: "multipart_writer \<Rightarrow> producer" where
  "multipart_producer w = write_parts (wr_boundary w) (wr_parts w)"

text \<open>\<^verbatim>\<open>apply\<close>: the request with its media type, its streamed body and the length of the body.\<close>

definition apply_writer :: "multipart_writer \<Rightarrow> request \<Rightarrow> request \<times> producer \<times> nat option" where
  "apply_writer w req =
     (req\<lparr>req_headers := headers_set (req_headers req) ''Content-Type'' (writer_content_type w)\<rparr>,
      multipart_producer w, writer_length w)"

end
