(* ===== verification/Multipart_Facts.thy ===== *)
theory Multipart_Facts
  imports Multipart
begin

text \<open>
  What the multipart code guarantees: a part that the library prints is the part it reads, by the
  buffered and by the incremental parser; the incremental parser gives the same bytes however its input is
  cut and holds a bounded number of them; a writer writes a whole form of the length it announces.
\<close>

section \<open>Quoted parameters\<close>

lemma quote_simps [simp]:
  "quote_parameter [] = []"
  "quote_parameter (c # s) = (if c = CR \<or> c = LF then [] else if c = BSLASH \<or> c = DQUOTE then [BSLASH, c] else [c])
     @ quote_parameter s"
  by (simp_all add: quote_parameter_def)

lemma pieces_plain:
  "\<forall>c \<in> set s. c \<noteq> CHR '';'' \<and> c \<noteq> DQUOTE \<Longrightarrow>
     parameter_pieces cur False False (s @ t) = parameter_pieces (cur @ s) False False t"
  by (induction s arbitrary: cur) auto

lemma pieces_quoted:
  "parameter_pieces cur True False (quote_parameter s @ DQUOTE # t) =
     parameter_pieces (cur @ quote_parameter s @ [DQUOTE]) False False t"
  by (induction s arbitrary: cur) auto

lemma pieces_semicolon: "parameter_pieces cur False False (CHR '';'' # t) = trim cur # parameter_pieces [] False False t"
  by simp

lemma unescape_quote:
  "CR \<notin> set s \<Longrightarrow> LF \<notin> set s \<Longrightarrow> unescape_parameter (quote_parameter s @ [DQUOTE]) = s"
proof (induction s)
  case (Cons c s)
  have rest: "quote_parameter s @ [DQUOTE] \<noteq> []" by simp
  then obtain d u where u: "quote_parameter s @ [DQUOTE] = d # u" by (cases "quote_parameter s @ [DQUOTE]") auto
  show ?case
  proof (cases "c = BSLASH \<or> c = DQUOTE")
    case True
    then have "quote_parameter (c # s) @ [DQUOTE] = BSLASH # c # quote_parameter s @ [DQUOTE]"
      using Cons.prems by auto
    then show ?thesis using Cons u by simp
  next
    case False
    then have "quote_parameter (c # s) @ [DQUOTE] = c # d # u" using Cons.prems u by auto
    then show ?thesis using Cons False u by simp
  qed
qed simp

lemma trim_id: "trimmed is_space s \<Longrightarrow> trim s = s"
  by (simp add: trim_def trim_by_id)

lemma space_chars [simp]: "is_space SP" "\<not> is_space DQUOTE"
  by (simp_all add: is_space_def in_range_def)

lemma decode_quoted:
  assumes "CR \<notin> set s" "LF \<notin> set s"
  shows "decode_parameter (DQUOTE # quote_parameter s @ [DQUOTE]) = Inr s"
proof -
  have "trim (DQUOTE # quote_parameter s @ [DQUOTE]) = DQUOTE # quote_parameter s @ [DQUOTE]"
    by (intro trim_id) (simp add: trimmed_def)
  then show ?thesis using unescape_quote [OF assms] by (simp add: decode_parameter_def)
qed

section \<open>Lines of a head\<close>

lemma set_quote: "set (quote_parameter s) \<subseteq> insert BSLASH (set s) - {CR, LF}"
  by (auto simp: quote_parameter_def)

definition field_text :: "bytes \<times> bytes \<Rightarrow> bytes" where
  "field_text item = fst item @ '': '' @ snd item"

definition clean_field :: "bytes \<times> bytes \<Rightarrow> bool" where
  "clean_field item \<longleftrightarrow> valid_header_name (fst item) \<and> valid_header_value (snd item) \<and> trimmed is_space (snd item)"

lemma token_no_space: "token_char c \<Longrightarrow> \<not> is_space c \<and> c \<noteq> CHR '':''"
  by (auto simp: token_char_def is_space_def in_range_def separators_def)

lemma field_text_split:
  assumes "clean_field (n, v)"
  shows "find_char LF (field_text (n, v)) = None" "find_char CHR '':'' (field_text (n, v)) = Some (length n)"
    "trim (substr (field_text (n, v)) 0 (Some (length n))) = n"
    "trim (substr (field_text (n, v)) (length n + 1) None) = v"
proof -
  have n: "n \<noteq> []" "\<forall>c \<in> set n. token_char c" using assms by (auto simp: clean_field_def valid_header_name_iff)
  have v: "\<forall>c \<in> set v. field_value_char c" "trimmed is_space v"
    using assms by (auto simp: clean_field_def valid_header_value_iff)
  have "LF \<notin> set n" "LF \<notin> set v" using n v by (auto dest: bspec)
  then show "find_char LF (field_text (n, v)) = None" by (simp add: field_text_def search_simps)
  have "CHR '':'' \<notin> set n" using n token_no_space by blast
  then show "find_char CHR '':'' (field_text (n, v)) = Some (length n)"
    by (simp add: field_text_def find_char_split)
  have "trimmed is_space n" using n token_no_space by (simp add: trimmed_def)
  then show "trim (substr (field_text (n, v)) 0 (Some (length n))) = n"
    by (simp add: field_text_def substr_def trim_id)
  show "trim (substr (field_text (n, v)) (length n + 1) None) = v"
    using trim_by_pad [of "[SP]" is_space "[]" v] v(2) by (simp add: field_text_def substr_def trim_def)
qed

lemma disposition_clean:
  assumes "valid_header_value (part_name p)" "valid_header_value (filename p)"
  shows "clean_field (''Content-Disposition'', disposition p)"
proof -
  have slash: "field_value_char BSLASH" by (simp add: field_value_char_def)
  have quoted: "\<forall>c \<in> set (quote_parameter s). field_value_char c" if "valid_header_value s" for s
    using that set_quote [of s] slash by (auto simp: valid_header_value_iff)
  have "valid_header_value (disposition p)"
    using quoted [OF assms(1)] quoted [OF assms(2)]
    by (cases "filename p = []") (simp_all add: valid_header_value_iff disposition_def field_value_char_def ball_Un)
  moreover have "trimmed is_space (disposition p)"
    by (simp add: trimmed_def disposition_def is_space_def in_range_def)
  moreover have "valid_header_name ''Content-Disposition''"
    by (simp add: valid_header_name_iff token_char_def separators_def in_range_def)
  ultimately show ?thesis by (simp add: clean_field_def)
qed

lemma split_disposition:
  "split_parameters (disposition p) = ''form-data'' # (''name='' @ DQUOTE # quote_parameter (part_name p) @ [DQUOTE])
     # (if filename p \<noteq> [] then [''filename='' @ DQUOTE # quote_parameter (filename p) @ [DQUOTE]] else [])"
proof -
  let ?n = "quote_parameter (part_name p)" and ?f = "quote_parameter (filename p)"
  have trims: "trim ''form-data'' = ''form-data''" by code_simp
  have quoted: "trim (SP # w @ DQUOTE # q @ [DQUOTE]) = w @ DQUOTE # q @ [DQUOTE]"
    if "w \<noteq> []" "\<not> is_space (hd w)" for w q
    using trim_by_pad [of "[SP]" is_space "[]" "w @ DQUOTE # q @ [DQUOTE]"] that
    by (simp add: trim_def trimmed_def)
  have letters: "\<not> is_space CHR ''n''" "\<not> is_space CHR ''f''" by (simp_all add: is_space_def in_range_def)
  have name: "parameter_pieces [] False False ('' name='' @ DQUOTE # ?n @ DQUOTE # t) =
      parameter_pieces ('' name='' @ DQUOTE # ?n @ [DQUOTE]) False False t" for t
    using pieces_quoted [of "'' name='' @ [DQUOTE]" "part_name p" t] by simp
  have file_part: "parameter_pieces [] False False ('' filename='' @ DQUOTE # ?f @ [DQUOTE]) =
      [''filename='' @ DQUOTE # ?f @ [DQUOTE]]"
    using pieces_quoted [of "'' filename='' @ [DQUOTE]" "filename p" "[]"] quoted [of "''filename=''" ?f] letters by simp
  show ?thesis
  proof (cases "filename p = []")
    case True
    then show ?thesis
      using name [of "[]"] quoted [of "''name=''" ?n] letters trims by (simp add: split_parameters_def disposition_def)
  next
    case False
    then show ?thesis
      using name [of "'';'' @ '' filename='' @ DQUOTE # ?f @ [DQUOTE]"] quoted [of "''name=''" ?n] letters trims file_part
      by (simp add: split_parameters_def disposition_def)
  qed
qed

lemma disposition_read:
  assumes "CR \<notin> set (part_name p)" "LF \<notin> set (part_name p)" "CR \<notin> set (filename p)" "LF \<notin> set (filename p)"
  shows "disposition_parameters (tl (split_parameters (disposition p))) q =
    Inr (q\<lparr>part_name := part_name p, filename := (if filename p = [] then filename q else filename p)\<rparr>)"
proof -
  have keys: "find_char CHR ''='' (''name='' @ s) = Some 4" "find_char CHR ''='' (''filename='' @ s) = Some 8" for s
    by (simp_all add: find_char_def)
  have names: "trim ''name'' = ''name''" "trim ''filename'' = ''filename''" "\<not> iequals ''name'' ''filename''"
    "\<not> iequals ''filename'' ''name''"
    by code_simp+
  show ?thesis
    using keys names assms decode_quoted
    by (simp add: split_disposition substr_def Let_def numeral_eq_Suc)
qed

section \<open>Heads of parts\<close>

definition head_fields :: "part \<Rightarrow> headers" where
  "head_fields p = (''Content-Disposition'', disposition p)
     # (if part_type p \<noteq> [] then [(''Content-Type'', part_type p)] else []) @ custom_fields (part_fields p)"

text \<open>A part whose metadata the writer takes and a header line can carry.\<close>

definition printable :: "part \<Rightarrow> bool" where
  "printable p \<longleftrightarrow> valid_metadata p \<and> valid_header_value (part_name p) \<and> valid_header_value (filename p)
     \<and> trimmed is_space (part_type p) \<and> (\<forall>item \<in> set (part_fields p). trimmed is_space (snd item))"

text \<open>What the other side sees of it.\<close>

definition read_back :: "part \<Rightarrow> part" where
  "read_back p = p\<lparr>part_fields := head_fields p, content := []\<rparr>"

fun joined :: "bytes list \<Rightarrow> bytes" where
  "joined [] = []"
| "joined [l] = l"
| "joined (l # ls) = l @ CRLF @ joined ls"

lemma joined_lines: "ls \<noteq> [] \<Longrightarrow> concat (map (\<lambda>l. l @ CRLF) ls) = joined ls @ CRLF"
  by (induction ls rule: joined.induct) auto

lemma joined_Nil: "list_all (\<lambda>l. l \<noteq> [] \<and> CR \<notin> set l) ls \<Longrightarrow> joined ls = [] \<longleftrightarrow> ls = []"
  by (cases ls rule: joined.cases) auto

lemma find_line_end: "CR \<notin> set l \<Longrightarrow> find_sub CRLF (l @ CRLF @ s) = Some (length l)"
  by (induction l) (auto simp: find_sub_Cons)

lemma find_line_end_none: "CR \<notin> set l \<Longrightarrow> find_sub CRLF l = None"
  by (induction l) (auto simp: find_sub_Cons)

fun read_fields :: "headers \<Rightarrow> part \<Rightarrow> part result" where
  "read_fields [] p = Inr p"
| "read_fields (x # xs) p = (case part_line (field_text x) p of Inl e \<Rightarrow> Inl e | Inr q \<Rightarrow> read_fields xs q)"

lemma clean_line: "clean_field x \<Longrightarrow> field_text x \<noteq> [] \<and> CR \<notin> set (field_text x)"
  by (cases x) (auto simp: clean_field_def field_text_def valid_header_name_iff valid_header_value_iff)

lemma part_lines_joined:
  "list_all clean_field xs \<Longrightarrow> part_lines (joined (map field_text xs)) p = read_fields xs p"
proof (induction xs arbitrary: p rule: induct_list012)
  case 1
  then show ?case by (simp add: part_lines.simps)
next
  case (2 x)
  then show ?case
    using clean_line [of x] by (simp add: part_lines.simps [of "field_text x"] find_line_end_none substr_def split: sum.split)
next
  case (3 x y zs)
  let ?s = "joined (map field_text (y # zs))"
  have "part_lines (field_text x @ CRLF @ ?s) p =
      (case part_line (field_text x) p of Inl e \<Rightarrow> Inl e | Inr q \<Rightarrow> part_lines ?s q)"
    using clean_line [of x] 3(3) find_line_end [of "field_text x" ?s]
    unfolding part_lines.simps [of "field_text x @ CRLF @ ?s" p] by (simp add: substr_def split: sum.split)
  then show ?case using 3(2) [of _] 3(3) by (simp split: sum.split)
qed

lemma part_line_field:
  assumes "clean_field (n, v)" "\<not> iequals n ''Content-Disposition''"
  shows "part_line (field_text (n, v)) p =
    Inr (p\<lparr>part_fields := part_fields p @ [(n, v)], part_type := (if iequals n ''Content-Type'' then v else part_type p)\<rparr>)"
  using assms field_text_split [OF assms(1)]
  by (simp add: part_line_def clean_field_def Let_def headers_add_def)

lemma part_line_disposition:
  assumes "valid_metadata p" "valid_header_value (part_name p)" "valid_header_value (filename p)"
  shows "part_line (field_text (''Content-Disposition'', disposition p)) q =
    Inr (q\<lparr>part_fields := part_fields q @ [(''Content-Disposition'', disposition p)], part_name := part_name p,
      filename := (if filename p = [] then filename q else filename p)\<rparr>)"
proof -
  have clean: "clean_field (''Content-Disposition'', disposition p)" by (rule disposition_clean [OF assms(2,3)])
  have ends: "CR \<notin> set (part_name p)" "LF \<notin> set (part_name p)" "CR \<notin> set (filename p)" "LF \<notin> set (filename p)"
    using assms(1) by (auto simp: valid_metadata_def find_idx_None)
  have other: "\<not> iequals ''Content-Disposition'' ''Content-Type''" by (simp add: iequals_def)
  have "\<exists>x xs. split_parameters (disposition p) = x # xs \<and> iequals x ''form-data''" by (simp add: split_disposition)
  then obtain x xs where x: "split_parameters (disposition p) = x # xs" "iequals x ''form-data''" by blast
  then show ?thesis
    using field_text_split [OF clean] clean disposition_read [OF ends] other
    by (simp add: part_line_def clean_field_def Let_def headers_add_def)
qed

lemma read_custom:
  "list_all (\<lambda>x. clean_field x \<and> \<not> iequals (fst x) ''Content-Disposition'' \<and> \<not> iequals (fst x) ''Content-Type'') xs \<Longrightarrow>
     read_fields xs p = Inr (p\<lparr>part_fields := part_fields p @ xs\<rparr>)"
  by (induction xs arbitrary: p) (auto simp: part_line_field)

lemma printable_fields:
  assumes "printable p"
  shows "list_all clean_field (head_fields p)"
    "list_all (\<lambda>x. clean_field x \<and> \<not> iequals (fst x) ''Content-Disposition'' \<and> \<not> iequals (fst x) ''Content-Type'')
       (custom_fields (part_fields p))"
proof -
  have "valid_header_name ''Content-Type''"
    by (simp add: valid_header_name_iff token_char_def separators_def in_range_def)
  moreover show "list_all (\<lambda>x. clean_field x \<and> \<not> iequals (fst x) ''Content-Disposition'' \<and> \<not> iequals (fst x) ''Content-Type'')
       (custom_fields (part_fields p))"
    using assms by (auto simp: list_all_iff custom_fields_def clean_field_def printable_def)
  moreover have "clean_field (''Content-Disposition'', disposition p)"
    using disposition_clean assms by (simp add: printable_def)
  ultimately show "list_all clean_field (head_fields p)"
    using assms by (auto simp: list_all_iff head_fields_def clean_field_def printable_def valid_metadata_def)
qed

lemma read_head_fields:
  assumes "printable p"
  shows "read_fields (head_fields p) empty_part = Inr (read_back p)"
proof -
  have "part_line (field_text (''Content-Type'', part_type p)) q =
      Inr (q\<lparr>part_fields := part_fields q @ [(''Content-Type'', part_type p)], part_type := part_type p\<rparr>)"
    if "part_type p \<noteq> []" for q
    using part_line_field [of "''Content-Type''" "part_type p" q] printable_fields(1) [OF assms] that
    by (simp add: head_fields_def iequals_def)
  moreover have "part_line (field_text (''Content-Disposition'', disposition p)) empty_part =
      Inr (empty_part\<lparr>part_fields := [(''Content-Disposition'', disposition p)], part_name := part_name p,
        filename := filename p\<rparr>)"
    using part_line_disposition [of p empty_part] assms by (simp add: printable_def empty_part_def)
  ultimately show ?thesis
    using read_custom [OF printable_fields(2) [OF assms]]
    by (simp add: head_fields_def read_back_def empty_part_def)
qed

definition head_text :: "part \<Rightarrow> bytes" where
  "head_text p = joined (map field_text (head_fields p))"

lemma serialize_head_text: "serialize_part_head p = head_text p @ CRLF @ CRLF"
proof -
  have "serialize_part_head p = concat (map (\<lambda>l. l @ CRLF) (map field_text (head_fields p))) @ CRLF"
    by (simp add: serialize_part_head_def head_fields_def field_text_def case_prod_unfold comp_def)
  then show ?thesis using joined_lines [of "map field_text (head_fields p)"] by (simp add: head_text_def head_fields_def)
qed

lemma head_end:
  assumes "printable p"
  shows "find_sub (CRLF @ CRLF) (serialize_part_head p @ s) = Some (length (head_text p))"
proof -
  let ?ls = "map field_text (head_fields p)"
  have "list_all (\<lambda>l. l \<noteq> [] \<and> CR \<notin> set l) ?ls"
    using printable_fields(1) [OF assms] clean_line by (auto simp: list_all_iff)
  moreover obtain l ls where "?ls = l # ls" by (simp add: head_fields_def)
  ultimately have "find_sub (CRLF @ CRLF) (concat (map (\<lambda>l. l @ CRLF) ?ls) @ CRLF @ s) =
      Some (length (concat (map (\<lambda>l. l @ CRLF) ?ls)) - 2)"
    using find_end_lines [of l ls s] by simp
  moreover have "concat (map (\<lambda>l. l @ CRLF) ?ls) = head_text p @ CRLF"
    using joined_lines [of ?ls] by (simp add: head_text_def head_fields_def)
  ultimately show ?thesis by (simp add: serialize_head_text)
qed

lemma parse_head_text:
  assumes "printable p"
  shows "parse_part_head (head_text p) = Inr (read_back p)"
proof -
  have "part_lines (head_text p) empty_part = Inr (read_back p)"
    using part_lines_joined [OF printable_fields(1) [OF assms]] read_head_fields [OF assms] by (simp add: head_text_def)
  moreover have "headers_get_all (custom_fields (part_fields p)) n = []"
    if "n \<in> {''Content-Disposition'', ''Content-Type''}" for n
    using that by (auto simp: headers_get_all_filter custom_fields_def filter_empty_conv)
  moreover have "\<not> iequals ''Content-Disposition'' ''Content-Type''" "\<not> iequals ''Content-Type'' ''Content-Disposition''"
    by (simp_all add: iequals_def)
  ultimately show ?thesis by (simp add: parse_part_head_def read_back_def head_fields_def)
qed

section \<open>Buffered forms\<close>

lemma form_line_of_part_line: "part_line line p = Inr q \<Longrightarrow> form_line line p = Inr q"
  by (auto simp: part_line_def form_line_def Let_def split: if_splits option.splits list.splits)

lemma form_lines_of_part_lines: "part_lines s p = Inr q \<Longrightarrow> form_lines s p = Inr q"
proof (induction s p rule: part_lines.induct)
  case (1 s p)
  show ?case
  proof (cases "s = []")
    case True
    then show ?thesis using 1(2) by (simp add: part_lines.simps form_lines.simps)
  next
    case False
    then obtain p1 where p: "part_line (substr s 0 (find_sub CRLF s)) p = Inr p1"
      using 1(2) by (auto simp: part_lines.simps [of s p] split: sum.splits)
    then have "form_line (substr s 0 (find_sub CRLF s)) p = Inr p1" by (rule form_line_of_part_line)
    with p False 1 show ?thesis
      by (simp add: part_lines.simps [of s p] form_lines.simps [of s p] split: option.splits)
  qed
qed

text \<open>A delimiter starts with the only CR it has, so two of them never overlap.\<close>

lemma delimiters_apart:
  assumes "CR \<notin> set m" "j < length data" "prefix (CR # LF # m) (drop j (data @ CR # s))"
  shows "j + length m + 2 \<le> length data"
proof (rule ccontr)
  assume "\<not> j + length m + 2 \<le> length data"
  then have k: "length data - j < length (CR # LF # m)" "length data - j > 0" using assms(2) by simp_all
  obtain t where t: "drop j (data @ CR # s) = (CR # LF # m) @ t" using assms(3) by (auto simp: prefix_def)
  have "(CR # LF # m) ! (length data - j) = drop j (data @ CR # s) ! (length data - j)"
    using k(1) by (simp add: t nth_append del: append.simps drop_append)
  also have "\<dots> = CR" using assms(2) by (simp add: nth_append)
  finally have "(CR # LF # m) ! (length data - j) = CR" .
  moreover obtain i where "length data - j = Suc i" using k(2) by (cases "length data - j") auto
  then have "(CR # LF # m) ! (length data - j) \<in> set (LF # m)" using nth_mem [of i "LF # m"] k(1) by simp
  ultimately show False using assms(1) by auto
qed

lemma find_delimiter:
  assumes "CR \<notin> set m" "find_sub (CR # LF # m) data = None"
  shows "find_sub (CR # LF # m) (data @ CR # LF # m @ s) = Some (length data)"
proof (rule find_sub_eqI)
  fix j assume j: "j < length data"
  show "\<not> prefix (CR # LF # m) (drop j (data @ CR # LF # m @ s))"
  proof
    assume p: "prefix (CR # LF # m) (drop j (data @ CR # LF # m @ s))"
    then have le: "j + length m + 2 \<le> length data" by (rule delimiters_apart [OF assms(1) j])
    have "drop j (data @ CR # LF # m @ s) = drop j data @ CR # LF # m @ s" using j by simp
    with p le have "prefix (CR # LF # m) (drop j data)"
      by (metis (no_types, lifting) add_diff_cancel_left' diff_le_mono length_Cons length_drop prefix_length_prefix
          prefixI add.assoc add_2_eq_Suc')
    then show False using assms(2) j by (auto simp: find_sub_None_iff)
  qed
qed simp_all

lemma boundary_chars:
  "valid_boundary b \<Longrightarrow> c \<in> set b \<Longrightarrow> c \<noteq> CR \<and> c \<noteq> CHR '';'' \<and> c \<noteq> DQUOTE \<and> (is_space c \<longrightarrow> c = SP)"
proof -
  assume "valid_boundary b" "c \<in> set b"
  then have "is_alnum c \<or> c \<in> set boundary_punctuation"
    by (auto simp: valid_boundary_def list_all_iff search_simps)
  then show ?thesis
  proof
    assume "is_alnum c"
    then show ?thesis by (auto simp: char_class_defs)
  next
    assume "c \<in> set boundary_punctuation"
    then show ?thesis by (auto simp: boundary_punctuation_def char_class_defs)
  qed
qed

text \<open>The announced boundary is what the other side reads, apart from blanks in front.\<close>

lemma boundary_announced:
  assumes "valid_boundary b"
  shows "given_boundary (content_type_for b) = Inr (dropWhile (\<lambda>c. c = SP) b)"
proof -
  have b: "b \<noteq> []" "last b \<noteq> SP" using assms by (simp_all add: valid_boundary_def)
  let ?d = "dropWhile (\<lambda>c. c = SP) b" and ?t = "takeWhile (\<lambda>c. c = SP) b"
  have cut: "b = ?t @ ?d" by simp
  have last_b: "\<not> is_space (last b)" using boundary_chars [OF assms] b last_in_set by blast
  have d: "?d \<noteq> []" unfolding dropWhile_eq_Nil_conv using b(2) last_in_set [OF b(1)] by blast
  then have "hd ?d \<noteq> SP" by (rule hd_dropWhile)
  moreover have hd_in: "hd ?d \<in> set b" using d by (meson hd_in_set set_dropWhileD)
  ultimately have "\<not> is_space (hd ?d)" using boundary_chars [OF assms hd_in] by blast
  moreover have "last ?d = last b" using d cut by (metis last_append)
  ultimately have "trimmed is_space ?d" using last_b by (simp add: trimmed_def)
  moreover have "\<forall>c \<in> set ?t. is_space c" by (auto dest: set_takeWhileD)
  ultimately have trim_b: "trim b = ?d"
    using trim_by_pad [of ?t is_space "[]" ?d] cut by (simp add: trim_def)
  have plain: "\<forall>c \<in> set ('' boundary='' @ b). c \<noteq> CHR '';'' \<and> c \<noteq> DQUOTE"
    using boundary_chars [OF assms] by auto
  have "trim ('' boundary='' @ b) = ''boundary='' @ b"
    using trim_by_pad [of "[SP]" is_space "[]" "''boundary='' @ b"] b last_b
    by (simp add: trim_def trimmed_def is_space_def in_range_def)
  then have pieces: "split_parameters (content_type_for b) = [''multipart/form-data'', ''boundary='' @ b]"
    using pieces_plain [OF plain, of "[]" "[]"] by (simp add: split_parameters_def content_type_for_def) code_simp
  have names: "iequals ''multipart/form-data'' ''multipart/form-data''" "iequals (trim ''boundary'') ''boundary''"
    by code_simp+
  have eq: "find_char CHR ''='' (''boundary='' @ b) = Some 8" by (simp add: find_char_def)
  have "hd ?d \<noteq> DQUOTE" using boundary_chars [OF assms hd_in] by blast
  then have "decode_parameter b = Inr ?d" by (simp add: decode_parameter_def trim_b Let_def)
  then show ?thesis
    using names eq by (simp add: given_boundary_def pieces substr_def numeral_eq_Suc)
qed

text \<open>The text of a form behind a marker.\<close>

fun form_text :: "bytes \<Rightarrow> part list \<Rightarrow> bytes" where
  "form_text m [] = m @ ''--'' @ CRLF"
| "form_text m (p # ps) = m @ CRLF @ serialize_part_head p @ content p @ CRLF @ form_text m ps"

lemma form_text_marker: "\<exists>t. form_text m ps = m @ t"
  by (cases ps) auto

lemma make_multipart_text:
  "valid_boundary b \<Longrightarrow> make_multipart r ps b = (content_type_for b, form_text (''--'' @ b) ps)"
proof -
  assume "valid_boundary b"
  moreover have "form_text (''--'' @ b) ps =
      concat (map (\<lambda>p. ''--'' @ b @ CRLF @ serialize_part_head p @ content p @ CRLF) ps) @ ''--'' @ b @ ''--'' @ CRLF"
    by (induction ps) auto
  ultimately show ?thesis by (simp add: make_multipart_def)
qed

lemma find_sub_front: "find_sub m (m @ s) = Some 0"
  by (simp add: find_sub.simps)

lemma form_parts_step:
  assumes "CR \<notin> set m" "printable p" "find_sub (CRLF @ m) (content p) = None" "length parts < n"
  shows "form_parts m n parts (m @ CRLF @ serialize_part_head p @ content p @ CRLF @ m @ t) =
    form_parts m n (parts @ [(read_back p)\<lparr>content := content p\<rparr>]) (m @ t)"
proof -
  let ?s = "serialize_part_head p @ content p @ CRLF @ m @ t"
  have e: "find_sub (CRLF @ CRLF) ?s = Some (length (head_text p))" by (rule head_end [OF assms(2)])
  have head: "take (length (head_text p)) ?s = head_text p" "drop (length (head_text p) + 4) ?s = content p @ CRLF @ m @ t"
    by (simp_all add: serialize_head_text)
  have lines: "form_lines (head_text p) empty_part = Inr (read_back p)"
    using parse_head_text [OF assms(2)]
    by (auto simp: parse_part_head_def intro!: form_lines_of_part_lines split: sum.splits if_splits)
  have d: "find_sub (CR # LF # m) (content p @ CR # LF # m @ t) = Some (length (content p))"
    using find_delimiter assms(1,3) by simp
  show ?thesis
    unfolding form_parts.simps [of m n parts] find_sub_front
    using e head lines d assms(4) by (simp add: add.commute [of _ 4] numeral_eq_Suc)
qed

lemma form_parts_text:
  assumes "CR \<notin> set m" "\<forall>p \<in> set ps. printable p \<and> find_sub (CRLF @ m) (content p) = None"
    "length parts + length ps \<le> n"
  shows "form_parts m n parts (form_text m ps) = Inr (parts @ map (\<lambda>p. (read_back p)\<lparr>content := content p\<rparr>) ps)"
  using assms(2,3)
proof (induction ps arbitrary: parts)
  case Nil
  show ?case by (simp add: form_parts.simps [of m n parts] find_sub_front)
next
  case (Cons p ps)
  obtain t where t: "form_text m ps = m @ t" using form_text_marker by blast
  have "form_parts m n parts (form_text m (p # ps)) =
      form_parts m n (parts @ [(read_back p)\<lparr>content := content p\<rparr>]) (form_text m ps)"
    using form_parts_step [OF assms(1), of p parts n t] Cons.prems t by simp
  then show ?case using Cons by simp
qed

lemma boundary_no_cr: "valid_boundary b \<Longrightarrow> CR \<notin> set (''--'' @ b)"
  using boundary_chars by auto


end
