(* ===== verification/Multipart_Stream.thy ===== *)
theory Multipart_Stream
  imports Multipart_Facts
begin

text \<open>
  The incremental parser on a form: however the text is cut, the parser stays on course, which says what
  text and which events are still to come for the state it is in; and what the writer and its producers
  write is such a text, of the announced length.
\<close>

section \<open>Events\<close>

text \<open>The events with their data taken apart into bytes, which forgets how the data was cut.\<close>

fun bytewise :: "multipart_event list \<Rightarrow> multipart_event list" where
  "bytewise [] = []"
| "bytewise (Part_data i d # es) = map (\<lambda>c. Part_data i [c]) d @ bytewise es"
| "bytewise (e # es) = e # bytewise es"

lemma bytewise_append: "bytewise (es @ fs) = bytewise es @ bytewise fs"
  by (induction es rule: bytewise.induct) auto

text \<open>What a form gives: the begin of each part, its bytes and its end.\<close>

fun script :: "nat \<Rightarrow> part list \<Rightarrow> multipart_event list" where
  "script i [] = []"
| "script i (p # ps) = Part_begin i (read_back p) # map (\<lambda>c. Part_data i [c]) (content p)
     @ Part_end i (read_back p) # script (Suc i) ps"

section \<open>Data and delimiters\<close>

text \<open>No delimiter in the data that a line end or two dashes follow, so that it would end the part.\<close>

definition delimiter_free :: "bytes \<Rightarrow> bytes \<Rightarrow> bool" where
  "delimiter_free m data \<longleftrightarrow> (\<forall>j < length data. prefix (CRLF @ m) (drop j data) \<longrightarrow>
     take 2 (drop (j + length m + 2) (data @ CRLF)) \<notin> {CRLF, ''--''})"

lemma delimiter_free_drop: "delimiter_free m data \<Longrightarrow> delimiter_free m (drop n data)"
  unfolding delimiter_free_def
proof (intro allI impI)
  fix j
  assume free: "\<forall>j < length data. prefix (CRLF @ m) (drop j data) \<longrightarrow>
     take 2 (drop (j + length m + 2) (data @ CRLF)) \<notin> {CRLF, ''--''}"
    and j: "j < length (drop n data)" "prefix (CRLF @ m) (drop j (drop n data))"
  then have "n + j < length data" "prefix (CRLF @ m) (drop (n + j) data)" by (simp_all add: add.commute)
  with free have "take 2 (drop (n + j + length m + 2) (data @ CRLF)) \<notin> {CRLF, ''--''}" by blast
  moreover have "drop (n + j + length m + 2) (data @ CRLF) = drop (j + length m + 2) (drop n (data @ CRLF))"
    by (simp only: drop_drop) (simp add: ac_simps)
  moreover have "drop n (data @ CRLF) = drop n data @ CRLF" using j(1) by simp
  ultimately show "take 2 (drop (j + length m + 2) (drop n data @ CRLF)) \<notin> {CRLF, ''--''}" by metis
qed

lemma prefix_drop_append: "j + length p \<le> length b \<Longrightarrow> prefix p (drop j (b @ s)) = prefix p (drop j b)"
proof -
  assume le: "j + length p \<le> length b"
  then have "drop j (b @ s) = drop j b @ s" by simp
  moreover have "length p \<le> length (drop j b)" using le by simp
  ultimately show ?thesis by (metis prefix_append prefix_length_prefix prefixI)
qed

text \<open>Where the next delimiter of a buffer is: inside the data, at its end, or not yet there.\<close>

lemma next_delimiter:
  assumes "CR \<notin> set m" "buf @ rest = data @ CRLF @ m @ t" "find_sub (CRLF @ m) buf = Some i"
  shows "i = length data \<or> i + length m + 2 \<le> length data \<and> prefix (CRLF @ m) (drop i data)"
proof -
  have i: "i + length (CRLF @ m) \<le> length buf" "prefix (CRLF @ m) (drop i buf)"
    "\<And>j. j < i \<Longrightarrow> \<not> prefix (CRLF @ m) (drop j buf)"
    using find_sub_SomeD [OF assms(3)] by auto
  have there: "prefix (CRLF @ m) (drop j buf) = prefix (CRLF @ m) (drop j (data @ CRLF @ m @ t))"
    if "j + length (CRLF @ m) \<le> length buf" for j
    using prefix_drop_append [OF that, of rest] by (simp only: assms(2))
  have "prefix (CRLF @ m) (drop (length data) (data @ CRLF @ m @ t))" by simp
  then have "\<not> length data < i" using i(1,3) there [of "length data"] by fastforce
  then consider "i = length data" | "i < length data" by linarith
  then show ?thesis
  proof cases
    case 2
    have at: "prefix (CRLF @ m) (drop i (data @ CRLF @ m @ t))" using there [OF i(1)] i(2) by simp
    then have le: "i + length m + 2 \<le> length data" using delimiters_apart [OF assms(1) 2] by simp
    then have "prefix (CRLF @ m) (drop i data)"
      using prefix_drop_append [of i "CRLF @ m" data "CRLF @ m @ t"] at by simp
    with le show ?thesis by blast
  qed simp
qed

lemma no_delimiter:
  assumes "buf @ rest = data @ CRLF @ m @ t" "find_sub (CRLF @ m) buf = None"
  shows "length buf < length data + length m + 2"
proof (rule ccontr)
  assume "\<not> length buf < length data + length m + 2"
  then have le: "length data + length (CRLF @ m) \<le> length buf" by simp
  have "prefix (CRLF @ m) (drop (length data) (data @ CRLF @ m @ t))" by simp
  then have "prefix (CRLF @ m) (drop (length data) buf)"
    using prefix_drop_append [OF le, of rest] by (simp only: assms(1))
  moreover have "length data \<le> length buf" using le by simp
  ultimately show False using assms(2) by (auto simp: find_sub_None_iff)
qed

section \<open>A parser on course\<close>

text \<open>The form behind its first marker, and what the limits must leave room for.\<close>

fun tail_text :: "bytes \<Rightarrow> part list \<Rightarrow> bytes" where
  "tail_text m [] = ''--'' @ CRLF"
| "tail_text m (p # ps) = CRLF @ serialize_part_head p @ content p @ CRLF @ m @ tail_text m ps"

lemma form_text_tail: "form_text m ps = m @ tail_text m ps"
  by (induction ps) auto

definition within_limits :: "multipart_options \<Rightarrow> bytes \<Rightarrow> nat \<Rightarrow> nat \<Rightarrow> part list \<Rightarrow> bool" where
  "within_limits opts m n used ps \<longleftrightarrow>
     n + length ps \<le> max_parts opts
     \<and> used + sum_list (map (\<lambda>p. length (content p)) ps) \<le> max_total_size opts
     \<and> (\<forall>p \<in> set ps. printable p \<and> length (head_text p) \<le> max_part_header opts
          \<and> delimiter_free m (content p) \<and> length (content p) \<le> max_part_size opts)"

text \<open>
  The parser has not failed, and what it holds with the text to come is the rest of a form within the limits,
  whose events are those to come, as its state says.
\<close>

definition on_course :: "bytes \<Rightarrow> multipart_parser \<Rightarrow> bytes \<Rightarrow> multipart_event list \<Rightarrow> bool" where
  "on_course epi p rest evs \<longleftrightarrow>
     (let m = first_marker p; opts = mp_options p; s = mp_buffer p @ rest
      in CR \<notin> set m \<and> \<not> is_error (mp_error p) \<and>
         (case mp_state p of
            First_boundary \<Rightarrow> \<exists>ps. search_from p = 0 \<and> s = m @ tail_text m ps @ epi
              \<and> within_limits opts m (part_count p) (total_size p) ps \<and> evs = script (part_count p) ps
          | Boundary_suffix \<Rightarrow> \<exists>ps. search_from p = 0 \<and> s = tail_text m ps @ epi
              \<and> within_limits opts m (part_count p) (total_size p) ps \<and> evs = script (part_count p) ps
          | Part_headers \<Rightarrow> \<exists>q ps. search_from p \<le> length (head_text q)
              \<and> s = serialize_part_head q @ content q @ CRLF @ m @ tail_text m ps @ epi
              \<and> within_limits opts m (part_count p) (total_size p) (q # ps) \<and> evs = script (part_count p) (q # ps)
          | Part_body \<Rightarrow> \<exists>data ps. search_from p = 0 \<and> 0 < part_count p
              \<and> s = data @ CRLF @ m @ tail_text m ps @ epi \<and> delimiter_free m data
              \<and> current_size p + length data \<le> max_part_size opts
              \<and> within_limits opts m (part_count p) (total_size p + length data) ps
              \<and> evs = map (\<lambda>c. Part_data (part_count p - 1) [c]) data
                  @ Part_end (part_count p - 1) (current p) # script (part_count p) ps
          | Complete \<Rightarrow> evs = []))"

definition advances :: "bytes \<Rightarrow> bytes \<Rightarrow> multipart_event list \<Rightarrow> progress \<Rightarrow> bool" where
  "advances epi rest evs r \<longleftrightarrow> (case r of
     Failed p \<Rightarrow> False
   | Break es p \<Rightarrow> \<exists>evs'. evs = bytewise es @ evs' \<and> on_course epi p rest evs' \<and> (rest = [] \<longrightarrow> mp_state p = Complete)
   | Again es p \<Rightarrow> \<exists>evs'. evs = bytewise es @ evs' \<and> on_course epi p rest evs'
   | Next es p \<Rightarrow> \<exists>evs'. evs = bytewise es @ evs' \<and> on_course epi p rest evs')"

lemma same_parser [simp]:
  "first_marker (p\<lparr>mp_buffer := b\<rparr>) = first_marker p" "first_marker (p\<lparr>search_from := n\<rparr>) = first_marker p"
  "first_marker (p\<lparr>mp_state := st\<rparr>) = first_marker p" "first_marker (p\<lparr>current := c\<rparr>) = first_marker p"
  "first_marker (p\<lparr>part_count := n\<rparr>) = first_marker p" "first_marker (p\<lparr>current_size := n\<rparr>) = first_marker p"
  "first_marker (p\<lparr>total_size := n\<rparr>) = first_marker p"
  by (simp_all add: first_marker_def)

lemma tail_start: "take 2 (tail_text m ps @ s) = CRLF \<or> take 2 (tail_text m ps @ s) = ''--''"
  "2 \<le> length (tail_text m ps)"
  by (cases ps; simp add: serialize_head_text)+

lemma take_buffer: "buf @ rest = s \<Longrightarrow> n \<le> length buf \<Longrightarrow> take n buf = take n s"
  "buf @ rest = s \<Longrightarrow> i + n \<le> length buf \<Longrightarrow> take n (drop i buf) = take n (drop i s)"
  "buf @ rest = s \<Longrightarrow> i \<le> length buf \<Longrightarrow> drop i buf @ rest = drop i s"
  by auto

lemma first_boundary_advances:
  assumes "on_course epi p rest evs" "mp_state p = First_boundary"
  shows "advances epi rest evs (first_boundary_round p)"
proof -
  let ?m = "first_marker p" and ?buf = "mp_buffer p"
  obtain ps where c: "search_from p = 0" "?buf @ rest = ?m @ tail_text ?m ps @ epi"
    "within_limits (mp_options p) ?m (part_count p) (total_size p) ps" "evs = script (part_count p) ps"
    "CR \<notin> set ?m" "\<not> is_error (mp_error p)"
    using assms by (auto simp: on_course_def Let_def)
  have ne: "?m \<noteq> []" by (simp add: first_marker_def)
  have find: "find_sub_from ?m 0 ?buf = (if length ?m \<le> length ?buf then Some 0 else None)"
    using find_sub_prefix [of ?m ?buf rest 0 0] ne c(2) find_sub_front [of ?m "tail_text ?m ps @ epi"] by simp
  show ?thesis
  proof (cases "length ?m \<le> length ?buf")
    case False
    then have "line_marker ?m (search_from p) ?buf = None" using find c(1) by (simp add: line_marker.simps)
    moreover have "rest \<noteq> []" using False c(2) by auto
    ultimately show ?thesis
      using False c assms(2) by (auto simp: advances_def first_boundary_round_def Let_def on_course_def)
  next
    case True
    then have f: "line_marker ?m (search_from p) ?buf = Some 0" using find c(1) by (simp add: line_marker.simps)
    show ?thesis
    proof (cases "length ?buf < length ?m + 2")
      case True
      then have "rest \<noteq> []" using arg_cong [OF c(2), of length] tail_start(2) [of ?m ps] by auto
      then show ?thesis
        using True f c assms(2) by (auto simp: advances_def first_boundary_round_def Let_def on_course_def)
    next
      case False
      have "take 2 (drop (length ?m) ?buf) = take 2 (tail_text ?m ps @ epi)"
        using take_buffer(2) [OF c(2), of "length ?m" 2] False by simp
      then have e: "take 2 (drop (length ?m) ?buf) = CRLF \<or> take 2 (drop (length ?m) ?buf) = ''--''"
        using tail_start(1) [of ?m ps epi] by simp
      have "drop (length ?m) ?buf @ rest = tail_text ?m ps @ epi" using take_buffer(3) [OF c(2), of "length ?m"] True by simp
      then show ?thesis
        using False e f c by (auto simp: advances_def first_boundary_round_def Let_def on_course_def)
    qed
  qed
qed

lemma suffix_advances:
  assumes "on_course epi p rest evs" "mp_state p = Boundary_suffix"
  shows "advances epi rest evs (suffix_round p)"
proof -
  let ?m = "first_marker p" and ?buf = "mp_buffer p"
  obtain ps where c: "search_from p = 0" "?buf @ rest = tail_text ?m ps @ epi"
    "within_limits (mp_options p) ?m (part_count p) (total_size p) ps" "evs = script (part_count p) ps"
    "CR \<notin> set ?m" "\<not> is_error (mp_error p)"
    using assms by (auto simp: on_course_def Let_def)
  show ?thesis
  proof (cases "length ?buf < 2")
    case True
    then have "rest \<noteq> []" using arg_cong [OF c(2), of length] tail_start(2) [of ?m ps] by auto
    then show ?thesis using True assms by (simp add: advances_def suffix_round_def)
  next
    case False
    then have start: "take 2 ?buf = take 2 (tail_text ?m ps @ epi)" using take_buffer(1) [OF c(2), of 2] by simp
    have pre: "prefix w ?buf \<longleftrightarrow> take 2 ?buf = w" if "length w = 2" for w
      using that by (auto simp: prefix_def) (metis append_take_drop_id)
    have rest: "drop 2 ?buf @ rest = drop 2 (tail_text ?m ps @ epi)" using take_buffer(3) [OF c(2), of 2] False by simp
    show ?thesis
      using False c start rest pre [of CRLF] pre [of "''--''"]
      by (cases ps) (auto simp: advances_def suffix_round_def on_course_def Let_def)
  qed
qed

lemma headers_advances:
  assumes "on_course epi p rest evs" "mp_state p = Part_headers"
  shows "advances epi rest evs (headers_round p)"
proof -
  let ?m = "first_marker p" and ?buf = "mp_buffer p" and ?n = "part_count p"
  obtain q ps where c: "search_from p \<le> length (head_text q)"
    "?buf @ rest = serialize_part_head q @ content q @ CRLF @ ?m @ tail_text ?m ps @ epi"
    "within_limits (mp_options p) ?m ?n (total_size p) (q # ps)" "evs = script ?n (q # ps)"
    "CR \<notin> set ?m" "\<not> is_error (mp_error p)"
    using assms by (auto simp: on_course_def Let_def)
  let ?s = "content q @ CRLF @ ?m @ tail_text ?m ps @ epi"
  have q: "printable q" "length (head_text q) \<le> max_part_header (mp_options p)" using c(3) by (auto simp: within_limits_def)
  have find: "find_sub_from (CRLF @ CRLF) (search_from p) ?buf =
      (if length (head_text q) + 4 \<le> length ?buf then Some (length (head_text q)) else None)"
    using find_sub_prefix [of "CRLF @ CRLF" ?buf rest "length (head_text q)" "search_from p"] head_end [OF q(1)] c(1,2)
    by simp
  show ?thesis
  proof (cases "length (head_text q) + 4 \<le> length ?buf")
    case False
    have "rest \<noteq> []" using False arg_cong [OF c(2), of length] by (auto simp: serialize_head_text)
    moreover have "\<not> (length ?buf > max_part_header (mp_options p) \<and> length ?buf - max_part_header (mp_options p) > 3)"
      using False q(2) by auto
    moreover have "on_course epi (p\<lparr>search_from := (if length ?buf > 3 then length ?buf - 3 else 0)\<rparr>) rest evs"
      using False c assms(2) by (auto simp: on_course_def Let_def intro!: exI [of _ q] exI [of _ ps])
    ultimately show ?thesis using False find by (simp add: advances_def headers_round_def Let_def)
  next
    case True
    have full: "?buf @ rest = (head_text q @ CRLF @ CRLF) @ ?s" using c(2) by (simp add: serialize_head_text)
    have "take (length (head_text q)) ?buf = head_text q" using take_buffer(1) [OF full, of "length (head_text q)"] True by simp
    then have head: "parse_part_head (take (length (head_text q)) ?buf) = Inr (read_back q)" using parse_head_text [OF q(1)] by simp
    have rest: "drop (length (head_text q) + 4) ?buf @ rest = ?s"
      using take_buffer(3) [OF full, of "length (head_text q) + 4"] True by simp
    have room: "\<not> ?n \<ge> max_parts (mp_options p)" using c(3) by (simp add: within_limits_def)
    let ?p = "p\<lparr>current := read_back q, current_size := 0, part_count := ?n + 1,
      mp_buffer := drop (length (head_text q) + 4) ?buf, search_from := 0, mp_state := Part_body\<rparr>"
    have "on_course epi ?p rest (map (\<lambda>c. Part_data ?n [c]) (content q) @ Part_end ?n (read_back q) # script (Suc ?n) ps)"
      using c rest by (auto simp: on_course_def Let_def within_limits_def add.assoc intro!: exI [of _ "content q"] exI [of _ ps])
    then show ?thesis
      using True find head room q(2) c(4) by (simp add: advances_def headers_round_def Let_def)
  qed
qed

text \<open>Data of the part leaves the buffer: what remains is on course again.\<close>

lemma emit_on_course:
  assumes "on_course epi p rest evs" "mp_state p = Part_body"
    "mp_buffer p @ rest = data @ CRLF @ first_marker p @ tail_text (first_marker p) ps @ epi"
    "within_limits (mp_options p) (first_marker p) (part_count p) (total_size p + length data) ps"
    "delimiter_free (first_marker p) data" "current_size p + length data \<le> max_part_size (mp_options p)"
    "n \<le> length data" "n \<le> length (mp_buffer p)"
    "evs = map (\<lambda>c. Part_data (part_count p - 1) [c]) data
       @ Part_end (part_count p - 1) (current p) # script (part_count p) ps"
  shows "\<exists>es p1. emit_data n p = Inr (es, p1)
    \<and> bytewise es = map (\<lambda>c. Part_data (part_count p - 1) [c]) (take n data)
    \<and> p1 = p\<lparr>current_size := current_size p + n, total_size := total_size p + n\<rparr>
    \<and> on_course epi (p1\<lparr>mp_buffer := drop n (mp_buffer p)\<rparr>) rest
        (map (\<lambda>c. Part_data (part_count p - 1) [c]) (drop n data)
           @ Part_end (part_count p - 1) (current p) # script (part_count p) ps)"
proof -
  let ?p = "p\<lparr>current_size := current_size p + n, total_size := total_size p + n\<rparr>"
  have total: "total_size p + length data \<le> max_total_size (mp_options p)" using assms(4) by (simp add: within_limits_def)
  have "take n (mp_buffer p) = take n data" using take_buffer(1) [OF assms(3,8)] assms(7) by simp
  then have emit: "\<exists>es. emit_data n p = Inr (es, ?p) \<and> bytewise es = map (\<lambda>c. Part_data (part_count p - 1) [c]) (take n data)"
    using assms(6,7) total by (auto simp: emit_data_def)
  have "drop n (mp_buffer p) @ rest = drop n data @ CRLF @ first_marker p @ tail_text (first_marker p) ps @ epi"
    using take_buffer(3) [OF assms(3,8)] assms(7) by simp
  then have "on_course epi (?p\<lparr>mp_buffer := drop n (mp_buffer p)\<rparr>) rest
      (map (\<lambda>c. Part_data (part_count p - 1) [c]) (drop n data)
         @ Part_end (part_count p - 1) (current p) # script (part_count p) ps)"
    using assms by (auto simp: on_course_def Let_def delimiter_free_drop intro!: exI [of _ "drop n data"] exI [of _ ps])
  with emit show ?thesis by blast
qed

lemma body_advances:
  assumes "on_course epi p rest evs" "mp_state p = Part_body"
  shows "advances epi rest evs (body_round p)"
proof -
  let ?m = "first_marker p" and ?buf = "mp_buffer p" and ?n = "part_count p"
  obtain data ps where c: "search_from p = 0" "0 < ?n" "?buf @ rest = data @ CRLF @ ?m @ tail_text ?m ps @ epi"
    "delimiter_free ?m data" "current_size p + length data \<le> max_part_size (mp_options p)"
    "within_limits (mp_options p) ?m ?n (total_size p + length data) ps"
    "evs = map (\<lambda>c. Part_data (?n - 1) [c]) data @ Part_end (?n - 1) (current p) # script ?n ps"
    "CR \<notin> set ?m" "\<not> is_error (mp_error p)"
    using assms by (auto simp: on_course_def Let_def)
  note emit = emit_on_course [OF assms c(3,6,4,5) _ _ c(7)]
  have len: "length ?buf + length rest = length data + length ?m + length (tail_text ?m ps) + length epi + 2"
    using arg_cong [OF c(3), of length] by simp
  have d: "delimiter p = CRLF @ ?m" "length (delimiter p) = length ?m + 2" by (simp_all add: delimiter_def)
  show ?thesis
  proof (cases "find_sub (CRLF @ ?m) ?buf")
    case None
    let ?k = "length ?buf - (length (delimiter p) + 1)"
    have none: "find_sub (delimiter p) ?buf = None" using None d(1) by simp
    have short: "length ?buf < length data + length ?m + 2" by (rule no_delimiter [OF c(3) None])
    then have rest: "rest \<noteq> []" using len tail_start(2) [of ?m ps] by auto
    show ?thesis
    proof (cases "length ?buf \<le> length (delimiter p) + 1")
      case True
      then show ?thesis using none rest assms by (simp add: advances_def body_round_def Let_def)
    next
      case False
      have "?k \<le> length data" "?k \<le> length ?buf" using short d(2) by auto
      then obtain es p1 where e: "emit_data ?k p = Inr (es, p1)" "bytewise es = map (\<lambda>c. Part_data (?n - 1) [c]) (take ?k data)"
        "on_course epi (p1\<lparr>mp_buffer := drop ?k ?buf\<rparr>) rest (map (\<lambda>c. Part_data (?n - 1) [c]) (drop ?k data)
           @ Part_end (?n - 1) (current p) # script ?n ps)"
        using emit by blast
      have "evs = bytewise es @ map (\<lambda>c. Part_data (?n - 1) [c]) (drop ?k data) @ Part_end (?n - 1) (current p) # script ?n ps"
        unfolding e(2) c(7) by (metis append.assoc append_take_drop_id map_append)
      with e(1,3) False none show ?thesis by (auto simp: advances_def body_round_def Let_def)
    qed
  next
    case (Some i)
    have at: "i + length ?m + 2 \<le> length ?buf" using find_sub_SomeD [OF Some] by simp
    have i: "i = length data \<or> i + length ?m + 2 \<le> length data \<and> prefix (CRLF @ ?m) (drop i data)"
      by (rule next_delimiter [OF c(8,3) Some])
    have split: "evs = map (\<lambda>c. Part_data (?n - 1) [c]) (take k data) @ map (\<lambda>c. Part_data (?n - 1) [c]) (drop k data)
        @ Part_end (?n - 1) (current p) # script ?n ps" for k
      unfolding c(7) by (metis append.assoc append_take_drop_id map_append)
    show ?thesis
    proof (cases "length ?buf < i + length ?m + 4")
      case True
      have "i \<le> length data" "i \<le> length ?buf" using i at by auto
      then obtain es p1 where e: "emit_data i p = Inr (es, p1)" "bytewise es = map (\<lambda>c. Part_data (?n - 1) [c]) (take i data)"
        "on_course epi (p1\<lparr>mp_buffer := drop i ?buf\<rparr>) rest (map (\<lambda>c. Part_data (?n - 1) [c]) (drop i data)
           @ Part_end (?n - 1) (current p) # script ?n ps)"
        using emit by blast
      have "rest \<noteq> []" using True i len tail_start(2) [of ?m ps] by auto
      with e True Some d split [of i] show ?thesis by (auto simp: advances_def body_round_def Let_def)
    next
      case False
      let ?fin = "take 2 (drop (i + length ?m + 2) ?buf)"
      have ending: "?fin = take 2 (drop (i + length ?m + 2) (data @ CRLF @ ?m @ tail_text ?m ps @ epi))"
        using take_buffer(2) [OF c(3), of "i + length ?m + 2" 2] False by simp
      show ?thesis
      proof (cases "i = length data")
        case True
        then have e2: "?fin = CRLF \<or> ?fin = ''--''" using ending tail_start(1) [of ?m ps epi] by simp
        have "i \<le> length data" "i \<le> length ?buf" using True at by auto
        then obtain es p1 where e: "emit_data i p = Inr (es, p1)" "bytewise es = map (\<lambda>c. Part_data (?n - 1) [c]) (take i data)"
          "p1 = p\<lparr>current_size := current_size p + i, total_size := total_size p + i\<rparr>"
          using emit by blast
        have "drop (i + length ?m + 2) ?buf @ rest = tail_text ?m ps @ epi"
          using take_buffer(3) [OF c(3), of "i + length ?m + 2"] at True by simp
        then have "on_course epi (p1\<lparr>mp_buffer := drop (i + length ?m + 2) ?buf, mp_state := Boundary_suffix\<rparr>) rest (script ?n ps)"
          using c True by (auto simp: e(3) on_course_def Let_def)
        moreover have "evs = bytewise (es @ [Part_end (part_count p1 - 1) (current p1)]) @ script ?n ps"
          using c(7) e(2,3) True by (simp add: bytewise_append)
        ultimately show ?thesis
          using e(1) e2 False Some d by (auto simp: advances_def body_round_def Let_def add.assoc)
      next
        case False': False
        then have inside: "i + length ?m + 2 \<le> length data" "prefix (CRLF @ ?m) (drop i data)" using i by auto
        have "i < length data" using inside(1) by simp
        from c(4) [unfolded delimiter_free_def, rule_format, OF this inside(2)]
        have free: "take 2 (drop (i + length ?m + 2) (data @ CRLF)) \<notin> {CRLF, ''--''}" .
        have same: "take 2 (drop (i + length ?m + 2) (data @ CRLF @ s)) = take 2 (drop (i + length ?m + 2) (data @ CRLF))" for s
        proof -
          obtain r where r: "length data = i + length ?m + 2 + r" using inside(1) le_Suc_ex by blast
          then have "drop (i + length ?m + 2) (data @ w) = drop (i + length ?m + 2) data @ w" for w by simp
          moreover have "take 2 (u @ CRLF @ s) = take 2 (u @ CRLF)" for u :: bytes
            by (cases u rule: list.exhaust; cases "tl u") auto
          ultimately show ?thesis by metis
        qed
        have "?fin = take 2 (drop (i + length ?m + 2) (data @ CRLF))" by (rule trans [OF ending same])
        with free have e2: "?fin \<noteq> CRLF" "?fin \<noteq> ''--''" by (metis insertCI)+
        have "i + 2 \<le> length data" "i + 2 \<le> length ?buf" using inside at by auto
        then obtain es p1 where e: "emit_data (i + 2) p = Inr (es, p1)"
          "bytewise es = map (\<lambda>c. Part_data (?n - 1) [c]) (take (i + 2) data)"
          "on_course epi (p1\<lparr>mp_buffer := drop (i + 2) ?buf\<rparr>) rest (map (\<lambda>c. Part_data (?n - 1) [c]) (drop (i + 2) data)
             @ Part_end (?n - 1) (current p) # script ?n ps)"
          using emit by blast
        then show ?thesis
          using e2 False Some d split [of "i + 2"] by (auto simp: advances_def body_round_def Let_def add.assoc)
      qed
    qed
  qed
qed

section \<open>Feeding a form\<close>

lemma round_advances: "on_course epi p rest evs \<Longrightarrow> advances epi rest evs (parse_round p)"
proof (cases "mp_state p")
  case Complete
  assume "on_course epi p rest evs"
  with Complete show ?thesis by (auto simp: parse_round_def advances_def on_course_def Let_def)
qed (simp_all add: parse_round_def first_boundary_advances suffix_advances headers_advances body_advances)

lemma parse_available_on_course:
  "on_course epi p rest evs \<Longrightarrow>
     \<exists>es p' evs'. parse_available p = (es, p') \<and> evs = bytewise es @ evs' \<and> on_course epi p' rest evs'
       \<and> (rest = [] \<longrightarrow> mp_state p' = Complete)"
proof (induction p arbitrary: evs rule: parse_available.induct)
  case (1 p)
  have on: "\<exists>es p' evs'. (case parse_available p1 of (es', p2) \<Rightarrow> (es1 @ es', p2)) = (es, p') \<and> evs = bytewise es @ evs'
      \<and> on_course epi p' rest evs' \<and> (rest = [] \<longrightarrow> mp_state p' = Complete)"
    if ih: "\<exists>es p' evs'. parse_available p1 = (es, p') \<and> evs1 = bytewise es @ evs' \<and> on_course epi p' rest evs'
      \<and> (rest = [] \<longrightarrow> mp_state p' = Complete)" and evs: "evs = bytewise es1 @ evs1" for p1 es1 evs1
  proof -
    from ih obtain es p' evs' where "parse_available p1 = (es, p')" "evs1 = bytewise es @ evs'" "on_course epi p' rest evs'"
      "rest = [] \<longrightarrow> mp_state p' = Complete" by blast
    with evs show ?thesis by (auto simp: bytewise_append)
  qed
  have adv: "advances epi rest evs (parse_round p)" by (rule round_advances [OF 1(3)])
  show ?case
  proof (cases "parse_round p")
    case (Next es1 p1)
    then obtain evs1 where e: "evs = bytewise es1 @ evs1" "on_course epi p1 rest evs1" using adv by (auto simp: advances_def)
    have stuck: "\<not> (length (mp_buffer p1) = length (mp_buffer p) \<and> mp_state p1 = mp_state p)"
      using next_shrinks [OF Next] by simp
    then have "parse_available p = (case parse_available p1 of (es', p2) \<Rightarrow> (es1 @ es', p2))"
      unfolding parse_available.simps [of p] Next progress.case by (rule if_not_P)
    then show ?thesis using on [OF 1(1) [OF Next stuck e(2)] e(1)] by (simp only:)
  next
    case (Again es1 p1)
    then obtain evs1 where e: "evs = bytewise es1 @ evs1" "on_course epi p1 rest evs1" using adv by (auto simp: advances_def)
    show ?thesis using on [OF 1(2) [OF Again e(2)] e(1)] Again by (simp add: parse_available.simps [of p])
  next
    case (Break es1 p1)
    then show ?thesis using adv by (auto simp: advances_def parse_available.simps [of p])
  next
    case (Failed p1)
    then show ?thesis using adv by (simp add: advances_def)
  qed
qed

lemma on_course_append: "on_course epi (p\<lparr>mp_buffer := mp_buffer p @ x\<rparr>) rest evs = on_course epi p (x @ rest) evs"
  by (cases "mp_state p") (simp_all add: on_course_def Let_def)

lemma feed_blocks_on_course:
  "on_course epi p (input @ rest) evs \<Longrightarrow> (input @ rest = [] \<longrightarrow> mp_state p = Complete) \<Longrightarrow>
     \<exists>es p' evs'. feed_blocks acc input p = (Inr (acc @ es), p') \<and> evs = bytewise es @ evs' \<and> on_course epi p' rest evs'
       \<and> (rest = [] \<longrightarrow> mp_state p' = Complete)"
proof (induction acc input p arbitrary: evs rule: feed_blocks.induct)
  case (1 acc input p)
  show ?case
  proof (cases "input = [] \<or> mp_state p = Complete")
    case True
    then have "on_course epi p rest evs"
    proof
      assume "mp_state p = Complete"
      then show ?thesis using 1(2) by (simp add: on_course_def Let_def)
    qed (use 1(2) in simp)
    moreover have "rest = [] \<longrightarrow> mp_state p = Complete" using True 1(3) by auto
    ultimately show ?thesis
      using True by (intro exI [of _ "[]"] exI [of _ p] exI [of _ evs]) (simp add: feed_blocks.simps [of acc input p])
  next
    case False
    let ?p = "p\<lparr>mp_buffer := mp_buffer p @ take feed_block input\<rparr>" and ?rest = "drop feed_block input @ rest"
    have "on_course epi ?p ?rest evs" using 1(2) by (simp add: on_course_append append.assoc [symmetric])
    then obtain es p1 evs1 where p1: "parse_available ?p = (es, p1)" "evs = bytewise es @ evs1" "on_course epi p1 ?rest evs1"
      "?rest = [] \<longrightarrow> mp_state p1 = Complete" using parse_available_on_course by blast
    then have ok: "\<not> is_error (mp_error p1)" by (simp add: on_course_def Let_def)
    from 1(1) [OF False p1(1) [symmetric] ok p1(3,4)] obtain es2 p' evs' where
      "feed_blocks (acc @ es) (drop feed_block input) p1 = (Inr ((acc @ es) @ es2), p')" "evs1 = bytewise es2 @ evs'"
      "on_course epi p' rest evs'" "rest = [] \<longrightarrow> mp_state p' = Complete" by blast
    then show ?thesis
      using False p1(1,2) ok
      by (intro exI [of _ "es @ es2"] exI [of _ p'] exI [of _ evs']) (simp add: feed_blocks.simps [of acc input p] bytewise_append)
  qed
qed

text \<open>Pieces fed one after the other, up to the first failure.\<close>

fun feed_pieces :: "bytes list \<Rightarrow> multipart_parser \<Rightarrow> multipart_event list result \<times> multipart_parser" where
  "feed_pieces [] p = (Inr [], p)"
| "feed_pieces (x # xs) p = (case feed_parser x p of
     (Inl e, p1) \<Rightarrow> (Inl e, p1)
   | (Inr es, p1) \<Rightarrow> (case feed_pieces xs p1 of (Inl e, p2) \<Rightarrow> (Inl e, p2) | (Inr fs, p2) \<Rightarrow> (Inr (es @ fs), p2)))"

lemma feed_pieces_on_course:
  "on_course epi p (concat pieces) evs \<Longrightarrow> (concat pieces = [] \<longrightarrow> mp_state p = Complete) \<Longrightarrow>
     \<exists>es p'. feed_pieces pieces p = (Inr es, p') \<and> evs = bytewise es \<and> parser_complete p'"
proof (induction pieces arbitrary: p evs)
  case Nil
  then show ?case by (simp add: on_course_def Let_def parser_complete_def)
next
  case (Cons x xs)
  have ok: "\<not> is_error (mp_error p)" using Cons.prems(1) by (simp add: on_course_def Let_def)
  obtain es p1 evs1 where p1: "feed_blocks [] x p = (Inr es, p1)" "evs = bytewise es @ evs1" "on_course epi p1 (concat xs) evs1"
    "concat xs = [] \<longrightarrow> mp_state p1 = Complete"
    using feed_blocks_on_course [of epi p x "concat xs" evs "[]"] Cons.prems by auto
  from Cons.IH [OF p1(3,4)] obtain fs p' where "feed_pieces xs p1 = (Inr fs, p')" "evs1 = bytewise fs" "parser_complete p'" by blast
  then show ?case using p1(1,2) ok by (simp add: feed_parser_def bytewise_append)
qed

lemma new_parser_on_course:
  assumes "valid_boundary b" "hd b \<noteq> SP" "within_limits opts (''--'' @ b) 0 0 ps"
  shows "on_course epi (new_parser opts (content_type_for b)) (form_text (''--'' @ b) ps @ epi) (script 0 ps)"
proof -
  have "dropWhile (\<lambda>c. c = SP) b = b" using assms(2) by (cases b) auto
  then have "multipart_boundary (content_type_for b) = Inr b"
    using boundary_announced [OF assms(1)] assms(1) by (simp add: multipart_boundary_def)
  moreover have "CR \<notin> set (''--'' @ b)" by (rule boundary_no_cr [OF assms(1)])
  ultimately show ?thesis
    using assms(3) by (auto simp: new_parser_def on_course_def first_marker_def form_text_tail Let_def)
qed

text \<open>C24: A form cut into pieces in any way is read by the incremental parser as its parts: the events name each
  part once, in order, with the metadata the printed head carries, and their data is the content of the part
  byte by byte, even when the content holds a boundary that does not end the part.  Nothing fails, and the
  parser is complete, whatever follows the form.\<close>

theorem parser_reads_form:
  assumes "valid_boundary b" "hd b \<noteq> SP" "within_limits opts (''--'' @ b) 0 0 ps"
    and "concat pieces = form_text (''--'' @ b) ps @ epi"
  shows "\<exists>es p. feed_pieces pieces (new_parser opts (content_type_for b)) = (Inr es, p) \<and> bytewise es = script 0 ps
    \<and> parser_complete p \<and> finish_parser p = (Inr [], p)"
proof -
  have "form_text (''--'' @ b) ps \<noteq> []" by (cases ps) auto
  then obtain es p where "feed_pieces pieces (new_parser opts (content_type_for b)) = (Inr es, p)" "script 0 ps = bytewise es"
    "parser_complete p"
    using feed_pieces_on_course [of epi "new_parser opts (content_type_for b)" pieces "script 0 ps"]
      new_parser_on_course [OF assms(1-3), of epi] assms(4) by auto
  then show ?thesis by (simp add: finish_parser_def feed_parser_def feed_blocks.simps [of "[]" "[]"] parser_complete_def)
qed

section \<open>Bounds for any input\<close>

text \<open>The bytes of data a log of events has in all, and for one part.\<close>

fun data_length :: "multipart_event list \<Rightarrow> nat" where
  "data_length [] = 0"
| "data_length (Part_data i d # es) = length d + data_length es"
| "data_length (e # es) = data_length es"

fun part_length :: "nat \<Rightarrow> multipart_event list \<Rightarrow> nat" where
  "part_length i [] = 0"
| "part_length i (Part_data j d # es) = (if i = j then length d else 0) + part_length i es"
| "part_length i (e # es) = part_length i es"

lemma data_length_append [simp]: "data_length (es @ fs) = data_length es + data_length fs"
  by (induction es rule: data_length.induct) auto

lemma part_length_append [simp]: "part_length i (es @ fs) = part_length i es + part_length i fs"
  by (induction es rule: data_length.induct) auto

text \<open>What the parser counts agrees with the log, and is within the limits.\<close>

definition counted :: "multipart_options \<Rightarrow> multipart_event list \<Rightarrow> multipart_parser \<Rightarrow> bool" where
  "counted opts log p \<longleftrightarrow> mp_options p = opts \<and> part_count p \<le> max_parts opts
     \<and> data_length log = total_size p \<and> total_size p \<le> max_total_size opts
     \<and> (\<forall>i. part_length i log \<le> max_part_size opts) \<and> (\<forall>i \<ge> part_count p. part_length i log = 0)
     \<and> (mp_state p = Part_body \<longrightarrow> 0 < part_count p \<and> part_length (part_count p - 1) log = current_size p)"

lemma emit_counted:
  assumes "counted opts log p" "mp_state p = Part_body" "emit_data n p = Inr (es, p1)" "n \<le> length (mp_buffer p)"
  shows "counted opts (log @ es) p1"
proof -
  note same = emit_data_same [OF assms(3)]
  show ?thesis
  proof (cases "n = 0")
    case True
    then show ?thesis using same assms(1) by (simp add: counted_def)
  next
    case False
    then have es: "es = [Part_data (part_count p - 1) (take n (mp_buffer p))]" "length (take n (mp_buffer p)) = n"
      using same assms(4) by simp_all
    have room: "n \<le> max_part_size opts" "current_size p \<le> max_part_size opts - n" "n \<le> max_total_size opts"
      "total_size p \<le> max_total_size opts - n"
      using assms(1,3) False by (auto simp: emit_data_def counted_def split: if_splits)
    have pl: "part_length i es = (if i = part_count p - 1 then n else 0)" for i using es by auto
    have "part_length i (log @ es) \<le> max_part_size opts" for i
      using assms(1,2) room(1,2) by (auto simp: counted_def pl)
    moreover have "part_length i (log @ es) = 0" if "i \<ge> part_count p" for i
      using assms(1,2) that by (auto simp: counted_def pl)
    moreover have "data_length es = n" using es by simp
    ultimately show ?thesis
      using same assms(1,2) room(3,4) by (auto simp: counted_def pl)
  qed
qed

definition keeps_count :: "multipart_options \<Rightarrow> multipart_event list \<Rightarrow> progress \<Rightarrow> bool" where
  "keeps_count opts log r \<longleftrightarrow> (case r of
     Failed p \<Rightarrow> is_error (mp_error p)
   | Break es p \<Rightarrow> counted opts (log @ es) p \<and> length (mp_buffer p) \<le> max_part_header opts + length (first_marker p) + 3
   | Again es p \<Rightarrow> counted opts (log @ es) p
   | Next es p \<Rightarrow> counted opts (log @ es) p)"

lemma body_counted:
  assumes "counted opts log p" "mp_state p = Part_body"
  shows "keeps_count opts log (body_round p)"
proof -
  have failed: "is_error (mp_error p1)" if "emit_data n p = Inl p1" for n p1
    using that by (auto simp: emit_data_def split: if_splits)
  have emitted: "counted opts (log @ es) p1 \<and> mp_state p1 = Part_body \<and> first_marker p1 = first_marker p"
    if "emit_data n p = Inr (es, p1)" "n \<le> length (mp_buffer p)" for n es p1
    using emit_counted [OF assms that] emit_data_same [OF that(1)] assms(2) by (auto simp: first_marker_def)
  have keep: "counted opts l (p1\<lparr>mp_buffer := b\<rparr>)" if "counted opts l p1" for l p1 b
    using that by (simp add: counted_def)
  have ended: "counted opts (l @ [Part_end i c]) (p1\<lparr>mp_buffer := b, mp_state := Boundary_suffix\<rparr>)"
    if "counted opts l p1" for l p1 b i c
    using that by (simp add: counted_def)
  have d: "length (delimiter p) = length (first_marker p) + 2" by (simp add: delimiter_def)
  show ?thesis
  proof (cases "find_sub (delimiter p) (mp_buffer p)")
    case None
    let ?k = "length (mp_buffer p) - (length (delimiter p) + 1)"
    show ?thesis
    proof (cases "length (mp_buffer p) \<le> length (delimiter p) + 1")
      case True
      then show ?thesis using None assms d by (simp add: keeps_count_def body_round_def Let_def)
    next
      case False
      then show ?thesis
        using None failed [of ?k] emitted [of ?k] keep
        by (cases "emit_data ?k p") (auto simp: keeps_count_def body_round_def Let_def)
    qed
  next
    case (Some i)
    have at: "i + length (delimiter p) \<le> length (mp_buffer p)" using find_sub_SomeD [OF Some] by simp
    then have le: "i \<le> length (mp_buffer p)" "i + 2 \<le> length (mp_buffer p)" using d by auto
    let ?suffix = "i + length (delimiter p)"
    show ?thesis
    proof (cases "length (mp_buffer p) < ?suffix + 2")
      case True
      then show ?thesis
        using Some failed [of i] emitted [of i, OF _ le(1)] keep d
        by (cases "emit_data i p") (auto simp: keeps_count_def body_round_def Let_def)
    next
      case False
      define ending where "ending = take 2 (drop ?suffix (mp_buffer p))"
      show ?thesis
      proof (cases "ending \<noteq> CRLF \<and> ending \<noteq> ''--''")
        case True
        then have "body_round p = (case emit_data (i + 2) p of
            Inl p1 \<Rightarrow> Failed p1 | Inr (evs, p1) \<Rightarrow> Again evs (p1\<lparr>mp_buffer := drop (i + 2) (mp_buffer p)\<rparr>))"
          using False Some by (simp add: body_round_def Let_def ending_def)
        then show ?thesis
          using failed [of "i + 2"] emitted [of "i + 2", OF _ le(2)] keep
          by (cases "emit_data (i + 2) p") (auto simp: keeps_count_def)
      next
        case ends: False
        have "body_round p = (case emit_data i p of
            Inl p1 \<Rightarrow> Failed p1
          | Inr (evs, p1) \<Rightarrow> Next (evs @ [Part_end (part_count p1 - 1) (current p1)])
              (p1\<lparr>mp_buffer := drop ?suffix (mp_buffer p), mp_state := Boundary_suffix\<rparr>))"
          using False Some ends by (auto simp: body_round_def Let_def ending_def)
        then show ?thesis
          using failed [of i] emitted [of i, OF _ le(1)] ended [of "log @ _"]
          by (cases "emit_data i p") (auto simp: keeps_count_def)
      qed
    qed
  qed
qed

lemma round_counted: "counted opts log p \<Longrightarrow> keeps_count opts log (parse_round p)"
proof (cases "mp_state p")
  case First_boundary
  assume "counted opts log p"
  with First_boundary show ?thesis
    by (auto simp: parse_round_def keeps_count_def first_boundary_round_def counted_def Let_def fail_parser_def
        split: option.split)
next
  case Part_headers
  assume c: "counted opts log p"
  with Part_headers show ?thesis
    by (auto simp: parse_round_def keeps_count_def headers_round_def counted_def Let_def fail_parser_def
        split: option.split sum.split)
next
  case Boundary_suffix
  assume "counted opts log p"
  with Boundary_suffix show ?thesis
    by (auto simp: parse_round_def keeps_count_def suffix_round_def counted_def Let_def fail_parser_def)
next
  case Complete
  assume "counted opts log p"
  with Complete show ?thesis by (auto simp: parse_round_def keeps_count_def counted_def)
next
  case Part_body
  assume "counted opts log p"
  with Part_body show ?thesis by (simp add: parse_round_def body_counted)
qed

lemma parse_available_counted:
  "counted opts log p \<Longrightarrow> parse_available p = (es, p') \<Longrightarrow> \<not> is_error (mp_error p') \<Longrightarrow>
     counted opts (log @ es) p' \<and> length (mp_buffer p') \<le> max_part_header opts + length (first_marker p') + 3"
proof (induction p arbitrary: log es rule: parse_available.induct)
  case (1 p)
  have round: "keeps_count opts log (parse_round p)" by (rule round_counted [OF 1(3)])
  show ?case
  proof (cases "parse_round p")
    case (Next es1 p1)
    then have c: "counted opts (log @ es1) p1" using round by (simp add: keeps_count_def)
    have stuck: "\<not> (length (mp_buffer p1) = length (mp_buffer p) \<and> mp_state p1 = mp_state p)"
      using next_shrinks [OF Next] by simp
    then have "parse_available p = (case parse_available p1 of (es', p2) \<Rightarrow> (es1 @ es', p2))"
      unfolding parse_available.simps [of p] Next progress.case by (rule if_not_P)
    then obtain es2 where "parse_available p1 = (es2, p')" "es = es1 @ es2"
      using 1(4) by (cases "parse_available p1") simp
    then show ?thesis using 1(1) [OF Next stuck c] 1(5) by simp
  next
    case (Again es1 p1)
    then have c: "counted opts (log @ es1) p1" using round by (simp add: keeps_count_def)
    obtain es2 where "parse_available p1 = (es2, p')" "es = es1 @ es2"
      using 1(4) Again by (cases "parse_available p1") (simp add: parse_available.simps [of p])
    then show ?thesis using 1(2) [OF Again c] 1(5) by simp
  next
    case (Break es1 p1)
    then show ?thesis using round 1(4) by (simp add: keeps_count_def parse_available.simps [of p])
  next
    case (Failed p1)
    then show ?thesis using round 1(4,5) by (simp add: keeps_count_def parse_available.simps [of p])
  qed
qed

definition bounded_parser :: "multipart_options \<Rightarrow> multipart_event list \<Rightarrow> multipart_parser \<Rightarrow> bool" where
  "bounded_parser opts log p \<longleftrightarrow>
     counted opts log p \<and> length (mp_buffer p) \<le> max_part_header opts + length (first_marker p) + 3"

lemma feed_blocks_bounded:
  "bounded_parser opts (log @ acc) p \<Longrightarrow> feed_blocks acc input p = (Inr es, p') \<Longrightarrow> bounded_parser opts (log @ es) p'"
proof (induction acc input p rule: feed_blocks.induct)
  case (1 acc input p)
  let ?p = "p\<lparr>mp_buffer := mp_buffer p @ take feed_block input\<rparr>"
  show ?case
  proof (cases "input = [] \<or> mp_state p = Complete")
    case True
    then show ?thesis using 1(2,3) by (simp add: feed_blocks.simps [of acc input p])
  next
    case False
    obtain new p1 where p1: "parse_available ?p = (new, p1)" by (rule prod.exhaust)
    have ok: "\<not> is_error (mp_error p1)" "feed_blocks (acc @ new) (drop feed_block input) p1 = (Inr es, p')"
      using False p1 1(3) by (simp_all add: feed_blocks.simps [of acc input p] split: if_splits)
    have "counted opts (log @ acc) ?p" using 1(2) by (simp add: bounded_parser_def counted_def)
    then have "bounded_parser opts (log @ acc @ new) p1"
      using parse_available_counted [of opts "log @ acc" ?p new p1] p1 ok(1) by (simp add: bounded_parser_def)
    then show ?thesis using 1(1) [OF False p1 [symmetric] ok(1)] ok(2) by simp
  qed
qed

lemma feed_pieces_bounded:
  "bounded_parser opts log p \<Longrightarrow> feed_pieces pieces p = (Inr es, p') \<Longrightarrow> bounded_parser opts (log @ es) p'"
proof (induction pieces arbitrary: log p es)
  case (Cons x xs)
  obtain es1 p1 where f: "feed_parser x p = (Inr es1, p1)"
    using Cons.prems(2) by (cases "feed_parser x p") (auto split: sum.splits)
  then obtain es2 where a: "feed_pieces xs p1 = (Inr es2, p')" "es = es1 @ es2"
    using Cons.prems(2) by (auto split: sum.splits prod.splits)
  have "feed_blocks [] x p = (Inr es1, p1)" using f by (simp add: feed_parser_def split: if_splits)
  then have "bounded_parser opts (log @ es1) p1" using feed_blocks_bounded [of opts log "[]" p x es1 p1] Cons.prems(1) by simp
  then show ?case using Cons.IH a by fastforce
qed simp

text \<open>C25: Whatever bytes arrive, a parser that has not failed holds no more than a head and a delimiter, and has given
  out no more parts, data in all and data of any one part than its options allow.\<close>

theorem parser_limits:
  assumes "feed_pieces pieces (new_parser opts content_type) = (Inr es, p)"
  shows "length (mp_buffer p) \<le> max_part_header opts + length (first_marker p) + 3 \<and> part_count p \<le> max_parts opts
    \<and> data_length es \<le> max_total_size opts \<and> part_length i es \<le> max_part_size opts"
proof -
  have "bounded_parser opts [] (new_parser opts content_type)"
    by (simp add: bounded_parser_def counted_def new_parser_def Let_def split: sum.split)
  from feed_pieces_bounded [OF this assms] show ?thesis by (simp add: bounded_parser_def counted_def)
qed

section \<open>What a writer writes\<close>

text \<open>The bytes of a part, and whether its announced size is true and its producer returns.\<close>

definition written_data :: "writer_part \<Rightarrow> bytes" where
  "written_data p = (case wp_producer p of Some q \<Rightarrow> produced q | None \<Rightarrow> wp_data p)"

definition returning :: "writer_part \<Rightarrow> bool" where
  "returning p \<longleftrightarrow> (case wp_producer p of Some q \<Rightarrow> returns q | None \<Rightarrow> True)"

definition written_part :: "writer_part \<Rightarrow> part" where
  "written_part p = (wp_metadata p)\<lparr>content := written_data p\<rparr>"

lemma produced_while_open: "returns q \<Longrightarrow> produced (while_open q r) = produced q @ produced r"
  by (induction q) simp_all

lemma returns_while_open: "returns (while_open q r) = (returns q \<and> returns r)"
  by (induction q) simp_all

lemma write_then_simps [simp]:
  "produced (write_then d q) = d @ produced q" "returns (write_then d q) = returns q"
  by (simp_all add: write_then_def)

lemma serialize_content [simp]: "serialize_part_head (p\<lparr>content := c\<rparr>) = serialize_part_head p"
  by (simp add: serialize_part_head_def disposition_def)

lemma written_part_simps [simp]:
  "serialize_part_head (written_part p) = serialize_part_head (wp_metadata p)" "content (written_part p) = written_data p"
  by (simp_all add: written_part_def)

lemma write_parts_produced:
  "list_all returning ps \<Longrightarrow>
     produced (write_parts b ps) = form_text (''--'' @ b) (map written_part ps) \<and> returns (write_parts b ps)"
proof (induction ps)
  case (Cons p ps)
  then show ?case
    by (cases "wp_producer p")
      (auto simp: Let_def part_prefix_def written_data_def returning_def produced_while_open
        returns_while_open)
qed simp

lemma parts_length_value:
  "list_all (\<lambda>p. wp_size p = Some (length (written_data p))) ps \<Longrightarrow> parts_length b ps acc = Some n \<Longrightarrow>
     n = acc + length (form_text (''--'' @ b) (map written_part ps))"
proof (induction ps arbitrary: acc)
  case Nil
  then show ?case by (simp add: add_size_def split: if_splits)
next
  case (Cons p ps)
  let ?t = "acc + length (part_prefix b p) + length (written_data p) + 2"
  have rest: "parts_length b ps ?t = Some n"
    using Cons.prems by (auto simp: add_size_def Let_def split: if_splits bind_splits option.splits)
  have "n = ?t + length (form_text (''--'' @ b) (map written_part ps))"
    by (rule Cons.IH [OF _ rest]) (use Cons.prems in simp)
  then show ?case by (simp add: part_prefix_def)
qed

text \<open>C27: When every write succeeds, a writer writes the form of its parts, whole and closed, and returns; the length
  it announces, if it announces one, is the length of what it writes, provided the sizes of its parts are true.\<close>

theorem writer_writes_form:
  assumes "list_all returning (wr_parts w)"
  shows "produced (multipart_producer w) = form_text (''--'' @ wr_boundary w) (map written_part (wr_parts w))
    \<and> returns (multipart_producer w)
    \<and> (list_all (\<lambda>p. wp_size p = Some (length (written_data p))) (wr_parts w) \<longrightarrow>
         writer_length w \<in> {None, Some (length (produced (multipart_producer w)))})"
  using write_parts_produced [OF assms, of "wr_boundary w"] parts_length_value [of "wr_parts w" "wr_boundary w" 0]
  by (cases "writer_length w") (simp_all add: multipart_producer_def writer_length_def)


section \<open>A form\<close>

definition note_part :: part where
  "note_part = \<lparr>part_name = ''a'' @ [DQUOTE, BSLASH], filename = [], part_type = [], part_fields = [], content = ''hi''\<rparr>"

definition text_part :: part where
  "text_part = \<lparr>part_name = ''f'', filename = ''x;y'', part_type = ''text/plain'', part_fields = [(''X-A'', ''1'')],
     content = ''p'' @ CRLF @ ''--Xy''\<rparr>"

definition small_options :: multipart_options where
  "small_options = \<lparr>max_parts = 2, max_part_header = 200, max_part_size = 10, max_total_size = 10\<rparr>"

lemma sample_boundary: "valid_boundary ''X''" "hd ''X'' \<noteq> SP" "valid_boundary ''Z''" "hd ''Z'' \<noteq> SP"
  by code_simp+

lemma sample_printable: "printable note_part" "printable text_part"
  by code_simp+

lemma sample_free: "find_sub (CRLF @ ''--'' @ ''Z'') (content note_part) = None"
  "find_sub (CRLF @ ''--'' @ ''Z'') (content text_part) = None"
  by code_simp+


lemma sample_limits: "within_limits small_options (''--'' @ ''X'') 0 0 [note_part, text_part]"
proof -
  have "delimiter_free (''--'' @ ''X'') (content note_part)" by (simp add: delimiter_free_def note_part_def)
  moreover have "delimiter_free (''--'' @ ''X'') (content text_part)"
    by (auto simp: delimiter_free_def text_part_def less_Suc_eq numeral_eq_Suc)
  moreover have "length (head_text note_part) \<le> 200" "length (head_text text_part) \<le> 200" by code_simp+
  ultimately show ?thesis
    using sample_printable by (simp add: within_limits_def small_options_def) (simp add: note_part_def text_part_def)
qed

text \<open>The content of the second part holds the boundary, followed by a letter.\<close>

lemma parser_reads_form_witness:
  "\<exists>es p. feed_pieces (map (\<lambda>c. [c]) (form_text (''--'' @ ''X'') [note_part, text_part])) (new_parser small_options (content_type_for ''X'')) = (Inr es, p)
    \<and> bytewise es = script 0 [note_part, text_part] \<and> parser_complete p \<and> finish_parser p = (Inr [], p)"
proof -
  have "concat (map (\<lambda>c. [c]) s) = s" for s :: bytes by (induction s) simp_all
  then have "concat (map (\<lambda>c. [c]) (form_text (''--'' @ ''X'') [note_part, text_part])) =
      form_text (''--'' @ ''X'') [note_part, text_part] @ []" by simp
  from parser_reads_form [OF sample_boundary(1,2) sample_limits this] show ?thesis .
qed

lemma parser_limits_witness:
  "\<exists>es p. feed_pieces [form_text (''--'' @ ''X'') [note_part, text_part]] (new_parser small_options (content_type_for ''X'')) = (Inr es, p)
    \<and> length (mp_buffer p) \<le> 200 + length (first_marker p) + 3 \<and> part_count p \<le> 2
    \<and> data_length es \<le> 10 \<and> part_length 1 es \<le> 10"
proof -
  let ?p = "new_parser small_options (content_type_for ''X'')" and ?t = "form_text (''--'' @ ''X'') [note_part, text_part]"
  have "on_course [] ?p (?t @ []) (script 0 [note_part, text_part])"
    by (rule new_parser_on_course [OF sample_boundary(1,2) sample_limits])
  then obtain es p where f: "feed_pieces [?t] ?p = (Inr es, p)"
    using feed_pieces_on_course [of "[]" ?p "[?t]" "script 0 [note_part, text_part]"] by auto
  from parser_limits [OF f, of 1] show ?thesis using f by (simp add: small_options_def)
qed


definition sample_writer :: multipart_writer where
  "sample_writer = \<lparr>wr_boundary = ''X'', wr_parts =
     [\<lparr>wp_metadata = note_part, wp_producer = None, wp_size = Some 2, wp_data = ''hi''\<rparr>,
      \<lparr>wp_metadata = text_part, wp_producer = Some (Write ''ab'' (\<lambda>ok. if ok then Write ''c'' (\<lambda>ok. Produced) else Produced)),
       wp_size = Some 3, wp_data = []\<rparr>]\<rparr>"

lemma writer_writes_form_witness:
  "produced (multipart_producer sample_writer) =
     form_text (''--'' @ ''X'') [note_part\<lparr>content := ''hi''\<rparr>, text_part\<lparr>content := ''abc''\<rparr>]
   \<and> returns (multipart_producer sample_writer)
   \<and> writer_length sample_writer \<in> {None, Some (length (produced (multipart_producer sample_writer)))}"
proof -
  have w: "list_all returning (wr_parts sample_writer)"
    "list_all (\<lambda>p. wp_size p = Some (length (written_data p))) (wr_parts sample_writer)"
    "map written_part (wr_parts sample_writer) = [note_part\<lparr>content := ''hi''\<rparr>, text_part\<lparr>content := ''abc''\<rparr>]"
    "wr_boundary sample_writer = ''X''"
    by (simp_all add: sample_writer_def returning_def written_part_def written_data_def)
  show ?thesis using writer_writes_form [OF w(1)] w(2) unfolding w(3,4) by blast
qed

end
