(* ===== verification/Read_Buffer.thy ===== *)
theory Read_Buffer
  imports Errors
begin

text \<open>
  The incremental read buffer, \<^verbatim>\<open>class ReadBuffer\<close> of \<^verbatim>\<open>src/detail.hpp\<close>: a string and a cursor, with
  the tail moved only when an append needs the room.  The capacity of a \<^verbatim>\<open>std::string\<close> is the
  implementation's choice and decides only when the storage is compacted, so it is an argument.
  \<open>byte_queue\<close> is the interface the protocol code relies on; the rest of the development uses the
  view of a buffer for the buffer, which the interpretation justifies.
\<close>

section \<open>The buffer\<close>

record read_buffer =
  storage :: bytes
  offset :: nat

definition rb_view :: "read_buffer \<Rightarrow> bytes" where
  "rb_view b = substr (storage b) (offset b) None"

definition rb_size :: "read_buffer \<Rightarrow> nat" where
  "rb_size b = length (storage b) - offset b"

definition rb_empty :: "read_buffer \<Rightarrow> bool" where
  "rb_empty b \<longleftrightarrow> rb_size b = 0"

definition rb_clear :: "read_buffer \<Rightarrow> read_buffer" where
  "rb_clear b = \<lparr>storage = [], offset = 0\<rparr>"

definition rb_consume :: "nat \<Rightarrow> read_buffer \<Rightarrow> read_buffer" where
  "rb_consume count b =
     (let b' = b\<lparr>offset := offset b + count\<rparr>
      in if offset b' = length (storage b') then rb_clear b' else b')"

definition rb_append :: "nat \<Rightarrow> bytes \<Rightarrow> read_buffer \<Rightarrow> read_buffer" where
  "rb_append capacity bs b =
     (if rb_empty b then \<lparr>storage = bs, offset = 0\<rparr>
      else
        let b' = (if offset b \<ge> length (storage b) div 2 \<or> length bs > capacity - length (storage b)
                  then \<lparr>storage = drop (offset b) (storage b), offset = 0\<rparr> else b)
        in b'\<lparr>storage := storage b' @ bs\<rparr>)"

definition rb_append_view :: "nat \<Rightarrow> bytes \<Rightarrow> read_buffer \<Rightarrow> read_buffer" where
  "rb_append_view capacity bs b =
     (let b' = (if offset b \<noteq> 0 \<and>
                   (offset b \<ge> length (storage b) div 2 \<or> length bs > capacity - length (storage b))
                then \<lparr>storage = drop (offset b) (storage b), offset = 0\<rparr> else b)
      in b'\<lparr>storage := storage b' @ bs\<rparr>)"

definition rb_find :: "bytes \<Rightarrow> nat \<Rightarrow> read_buffer \<Rightarrow> nat option" where
  "rb_find text start b = find_sub_from text start (rb_view b)"

definition rb_substr :: "nat \<Rightarrow> nat \<Rightarrow> read_buffer \<Rightarrow> bytes" where
  "rb_substr start count b = substr (rb_view b) start (Some count)"

definition rb_ok :: "read_buffer \<Rightarrow> bool" where
  "rb_ok b \<longleftrightarrow> offset b \<le> length (storage b)"

section \<open>The interface of a byte queue\<close>

datatype queue_op = Push bytes | Pop nat

locale byte_queue =
  fixes view :: "'q \<Rightarrow> bytes"
    and push :: "bytes \<Rightarrow> 'q \<Rightarrow> 'q"
    and pop :: "nat \<Rightarrow> 'q \<Rightarrow> 'q"
    and ok :: "'q \<Rightarrow> bool"
  assumes ok_push: "ok q \<Longrightarrow> ok (push bs q)"
    and ok_pop: "ok q \<Longrightarrow> n \<le> length (view q) \<Longrightarrow> ok (pop n q)"
    and view_push: "ok q \<Longrightarrow> view (push bs q) = view q @ bs"
    and view_pop: "ok q \<Longrightarrow> n \<le> length (view q) \<Longrightarrow> view (pop n q) = drop n (view q)"
begin

text \<open>A client that reads at most what is there; the bytes it got are the first component.\<close>

fun serve :: "queue_op list \<Rightarrow> 'q \<Rightarrow> bytes \<times> 'q" where
  "serve [] q = ([], q)"
| "serve (Push bs # ops) q = serve ops (push bs q)"
| "serve (Pop n # ops) q =
     (let m = min n (length (view q)) in apfst ((@) (take m (view q))) (serve ops (pop m q)))"

fun pushed :: "queue_op list \<Rightarrow> bytes" where
  "pushed [] = []"
| "pushed (Push bs # ops) = bs @ pushed ops"
| "pushed (Pop n # ops) = pushed ops"

lemma serve_fifo:
  "ok q \<Longrightarrow> fst (serve ops q) @ view (snd (serve ops q)) = view q @ pushed ops \<and> ok (snd (serve ops q))"
proof (induction ops q rule: serve.induct)
  case (3 n ops q)
  let ?m = "min n (length (view q))"
  have m: "?m \<le> length (view q)" by simp
  have "fst (serve ops (pop ?m q)) @ view (snd (serve ops (pop ?m q))) = drop ?m (view q) @ pushed ops
      \<and> ok (snd (serve ops (pop ?m q)))"
    using 3(1) [OF refl ok_pop [OF 3(2) m]] view_pop [OF 3(2) m] by simp
  then show ?case
    by (simp add: Let_def)
qed (simp_all add: ok_push view_push)

end

interpretation rb: byte_queue rb_view "rb_append_view capacity" rb_consume rb_ok
  by unfold_locales
    (auto simp: rb_view_def rb_append_view_def rb_consume_def rb_clear_def rb_ok_def substr_def Let_def
      add.commute)

interpretation rbs: byte_queue rb_view "rb_append capacity" rb_consume rb_ok
  by unfold_locales
    (auto simp: rb_view_def rb_append_def rb_consume_def rb_clear_def rb_ok_def substr_def Let_def
      rb_empty_def rb_size_def add.commute)

section \<open>Properties\<close>

text \<open>C20: The buffer is a first-in first-out queue of bytes for every capacity policy: appending adds at
  the end of what is readable, consuming removes from its front, clearing empties it, and the cursor
  never passes the end of the storage.\<close>

theorem read_buffer_fifo:
  assumes "rb_ok b" "n \<le> rb_size b"
  shows "rb_view (rb_append_view capacity bs b) = rb_view b @ bs
    \<and> rb_view (rb_append capacity bs b) = rb_view b @ bs
    \<and> rb_view (rb_consume n b) = drop n (rb_view b)
    \<and> rb_view (rb_clear b) = []
    \<and> rb_ok (rb_append_view capacity bs b) \<and> rb_ok (rb_append capacity bs b) \<and> rb_ok (rb_consume n b)"
proof -
  have "n \<le> length (rb_view b)" using assms by (simp add: rb_view_def rb_size_def substr_def)
  with assms(1) show ?thesis
    by (simp add: rb.view_push rbs.view_push rb.view_pop rb.ok_push rbs.ok_push rb.ok_pop)
      (simp add: rb_view_def rb_clear_def substr_def)
qed

theorem read_buffer_fifo_witness:
  "rb_view (rb_append_view 15 ''cd'' \<lparr>storage = ''xab'', offset = 1\<rparr>) = ''abcd''"
  using read_buffer_fifo [of "\<lparr>storage = ''xab'', offset = 1\<rparr>" 1 15 "''cd''"]
  by (simp add: rb_ok_def rb_size_def rb_view_def substr_def)

end
