(* ===== verification/Routing.thy ===== *)
theory Routing
  imports Http_Head
begin

text \<open>
  Routes (\<^verbatim>\<open>src/server.cpp\<close>: \<^verbatim>\<open>compile_pattern\<close>, \<^verbatim>\<open>match_segments\<close>, \<^verbatim>\<open>match_pattern\<close>, the dispatch
  index and the route lookups of \<^verbatim>\<open>Server::Impl\<close>).  \<^verbatim>\<open>std::regex\<close> is a parameter: it compiles an
  expression or throws, and a compiled expression gives the groups of a full match.  The lemmas say
  that the linear matcher finds the greedy match of the pattern language, and that the index finds the
  first registered route that matches.
\<close>

section \<open>Patterns\<close>

type_synonym regex = "bytes \<Rightarrow> bytes list option"
type_synonym regex_engine = "bytes \<Rightarrow> regex option"

record pattern_segment =
  seg_literal :: bytes
  seg_name :: bytes
  seg_parameter :: bool
  seg_wildcard :: bool

record compiled_pattern =
  cp_expression :: "regex option"
  cp_names :: "bytes list"
  cp_literal :: bytes
  cp_segments :: "pattern_segment list"
  cp_literal_only :: bool
  cp_linear :: bool

definition empty_pattern :: compiled_pattern where
  "empty_pattern = \<lparr>cp_expression = None, cp_names = [], cp_literal = [], cp_segments = [],
     cp_literal_only = False, cp_linear = False\<rparr>"

definition regex_special :: "char \<Rightarrow> bool" where
  "regex_special ch \<longleftrightarrow> ch \<in> set (''.^$|()[]{}+?'' @ [CHR 0x5C])"

record compile_state =
  cs_expression :: bytes
  cs_names :: "bytes list"
  cs_segments :: "pattern_segment list"
  cs_pending :: bytes
  cs_wildcards :: nat

definition literal_segment :: "bytes \<Rightarrow> pattern_segment" where
  "literal_segment s = \<lparr>seg_literal = s, seg_name = [], seg_parameter = False, seg_wildcard = False\<rparr>"

definition parameter_segment :: "bytes \<Rightarrow> pattern_segment" where
  "parameter_segment name = \<lparr>seg_literal = [], seg_name = name, seg_parameter = True, seg_wildcard = False\<rparr>"

definition wildcard_segment :: pattern_segment where
  "wildcard_segment = \<lparr>seg_literal = [], seg_name = ''wildcard'', seg_parameter = False, seg_wildcard = True\<rparr>"

definition flush_literal :: "compile_state \<Rightarrow> compile_state" where
  "flush_literal st = (if cs_pending st = [] then st
     else st\<lparr>cs_segments := cs_segments st @ [literal_segment (cs_pending st)], cs_pending := []\<rparr>)"

text \<open>The left of a sum is what \<^verbatim>\<open>std::invalid_argument\<close> or \<^verbatim>\<open>std::regex_error\<close> says.\<close>

definition add_parameter :: "bytes \<Rightarrow> compile_state \<Rightarrow> bytes + compile_state" where
  "add_parameter name st =
     (if name = [] then Inl ''Route parameter name cannot be empty''
      else let st1 = flush_literal (st\<lparr>cs_names := cs_names st @ [name]\<rparr>)
           in Inr (st1\<lparr>cs_segments := cs_segments st1 @ [parameter_segment name],
                cs_expression := cs_expression st1 @ ''([^/]+)''\<rparr>))"

definition add_wildcard :: "compile_state \<Rightarrow> compile_state" where
  "add_wildcard st =
     (let st1 = flush_literal (st\<lparr>cs_names := cs_names st @ [''wildcard'']\<rparr>)
      in st1\<lparr>cs_segments := cs_segments st1 @ [wildcard_segment],
             cs_expression := cs_expression st1 @ ''(.*)'', cs_wildcards := cs_wildcards st1 + 1\<rparr>)"

definition add_literal :: "char \<Rightarrow> compile_state \<Rightarrow> compile_state" where
  "add_literal ch st =
     st\<lparr>cs_expression := cs_expression st @ (if regex_special ch then [CHR 0x5C, ch] else [ch]),
        cs_pending := cs_pending st @ [ch]\<rparr>"

text \<open>One iteration of the loop per call; \<open>previous\<close> is the character before the index.\<close>

function compile_loop :: "char option \<Rightarrow> bytes \<Rightarrow> compile_state \<Rightarrow> bytes + compile_state" where
  "compile_loop previous [] st = Inr st"
| "compile_loop previous (ch # rest) st =
     (if ch = CHR ''{'' then
        (case find_char CHR ''}'' rest of
           None \<Rightarrow> Inl ''Unclosed route parameter''
         | Some e \<Rightarrow>
             (case add_parameter (take e rest) st of
                Inl err \<Rightarrow> Inl err | Inr st' \<Rightarrow> compile_loop (Some CHR ''}'') (drop (e + 1) rest) st'))
      else if ch = CHR '':'' \<and> (previous = None \<or> previous = Some CHR ''/'') then
        (let name = takeWhile (\<lambda>c. c \<noteq> CHR ''/'') rest
         in case add_parameter name st of
              Inl err \<Rightarrow> Inl err
            | Inr st' \<Rightarrow> compile_loop (Some (last name)) (dropWhile (\<lambda>c. c \<noteq> CHR ''/'') rest) st')
      else if ch = CHR ''*'' then compile_loop (Some ch) rest (add_wildcard st)
      else compile_loop (Some ch) rest (add_literal ch st))"
  by pat_completeness auto
termination
  by (relation "measure (\<lambda>(_, s, _). length s)") (auto intro: le_imp_less_Suc length_dropWhile_le)

definition compile_regex :: "regex_engine \<Rightarrow> bytes \<Rightarrow> compiled_pattern \<Rightarrow> bytes + compiled_pattern" where
  "compile_regex rx text cp = (case rx text of
     None \<Rightarrow> Inl ''regex_error'' | Some r \<Rightarrow> Inr (cp\<lparr>cp_expression := Some r\<rparr>))"

definition compile_pattern :: "regex_engine \<Rightarrow> bytes \<Rightarrow> bytes + compiled_pattern" where
  "compile_pattern rx pattern =
     (if prefix ''regex:'' pattern then compile_regex rx (drop 6 pattern) empty_pattern
      else if prefix ''^'' pattern then compile_regex rx pattern empty_pattern
      else if find_idx (\<lambda>c. c \<in> set ''{*:'') pattern = None
      then Inr (empty_pattern\<lparr>cp_literal_only := True, cp_literal := pattern\<rparr>)
      else
        (case compile_loop None pattern
            \<lparr>cs_expression = ''^'', cs_names = [], cs_segments = [], cs_pending = [], cs_wildcards = 0\<rparr> of
           Inl err \<Rightarrow> Inl err
         | Inr st0 \<Rightarrow>
             let st = flush_literal st0;
                 compiled = empty_pattern\<lparr>cp_names := cs_names st\<rparr>
             in if cs_wildcards st = 0 \<or>
                  (cs_wildcards st = 1 \<and> cs_segments st \<noteq> [] \<and> seg_wildcard (last (cs_segments st)))
                then Inr (compiled\<lparr>cp_linear := True, cp_segments := cs_segments st\<rparr>)
                else compile_regex rx (cs_expression st @ ''$'') compiled))"

section \<open>Matching\<close>

type_synonym captures = "(bytes \<times> bytes) list"

text \<open>
  The recursion of \<^verbatim>\<open>match_segments\<close> and its loop over candidate lengths, from the longest down; the
  captures are an argument and a result, cut back to their size at entry on failure.
\<close>

function match_segments :: "pattern_segment list \<Rightarrow> bytes \<Rightarrow> captures \<Rightarrow> bool \<times> captures"
  and match_lengths :: "bytes \<Rightarrow> pattern_segment list \<Rightarrow> nat \<Rightarrow> bytes \<Rightarrow> captures \<Rightarrow> bool \<times> captures" where
  "match_segments [] s caps = (s = [], caps)"
| "match_segments (seg # segs) s caps =
     (if seg_wildcard seg then
        (if segs \<noteq> [] then (False, caps) else (True, caps @ [(seg_name seg, s)]))
      else if \<not> seg_parameter seg then
        (if prefix (seg_literal seg) s then
           (case match_segments segs (drop (length (seg_literal seg)) s) caps of
              (True, caps') \<Rightarrow> (True, caps') | (False, caps') \<Rightarrow> (False, take (length caps) caps'))
         else (False, caps))
      else
        match_lengths (seg_name seg) segs
          (case find_char CHR ''/'' s of None \<Rightarrow> length s | Some slash \<Rightarrow> slash) s caps)"
| "match_lengths name segs 0 s caps = (False, caps)"
| "match_lengths name segs (Suc n) s caps =
     (case match_segments segs (drop (Suc n) s) (caps @ [(name, take (Suc n) s)]) of
        (True, caps') \<Rightarrow> (True, caps')
      | (False, caps') \<Rightarrow> match_lengths name segs n s (take (length caps) caps'))"
  by pat_completeness auto
termination
  by (relation "measures [\<lambda>x. case x of Inl (segs, _, _) \<Rightarrow> length segs | Inr (_, segs, _, _, _) \<Rightarrow> Suc (length segs),
      \<lambda>x. case x of Inl (_, s, _) \<Rightarrow> Suc (length s) | Inr (_, _, n, _, _) \<Rightarrow> n]")
    (auto split: option.split dest: find_char_less)

type_synonym path_params = "bytes \<Rightarrow> bytes option"

definition decoded_value :: "bytes \<Rightarrow> bytes" where
  "decoded_value v = (case url_decode v False of Inl _ \<Rightarrow> v | Inr d \<Rightarrow> d)"

definition bind_captures :: "captures \<Rightarrow> path_params \<Rightarrow> path_params" where
  "bind_captures caps params = foldl (\<lambda>ps (name, v). ps(name \<mapsto> decoded_value v)) params caps"

definition match_pattern :: "compiled_pattern \<Rightarrow> bytes \<Rightarrow> path_params \<Rightarrow> bool \<times> path_params" where
  "match_pattern pattern s params =
     (if cp_literal_only pattern then (s = cp_literal pattern, params)
      else if cp_linear pattern then
        (case match_segments (cp_segments pattern) s [] of
           (False, _) \<Rightarrow> (False, params) | (True, caps) \<Rightarrow> (True, bind_captures caps params))
      else (case cp_expression pattern of
          None \<Rightarrow> (False, params)
        | Some r \<Rightarrow> (case r s of
            None \<Rightarrow> (False, params)
          | Some groups \<Rightarrow> (True, bind_captures (zip (cp_names pattern) groups) params))))"

section \<open>The pattern language\<close>

text \<open>What a list of segments matches, with the values bound; the greedy choice is not part of it.\<close>

inductive route_match :: "pattern_segment list \<Rightarrow> bytes \<Rightarrow> captures \<Rightarrow> bool" where
  route_end: "route_match [] [] []"
| route_literal: "\<not> seg_wildcard seg \<Longrightarrow> \<not> seg_parameter seg \<Longrightarrow> route_match segs s caps \<Longrightarrow>
    route_match (seg # segs) (seg_literal seg @ s) caps"
| route_parameter: "\<not> seg_wildcard seg \<Longrightarrow> seg_parameter seg \<Longrightarrow> v \<noteq> [] \<Longrightarrow> CHR ''/'' \<notin> set v \<Longrightarrow>
    route_match segs s caps \<Longrightarrow> route_match (seg # segs) (v @ s) ((seg_name seg, v) # caps)"
| route_wildcard: "seg_wildcard seg \<Longrightarrow> route_match [seg] s [(seg_name seg, s)]"

inductive_cases route_match_NilE: "route_match [] s caps"
inductive_cases route_match_ConsE: "route_match (seg # segs) s caps"
inductive_simps route_match_Nil [simp]: "route_match [] s caps"

lemma route_match_literal:
  "\<not> seg_wildcard seg \<Longrightarrow> \<not> seg_parameter seg \<Longrightarrow>
     route_match (seg # segs) s caps \<longleftrightarrow>
       prefix (seg_literal seg) s \<and> route_match segs (drop (length (seg_literal seg)) s) caps"
  by (auto elim!: route_match_ConsE simp: prefix_def intro: route_literal)

lemma route_match_wildcard:
  "seg_wildcard seg \<Longrightarrow> route_match (seg # segs) s caps \<longleftrightarrow> segs = [] \<and> caps = [(seg_name seg, s)]"
  by (auto elim: route_match_ConsE intro: route_wildcard)

text \<open>A parameter takes at least one character and does not cross a slash.\<close>

definition longest :: "bytes \<Rightarrow> nat" where
  "longest s = (case find_char CHR ''/'' s of None \<Rightarrow> length s | Some slash \<Rightarrow> slash)"

lemma longest_iff: "n \<le> longest s \<longleftrightarrow> n \<le> length s \<and> CHR ''/'' \<notin> set (take n s)"
proof (cases "find_char CHR ''/'' s")
  case None
  then have "longest s = length s" by (simp add: longest_def)
  moreover have "CHR ''/'' \<notin> set s" using None by (simp add: find_char_None)
  ultimately show ?thesis by (auto dest: in_set_takeD)
next
  case (Some i)
  note at = find_idx_SomeD [OF Some [unfolded find_char_def]]
  then have i: "i < length s" "s ! i = CHR ''/''" by simp_all
  have before: "j < i \<Longrightarrow> s ! j \<noteq> CHR ''/''" for j
    using at i(1) nth_mem [of j "take i s"] by auto
  have "CHR ''/'' \<in> set (take n s) \<longleftrightarrow> i < n" if "n \<le> length s"
  proof
    assume "i < n"
    then show "CHR ''/'' \<in> set (take n s)" using i(1,2) nth_mem [of i "take n s"] by simp
  next
    assume "CHR ''/'' \<in> set (take n s)"
    then obtain j where "j < n" "s ! j = CHR ''/''" using that by (auto simp: in_set_conv_nth)
    then show "i < n" using before [of j] by (cases "j < i") simp_all
  qed
  then show ?thesis using i(1) by (auto simp: longest_def Some)
qed

lemma route_match_parameter:
  assumes "\<not> seg_wildcard seg" "seg_parameter seg"
  shows "route_match (seg # segs) s caps \<longleftrightarrow> (\<exists>n c. 0 < n \<and> n \<le> longest s \<and>
    caps = (seg_name seg, take n s) # c \<and> route_match segs (drop n s) c)" (is "?l \<longleftrightarrow> ?r")
proof
  assume ?l
  then obtain v r c where v: "v \<noteq> []" "CHR ''/'' \<notin> set v" "s = v @ r" "caps = (seg_name seg, v) # c" "route_match segs r c"
    by (rule route_match_ConsE) (use assms in auto)
  then show ?r by (intro exI [of _ "length v"] exI [of _ c]) (simp add: longest_iff)
next
  assume ?r
  then obtain n c where n: "0 < n" "n \<le> longest s" "caps = (seg_name seg, take n s) # c" "route_match segs (drop n s) c"
    by blast
  then have "take n s \<noteq> []" "CHR ''/'' \<notin> set (take n s)" using longest_iff [of n s] by auto
  from route_parameter [OF assms this n(4)] show ?l by (simp add: n(3))
qed

text \<open>Earlier parameters take as much as they can: the order in which a backtracking matcher tries.\<close>

definition capture_lengths :: "captures \<Rightarrow> nat list" where
  "capture_lengths caps = map (\<lambda>c. length (snd c)) caps"

definition greedier :: "captures \<Rightarrow> captures \<Rightarrow> bool" where
  "greedier c c' \<longleftrightarrow> c' = c \<or> (capture_lengths c', capture_lengths c) \<in> lexord {(m, n). m < n}"

definition greedy_match :: "pattern_segment list \<Rightarrow> bytes \<Rightarrow> captures \<Rightarrow> bool" where
  "greedy_match segs s c \<longleftrightarrow> route_match segs s c \<and> (\<forall>c'. route_match segs s c' \<longrightarrow> greedier c c')"

lemma greedier_Cons: "greedier c c' \<Longrightarrow> greedier (p # c) (p # c')"
  by (auto simp: greedier_def capture_lengths_def)

text \<open>The outcome of the matcher: the greedy match appended to the captures, or no match at all.\<close>

definition outcome :: "(captures \<Rightarrow> bool) \<Rightarrow> captures \<Rightarrow> bool \<times> captures \<Rightarrow> bool" where
  "outcome M caps r \<longleftrightarrow> (if fst r
     then \<exists>c. snd r = caps @ c \<and> M c \<and> (\<forall>c'. M c' \<longrightarrow> greedier c c')
     else snd r = caps \<and> (\<forall>c. \<not> M c))"

lemma match_segments_outcome:
  "outcome (route_match segs s) caps (match_segments segs s caps)"
  "n \<le> longest s \<Longrightarrow> outcome (\<lambda>c. \<exists>m d. 0 < m \<and> m \<le> n \<and> c = (name, take m s) # d \<and> route_match segs (drop m s) d)
     caps (match_lengths name segs n s caps)"
proof (induction segs s caps and name segs n s caps rule: match_segments_match_lengths.induct)
  case (1 s caps)
  then show ?case by (auto simp: outcome_def greedier_def)
next
  case (2 seg segs s caps)
  consider "seg_wildcard seg" | "\<not> seg_wildcard seg" "\<not> seg_parameter seg" | "\<not> seg_wildcard seg" "seg_parameter seg"
    by blast
  then show ?case
  proof cases
    case 1
    then show ?thesis by (auto simp: outcome_def route_match_wildcard greedier_def)
  next
    case lit: 2
    show ?thesis
    proof (cases "prefix (seg_literal seg) s")
      case True
      then show ?thesis using "2.IH"(1) lit
        by (auto simp: outcome_def route_match_literal split: prod.splits bool.splits)
    qed (use lit in \<open>auto simp: outcome_def route_match_literal\<close>)
  next
    case 3
    have "match_segments (seg # segs) s caps = match_lengths (seg_name seg) segs (longest s) s caps"
      using 3 by (simp add: longest_def)
    then show ?thesis
      using "2.IH"(2) 3 by (simp add: route_match_parameter longest_def)
  qed
next
  case (3 name segs s caps)
  then show ?case by (simp add: outcome_def)
next
  case (4 name segs n s caps)
  let ?M = "\<lambda>n c. \<exists>m d. 0 < m \<and> m \<le> n \<and> c = (name, take m s) # d \<and> route_match segs (drop m s) d"
  let ?c = "(name, take (Suc n) s)"
  have len: "Suc n \<le> length s" using 4(3) longest_iff by blast
  obtain b k where r: "match_segments segs (drop (Suc n) s) (caps @ [?c]) = (b, k)" by (rule prod.exhaust)
  show ?case
  proof (cases b)
    case True
    then obtain d where d: "k = (caps @ [?c]) @ d" "route_match segs (drop (Suc n) s) d"
      "\<And>c'. route_match segs (drop (Suc n) s) c' \<Longrightarrow> greedier d c'"
      using 4(1) by (auto simp: outcome_def r)
    have "greedier (?c # d) c'" if "?M (Suc n) c'" for c'
    proof -
      from that obtain m e where m: "m \<le> Suc n" "c' = (name, take m s) # e" "route_match segs (drop m s) e" by blast
      show ?thesis
      proof (cases "m = Suc n")
        case True
        then show ?thesis using greedier_Cons [OF d(3)] m by simp
      next
        case False
        then show ?thesis using m len by (auto simp: greedier_def capture_lengths_def)
      qed
    qed
    moreover have "?M (Suc n) (?c # d)" using d(2) by blast
    ultimately show ?thesis using d(1) True by (auto simp: outcome_def r)
  next
    case False
    then have none: "k = caps @ [?c]" "\<nexists>d. route_match segs (drop (Suc n) s) d"
      using 4(1) by (auto simp: outcome_def r)
    have eq: "?M (Suc n) = ?M n"
      using none(2) by (intro ext) (metis le_Suc_eq)
    have "match_lengths name segs (Suc n) s caps = match_lengths name segs n s caps"
      using False by (simp add: r none(1))
    then show ?thesis using 4(2) [OF r [symmetric]] False none(1) 4(3) eq by auto
  qed
qed

text \<open>The segment matcher decides the pattern language: it fails, with the captures it was given, only
  when no binding of the parameters matches, and otherwise appends the bindings of a match in which every
  parameter takes as much as it can, earlier ones first.\<close>

lemma match_segments_greedy:
  "case match_segments segs s caps of
     (True, caps') \<Rightarrow> (\<exists>c. caps' = caps @ c \<and> greedy_match segs s c)
   | (False, caps') \<Rightarrow> caps' = caps \<and> (\<forall>c. \<not> route_match segs s c)"
  using match_segments_outcome(1) [of segs s caps]
  by (auto simp: outcome_def greedy_match_def split: prod.splits bool.splits)

section \<open>The dispatch index\<close>

record route_entry =
  route_method :: bytes
  route_pattern :: compiled_pattern

record method_routes =
  patterned :: "nat list"
  literal_first :: "bytes \<Rightarrow> nat option"

type_synonym route_index = "bytes \<Rightarrow> method_routes option"

definition empty_bucket :: method_routes where
  "empty_bucket = \<lparr>patterned = [], literal_first = Map.empty\<rparr>"

text \<open>\<^verbatim>\<open>try_emplace\<close> keeps the first route of a literal.\<close>

definition index_route :: "nat \<times> route_entry \<Rightarrow> route_index \<Rightarrow> route_index" where
  "index_route = (\<lambda>(i, route) idx.
     let bucket = (case idx (route_method route) of None \<Rightarrow> empty_bucket | Some b \<Rightarrow> b);
         p = route_pattern route
     in idx(route_method route \<mapsto>
          (if cp_literal_only p
           then (case literal_first bucket (cp_literal p) of
                   None \<Rightarrow> bucket\<lparr>literal_first := (literal_first bucket)(cp_literal p \<mapsto> i)\<rparr> | Some _ \<Rightarrow> bucket)
           else bucket\<lparr>patterned := patterned bucket @ [i]\<rparr>)))"

definition build_dispatch_index :: "route_entry list \<Rightarrow> route_index" where
  "build_dispatch_index routes = foldl (\<lambda>idx r. index_route r idx) Map.empty (enumerate 0 routes)"

definition min_index :: "nat option \<Rightarrow> nat option \<Rightarrow> nat option" where
  "min_index a b = (case (a, b) of (None, _) \<Rightarrow> b | (_, None) \<Rightarrow> a | (Some m, Some n) \<Rightarrow> Some (min m n))"

definition head_index :: "nat list \<Rightarrow> nat option" where
  "head_index is = (case is of [] \<Rightarrow> None | i # _ \<Rightarrow> Some i)"

lemma dropWhile_head: "head_index is = Some n \<Longrightarrow> length (dropWhile (\<lambda>i. i = n) is) < length is"
  by (cases "is") (auto simp: head_index_def intro: le_imp_less_Suc length_dropWhile_le)

text \<open>The loop of \<^verbatim>\<open>locate_route\<close>; a position in a bucket is the list that is left of it.\<close>

function locate_loop ::
    "route_entry list \<Rightarrow> bytes \<Rightarrow> nat option \<Rightarrow> nat list \<Rightarrow> nat list \<Rightarrow> path_params \<Rightarrow> (nat \<times> path_params) option" where
  "locate_loop table s literal_index p q params =
     (case min_index (head_index p) (head_index q) of
        None \<Rightarrow> map_option (\<lambda>i. (i, params)) literal_index
      | Some n \<Rightarrow>
          if literal_index \<noteq> None \<and> the literal_index \<le> n then map_option (\<lambda>i. (i, params)) literal_index
          else
            (case match_pattern (route_pattern (table ! n)) s params of
               (True, params') \<Rightarrow> Some (n, params')
             | (False, params') \<Rightarrow>
                 locate_loop table s literal_index (dropWhile (\<lambda>i. i = n) p) (dropWhile (\<lambda>i. i = n) q) params'))"
  by pat_completeness auto
termination
proof (relation "measure (\<lambda>(_, _, _, p, q, _). length p + length q)", goal_cases)
  case (2 table s literal_index p q params n r params')
  have "length (dropWhile (\<lambda>i. i = n) p) \<le> length p" "length (dropWhile (\<lambda>i. i = n) q) \<le> length q"
    by (rule length_dropWhile_le)+
  moreover have "head_index p = Some n \<or> head_index q = Some n"
    using 2(1) by (auto simp: min_index_def min_def split: option.splits if_splits)
  ultimately show ?case using dropWhile_head [of p n] dropWhile_head [of q n] by auto
qed simp

declare locate_loop.simps [simp del]

definition literal_of :: "method_routes option \<Rightarrow> bytes \<Rightarrow> nat option" where
  "literal_of bucket s = (case bucket of None \<Rightarrow> None | Some b \<Rightarrow> literal_first b s)"

definition patterned_of :: "method_routes option \<Rightarrow> nat list" where
  "patterned_of bucket = (case bucket of None \<Rightarrow> [] | Some b \<Rightarrow> patterned b)"

definition locate_route ::
    "method_routes option \<Rightarrow> method_routes option \<Rightarrow> bytes \<Rightarrow> route_entry list \<Rightarrow> (nat \<times> path_params) option" where
  "locate_route primary secondary s table =
     locate_loop table s (min_index (literal_of primary s) (literal_of secondary s))
       (patterned_of primary) (patterned_of secondary) Map.empty"

definition bucket_for :: "route_index \<Rightarrow> bytes \<Rightarrow> method_routes option" where
  "bucket_for idx method = (if method = [] then None else idx method)"

text \<open>\<^verbatim>\<open>MethodKey\<close> is the lower-cased method.\<close>

definition find_route :: "route_entry list \<Rightarrow> bytes \<Rightarrow> bytes \<Rightarrow> (nat \<times> path_params) option" where
  "find_route routes method s =
     (let idx = build_dispatch_index routes;
          key = lower method;
          secondary = (if key = ''head'' then idx ''get'' else None)
      in locate_route (bucket_for idx key) secondary s routes)"

definition find_stream_route :: "route_entry list \<Rightarrow> bytes \<Rightarrow> bytes \<Rightarrow> (nat \<times> path_params) option" where
  "find_stream_route routes method s =
     (let idx = build_dispatch_index routes
      in if idx = Map.empty then None else locate_route (bucket_for idx (lower method)) None s routes)"

fun find_ws_route :: "nat \<Rightarrow> compiled_pattern list \<Rightarrow> bytes \<Rightarrow> path_params \<Rightarrow> (nat \<times> path_params) option" where
  "find_ws_route i [] s params = None"
| "find_ws_route i (p # ps) s params =
     (case match_pattern p s params of
        (True, params') \<Rightarrow> Some (i, params') | (False, _) \<Rightarrow> find_ws_route (i + 1) ps s Map.empty)"

section \<open>The first registered match\<close>

text \<open>The reference: the first route, in registration order, of an eligible method whose pattern matches.\<close>

definition eligible :: "bytes \<Rightarrow> bytes \<Rightarrow> bool" where
  "eligible key m \<longleftrightarrow> (key \<noteq> [] \<and> m = key) \<or> (key = ''head'' \<and> m = ''get'')"

definition route_hit :: "bytes \<Rightarrow> bytes \<Rightarrow> route_entry \<Rightarrow> bool" where
  "route_hit key s r \<longleftrightarrow> eligible key (route_method r) \<and> fst (match_pattern (route_pattern r) s Map.empty)"

definition first_route :: "route_entry list \<Rightarrow> bytes \<Rightarrow> bytes \<Rightarrow> (nat \<times> path_params) option" where
  "first_route routes key s =
     map_option (\<lambda>i. (i, snd (match_pattern (route_pattern (routes ! i)) s Map.empty)))
       (find (\<lambda>i. route_hit key s (routes ! i)) [0..<length routes])"

text \<open>What the index holds of the routes before \<open>n\<close>.\<close>

definition literals :: "route_entry list \<Rightarrow> bytes \<Rightarrow> bytes \<Rightarrow> nat \<Rightarrow> nat list" where
  "literals routes m s n = filter (\<lambda>i. route_method (routes ! i) = m \<and> cp_literal_only (route_pattern (routes ! i))
     \<and> cp_literal (route_pattern (routes ! i)) = s) [0..<n]"

definition patterns :: "route_entry list \<Rightarrow> bytes \<Rightarrow> nat \<Rightarrow> nat list" where
  "patterns routes m n = filter (\<lambda>i. route_method (routes ! i) = m
     \<and> \<not> cp_literal_only (route_pattern (routes ! i))) [0..<n]"

lemma build_index_take:
  "build_dispatch_index (take (Suc n) routes) =
     (if n < length routes then index_route (n, routes ! n) (build_dispatch_index (take n routes))
      else build_dispatch_index (take n routes))"
proof (cases "n < length routes")
  case True
  then have "enumerate 0 (take (Suc n) routes) = enumerate 0 (take n routes) @ [(n, routes ! n)]"
    by (simp add: take_Suc_conv_app_nth enumerate_append_eq)
  then show ?thesis using True by (simp add: build_dispatch_index_def)
qed simp

lemma index_contents:
  "n \<le> length routes \<Longrightarrow>
     patterned_of (build_dispatch_index (take n routes) m) = patterns routes m n
     \<and> literal_of (build_dispatch_index (take n routes) m) s = head_index (literals routes m s n)"
proof (induction n)
  case 0
  then show ?case
    by (simp add: build_dispatch_index_def patterns_def literals_def patterned_of_def literal_of_def head_index_def)
next
  case (Suc n)
  let ?b = "build_dispatch_index (take n routes) (route_method (routes ! n))"
  have step: "build_dispatch_index (take (Suc n) routes) = index_route (n, routes ! n) (build_dispatch_index (take n routes))"
    using Suc.prems by (simp add: build_index_take)
  have old: "patterned_of (build_dispatch_index (take n routes) m) = patterns routes m n"
    "literal_of (build_dispatch_index (take n routes) m) s = head_index (literals routes m s n)"
    using Suc by simp_all
  have snoc: "head_index (xs @ [x]) = (case head_index xs of None \<Rightarrow> Some x | Some y \<Rightarrow> Some y)" for xs x
    by (cases xs) (simp_all add: head_index_def)
  have bucket: "patterned (case ?b of None \<Rightarrow> empty_bucket | Some b \<Rightarrow> b) = patterned_of ?b"
    "literal_first (case ?b of None \<Rightarrow> empty_bucket | Some b \<Rightarrow> b) = literal_of ?b"
    by (auto simp: patterned_of_def literal_of_def empty_bucket_def split: option.split)
  show ?case
  proof (cases "route_method (routes ! n) = m")
    case False
    then show ?thesis
      using old by (simp add: step index_route_def Let_def patterns_def literals_def)
  next
    case True
    define p where "p = route_pattern (routes ! n)"
    define b where "b = (case build_dispatch_index (take n routes) m of None \<Rightarrow> empty_bucket | Some b \<Rightarrow> b)"
    have b: "patterned b = patterns routes m n" "literal_first b s = head_index (literals routes m s n)"
      using bucket True old by (simp_all add: b_def)
    have new: "build_dispatch_index (take (Suc n) routes) m = Some
        (if cp_literal_only p
         then (case literal_first b (cp_literal p) of
                 None \<Rightarrow> b\<lparr>literal_first := (literal_first b)(cp_literal p \<mapsto> n)\<rparr> | Some _ \<Rightarrow> b)
         else b\<lparr>patterned := patterned b @ [n]\<rparr>)"
      unfolding step index_route_def Let_def b_def p_def prod.case fun_upd_apply True by (simp only: refl if_True)
    show ?thesis
    proof (cases "cp_literal_only p")
      case lit: True
      have "patterns routes m (Suc n) = patterns routes m n" using lit by (simp add: patterns_def p_def)
      moreover have "literals routes m s (Suc n) = literals routes m s n @ (if cp_literal p = s then [n] else [])"
        using lit True by (simp add: literals_def p_def)
      ultimately show ?thesis
        using b by (cases "literal_first b (cp_literal p)")
          (auto simp: new lit patterned_of_def literal_of_def snoc split: option.split)
    next
      case lit: False
      have "patterns routes m (Suc n) = patterns routes m n @ [n]" using lit True by (simp add: patterns_def p_def)
      moreover have "literals routes m s (Suc n) = literals routes m s n" using lit by (simp add: literals_def p_def)
      ultimately show ?thesis using b by (simp add: new lit patterned_of_def literal_of_def)
    qed
  qed
qed

text \<open>The least element of a set of indices.\<close>

definition least_of :: "nat set \<Rightarrow> nat option" where
  "least_of S = (if S = {} then None else Some (LEAST i. i \<in> S))"

lemma least_of_Some: "least_of S = Some i \<longleftrightarrow> i \<in> S \<and> (\<forall>j \<in> S. i \<le> j)"
  by (auto simp: least_of_def intro: LeastI Least_le Least_equality)

lemma least_of_empty [simp]: "least_of {} = None"
  by (simp add: least_of_def)

lemma least_of_None [simp]: "least_of S = None \<longleftrightarrow> S = {}"
  by (simp add: least_of_def)

lemma least_ofI: "i \<in> S \<Longrightarrow> (\<And>j. j \<in> S \<Longrightarrow> i \<le> j) \<Longrightarrow> least_of S = Some i"
  by (simp add: least_of_Some)

lemma min_index_least: "min_index (least_of A) (least_of B) = least_of (A \<union> B)"
proof (cases "least_of A"; cases "least_of B")
  fix a b assume ab: "least_of A = Some a" "least_of B = Some b"
  then have "least_of (A \<union> B) = Some (min a b)"
    by (intro least_ofI) (auto simp: least_of_Some min_le_iff_disj, auto simp: min_def)
  then show ?thesis using ab by (simp add: min_index_def)
qed (auto simp: min_index_def)

lemma head_index_least: "sorted xs \<Longrightarrow> head_index xs = least_of (set xs)"
proof (cases xs)
  case (Cons x ys)
  moreover assume "sorted xs"
  ultimately show ?thesis by (intro trans [OF _ least_ofI [symmetric]]) (auto simp: head_index_def)
qed (simp add: head_index_def least_of_def)

lemma find_least: "find P [0..<n] = least_of {i. i < n \<and> P i}"
proof (cases "find P [0..<n]")
  case None
  then have "{i. i < n \<and> P i} = {}" by (auto simp: find_None_iff)
  then show ?thesis using None least_of_None by metis
next
  case (Some i)
  then have i: "i < n" "P i" "\<And>j. j < i \<Longrightarrow> \<not> P j" by (auto simp: find_Some_iff)
  then have "least_of {i. i < n \<and> P i} = Some i" by (intro least_ofI) (auto simp: not_less [symmetric])
  then show ?thesis using Some by simp
qed

lemma match_pattern_fails: "match_pattern cp s params = (False, params') \<Longrightarrow> params' = params"
  by (auto simp: match_pattern_def split: if_splits prod.splits bool.splits option.splits)

lemma locate_loop_least:
  assumes "sorted p" "sorted q" "\<And>i. i \<in> S \<Longrightarrow> snd (match_pattern (route_pattern (table ! i)) s Map.empty) = Map.empty"
  shows "locate_loop table s (least_of S) p q Map.empty =
    map_option (\<lambda>i. (i, snd (match_pattern (route_pattern (table ! i)) s Map.empty)))
      (least_of ({i \<in> set p \<union> set q. fst (match_pattern (route_pattern (table ! i)) s Map.empty)} \<union> S))"
  using assms(1,2)
proof (induction "length p + length q" arbitrary: p q rule: less_induct)
  case less
  let ?m = "\<lambda>i. match_pattern (route_pattern (table ! i)) s Map.empty"
  let ?C = "\<lambda>p q. {i \<in> set p \<union> set q. fst (?m i)} \<union> S"
  have next_index: "min_index (head_index p) (head_index q) = least_of (set p \<union> set q)"
    using less.prems by (simp add: head_index_least min_index_least)
  have literal: "map_option (\<lambda>i. (i, Map.empty)) (least_of S) = map_option (\<lambda>i. (i, snd (?m i))) (least_of S)"
    using assms(3) by (intro option.map_cong refl) (auto simp: least_of_Some elem_set)
  show ?case
  proof (cases "least_of (set p \<union> set q)")
    case None
    then have "?C p q = S" by auto
    then show ?thesis
      using None literal by (subst locate_loop.simps) (simp add: next_index head_index_def min_index_def)
  next
    case (Some n)
    then have n: "n \<in> set p \<union> set q" "\<And>j. j \<in> set p \<union> set q \<Longrightarrow> n \<le> j" by (auto simp: least_of_Some)
    show ?thesis
    proof (cases "least_of S \<noteq> None \<and> the (least_of S) \<le> n")
      case True
      then obtain l where l: "least_of S = Some l" "l \<le> n" by (metis option.exhaust_sel)
      then have "least_of (?C p q) = Some l"
        using n(2) by (intro least_ofI) (auto simp: least_of_Some intro: order_trans)
      then show ?thesis using l literal by (subst locate_loop.simps) (simp add: next_index Some)
    next
      case False
      then have later: "\<And>j. j \<in> S \<Longrightarrow> n \<le> j"
        by (cases "least_of S") (auto simp: least_of_Some intro: order_trans)
      obtain b params' where m: "?m n = (b, params')" by (rule prod.exhaust)
      show ?thesis
      proof (cases b)
        case True
        then have "least_of (?C p q) = Some n" using n later m by (intro least_ofI) auto
        moreover have guard: "(least_of S \<noteq> None \<and> the (least_of S) \<le> n) = False" using False by blast
        ultimately show ?thesis
          using True m by (subst locate_loop.simps) (simp only: next_index Some guard option.case if_False prod.case
              bool.case option.map snd_conv)
      next
        case fails: False
        let ?p = "dropWhile (\<lambda>i. i = n) p" and ?q = "dropWhile (\<lambda>i. i = n) q"
        have params: "params' = Map.empty" using match_pattern_fails [of _ s Map.empty params'] m fails by simp
        have "set xs \<subseteq> insert n (set (dropWhile (\<lambda>i. i = n) xs))" for xs by (induction xs) auto
        moreover have "set (dropWhile (\<lambda>i. i = n) xs) \<subseteq> set xs" for xs by (auto dest: set_dropWhileD)
        ultimately have "?C ?p ?q = ?C p q" using m fails by fastforce
        moreover have "length ?p + length ?q < length p + length q"
        proof -
          have "head_index p = Some n \<or> head_index q = Some n"
            using next_index Some by (auto simp: min_index_def min_def split: option.splits if_splits)
          then show ?thesis
            using dropWhile_head [of p n] dropWhile_head [of q n] length_dropWhile_le [of "\<lambda>i. i = n" p]
              length_dropWhile_le [of "\<lambda>i. i = n" q] by auto
        qed
        moreover have "locate_loop table s (least_of S) p q Map.empty = locate_loop table s (least_of S) ?p ?q Map.empty"
        proof -
          have "(least_of S \<noteq> None \<and> the (least_of S) \<le> n) = False" using False by blast
          moreover have "?m n = (False, Map.empty)" using m fails params by simp
          ultimately show ?thesis
            by (intro trans [OF locate_loop.simps]) (simp only: next_index Some option.case if_False prod.case bool.case)
        qed
        ultimately show ?thesis using less by (simp add: sorted_dropWhile)
      qed
    qed
  qed
qed

lemma literal_match:
  "cp_literal_only cp \<Longrightarrow> match_pattern cp s params = (s = cp_literal cp, params)"
  by (simp add: match_pattern_def)

lemma sorted_literals [simp]: "sorted (literals routes m s n)" "sorted (patterns routes m n)"
  by (simp_all add: literals_def patterns_def sorted_wrt_filter)

text \<open>C34: The dispatch index is only an optimisation: the lookup through method buckets, the literal table
  and the interleaved pattern lists returns exactly the first registered route whose method is eligible
  (the request's, or GET for a HEAD request) and whose pattern matches the path, with the parameters of
  that match.\<close>

theorem find_route_first: "find_route routes method s = first_route routes (lower method) s"
proof -
  let ?key = "lower method" and ?n = "length routes"
  let ?idx = "build_dispatch_index routes"
  let ?m = "\<lambda>i. match_pattern (route_pattern (routes ! i)) s Map.empty"
  have idx: "patterned_of (?idx m) = patterns routes m ?n" "literal_of (?idx m) s = head_index (literals routes m s ?n)" for m
    using index_contents [of ?n routes m s] by simp_all
  define buckets where "buckets = (if ?key = [] then [] else [?key]) @ (if ?key = ''head'' then [''get''] else [])"
  define p where "p = (if ?key = [] then [] else patterns routes ?key ?n)"
  define q where "q = (if ?key = ''head'' then patterns routes ''get'' ?n else [])"
  define P where "P = (if ?key = [] then [] else literals routes ?key s ?n)"
  define Q where "Q = (if ?key = ''head'' then literals routes ''get'' s ?n else [])"
  have lists: "patterned_of (bucket_for ?idx ?key) = p" "patterned_of (if ?key = ''head'' then ?idx ''get'' else None) = q"
    "literal_of (bucket_for ?idx ?key) s = head_index P"
    "literal_of (if ?key = ''head'' then ?idx ''get'' else None) s = head_index Q"
    by (simp_all add: bucket_for_def idx p_def q_def P_def Q_def patterned_of_def literal_of_def head_index_def)
      (simp_all add: idx [unfolded patterned_of_def literal_of_def] head_index_def)
  have sorted: "sorted p" "sorted q" "sorted P" "sorted Q" by (simp_all add: p_def q_def P_def Q_def)
  have lit: "snd (?m i) = Map.empty" if "i \<in> set P \<union> set Q" for i
    using that by (auto simp: P_def Q_def literals_def literal_match split: if_splits)
  have mem: "i \<in> set p \<union> set q \<longleftrightarrow> i < ?n \<and> eligible ?key (route_method (routes ! i)) \<and> \<not> cp_literal_only (route_pattern (routes ! i))"
    "i \<in> set P \<union> set Q \<longleftrightarrow> i < ?n \<and> eligible ?key (route_method (routes ! i))
       \<and> cp_literal_only (route_pattern (routes ! i)) \<and> cp_literal (route_pattern (routes ! i)) = s" for i
    by (auto simp: p_def q_def P_def Q_def patterns_def literals_def eligible_def split: if_splits)
  have hit: "route_hit ?key s r \<longleftrightarrow> eligible ?key (route_method r) \<and>
      (if cp_literal_only (route_pattern r) then cp_literal (route_pattern r) = s
       else fst (match_pattern (route_pattern r) s Map.empty))" for r
    by (auto simp: route_hit_def literal_match)
  have "{i \<in> set p \<union> set q. fst (?m i)} \<union> (set P \<union> set Q) = {i. i < ?n \<and> route_hit ?key s (routes ! i)}"
    unfolding hit using mem by (intro set_eqI) (smt (verit) Un_iff mem_Collect_eq)
  then show ?thesis
    unfolding find_route_def Let_def locate_route_def lists first_route_def find_least
      head_index_least [OF sorted(3)] head_index_least [OF sorted(4)] min_index_least
    using locate_loop_least [OF sorted(1,2), of "set P \<union> set Q" routes s] lit by simp
qed

end
