(* ===== verification/Ranges.thy ===== *)
theory Ranges
  imports Headers
begin

text \<open>
  Byte ranges: \<^verbatim>\<open>parse_content_range\<close>, \<^verbatim>\<open>format_content_range\<close>, \<^verbatim>\<open>format_byte_range\<close> and
  \<^verbatim>\<open>set_byte_range\<close> of \<^verbatim>\<open>src/common.cpp\<close>, and the server's \<^verbatim>\<open>parse_range\<close> of \<^verbatim>\<open>src/server.cpp\<close>.
  Every number is a \<^verbatim>\<open>std::uint64_t\<close>, kept as a natural number that the parsers bound by
  \<open>uint64_max\<close>.
\<close>

section \<open>Content-Range\<close>

record content_range =
  unit_name :: bytes
  first :: "nat option"
  last_byte :: "nat option"
  total :: "nat option"

definition satisfied :: "content_range \<Rightarrow> bool" where
  "satisfied r \<longleftrightarrow> first r \<noteq> None \<and> last_byte r \<noteq> None"

abbreviation parse_uint64 :: "bytes \<Rightarrow> nat option" where
  "parse_uint64 s \<equiv> parse_number 10 uint64_max s"

text \<open>The total, absent for an asterisk.\<close>

definition parse_total :: "bytes \<Rightarrow> nat option result" where
  "parse_total total_text =
     (if total_text = [] then fail E_protocol ''Content-Range total is empty''
      else if total_text \<noteq> ''*'' then
        (case parse_uint64 total_text of
           None \<Rightarrow> fail E_protocol ''Invalid Content-Range total'' | Some t \<Rightarrow> Inr (Some t))
      else Inr None)"

definition parse_interval :: "bytes \<Rightarrow> bytes \<Rightarrow> nat option \<Rightarrow> content_range result" where
  "parse_interval u bounds tot =
     (if bounds = ''*'' then
        (if tot = None then fail E_protocol ''Unsatisfied Content-Range requires a total''
         else Inr \<lparr>unit_name = u, first = None, last_byte = None, total = tot\<rparr>)
      else (case find_char CHR ''-'' bounds of
        None \<Rightarrow> fail E_protocol ''Malformed Content-Range interval''
      | Some dash \<Rightarrow>
          if dash = 0 \<or> dash + 1 = length bounds \<or> find_char_from CHR ''-'' (dash + 1) bounds \<noteq> None
          then fail E_protocol ''Malformed Content-Range interval''
          else (case (parse_uint64 (substr bounds 0 (Some dash)),
                      parse_uint64 (substr bounds (dash + 1) None)) of
            (Some f, Some l) \<Rightarrow>
              if f > l then fail E_protocol ''Content-Range begins after it ends''
              else if (case tot of None \<Rightarrow> False | Some t \<Rightarrow> l \<ge> t)
              then fail E_protocol ''Content-Range exceeds its total''
              else Inr \<lparr>unit_name = u, first = Some f, last_byte = Some l, total = tot\<rparr>
          | _ \<Rightarrow> fail E_protocol ''Invalid Content-Range interval'')))"

definition parse_content_range :: "bytes \<Rightarrow> content_range result" where
  "parse_content_range text =
     (let v = trim_ows text
      in case find_char SP v of
        None \<Rightarrow> fail E_protocol ''Malformed Content-Range''
      | Some space \<Rightarrow>
        if space = 0 then fail E_protocol ''Malformed Content-Range''
        else
          let u = substr v 0 (Some space); rng = substr v (space + 1) None
          in if \<not> valid_header_name u then fail E_protocol ''Invalid Content-Range unit''
             else if rng = [] \<or> find_idx is_ows rng \<noteq> None
             then fail E_protocol ''Invalid Content-Range whitespace''
             else (case find_char CHR ''/'' rng of
               None \<Rightarrow> fail E_protocol ''Malformed Content-Range bounds''
             | Some slash \<Rightarrow>
                 if slash = 0 \<or> find_char_from CHR ''/'' (slash + 1) rng \<noteq> None
                 then fail E_protocol ''Malformed Content-Range bounds''
                 else (case parse_total (substr rng (slash + 1) None) of
                   Inl e \<Rightarrow> Inl e
                 | Inr tot \<Rightarrow> parse_interval u (substr rng 0 (Some slash)) tot)))"

section \<open>Range and If-Range\<close>

definition format_byte_range :: "nat \<Rightarrow> nat option \<Rightarrow> bytes result" where
  "format_byte_range f l =
     (if (case l of None \<Rightarrow> False | Some x \<Rightarrow> f > x)
      then fail E_invalid_argument ''Byte range begins after it ends''
      else Inr (''bytes='' @ to_string f @ ''-'' @ (case l of None \<Rightarrow> [] | Some x \<Rightarrow> to_string x)))"

definition format_content_range :: "nat \<Rightarrow> nat \<Rightarrow> nat option \<Rightarrow> bytes result" where
  "format_content_range f l tot =
     (if f > l then fail E_invalid_argument ''Content range begins after it ends''
      else if (case tot of None \<Rightarrow> False | Some t \<Rightarrow> l \<ge> t)
      then fail E_invalid_argument ''Content range exceeds its total''
      else Inr (''bytes '' @ to_string f @ ''-'' @ to_string l @ ''/''
        @ (case tot of None \<Rightarrow> ''*'' | Some t \<Rightarrow> to_string t)))"

definition set_byte_range :: "headers \<Rightarrow> nat \<Rightarrow> nat option \<Rightarrow> bytes \<Rightarrow> unit result \<times> headers" where
  "set_byte_range h f l if_range =
     (case format_byte_range f l of
        Inl e \<Rightarrow> (Inl e, h)
      | Inr rng \<Rightarrow>
          if if_range \<noteq> [] \<and> \<not> valid_header_value if_range
          then (fail E_invalid_argument ''If-Range contains invalid characters'', h)
          else if if_range \<noteq> [] \<and> (prefix ''W/'' if_range \<or> prefix ''w/'' if_range)
          then (fail E_invalid_argument ''If-Range requires a strong entity tag or HTTP date'', h)
          else let h1 = headers_set h ''Range'' rng
               in (Inr (), if if_range \<noteq> [] then headers_set h1 ''If-Range'' if_range
                           else snd (headers_erase h1 ''If-Range'')))"

text \<open>The range a file response honours: \<open>None\<close> answers the request with 416.\<close>

definition parse_range :: "bytes \<Rightarrow> nat \<Rightarrow> (nat \<times> nat) option" where
  "parse_range text sz =
     (if \<not> iequals (substr text 0 (Some 6)) ''bytes='' \<or> find_char CHR '','' text \<noteq> None \<or> sz = 0
      then None
      else let v = drop 6 text
           in case find_char CHR ''-'' v of
             None \<Rightarrow> None
           | Some dash \<Rightarrow>
               if dash = 0 then
                 (case parse_uint64 (substr v 1 None) of
                    None \<Rightarrow> None
                  | Some sfx \<Rightarrow> if sfx = 0 then None
                      else Some (sz - min sfx sz, sz - 1))
               else
                 (case parse_uint64 (substr v 0 (Some dash)) of
                    None \<Rightarrow> None
                  | Some f \<Rightarrow>
                      if f \<ge> sz then None
                      else if dash + 1 = length v then Some (f, min (sz - 1) (sz - 1))
                      else (case parse_uint64 (substr v (dash + 1) None) of
                        None \<Rightarrow> None
                      | Some l \<Rightarrow> if l < f then None else Some (f, min l (sz - 1)))))"

section \<open>Properties\<close>

text \<open>A parsed Content-Range has a token as unit, bounds that fit 64 bits, and is either an interval
  in order and inside its total, or an unsatisfied range that states a total; every rejection is a
  protocol error.\<close>

lemma parse_content_range_sound:
  "case parse_content_range s of Inl e \<Rightarrow> err_code e = E_protocol
   | Inr r \<Rightarrow> valid_header_name (unit_name r)
       \<and> list_all (\<lambda>n. case n of None \<Rightarrow> True | Some x \<Rightarrow> x \<le> uint64_max) [first r, last_byte r, total r]
       \<and> (case (first r, last_byte r) of
            (Some f, Some l) \<Rightarrow> f \<le> l \<and> (case total r of None \<Rightarrow> True | Some t \<Rightarrow> l < t)
          | (None, None) \<Rightarrow> total r \<noteq> None
          | _ \<Rightarrow> False)"
  by (auto simp: parse_content_range_def parse_total_def parse_interval_def Let_def
      dest!: parse_number_bound split: option.splits if_splits sum.splits)

lemma number_chars:
  "c \<in> set (to_string n) \<Longrightarrow> c \<noteq> CHR ''/'' \<and> c \<noteq> CHR ''-'' \<and> c \<noteq> CHR '','' \<and> c \<noteq> SP \<and> c \<noteq> TAB"
  using to_string_digit [of c n] by (auto simp: bytes_simps)

lemma number_chars_not_in [simp]:
  "CHR ''/'' \<notin> set (to_string n)" "CHR ''-'' \<notin> set (to_string n)" "CHR '','' \<notin> set (to_string n)"
  "SP \<notin> set (to_string n)" "TAB \<notin> set (to_string n)"
  using number_chars by blast+

lemma to_string_not_star [simp]: "to_string n \<noteq> ''*''"
  using to_string_digit [of "CHR ''*''" n] by (auto simp: bytes_simps)

lemma content_range_number: "x \<in> {to_string t, ''*''} \<Longrightarrow> set x \<inter> {CHR ''/'', CHR ''-'', SP, TAB} = {}"
  by auto

text \<open>What \<open>format_content_range\<close> produces for 64-bit bounds is read back by
  \<open>parse_content_range\<close> as the same interval and total.\<close>

lemma parse_format_content_range:
  assumes "format_content_range f l tot = Inr s" "l \<le> uint64_max"
    "case tot of None \<Rightarrow> True | Some t \<Rightarrow> t \<le> uint64_max"
  shows "parse_content_range s =
    Inr \<lparr>unit_name = ''bytes'', first = Some f, last_byte = Some l, total = tot\<rparr>"
proof -
  let ?t = "case tot of None \<Rightarrow> ''*'' | Some t \<Rightarrow> to_string t"
  let ?b = "to_string f @ CHR ''-'' # to_string l"
  have ok: "f \<le> l" "case tot of None \<Rightarrow> True | Some t \<Rightarrow> l < t"
    and s: "s = ''bytes'' @ SP # ?b @ CHR ''/'' # ?t"
    using assms(1) by (auto simp: format_content_range_def split: if_splits option.splits)
  have t: "CHR ''/'' \<notin> set ?t" "SP \<notin> set ?t" "TAB \<notin> set ?t" "?t \<noteq> []"
    by (auto split: option.splits)
  have "\<not> is_ows (last s)"
  proof -
    have "last s \<in> set ?t" using t(4) by (simp add: s)
    then show ?thesis using t by (auto simp: is_ows_def)
  qed
  then have trim: "trim_ows s = s"
    unfolding trim_ows_def by (intro trim_by_id) (simp add: trimmed_def s is_ows_def)
  have sp: "find_char SP s = Some 5"
    unfolding s by (subst find_char_split) auto
  have slash: "find_char CHR ''/'' (?b @ CHR ''/'' # ?t) = Some (length ?b)"
    by (rule find_char_split) simp
  have no2: "find_char_from CHR ''/'' (length ?b + 1) (?b @ CHR ''/'' # ?t) = None"
    using t(1) by (simp add: find_char_from_def find_char_None)
  have dash: "find_char CHR ''-'' ?b = Some (length (to_string f))"
    by (rule find_char_split) simp
  have "CHR ''-'' \<in> set ?b" "CHR ''-'' \<notin> set ''*''" by simp_all
  then have nstar: "?b \<noteq> ''*''" by metis
  have nd: "find_char_from CHR ''-'' (length (to_string f) + 1) ?b = None"
    by (simp add: find_char_from_def find_char_None)
  have ows: "find_idx is_ows (?b @ CHR ''/'' # ?t) = None"
    using t by (auto simp: find_idx_None is_ows_def)
  have "parse_total ?t = Inr tot"
    using assms(3) by (auto simp: parse_total_def split: option.splits)
  moreover have "parse_interval ''bytes'' ?b tot =
      Inr \<lparr>unit_name = ''bytes'', first = Some f, last_byte = Some l, total = tot\<rparr>"
    using ok assms(2) dash nd nstar
    by (auto simp: parse_interval_def substr_def split: option.splits)
  ultimately show ?thesis
    unfolding parse_content_range_def trim Let_def sp
    using slash no2 ows
    by (simp add: s substr_def valid_header_name_iff token_char_def separators_def in_range_def)
qed

theorem parse_format_content_range_witness:
  "parse_content_range (''bytes '' @ to_string 5 @ ''-'' @ to_string 9 @ ''/'' @ to_string 10) =
     Inr \<lparr>unit_name = ''bytes'', first = Some 5, last_byte = Some 9, total = Some 10\<rparr>"
  by (rule parse_format_content_range) (simp_all add: format_content_range_def)

lemma parse_range_bytes:
  "CHR '','' \<notin> set v \<Longrightarrow> sz \<noteq> 0 \<Longrightarrow> find_char CHR ''-'' v = Some dash \<Longrightarrow>
     parse_range (''bytes='' @ v) sz =
       (if dash = 0 then
          (case parse_uint64 (substr v 1 None) of
             None \<Rightarrow> None
           | Some sfx \<Rightarrow> if sfx = 0 then None else Some (sz - min sfx sz, sz - 1))
        else
          (case parse_uint64 (substr v 0 (Some dash)) of
             None \<Rightarrow> None
           | Some f \<Rightarrow>
               if f \<ge> sz then None
               else if dash + 1 = length v then Some (f, min (sz - 1) (sz - 1))
               else (case parse_uint64 (substr v (dash + 1) None) of
                 None \<Rightarrow> None
               | Some l \<Rightarrow> if l < f then None else Some (f, min l (sz - 1)))))"
  by (simp add: parse_range_def substr_def find_char_None)

text \<open>The range a server takes from a client's Range field is the requested one cut to the
  representation, and none when it begins past the end; a suffix range covers the last bytes.\<close>

lemma parse_format_byte_range:
  assumes "format_byte_range f l = Inr s" "f \<le> uint64_max" "case l of None \<Rightarrow> True | Some x \<Rightarrow> x \<le> uint64_max"
  shows "parse_range s sz =
    (if f < sz then Some (f, case l of None \<Rightarrow> sz - 1 | Some x \<Rightarrow> min x (sz - 1)) else None)"
proof (cases "sz = 0")
  case False
  let ?l = "case l of None \<Rightarrow> [] | Some x \<Rightarrow> to_string x"
  let ?v = "to_string f @ CHR ''-'' # ?l"
  have s: "s = ''bytes='' @ ?v" "case l of None \<Rightarrow> True | Some x \<Rightarrow> f \<le> x"
    using assms(1) by (auto simp: format_byte_range_def split: if_splits option.splits)
  have comma: "CHR '','' \<notin> set ?v" by (auto split: option.splits)
  have dash: "find_char CHR ''-'' ?v = Some (length (to_string f))"
    by (rule find_char_split) simp
  show ?thesis
    unfolding s(1) parse_range_bytes [OF comma False dash]
    using assms(2,3) s(2) by (auto simp: substr_def split: option.splits)
qed (simp add: parse_range_def)

theorem parse_format_byte_range_witness:
  "parse_range (''bytes='' @ to_string 2 @ ''-'') 7 = Some (2, 6)"
  using parse_format_byte_range [of 2 None "''bytes='' @ to_string 2 @ ''-''" 7]
  by (simp add: format_byte_range_def)

text \<open>Whatever text arrives, a range the server serves is non-empty and lies inside the
  representation, and a single suffix range of positive length covers exactly the last bytes.\<close>

lemma parse_range_bounds:
  "(case parse_range s sz of None \<Rightarrow> True | Some (f, l) \<Rightarrow> f \<le> l \<and> l < sz)
   \<and> parse_range (''bytes=-'' @ to_string (min n uint64_max)) sz =
       (if n = 0 \<or> sz = 0 then None else Some (sz - min (min n uint64_max) sz, sz - 1))"
proof
  show "case parse_range s sz of None \<Rightarrow> True | Some (f, l) \<Rightarrow> f \<le> l \<and> l < sz"
    by (auto simp: parse_range_def Let_def split: option.splits if_splits)
  have "find_char CHR ''-'' (CHR ''-'' # v) = Some 0" for v by (simp add: find_char_def)
  then have "sz \<noteq> 0 \<Longrightarrow> parse_range (''bytes='' @ CHR ''-'' # to_string (min n uint64_max)) sz =
      (if min n uint64_max = 0 then None else Some (sz - min (min n uint64_max) sz, sz - 1))"
    by (subst parse_range_bytes [of _ _ 0]) (simp_all add: substr_def drop_Cons min_def)
  moreover have "''bytes=-'' @ v = ''bytes='' @ CHR ''-'' # v" for v by simp
  moreover have "min n uint64_max = 0 \<longleftrightarrow> n = 0" by (auto simp: min_def)
  ultimately show "parse_range (''bytes=-'' @ to_string (min n uint64_max)) sz =
       (if n = 0 \<or> sz = 0 then None else Some (sz - min (min n uint64_max) sz, sz - 1))"
    by (cases "sz = 0") (simp_all only: if_False if_True simp_thms, simp add: parse_range_def)
qed

end
