(* ===== verification/Websocket.thy ===== *)
theory Websocket
  imports Http_Write
begin

text \<open>
  WebSocket framing (\<^verbatim>\<open>src/protocol.cpp\<close>): \<^verbatim>\<open>valid_utf8\<close>, \<^verbatim>\<open>valid_close_code\<close> and
  \<^verbatim>\<open>UvWebSocketChannel\<close>.  The bit fields of a frame header are disjoint, so masks and shifts are
  written with \<open>div\<close>, \<open>mod\<close> and \<open>+\<close> on the byte values; the random bytes of the masks are a parameter,
  drawn in order.  One coroutine uses the channel at a time, so \<^verbatim>\<open>writing_\<close> is never found set.
\<close>

section \<open>UTF-8\<close>

text \<open>The lead byte: how many bytes follow, and its bits of the code point.\<close>

definition utf8_lead :: "nat \<Rightarrow> (nat \<times> nat) option" where
  "utf8_lead first =
     (if first \<ge> 0xc2 \<and> first \<le> 0xdf then Some (1, first mod 0x20)
      else if first \<ge> 0xe0 \<and> first \<le> 0xef then Some (2, first mod 0x10)
      else if first \<ge> 0xf0 \<and> first \<le> 0xf4 then Some (3, first mod 8)
      else None)"

fun utf8_rest :: "nat \<Rightarrow> nat \<Rightarrow> bytes \<Rightarrow> nat option" where
  "utf8_rest 0 codepoint s = Some codepoint"
| "utf8_rest (Suc n) codepoint [] = None"
| "utf8_rest (Suc n) codepoint (c # s) =
     (if code c div 64 \<noteq> 2 then None else utf8_rest n (codepoint * 64 + code c mod 64) s)"

definition utf8_refused :: "nat \<Rightarrow> nat \<Rightarrow> bool" where
  "utf8_refused n codepoint \<longleftrightarrow> (n = 2 \<and> codepoint < 0x800) \<or> (n = 3 \<and> codepoint < 0x10000)
     \<or> codepoint > 0x10ffff \<or> (codepoint \<ge> 0xd800 \<and> codepoint \<le> 0xdfff)"

function valid_utf8 :: "bytes \<Rightarrow> bool" where
  "valid_utf8 [] = True"
| "valid_utf8 (c # s) =
     (if code c \<le> 0x7f then valid_utf8 s
      else (case utf8_lead (code c) of
        None \<Rightarrow> False
      | Some (n, cp0) \<Rightarrow>
          if n > length s then False
          else (case utf8_rest n cp0 s of
            None \<Rightarrow> False
          | Some codepoint \<Rightarrow> if utf8_refused n codepoint then False else valid_utf8 (drop n s))))"
  by pat_completeness auto
termination
  by (relation "measure length") auto

definition valid_close_code :: "nat \<Rightarrow> bool" where
  "valid_close_code n \<longleftrightarrow> \<not> (n < 1000 \<or> n \<ge> 5000) \<and> \<not> (n = 1004 \<or> n = 1005 \<or> n = 1006 \<or> n = 1015)
     \<and> (n \<le> 1014 \<or> n \<ge> 3000)"

section \<open>Masks\<close>

fun xor_char :: "char \<Rightarrow> char \<Rightarrow> char" where
  "xor_char (Char a0 a1 a2 a3 a4 a5 a6 a7) (Char b0 b1 b2 b3 b4 b5 b6 b7) =
     Char (a0 \<noteq> b0) (a1 \<noteq> b1) (a2 \<noteq> b2) (a3 \<noteq> b3) (a4 \<noteq> b4) (a5 \<noteq> b5) (a6 \<noteq> b6) (a7 \<noteq> b7)"

definition apply_mask :: "bytes \<Rightarrow> bytes \<Rightarrow> bytes" where
  "apply_mask key payload = map (\<lambda>i. xor_char (payload ! i) (key ! (i mod 4))) [0..<length payload]"

section \<open>The channel\<close>

datatype message_type = WS_text | WS_binary | WS_ping | WS_pong | WS_close

record ws_message =
  msg_type :: message_type
  msg_data :: bytes

record channel =
  ws_io :: io
  client_side :: bool
  ws_protocol :: bytes
  ws_timeout :: nat
  ws_open :: bool
  fragmented :: bytes
  fragmented_type :: message_type
  fragmented_active :: bool
  draws :: nat

definition message_limit :: nat where
  "message_limit = 64 * 1024 * 1024"

text \<open>A read of a connection that this side has closed sees its end.\<close>

definition socket_read :: "nat \<Rightarrow> io \<Rightarrow> read_chunk result \<times> io" where
  "socket_read timeout io = (if connection_open io then connection_read timeout io else (Inr Closed, io))"

definition connection_close :: "io \<Rightarrow> io" where
  "connection_close io = io\<lparr>closes_at := (case closes_at io of
     Some t \<Rightarrow> Some (min t (clock io)) | None \<Rightarrow> Some (clock io))\<rparr>"

definition frame_header :: "bool \<Rightarrow> nat \<Rightarrow> nat \<Rightarrow> bytes" where
  "frame_header client opcode n =
     (let mask_bit = (if client then 0x80 else 0)
      in char_of (0x80 + opcode) #
         (if n \<le> 125 then [char_of (mask_bit + n)]
          else if n \<le> 65535
          then [char_of (mask_bit + 126), char_of (n div 256), char_of n]
          else char_of (mask_bit + 127)
            # map (\<lambda>shift. char_of (n div 2 ^ shift)) [56, 48, 40, 32, 24, 16, 8, 0]))"

definition draw_mask :: "(nat \<Rightarrow> char) \<Rightarrow> channel \<Rightarrow> bytes" where
  "draw_mask rng ws = (if client_side ws then map (\<lambda>i. rng (draws ws + i)) [0..<4] else [])"

definition send_frame :: "(nat \<Rightarrow> char) \<Rightarrow> nat \<Rightarrow> bytes \<Rightarrow> channel \<Rightarrow> error_info \<times> channel" where
  "send_frame rng opcode payload ws =
     (if \<not> connection_open (ws_io ws) then (error_of E_websocket_closed ''WebSocket is closed'', ws)
      else
        let key = draw_mask rng ws;
            frame = frame_header (client_side ws) opcode (length payload) @ key;
            data = (if client_side ws then apply_mask key payload else payload);
            ws1 = ws\<lparr>draws := draws ws + length key\<rparr>
        in if length payload \<le> block_size
           then (case connection_write (frame @ data) (ws_timeout ws) (ws_io ws) of
                   (e, io) \<Rightarrow> (e, ws1\<lparr>ws_io := io\<rparr>))
           else (case connection_write frame (ws_timeout ws) (ws_io ws) of
                   (e, io) \<Rightarrow>
                     if is_error e then (e, ws1\<lparr>ws_io := io\<rparr>)
                     else (case write_body_bytes data (ws_timeout ws) io of (e2, io2) \<Rightarrow> (e2, ws1\<lparr>ws_io := io2\<rparr>))))"

definition ws_send :: "(nat \<Rightarrow> char) \<Rightarrow> bytes \<Rightarrow> bool \<Rightarrow> channel \<Rightarrow> bool \<times> channel" where
  "ws_send rng data binary ws =
     (if \<not> ws_open ws then (False, ws)
      else if length data > message_limit \<or> (\<not> binary \<and> \<not> valid_utf8 data) then (False, ws)
      else (case send_frame rng (if binary then 2 else 1) data ws of (e, ws') \<Rightarrow> (\<not> is_error e, ws')))"

definition ws_send_ping :: "(nat \<Rightarrow> char) \<Rightarrow> bytes \<Rightarrow> channel \<Rightarrow> channel" where
  "ws_send_ping rng data ws = (if length data \<le> 125 then snd (send_frame rng 9 data ws) else ws)"

text \<open>The reason is cut back until no character of it is cut.\<close>

fun pop_invalid :: "bytes \<Rightarrow> bytes" where
  "pop_invalid [] = []"
| "pop_invalid (c # s) = (if valid_utf8 (c # s) then c # s else pop_invalid (butlast (c # s)))"

definition close_reason :: "nat \<Rightarrow> bytes \<Rightarrow> nat \<times> bytes" where
  "close_reason n reason =
     (let (n', r) = (if \<not> valid_close_code n \<or> \<not> valid_utf8 reason then (1002, ''Invalid close payload'')
                     else (n, reason))
      in (n', pop_invalid (take 123 r)))"

definition ws_close :: "(nat \<Rightarrow> char) \<Rightarrow> nat \<Rightarrow> bytes \<Rightarrow> channel \<Rightarrow> channel" where
  "ws_close rng n reason ws =
     (if \<not> ws_open ws then ws
      else
        let (n', r) = close_reason n reason;
            ws' = snd (send_frame rng 8 (char_of (n' div 256) # char_of n' # r) (ws\<lparr>ws_open := False\<rparr>))
        in ws'\<lparr>ws_io := connection_close (ws_io ws')\<rparr>)"

section \<open>Reading a frame\<close>

function ws_need :: "nat \<Rightarrow> channel \<Rightarrow> unit result \<times> channel" where
  "ws_need count ws =
     (if length (buffer (ws_io ws)) < count then
        (case socket_read (ws_timeout ws) (ws_io ws) of
           (Inl e, io) \<Rightarrow> (Inl e, ws\<lparr>ws_io := io\<rparr>)
         | (Inr Closed, io) \<Rightarrow>
             (fail E_websocket_closed ''WebSocket transport closed'', ws\<lparr>ws_io := io, ws_open := False\<rparr>)
         | (Inr (Chunk bs), io) \<Rightarrow> ws_need count (ws\<lparr>ws_io := io\<lparr>buffer := buffer io @ bs\<rparr>\<rparr>))
      else (Inr (), ws))"
  by pat_completeness auto
termination
  by (relation "measure (\<lambda>(_, ws). length (incoming (ws_io ws)))")
    (auto simp: socket_read_def dest!: sym [of "(_, _)"] dest: connection_read_incoming split: if_splits)

declare ws_need.simps [simp del]

definition ws_byte :: "channel \<Rightarrow> nat \<Rightarrow> nat" where
  "ws_byte ws i = code (buffer (ws_io ws) ! i)"

text \<open>The payload length and the position after it; a longer form than needed is refused.\<close>

definition frame_length :: "nat \<Rightarrow> channel \<Rightarrow> (nat \<times> nat) result \<times> channel" where
  "frame_length len ws =
     (if len = 126 then
        (case ws_need 4 ws of
           (Inl e, ws') \<Rightarrow> (Inl e, ws')
         | (Inr _, ws') \<Rightarrow>
             let n = ws_byte ws' 2 * 256 + ws_byte ws' 3
             in (if n < 126 then fail E_protocol ''Non-minimal WebSocket frame length'' else Inr (n, 4), ws'))
      else if len = 127 then
        (case ws_need 10 ws of
           (Inl e, ws') \<Rightarrow> (Inl e, ws')
         | (Inr _, ws') \<Rightarrow>
             if ws_byte ws' 2 \<ge> 0x80 then (fail E_protocol ''Invalid WebSocket length'', ws')
             else
               let n = foldl (\<lambda>acc i. acc * 256 + ws_byte ws' (2 + i)) 0 [0..<8]
               in (if n \<le> 65535 then fail E_protocol ''Non-minimal WebSocket frame length'' else Inr (n, 10), ws'))
      else (Inr (len, 2), ws))"

record ws_frame =
  fin :: bool
  opcode :: nat
  payload :: bytes

definition frame_payload ::
    "bool \<Rightarrow> nat \<Rightarrow> bool \<Rightarrow> nat \<Rightarrow> nat \<Rightarrow> channel \<Rightarrow> ws_frame result \<times> channel" where
  "frame_payload final op masked len cursor ws =
     (case (if masked then ws_need (cursor + 4) ws else (Inr (), ws)) of
        (Inl e, ws1) \<Rightarrow> (Inl e, ws1)
      | (Inr _, ws1) \<Rightarrow>
          let key = substr (buffer (ws_io ws1)) cursor (Some 4);
              start = (if masked then cursor + 4 else cursor)
          in (case ws_need (start + len) ws1 of
                (Inl e, ws2) \<Rightarrow> (Inl e, ws2)
              | (Inr _, ws2) \<Rightarrow>
                  let raw = substr (buffer (ws_io ws2)) start (Some len);
                      io = (ws_io ws2)\<lparr>buffer := drop (start + len) (buffer (ws_io ws2))\<rparr>
                  in (Inr \<lparr>fin = final, opcode = op, payload = if masked then apply_mask key raw else raw\<rparr>,
                      ws2\<lparr>ws_io := io\<rparr>)))"

definition read_frame :: "(nat \<Rightarrow> char) \<Rightarrow> channel \<Rightarrow> ws_frame result \<times> channel" where
  "read_frame rng ws =
     (case ws_need 2 ws of
        (Inl e, ws1) \<Rightarrow> (Inl e, ws1)
      | (Inr _, ws1) \<Rightarrow>
          let first = ws_byte ws1 0; second = ws_byte ws1 1;
              final = (first \<ge> 0x80); op = first mod 16; masked = (second \<ge> 0x80)
          in if first div 16 mod 8 \<noteq> 0
             then (fail E_protocol ''Invalid WebSocket RSV bits'', ws_close rng 1002 ''RSV bits are not supported'' ws1)
             else if masked = client_side ws1
             then (fail E_protocol ''Invalid WebSocket mask direction'',
                   ws_close rng 1002 ''Invalid masking direction'' ws1)
             else (case frame_length (second mod 0x80) ws1 of
                     (Inl e, ws2) \<Rightarrow> (Inl e, ws2)
                   | (Inr (len, cursor), ws2) \<Rightarrow>
                       if (op \<ge> 8 \<and> (\<not> final \<or> len > 125)) \<or> len > message_limit
                       then (fail E_protocol ''Invalid WebSocket frame length'', ws2)
                       else frame_payload final op masked len cursor ws2))"

section \<open>Reading a message\<close>

definition close_frame :: "(nat \<Rightarrow> char) \<Rightarrow> bytes \<Rightarrow> channel \<Rightarrow> ws_message option result \<times> channel" where
  "close_frame rng data ws =
     (if length data = 1 then (fail E_protocol ''Invalid WebSocket close frame'', ws)
      else
        let n = (if length data \<ge> 2 then code (data ! 0) * 256 + code (data ! 1) else 1000);
            reason = (if length data \<ge> 2 then substr data 2 None else [])
        in if length data \<ge> 2 \<and> (\<not> valid_close_code n \<or> \<not> valid_utf8 reason)
           then (fail E_protocol ''Invalid WebSocket close payload'', ws)
           else
             let ws1 = (if ws_open ws then snd (send_frame rng 8 data (ws\<lparr>ws_open := False\<rparr>)) else ws)
             in (fail E_websocket_closed (''WebSocket closed with code '' @ to_string n
                   @ (if reason = [] then [] else '': '' @ reason)),
                 ws1\<lparr>ws_io := connection_close (ws_io ws1)\<rparr>))"

text \<open>\<open>None\<close> continues the loop.\<close>

definition continuation_frame :: "ws_frame \<Rightarrow> channel \<Rightarrow> ws_message option result \<times> channel" where
  "continuation_frame f ws =
     (if \<not> fragmented_active ws then (fail E_protocol ''Unexpected WebSocket continuation'', ws)
      else if length (payload f) > message_limit - length (fragmented ws)
      then (fail E_body_too_large ''WebSocket message is too large'', ws)
      else
        let ws1 = ws\<lparr>fragmented := fragmented ws @ payload f\<rparr>
        in if \<not> fin f then (Inr None, ws1)
           else
             let ws2 = ws1\<lparr>fragmented_active := False\<rparr>
             in if fragmented_type ws2 = WS_text \<and> \<not> valid_utf8 (fragmented ws2)
                then (fail E_protocol ''Invalid WebSocket UTF-8'', ws2)
                else (Inr (Some \<lparr>msg_type = fragmented_type ws2, msg_data = fragmented ws2\<rparr>),
                      ws2\<lparr>fragmented := []\<rparr>))"

definition handle_frame :: "(nat \<Rightarrow> char) \<Rightarrow> ws_frame \<Rightarrow> channel \<Rightarrow> ws_message option result \<times> channel" where
  "handle_frame rng f ws =
     (if opcode f = 8 then close_frame rng (payload f) ws
      else if opcode f = 9
      then (Inr (Some \<lparr>msg_type = WS_ping, msg_data = payload f\<rparr>), snd (send_frame rng 10 (payload f) ws))
      else if opcode f = 10 then (Inr (Some \<lparr>msg_type = WS_pong, msg_data = payload f\<rparr>), ws)
      else if opcode f = 0 then continuation_frame f ws
      else if opcode f \<noteq> 1 \<and> opcode f \<noteq> 2 then (fail E_protocol ''Unsupported WebSocket opcode'', ws)
      else if fragmented_active ws
      then (fail E_protocol ''New WebSocket data frame during fragmentation'', ws)
      else
        let ty = (if opcode f = 1 then WS_text else WS_binary)
        in if fin f then
             (if ty = WS_text \<and> \<not> valid_utf8 (payload f) then (fail E_protocol ''Invalid WebSocket UTF-8'', ws)
              else (Inr (Some \<lparr>msg_type = ty, msg_data = payload f\<rparr>), ws))
           else (Inr None, ws\<lparr>fragmented_active := True, fragmented_type := ty, fragmented := payload f\<rparr>))"

definition read_step :: "(nat \<Rightarrow> char) \<Rightarrow> channel \<Rightarrow> ws_message option result \<times> channel" where
  "read_step rng ws =
     (case read_frame rng ws of
        (Inl e, ws') \<Rightarrow> (Inl e, ws') | (Inr f, ws') \<Rightarrow> handle_frame rng f ws')"

section \<open>Termination\<close>

lemma socket_read_chunk:
  "socket_read t io = (Inr (Chunk bs), io') \<Longrightarrow>
     \<exists>d rest. incoming io = (d, Inr (Chunk bs)) # rest \<and> io' = io\<lparr>clock := clock io + d, incoming := rest\<rparr>"
  by (auto simp: socket_read_def dest!: connection_read_incoming split: if_splits)

lemma ws_need_step:
  assumes "length (buffer (ws_io ws)) < count" "socket_read (ws_timeout ws) (ws_io ws) = (Inr (Chunk bs), io)"
  shows "ws_need count ws = ws_need count (ws\<lparr>ws_io := io\<lparr>buffer := buffer io @ bs\<rparr>\<rparr>)"
  using assms by (intro trans [OF ws_need.simps]) simp

lemma ws_need_ok:
  "ws_need count ws = (Inr (), ws') \<Longrightarrow>
     pending (ws_io ws') \<le> pending (ws_io ws) \<and> count \<le> length (buffer (ws_io ws'))
     \<and> (\<exists>more. buffer (ws_io ws') = buffer (ws_io ws) @ more) \<and> ws' = ws\<lparr>ws_io := ws_io ws'\<rparr>"
proof (induction count ws rule: ws_need.induct)
  case (1 count ws)
  show ?case
  proof (cases "length (buffer (ws_io ws)) < count")
    case False
    then show ?thesis using "1.prems" by (simp add: ws_need.simps [of count ws])
  next
    case short: True
    obtain c io where r: "socket_read (ws_timeout ws) (ws_io ws) = (c, io)" by (rule prod.exhaust)
    with "1.prems" short obtain bs where c: "c = Inr (Chunk bs)"
      by (simp add: ws_need.simps [of count ws] split: sum.splits read_chunk.splits)
    let ?ws = "ws\<lparr>ws_io := io\<lparr>buffer := buffer io @ bs\<rparr>\<rparr>"
    have "ws_need count ?ws = (Inr (), ws')" using "1.prems" ws_need_step [OF short r [unfolded c]] by simp
    from "1.IH" [OF short r [symmetric] c refl this] socket_read_chunk [OF r [unfolded c]]
    show ?thesis by (auto simp: pending_def)
  qed
qed

lemma frame_length_ok:
  assumes "frame_length n ws = (Inr (len, cursor), ws')"
  shows "pending (ws_io ws') \<le> pending (ws_io ws)" "cursor \<in> {2, 4, 10}"
  using assms by (auto simp: frame_length_def Let_def dest: ws_need_ok split: if_splits prod.splits sum.splits)

lemma frame_payload_ok:
  assumes "frame_payload final op masked len cursor ws = (Inr f, ws')"
  shows "pending (ws_io ws') + cursor \<le> pending (ws_io ws)"
proof -
  obtain ws1 where n1: "(if masked then ws_need (cursor + 4) ws else (Inr (), ws)) = (Inr (), ws1)"
    using assms by (auto simp: frame_payload_def split: prod.splits sum.splits)
  let ?start = "if masked then cursor + 4 else cursor"
  obtain ws2 where n2: "ws_need (?start + len) ws1 = (Inr (), ws2)"
    using assms by (auto simp: frame_payload_def n1 Let_def split: prod.splits sum.splits)
  have "ws' = ws2\<lparr>ws_io := (ws_io ws2)\<lparr>buffer := drop (?start + len) (buffer (ws_io ws2))\<rparr>\<rparr>"
    using assms by (simp add: frame_payload_def n1 n2 Let_def)
  moreover have "pending (ws_io ws2) \<le> pending (ws_io ws)"
    using n1 ws_need_ok [OF n2] by (auto dest: ws_need_ok split: if_splits)
  ultimately show ?thesis using ws_need_ok [OF n2] by (auto simp: pending_def split: if_splits)
qed

lemma read_frame_pending:
  assumes "read_frame rng ws = (Inr f, ws')" shows "pending (ws_io ws') < pending (ws_io ws)"
proof -
  obtain ws1 where n: "ws_need 2 ws = (Inr (), ws1)"
    using assms by (auto simp: read_frame_def split: prod.splits sum.splits)
  obtain len cursor ws2 where l: "frame_length (ws_byte ws1 1 mod 0x80) ws1 = (Inr (len, cursor), ws2)"
    using assms by (simp add: read_frame_def n Let_def split: if_splits prod.splits sum.splits)
  obtain final op masked where p: "frame_payload final op masked len cursor ws2 = (Inr f, ws')"
    using assms l [simplified] by (simp add: read_frame_def n Let_def split: if_splits)
  show ?thesis using ws_need_ok [OF n] frame_length_ok [OF l] frame_payload_ok [OF p] by auto
qed

lemma handle_frame_continues: "handle_frame rng f ws = (Inr None, ws') \<Longrightarrow> ws_io ws' = ws_io ws"
  by (auto simp: handle_frame_def close_frame_def continuation_frame_def Let_def split: if_splits)

lemma read_step_pending:
  "read_step rng ws = (Inr None, ws') \<Longrightarrow> pending (ws_io ws') < pending (ws_io ws)"
  by (auto simp: read_step_def dest!: handle_frame_continues read_frame_pending split: prod.splits sum.splits)

function ws_read :: "(nat \<Rightarrow> char) \<Rightarrow> channel \<Rightarrow> ws_message result \<times> channel" where
  "ws_read rng ws =
     (case read_step rng ws of
        (Inl e, ws') \<Rightarrow> (Inl e, ws')
      | (Inr (Some m), ws') \<Rightarrow> (Inr m, ws')
      | (Inr None, ws') \<Rightarrow> ws_read rng ws')"
  by pat_completeness auto
termination
proof (relation "measure (\<lambda>(_, ws). pending (ws_io ws))", goal_cases)
  case (2 rng ws x ws' y)
  then show ?case using read_step_pending [of rng ws ws'] by simp
qed simp

declare ws_read.simps [simp del]

end
