(* ===== verification/Websocket_Facts.thy ===== *)
theory Websocket_Facts
  imports Websocket
begin

text \<open>
  What the channel of \<open>Websocket\<close> guarantees: text is UTF-8, which is what the reference encoder
  produces; a frame that one side sends the other side reads, however the transport cuts it; and a
  fragmented message is put together again.
\<close>

section \<open>What is delivered\<close>

text \<open>A text message that is handed over is valid UTF-8, whole or fragmented, for any peer.\<close>

lemma ws_read_text:
  assumes "ws_read rng ws = (Inr m, ws')" "msg_type m = WS_text"
  shows "valid_utf8 (msg_data m)"
  using assms(1)
proof (induction rng ws rule: ws_read.induct)
  case (1 rng ws)
  have ok: "valid_utf8 (msg_data m)" if "handle_frame rng f w = (Inr (Some m), w')" for f w w'
    using that assms(2)
    by (auto simp: handle_frame_def close_frame_def continuation_frame_def Let_def split: if_splits)
  obtain r w where s: "read_step rng ws = (r, w)" by (rule prod.exhaust)
  show ?case
  proof (cases "r = Inr None")
    case True
    then show ?thesis using "1.IH" [OF s [symmetric]] "1.prems" s by (simp add: ws_read.simps [of rng ws])
  next
    case False
    then have "r = Inr (Some m)"
      using "1.prems" s by (auto simp: ws_read.simps [of rng ws] split: sum.splits option.splits)
    then show ?thesis using s ok by (auto simp: read_step_def split: prod.splits sum.splits)
  qed
qed

section \<open>UTF-8\<close>

text \<open>The reference: the encodings of the Unicode scalar values, one to four bytes each.\<close>

definition scalar_value :: "nat \<Rightarrow> bool" where
  "scalar_value n \<longleftrightarrow> n \<le> 0x10ffff \<and> \<not> (0xd800 \<le> n \<and> n \<le> 0xdfff)"

definition encode_scalar :: "nat \<Rightarrow> bytes" where
  "encode_scalar n =
     (if n < 0x80 then [char_of n]
      else if n < 0x800 then [char_of (0xc0 + n div 64), char_of (0x80 + n mod 64)]
      else if n < 0x10000
      then [char_of (0xe0 + n div 4096), char_of (0x80 + n div 64 mod 64), char_of (0x80 + n mod 64)]
      else [char_of (0xf0 + n div 262144), char_of (0x80 + n div 4096 mod 64),
            char_of (0x80 + n div 64 mod 64), char_of (0x80 + n mod 64)])"

definition continuation :: "nat \<Rightarrow> char" where
  "continuation m = char_of (0x80 + m)"

lemma continuation_byte:
  assumes "m < 64" shows "code (continuation m) div 64 = 2" "code (continuation m) mod 64 = m"
proof -
  have m: "code (continuation m) = m + 2 * 64" using assms by (simp add: continuation_def code_char_of)
  show "code (continuation m) div 64 = 2" unfolding m using assms by (simp only: div_mult_self1)
  show "code (continuation m) mod 64 = m" unfolding m using assms by (simp only: mod_mult_self1) simp
qed

lemma continuation_inv: "code c div 64 = 2 \<Longrightarrow> c = continuation (code c mod 64)"
proof -
  assume "code c div 64 = 2"
  then have "0x80 + code c mod 64 = code c" using div_mult_mod_eq [of "code c" 64] by simp
  then show ?thesis unfolding continuation_def by simp
qed

lemma utf8_rest_print:
  "list_all (\<lambda>m. m < 64) ms \<Longrightarrow>
     utf8_rest (length ms) cp (map continuation ms @ s) = Some (foldl (\<lambda>a m. a * 64 + m) cp ms)"
  by (induction ms arbitrary: cp) (simp_all add: continuation_byte)

lemma utf8_rest_parse:
  "utf8_rest k cp s = Some n \<Longrightarrow> \<exists>ms. length ms = k \<and> list_all (\<lambda>m. m < 64) ms
     \<and> s = map continuation ms @ drop k s \<and> n = foldl (\<lambda>a m. a * 64 + m) cp ms"
proof (induction k cp s rule: utf8_rest.induct)
  case (3 k cp c s)
  then have c: "code c div 64 = 2" "utf8_rest k (cp * 64 + code c mod 64) s = Some n"
    by (simp_all split: if_splits)
  from 3(1) [OF _ c(2)] c(1) obtain ms where ms: "length ms = k" "list_all (\<lambda>m. m < 64) ms"
    "s = map continuation ms @ drop k s" "n = foldl (\<lambda>a m. a * 64 + m) (cp * 64 + code c mod 64) ms" by auto
  then show ?case using continuation_inv [OF c(1)] by (intro exI [of _ "code c mod 64 # ms"]) simp
qed simp_all

lemma valid_utf8_step:
  assumes "utf8_lead (code c) = Some (length ms, cp0)" "list_all (\<lambda>m. m < 64) ms"
  shows "valid_utf8 (c # map continuation ms @ s) =
    (\<not> utf8_refused (length ms) (foldl (\<lambda>a m. a * 64 + m) cp0 ms) \<and> valid_utf8 s)"
proof -
  have "\<not> code c \<le> 0x7f" using assms(1) by (auto simp: utf8_lead_def split: if_splits)
  then show ?thesis using assms(1) utf8_rest_print [OF assms(2), of cp0 s] by simp
qed

text \<open>The lead byte and the continuation bytes of an encoding.\<close>

lemma div_digits:
  fixes n :: nat
  shows "(n div 64) * 64 + n mod 64 = n"
    "((n div 4096) * 64 + n div 64 mod 64) * 64 + n mod 64 = n"
    "(((n div 262144) * 64 + n div 4096 mod 64) * 64 + n div 64 mod 64) * 64 + n mod 64 = n"
proof -
  show one: "(n div 64) * 64 + n mod 64 = n" for n :: nat by (rule div_mult_mod_eq)
  have e: "n div 4096 = n div 64 div 64" "n div 262144 = n div 4096 div 64" for n :: nat
    by (simp_all flip: div_mult2_eq)
  show two: "((n div 4096) * 64 + n div 64 mod 64) * 64 + n mod 64 = n"
    unfolding e(1) one ..
  show "(((n div 262144) * 64 + n div 4096 mod 64) * 64 + n div 64 mod 64) * 64 + n mod 64 = n"
    unfolding e(2) one two ..
qed

lemma lead_2: "2 \<le> m \<Longrightarrow> m < 32 \<Longrightarrow> utf8_lead (0xc0 + m) = Some (1, m)"
  using mod_mult_self1 [of m 6 32] by (simp add: utf8_lead_def add.commute)

lemma lead_3: "m < 16 \<Longrightarrow> utf8_lead (0xe0 + m) = Some (2, m)"
  using mod_mult_self1 [of m 14 16] by (simp add: utf8_lead_def add.commute)

lemma lead_4: "m < 5 \<Longrightarrow> utf8_lead (0xf0 + m) = Some (3, m)"
  using mod_mult_self1 [of m 30 8] by (simp add: utf8_lead_def add.commute)

lemma valid_utf8_encode:
  assumes "scalar_value n" shows "valid_utf8 (encode_scalar n @ s) = valid_utf8 s"
proof -
  consider "n < 0x80" | "0x80 \<le> n" "n < 0x800" | "0x800 \<le> n" "n < 0x10000" | "0x10000 \<le> n" by linarith
  then show ?thesis
  proof cases
    case 1
    then show ?thesis by (simp add: encode_scalar_def code_char_of)
  next
    case 2
    let ?c = "char_of (0xc0 + n div 64) :: char" and ?ms = "[n mod 64]"
    have enc: "encode_scalar n @ s = ?c # map continuation ?ms @ s"
      using 2 by (simp add: encode_scalar_def continuation_def)
    have b: "2 \<le> n div 64" "n div 64 < 32" using 2 by auto
    then have "code ?c = 0xc0 + n div 64" by (intro code_char_of) simp
    then have lead: "utf8_lead (code ?c) = Some (length ?ms, n div 64)" using lead_2 [OF b] by simp
    have "\<not> utf8_refused (length ?ms) n" using 2 by (simp add: utf8_refused_def)
    then show ?thesis unfolding enc using valid_utf8_step [OF lead, of s] div_digits(1) [of n] by simp
  next
    case 3
    let ?c = "char_of (0xe0 + n div 4096) :: char" and ?ms = "[n div 64 mod 64, n mod 64]"
    have enc: "encode_scalar n @ s = ?c # map continuation ?ms @ s"
      using 3 by (simp add: encode_scalar_def continuation_def)
    have b: "n div 4096 < 16" using 3 by auto
    then have "code ?c = 0xe0 + n div 4096" by (intro code_char_of) simp
    then have lead: "utf8_lead (code ?c) = Some (length ?ms, n div 4096)" using lead_3 [OF b] by simp
    have "\<not> utf8_refused (length ?ms) n" using 3 assms by (simp add: utf8_refused_def scalar_value_def)
    then show ?thesis unfolding enc using valid_utf8_step [OF lead, of s] div_digits(2) [of n] by simp
  next
    case 4
    let ?c = "char_of (0xf0 + n div 262144) :: char" and ?ms = "[n div 4096 mod 64, n div 64 mod 64, n mod 64]"
    have enc: "encode_scalar n @ s = ?c # map continuation ?ms @ s"
      using 4 by (simp add: encode_scalar_def continuation_def)
    have b: "n div 262144 < 5" using assms by (auto simp: scalar_value_def)
    then have "code ?c = 0xf0 + n div 262144" by (intro code_char_of) simp
    then have lead: "utf8_lead (code ?c) = Some (length ?ms, n div 262144)" using lead_4 [OF b] by simp
    have "\<not> utf8_refused (length ?ms) n" using 4 assms by (simp add: utf8_refused_def scalar_value_def)
    then show ?thesis unfolding enc using valid_utf8_step [OF lead, of s] div_digits(3) [of n] by simp
  qed
qed

lemma lead_inv:
  assumes "utf8_lead b = Some (k, m)"
  shows "(k = 1 \<and> b = 0xc0 + m \<and> 2 \<le> m \<and> m < 32) \<or> (k = 2 \<and> b = 0xe0 + m \<and> m < 16)
    \<or> (k = 3 \<and> b = 0xf0 + m \<and> m < 5)"
proof -
  consider "0xc2 \<le> b" "b \<le> 0xdf" | "0xe0 \<le> b" "b \<le> 0xef" | "0xf0 \<le> b" "b \<le> 0xf4"
    using assms by (auto simp: utf8_lead_def split: if_splits)
  then show ?thesis
  proof cases
    case 1
    then obtain j where "b = 0xc0 + j" "2 \<le> j" "j < 32" by (intro that [of "b - 0xc0"]) auto
    then show ?thesis using lead_2 [of j] assms by simp
  next
    case 2
    then obtain j where "b = 0xe0 + j" "j < 16" by (intro that [of "b - 0xe0"]) auto
    then show ?thesis using lead_3 [of j] assms by simp
  next
    case 3
    then obtain j where "b = 0xf0 + j" "j < 5" by (intro that [of "b - 0xf0"]) auto
    then show ?thesis using lead_4 [of j] assms by simp
  qed
qed

lemma digits_back:
  fixes a m :: nat
  assumes "m < 64" shows "(a * 64 + m) div 64 = a" "(a * 64 + m) mod 64 = m"
  using assms by simp_all

lemma encode_decoded:
  assumes "utf8_lead b = Some (length ms, m)" "list_all (\<lambda>m. m < 64) ms" "n = foldl (\<lambda>a m. a * 64 + m) m ms"
    and "\<not> utf8_refused (length ms) n"
  shows "scalar_value n \<and> encode_scalar n = char_of b # map continuation ms"
proof -
  have sv: "scalar_value n" using assms(4) by (auto simp: utf8_refused_def scalar_value_def)
  have e: "n div 4096 = n div 64 div 64" "n div 262144 = n div 64 div 64 div 64" for n :: nat
    by (simp_all flip: div_mult2_eq)
  consider "length ms = 1" "b = 0xc0 + m" "2 \<le> m" "m < 32" | "length ms = 2" "b = 0xe0 + m" "m < 16"
    | "length ms = 3" "b = 0xf0 + m" "m < 5" using lead_inv [OF assms(1)] by blast
  then show ?thesis
  proof cases
    case 1
    then obtain p where ms: "ms = [p]" by (auto simp: length_Suc_conv)
    have n: "n = m * 64 + p" "p < 64" using assms(2,3) ms by simp_all
    then have "n div 64 = m" "n mod 64 = p" "0x80 \<le> n" "n < 0x800" using digits_back 1 by auto
    then show ?thesis using sv ms 1 by (simp add: encode_scalar_def continuation_def)
  next
    case 2
    then obtain p q where ms: "ms = [p, q]" by (auto simp: length_Suc_conv numeral_eq_Suc)
    have n: "n = (m * 64 + p) * 64 + q" "p < 64" "q < 64" using assms(2,3) ms by simp_all
    have "n div 64 = m * 64 + p" "n mod 64 = q" using n digits_back by metis+
    then have "n div 64 mod 64 = p" "n div 4096 = m" "n mod 64 = q" unfolding e using n(2) digits_back by simp_all
    moreover have "0x800 \<le> n" "n < 0x10000" using assms(4) 2 n by (auto simp: utf8_refused_def)
    ultimately show ?thesis using sv ms 2 by (simp add: encode_scalar_def continuation_def)
  next
    case 3
    then obtain p q r where ms: "ms = [p, q, r]" by (auto simp: length_Suc_conv numeral_eq_Suc)
    have n: "n = ((m * 64 + p) * 64 + q) * 64 + r" "p < 64" "q < 64" "r < 64" using assms(2,3) ms by simp_all
    have d: "n div 64 = (m * 64 + p) * 64 + q" "n mod 64 = r" using n digits_back by metis+
    then have "n div 64 mod 64 = q" "n div 64 div 64 = m * 64 + p"
      using digits_back [OF n(3), of "m * 64 + p"] by (simp_all only:)
    then have "n div 64 mod 64 = q" "n div 4096 mod 64 = p" "n div 262144 = m" "n mod 64 = r"
      unfolding e using digits_back [OF n(2), of m] d(2) by (simp_all only:)
    moreover have "0x10000 \<le> n" using assms(4) 3 by (auto simp: utf8_refused_def)
    ultimately show ?thesis using sv ms 3 by (simp add: encode_scalar_def continuation_def)
  qed
qed

text \<open>C35: \<^verbatim>\<open>valid_utf8\<close> accepts exactly the encodings of sequences of Unicode scalar values: nothing
  overlong, no surrogate, nothing above U+10FFFF and nothing cut short.\<close>

theorem valid_utf8_iff:
  "valid_utf8 s \<longleftrightarrow> (\<exists>ns. list_all scalar_value ns \<and> s = concat (map encode_scalar ns))"
proof
  assume "\<exists>ns. list_all scalar_value ns \<and> s = concat (map encode_scalar ns)"
  then obtain ns where "list_all scalar_value ns" "s = concat (map encode_scalar ns)" by blast
  then show "valid_utf8 s" by (induction ns arbitrary: s) (simp_all add: valid_utf8_encode)
next
  show "valid_utf8 s \<Longrightarrow> \<exists>ns. list_all scalar_value ns \<and> s = concat (map encode_scalar ns)"
  proof (induction s rule: valid_utf8.induct)
    case 1
    show ?case by (intro exI [of _ "[]"]) simp
  next
    case (2 c s)
    show ?case
    proof (cases "code c \<le> 0x7f")
      case True
      then obtain ns where "list_all scalar_value ns" "s = concat (map encode_scalar ns)"
        using 2(1) "2.prems" by auto
      then show ?thesis using True
        by (intro exI [of _ "code c # ns"]) (simp add: encode_scalar_def [of "code c"] scalar_value_def [of "code c"])
    next
      case False
      obtain k m n where lead: "utf8_lead (code c) = Some (k, m)" and rest: "utf8_rest k m s = Some n"
        and ok: "\<not> utf8_refused k n" "valid_utf8 (drop k s)" and len: "\<not> k > length s"
        using "2.prems" False by (auto split: option.splits if_splits)
      from utf8_rest_parse [OF rest] obtain ms where
        ms: "length ms = k" "list_all (\<lambda>m. m < 64) ms" "s = map continuation ms @ drop k s"
          "n = foldl (\<lambda>a m. a * 64 + m) m ms" by blast
      have enc: "scalar_value n \<and> encode_scalar n = c # map continuation ms"
        using encode_decoded [of "code c" ms m n] lead ms ok(1) by simp
      obtain ns where "list_all scalar_value ns" "drop k s = concat (map encode_scalar ns)"
        using 2(2) [OF False lead refl len rest ok(1,2)] by blast
      then show ?thesis using enc ms(3) by (intro exI [of _ "n # ns"]) simp
    qed
  qed
qed

section \<open>Frames that arrive\<close>

text \<open>The peer sends \<open>s\<close> in time, cut in any way, and nobody has closed the connection.\<close>

definition calm :: "channel \<Rightarrow> bytes \<Rightarrow> bool" where
  "calm ws s \<longleftrightarrow> closes_at (ws_io ws) = None
     \<and> s = buffer (ws_io ws) @ arriving (ws_timeout ws) (incoming (ws_io ws))"

lemma ws_need_calm:
  "calm ws s \<Longrightarrow> count \<le> length s \<Longrightarrow> \<exists>ws'. ws_need count ws = (Inr (), ws') \<and> calm ws' s
     \<and> (\<exists>tail. s = buffer (ws_io ws') @ tail) \<and> count \<le> length (buffer (ws_io ws'))
     \<and> ws' = ws\<lparr>ws_io := ws_io ws'\<rparr>"
proof (induction "length (incoming (ws_io ws))" arbitrary: ws rule: less_induct)
  case less
  let ?io = "ws_io ws"
  show ?case
  proof (cases "length (buffer ?io) < count")
    case False
    then show ?thesis using less.prems by (auto simp: ws_need.simps [of count ws] calm_def)
  next
    case True
    then have "arriving (ws_timeout ws) (incoming ?io) \<noteq> []" using less.prems by (auto simp: calm_def)
    then obtain d bs rest where inc: "incoming ?io = (d, Inr (Chunk bs)) # rest" "d \<le> ws_timeout ws"
      by (cases "incoming ?io") (auto split: sum.splits read_chunk.splits if_splits)
    let ?io1 = "?io\<lparr>clock := clock ?io + d, incoming := rest\<rparr>"
    have read: "socket_read (ws_timeout ws) ?io = (Inr (Chunk bs), ?io1)"
      using less.prems(1) inc by (simp add: socket_read_def connection_open_def calm_def connection_read_def)
    let ?ws = "ws\<lparr>ws_io := ?io1\<lparr>buffer := buffer ?io1 @ bs\<rparr>\<rparr>"
    have "calm ?ws s" using less.prems(1) inc by (simp add: calm_def)
    moreover have "length (incoming (ws_io ?ws)) < length (incoming ?io)" using inc by simp
    ultimately show ?thesis
      using less.hyps [of ?ws] less.prems(2) ws_need_step [OF True read] by auto
  qed
qed

lemma ws_byte_calm:
  "s = buffer (ws_io ws) @ tail \<Longrightarrow> i < length (buffer (ws_io ws)) \<Longrightarrow> ws_byte ws i = code (s ! i)"
  by (simp add: ws_byte_def nth_append)

text \<open>The length field: its seven bits and what follows them.\<close>

definition length_bits :: "nat \<Rightarrow> nat" where
  "length_bits n = (if n \<le> 125 then n else if n \<le> 65535 then 126 else 127)"

definition length_bytes :: "nat \<Rightarrow> bytes" where
  "length_bytes n = (if n \<le> 125 then [] else if n \<le> 65535 then [char_of (n div 256), char_of n]
     else map (\<lambda>shift. char_of (n div 2 ^ shift)) [56, 48, 40, 32, 24, 16, 8, 0])"

lemma frame_header_parts:
  "frame_header client op n =
     char_of (0x80 + op) # char_of ((if client then 0x80 else 0) + length_bits n) # length_bytes n"
  by (simp add: frame_header_def length_bits_def length_bytes_def)

lemma code_char_mod: "code (char_of n) = n mod 256"
  by simp

lemma big_endian:
  assumes "(n::nat) < 2 ^ 64" "k \<le> 8"
  shows "foldl (\<lambda>acc i. acc * 256 + n div 2 ^ (56 - 8 * i) mod 256) 0 [0..<k] = n div 2 ^ (64 - 8 * k)"
  using assms(2)
proof (induction k)
  case 0
  then show ?case using assms(1) by simp
next
  case (Suc k)
  define m where "m = n div 2 ^ (56 - 8 * k)"
  have e: "64 - 8 * k = 56 - 8 * k + 8" "64 - 8 * Suc k = 56 - 8 * k" using Suc.prems by simp_all
  have step: "n div 2 ^ (64 - 8 * k) = m div 256"
    unfolding e(1) power_add div_mult2_eq m_def by simp
  have ih: "foldl (\<lambda>acc i. acc * 256 + n div 2 ^ (56 - 8 * i) mod 256) 0 [0..<k] = m div 256"
    using Suc.IH Suc.prems step by simp
  have "foldl (\<lambda>acc i. acc * 256 + n div 2 ^ (56 - 8 * i) mod 256) 0 [0..<Suc k] = m div 256 * 256 + m mod 256"
    unfolding upt_Suc_append [OF le0] foldl_append ih by (simp only: foldl.simps m_def)
  also have "\<dots> = m" by (rule div_mult_mod_eq)
  finally show ?case unfolding e(2) m_def .
qed

lemma frame_length_calm:
  assumes "calm ws s" "s = x # y # length_bytes n @ tail" "n \<le> message_limit"
  shows "\<exists>ws'. frame_length (length_bits n) ws = (Inr (n, 2 + length (length_bytes n)), ws') \<and> calm ws' s
    \<and> ws' = ws\<lparr>ws_io := ws_io ws'\<rparr>"
proof -
  consider "n \<le> 125" | "125 < n" "n \<le> 65535" | "65535 < n" by linarith
  then show ?thesis
  proof cases
    case 1
    then show ?thesis using assms(1) by (auto simp: frame_length_def length_bits_def length_bytes_def)
  next
    case 2
    then have "4 \<le> length s" using assms(2) by (simp add: length_bytes_def)
    from ws_need_calm [OF assms(1) this] obtain ws' tail' where
      need: "ws_need 4 ws = (Inr (), ws')" "calm ws' s" "s = buffer (ws_io ws') @ tail'"
        "4 \<le> length (buffer (ws_io ws'))" "ws' = ws\<lparr>ws_io := ws_io ws'\<rparr>" by blast
    have "ws_byte ws' i = code (s ! i)" if "i < 4" for i
      using need(4) that by (intro ws_byte_calm [OF need(3)]) simp
    then have "ws_byte ws' 2 = n div 256 mod 256" "ws_byte ws' 3 = n mod 256"
      using 2 assms(2) by (simp_all add: length_bytes_def)
    moreover have "n div 256 mod 256 * 256 + n mod 256 = n" using 2 by simp
    ultimately show ?thesis
      using 2 need by (auto simp: frame_length_def length_bits_def length_bytes_def Let_def)
  next
    case 3
    then have "10 \<le> length s" using assms(2) by (simp add: length_bytes_def)
    from ws_need_calm [OF assms(1) this] obtain ws' tail' where
      need: "ws_need 10 ws = (Inr (), ws')" "calm ws' s" "s = buffer (ws_io ws') @ tail'"
        "10 \<le> length (buffer (ws_io ws'))" "ws' = ws\<lparr>ws_io := ws_io ws'\<rparr>" by blast
    have small: "n < 2 ^ 64" using assms(3) by (simp add: message_limit_def)
    have b: "ws_byte ws' (2 + i) = n div 2 ^ (56 - 8 * i) mod 256" if "i < 8" for i
    proof -
      have "ws_byte ws' (2 + i) = code (s ! (2 + i))"
        using need(4) that by (intro ws_byte_calm [OF need(3)]) simp
      moreover have "length (length_bytes n) = 8" using 3 by (simp add: length_bytes_def)
      then have "s ! (2 + i) = length_bytes n ! i" using assms(2) that by (simp add: nth_append)
      then have "s ! (2 + i) = map (\<lambda>shift. char_of (n div 2 ^ shift)) [56, 48, 40, 32, 24, 16, 8, 0] ! i"
        using 3 by (simp only: length_bytes_def) simp
      moreover have "i \<in> {0, 1, 2, 3, 4, 5, 6, 7}" using that by auto
      ultimately show ?thesis by auto
    qed
    have "foldl (\<lambda>acc i. acc * 256 + ws_byte ws' (2 + i)) 0 [0..<8] = n"
    proof -
      have "foldl (\<lambda>acc i. acc * 256 + ws_byte ws' (2 + i)) 0 [0..<8] =
          foldl (\<lambda>acc i. acc * 256 + n div 2 ^ (56 - 8 * i) mod 256) 0 [0..<8]"
        by (rule foldl_cong) (use b in auto)
      then show ?thesis using big_endian [OF small, of 8] by simp
    qed
    moreover have "ws_byte ws' 2 < 0x80" using b [of 0] assms(3) by (simp add: message_limit_def)
    ultimately show ?thesis
      using 3 need by (auto simp: frame_length_def length_bits_def length_bytes_def Let_def simp del: upt_rec_numeral)
  qed
qed

lemma xor_char_self: "xor_char (xor_char a b) b = a"
  by (cases a; cases b) auto

lemma apply_mask_length [simp]: "length (apply_mask key p) = length p"
  by (simp add: apply_mask_def)

lemma apply_mask_twice: "apply_mask key (apply_mask key p) = p"
  by (rule nth_equalityI) (simp_all add: apply_mask_def xor_char_self)

text \<open>A frame as it is on the wire: the flag, the header, the masking key and the payload.\<close>

definition frame_bytes :: "bool \<Rightarrow> bool \<Rightarrow> nat \<Rightarrow> bytes \<Rightarrow> bytes \<Rightarrow> bytes" where
  "frame_bytes final client op key data =
     char_of ((if final then 0x80 else 0) + op) #
     char_of ((if client then 0x80 else 0) + length_bits (length data)) #
     length_bytes (length data) @ key @ (if client then apply_mask key data else data)"

lemma substr_middle: "substr (us @ vs @ ws) (length us) (Some (length vs)) = vs"
  by (simp add: substr_def)

lemma calm_consume:
  assumes "calm ws (us @ s)" "length us \<le> length (buffer (ws_io ws))"
  shows "calm (ws\<lparr>ws_io := (ws_io ws)\<lparr>buffer := drop (length us) (buffer (ws_io ws))\<rparr>\<rparr>) s"
proof -
  have "drop (length us) (us @ s) = drop (length us) (buffer (ws_io ws) @ arriving (ws_timeout ws) (incoming (ws_io ws)))"
    using assms(1) by (simp only: calm_def)
  then show ?thesis using assms by (simp add: calm_def)
qed

lemma prefix_substr:
  assumes "us @ vs @ s = b @ tail" "length us + length vs \<le> length b"
  shows "substr b (length us) (Some (length vs)) = vs"
proof -
  have "take (length us + length vs) (b @ tail) = us @ vs"
    using assms(1) [symmetric] by simp
  then have "take (length us + length vs) b = us @ vs" using assms(2) by simp
  then have "take (length vs) (drop (length us) b) = vs"
    by (metis append_eq_conv_conj take_drop add.commute)
  then show ?thesis by (simp add: substr_def)
qed

lemma frame_payload_calm:
  assumes "calm ws (us @ key @ raw @ s)" "length key = (if masked then 4 else 0)"
  shows "\<exists>ws'. frame_payload final op masked (length raw) (length us) ws =
      (Inr \<lparr>fin = final, opcode = op, payload = if masked then apply_mask key raw else raw\<rparr>, ws')
    \<and> calm ws' s \<and> ws' = ws\<lparr>ws_io := ws_io ws'\<rparr>"
proof -
  let ?s = "us @ key @ raw @ s" and ?start = "if masked then length us + 4 else length us"
  have start: "?start = length (us @ key)" using assms(2) by simp
  obtain ws1 where n1: "(if masked then ws_need (length us + 4) ws else (Inr (), ws)) = (Inr (), ws1)"
    "calm ws1 ?s" "ws1 = ws\<lparr>ws_io := ws_io ws1\<rparr>"
    "masked \<longrightarrow> length us + 4 \<le> length (buffer (ws_io ws1))"
  proof (cases masked)
    case True
    then have "length us + 4 \<le> length ?s" using assms(2) by simp
    from ws_need_calm [OF assms(1) this] True that show thesis by auto
  next
    case False
    then show thesis using that [of ws] assms(1) by simp
  qed
  have "?start + length raw \<le> length ?s" using assms(2) by simp
  from ws_need_calm [OF n1(2) this] obtain ws2 tail where n2: "ws_need (?start + length raw) ws1 = (Inr (), ws2)"
    "calm ws2 ?s" "?s = buffer (ws_io ws2) @ tail" "?start + length raw \<le> length (buffer (ws_io ws2))"
    "ws2 = ws1\<lparr>ws_io := ws_io ws2\<rparr>" by blast
  have key: "masked \<Longrightarrow> substr (buffer (ws_io ws1)) (length us) (Some 4) = key"
    using prefix_substr [of us key "raw @ s" "buffer (ws_io ws1)" "arriving (ws_timeout ws1) (incoming (ws_io ws1))"]
      n1(2,4) assms(2) by (simp add: calm_def)
  have raw: "substr (buffer (ws_io ws2)) ?start (Some (length raw)) = raw"
    using prefix_substr [of "us @ key" raw s "buffer (ws_io ws2)" tail] n2(3,4) start by simp
  let ?ws = "ws2\<lparr>ws_io := (ws_io ws2)\<lparr>buffer := drop (?start + length raw) (buffer (ws_io ws2))\<rparr>\<rparr>"
  have "calm ?ws s"
    using calm_consume [of ws2 "us @ key @ raw" s] n2(2,4) start by (simp add: add.assoc)
  moreover have "?ws = ws\<lparr>ws_io := ws_io ?ws\<rparr>" using n1(3) n2(5) by (cases ws; cases ws1; cases ws2) simp
  ultimately show ?thesis
    using key raw n1(1) n2(1)
    by (intro exI [of _ ?ws]) (cases masked; simp add: frame_payload_def Let_def)
qed

lemma first_byte: "op < 16 \<Longrightarrow> code (char_of ((if final then 0x80 else 0) + op)) = (if final then 0x80 else 0) + op"
  by auto

lemma low_bits: "(op::nat) < 16 \<Longrightarrow> (128 + op) mod 16 = op \<and> (128 + op) div 16 mod 8 = 0"
proof -
  assume "op < 16"
  moreover have "128 + op = op + 8 * 16" by simp
  ultimately show ?thesis by (simp only: mod_mult_self1 div_mult_self1) simp
qed

lemma read_frame_calm:
  assumes "calm ws (frame_bytes final (\<not> client_side ws) op key data @ s)" "op < 16"
    and "length key = (if client_side ws then 0 else 4)" "length data \<le> message_limit"
    and "op \<ge> 8 \<longrightarrow> final \<and> length data \<le> 125"
  shows "\<exists>ws'. read_frame rng ws = (Inr \<lparr>fin = final, opcode = op, payload = data\<rparr>, ws') \<and> calm ws' s
    \<and> ws' = ws\<lparr>ws_io := ws_io ws'\<rparr>"
proof -
  let ?masked = "\<not> client_side ws"
  let ?n = "length data" and ?raw = "if ?masked then apply_mask key data else data"
  let ?b0 = "char_of ((if final then 0x80 else 0) + op) :: char"
  let ?b1 = "char_of ((if ?masked then 0x80 else 0) + length_bits ?n) :: char"
  let ?s = "?b0 # ?b1 # length_bytes ?n @ key @ ?raw @ s"
  have calm: "calm ws ?s" using assms(1) by (simp add: frame_bytes_def)
  from ws_need_calm [OF this, of 2] obtain ws1 tail where n: "ws_need 2 ws = (Inr (), ws1)" "calm ws1 ?s"
    "?s = buffer (ws_io ws1) @ tail" "2 \<le> length (buffer (ws_io ws1))" "ws1 = ws\<lparr>ws_io := ws_io ws1\<rparr>" by auto
  have bits: "length_bits ?n \<le> 127" by (simp add: length_bits_def)
  have "ws_byte ws1 i = code (?s ! i)" if "i < 2" for i
    using n(4) that by (intro ws_byte_calm [OF n(3)]) simp
  then have b0: "ws_byte ws1 0 = (if final then 0x80 else 0) + op"
    and b1: "ws_byte ws1 1 = (if ?masked then 0x80 else 0) + length_bits ?n"
    using assms(2) bits by auto
  have side: "client_side ws1 = client_side ws" "ws_timeout ws1 = ws_timeout ws" by (subst n(5), simp)+
  from frame_length_calm [OF n(2) refl assms(4)] obtain ws2 where
    l: "frame_length (length_bits ?n) ws1 = (Inr (?n, 2 + length (length_bytes ?n)), ws2)" "calm ws2 ?s"
      "ws2 = ws1\<lparr>ws_io := ws_io ws2\<rparr>" by blast
  have "calm ws2 ((?b0 # ?b1 # length_bytes ?n) @ key @ ?raw @ s)" using l(2) by simp
  from frame_payload_calm [OF this, of ?masked final op] assms(3) obtain ws3 where
    p: "frame_payload final op ?masked ?n (2 + length (length_bytes ?n)) ws2 =
        (Inr \<lparr>fin = final, opcode = op, payload = data\<rparr>, ws3)" "calm ws3 s" "ws3 = ws2\<lparr>ws_io := ws_io ws3\<rparr>"
    by (auto simp: apply_mask_twice split: if_splits)
  have "ws3 = ws\<lparr>ws_io := ws_io ws3\<rparr>" using n(5) l(3) p(3) by (cases ws; cases ws1; cases ws2; cases ws3) simp
  moreover have "read_frame rng ws = (Inr \<lparr>fin = final, opcode = op, payload = data\<rparr>, ws3)"
  proof -
    have "(ws_byte ws1 0 \<ge> 0x80) = final" "ws_byte ws1 0 mod 16 = op" "ws_byte ws1 0 div 16 mod 8 = 0"
      unfolding b0 using assms(2) low_bits [of op] by (cases final; simp)+
    moreover have "(ws_byte ws1 1 \<ge> 0x80) = ?masked" "ws_byte ws1 1 mod 0x80 = length_bits ?n"
      using b1 bits by auto
    moreover have "\<not> ((op \<ge> 8 \<and> (\<not> final \<or> ?n > 125)) \<or> ?n > message_limit)" using assms(4,5) by auto
    ultimately show ?thesis
      unfolding read_frame_def n(1) prod.case sum.case Let_def side(1)
      by (simp add: l(1) p(1) [simplified])
  qed
  ultimately show ?thesis using p(2) by blast
qed

section \<open>From one side to the other\<close>

lemma send_frame_wire:
  assumes "send_frame rng op data ws = (e, ws')" "\<not> is_error e"
  shows "wire (ws_io ws') = wire (ws_io ws) @ frame_bytes True (client_side ws) op (draw_mask rng ws) data"
proof -
  let ?key = "draw_mask rng ws" and ?data = "if client_side ws then apply_mask (draw_mask rng ws) data else data"
  let ?frame = "frame_header (client_side ws) op (length data) @ ?key"
  have open': "connection_open (ws_io ws)"
    using assms by (auto simp: send_frame_def split: if_splits)
  have bytes: "?frame @ ?data = frame_bytes True (client_side ws) op ?key data"
    by (simp add: frame_header_parts frame_bytes_def)
  show ?thesis
  proof (cases "length data \<le> block_size")
    case True
    obtain e1 io where w: "connection_write (?frame @ ?data) (ws_timeout ws) (ws_io ws) = (e1, io)" by (rule prod.exhaust)
    have "e1 = e" "ws_io ws' = io" using assms(1) open' True w by (auto simp: send_frame_def Let_def)
    then show ?thesis using connection_write_wire [OF w] assms(2) bytes by simp
  next
    case False
    obtain e1 io where w: "connection_write ?frame (ws_timeout ws) (ws_io ws) = (e1, io)" by (rule prod.exhaust)
    obtain e2 io2 where w2: "write_body_bytes ?data (ws_timeout ws) io = (e2, io2)" by (rule prod.exhaust)
    have "\<not> is_error e1" "e2 = e" "ws_io ws' = io2"
      using assms open' False w w2 by (auto simp: send_frame_def Let_def split: if_splits)
    then show ?thesis
      using connection_write_wire [OF w] write_body_bytes_wire [OF w2] assms(2) bytes by simp
  qed
qed

lemma draw_mask_length: "length (draw_mask rng ws) = (if client_side ws then 4 else 0)"
  by (simp add: draw_mask_def)

text \<open>C30: A message that one side reports as sent is the next message the other side reads, whatever its
  length form, mask and payload and however the transport cuts the frame, and the stream after the
  frame is left.\<close>

theorem message_roundtrip:
  assumes "ws_send rng data binary a = (True, a')" "wire (ws_io a) = []"
    and "calm b (wire (ws_io a') @ s)" "client_side b = (\<not> client_side a)" "\<not> fragmented_active b"
  shows "\<exists>b'. ws_read rng' b = (Inr \<lparr>msg_type = if binary then WS_binary else WS_text, msg_data = data\<rparr>, b')
    \<and> calm b' s"
proof -
  let ?op = "if binary then 2 else 1 :: nat"
  obtain e where send: "send_frame rng ?op data a = (e, a')" "\<not> is_error e"
    and ok: "length data \<le> message_limit" "binary \<or> valid_utf8 data"
    using assms(1) by (auto simp: ws_send_def split: if_splits prod.splits)
  have arrived: "calm b (frame_bytes True (\<not> client_side b) ?op (draw_mask rng a) data @ s)"
    using send_frame_wire [OF send] assms(2-4) by simp
  have key: "length (draw_mask rng a) = (if client_side b then 0 else 4)"
    using assms(4) by (simp add: draw_mask_length)
  have "?op < 16" "?op \<ge> 8 \<longrightarrow> True \<and> length data \<le> 125" by simp_all
  from read_frame_calm [OF arrived this(1) key ok(1) this(2)] obtain b' where b: "read_frame rng' b = (Inr \<lparr>fin = True, opcode = ?op, payload = data\<rparr>, b')"
    "calm b' s" "b' = b\<lparr>ws_io := ws_io b'\<rparr>"
    by blast
  have "\<not> fragmented_active b'" using assms(5) by (subst b(3)) simp
  then have "read_step rng' b = (Inr (Some \<lparr>msg_type = if binary then WS_binary else WS_text, msg_data = data\<rparr>), b')"
    using ok(2) by (auto simp: read_step_def b(1) handle_frame_def)
  then show ?thesis using b(2) by (subst ws_read.simps) simp
qed

text \<open>The frames of a fragmented message after its first one; a fragment is its masking key and data.\<close>

fun continuation_bytes :: "bool \<Rightarrow> (bytes \<times> bytes) list \<Rightarrow> bytes" where
  "continuation_bytes client [] = []"
| "continuation_bytes client ((k, d) # r) = frame_bytes (r = []) client 0 k d @ continuation_bytes client r"

lemma continuation_calm:
  "calm ws (continuation_bytes (\<not> client_side ws) fs @ s) \<Longrightarrow> fs \<noteq> [] \<Longrightarrow> fragmented_active ws \<Longrightarrow>
   list_all (\<lambda>(k, d). length k = (if client_side ws then 0 else 4)) fs \<Longrightarrow>
   length (fragmented ws @ concat (map snd fs)) \<le> message_limit \<Longrightarrow>
   fragmented_type ws = WS_text \<longrightarrow> valid_utf8 (fragmented ws @ concat (map snd fs)) \<Longrightarrow>
   \<exists>ws'. ws_read rng ws = (Inr \<lparr>msg_type = fragmented_type ws, msg_data = fragmented ws @ concat (map snd fs)\<rparr>, ws')
     \<and> calm ws' s \<and> \<not> fragmented_active ws'"
proof (induction fs arbitrary: ws)
  case (Cons f fs)
  obtain k d where f: "f = (k, d)" by (rule prod.exhaust)
  have arrived: "calm ws (frame_bytes (fs = []) (\<not> client_side ws) 0 k d @ (continuation_bytes (\<not> client_side ws) fs @ s))"
    using Cons.prems(1) f by simp
  have "(0::nat) < 16" "length k = (if client_side ws then 0 else 4)" "length d \<le> message_limit"
    "(0::nat) \<ge> 8 \<longrightarrow> (fs = []) \<and> length d \<le> 125"
    using Cons.prems(4,5) f by simp_all
  from read_frame_calm [OF arrived this] obtain ws1 where
    r: "read_frame rng ws = (Inr \<lparr>fin = (fs = []), opcode = 0, payload = d\<rparr>, ws1)"
      "calm ws1 (continuation_bytes (\<not> client_side ws) fs @ s)" "ws1 = ws\<lparr>ws_io := ws_io ws1\<rparr>" by blast
  have same: "fragmented_active ws1" "fragmented ws1 = fragmented ws" "fragmented_type ws1 = fragmented_type ws"
    "client_side ws1 = client_side ws"
    using Cons.prems(3) by (subst r(3), simp)+
  have room: "\<not> length d > message_limit - length (fragmented ws1)" using Cons.prems(5) same f by simp
  let ?ws = "ws1\<lparr>fragmented := fragmented ws1 @ d\<rparr>"
  show ?case
  proof (cases "fs = []")
    case True
    then have "read_step rng ws = (Inr (Some \<lparr>msg_type = fragmented_type ws, msg_data = fragmented ws @ d\<rparr>),
        ?ws\<lparr>fragmented_active := False, fragmented := []\<rparr>)"
      using room same Cons.prems(6) f by (simp add: read_step_def r(1) handle_frame_def continuation_frame_def Let_def)
    then show ?thesis using r(2) True f by (subst ws_read.simps) (simp add: calm_def)
  next
    case False
    then have "read_step rng ws = (Inr None, ?ws)"
      using room same by (simp add: read_step_def r(1) handle_frame_def continuation_frame_def Let_def)
    then have step: "ws_read rng ws = ws_read rng ?ws" by (subst ws_read.simps) simp
    have "calm ?ws (continuation_bytes (\<not> client_side ?ws) fs @ s)" using r(2) same by (simp add: calm_def)
    from Cons.IH [OF this False] Cons.prems(4-6) same f show ?thesis unfolding step by simp
  qed
qed simp

text \<open>The fragments of a message, each with its own mask and cut by the transport in any way, are
  delivered as one message with the concatenated payload.\<close>

lemma fragmented_roundtrip:
  assumes "calm ws (frame_bytes False (\<not> client_side ws) op k d @ continuation_bytes (\<not> client_side ws) fs @ s)"
    and "op \<in> {1, 2}" "fs \<noteq> []" "\<not> fragmented_active ws"
    and "list_all (\<lambda>(k, d). length k = (if client_side ws then 0 else 4)) ((k, d) # fs)"
    and "length (d @ concat (map snd fs)) \<le> message_limit" "op = 1 \<longrightarrow> valid_utf8 (d @ concat (map snd fs))"
  shows "\<exists>ws'. ws_read rng ws = (Inr \<lparr>msg_type = if op = 1 then WS_text else WS_binary,
      msg_data = d @ concat (map snd fs)\<rparr>, ws') \<and> calm ws' s \<and> \<not> fragmented_active ws'"
proof -
  have "op < 16" "length k = (if client_side ws then 0 else 4)" "length d \<le> message_limit"
    "op \<ge> 8 \<longrightarrow> False \<and> length d \<le> 125" using assms(2,5,6) by auto
  from read_frame_calm [OF assms(1) this] obtain ws1 where
    r: "read_frame rng ws = (Inr \<lparr>fin = False, opcode = op, payload = d\<rparr>, ws1)"
      "calm ws1 (continuation_bytes (\<not> client_side ws) fs @ s)" "ws1 = ws\<lparr>ws_io := ws_io ws1\<rparr>" by blast
  have same: "\<not> fragmented_active ws1" "client_side ws1 = client_side ws"
    using assms(4) by (subst r(3), simp)+
  let ?ty = "if op = 1 then WS_text else WS_binary"
  let ?ws = "ws1\<lparr>fragmented_active := True, fragmented_type := ?ty, fragmented := d\<rparr>"
  have "read_step rng ws = (Inr None, ?ws)"
    using assms(2) same by (auto simp: read_step_def r(1) handle_frame_def)
  then have step: "ws_read rng ws = ws_read rng ?ws" by (subst ws_read.simps) simp
  have "calm ?ws (continuation_bytes (\<not> client_side ?ws) fs @ s)" using r(2) same by (simp add: calm_def)
  from continuation_calm [OF this assms(3)] assms(2,5-7) same show ?thesis unfolding step by simp
qed

section \<open>Runs\<close>

definition sample_channel :: "bool \<Rightarrow> bytes \<Rightarrow> channel" where
  "sample_channel client s = \<lparr>ws_io = idle_io\<lparr>incoming := [(1, Inr (Chunk s))]\<rparr>, client_side = client,
     ws_protocol = [], ws_timeout = 10, ws_open = True, fragmented = [], fragmented_type = WS_text, fragmented_active = False,
     draws = 0\<rparr>"

lemma text_run:
  "fst (ws_read (\<lambda>_. CHR ''k'') (sample_channel True (frame_bytes True False 1 [] ''hi''))) =
     Inr \<lparr>msg_type = WS_text, msg_data = ''hi''\<rparr>"
proof -
  let ?ws = "sample_channel True (frame_bytes True False 1 [] ''hi'')"
  have "calm ?ws (frame_bytes True (\<not> client_side ?ws) 1 [] ''hi'' @ [])"
    by (simp add: sample_channel_def calm_def idle_io_def)
  moreover have "(1::nat) < 16" "length [] = (if client_side ?ws then 0 else 4)"
    "length ''hi'' \<le> message_limit" "1 \<ge> (8::nat) \<longrightarrow> True \<and> length ''hi'' \<le> 125"
    by (simp_all add: sample_channel_def message_limit_def)
  ultimately obtain ws' where r: "read_frame (\<lambda>_. CHR ''k'') ?ws =
      (Inr \<lparr>fin = True, opcode = 1, payload = ''hi''\<rparr>, ws')" "ws' = ?ws\<lparr>ws_io := ws_io ws'\<rparr>"
    using read_frame_calm [of ?ws True 1 "[]" "''hi''" "[]" "\<lambda>_. CHR ''k''"] by (metis (no_types, lifting))
  have "\<not> fragmented_active ws'" by (subst r(2)) (simp add: sample_channel_def)
  then have "read_step (\<lambda>_. CHR ''k'') ?ws = (Inr (Some \<lparr>msg_type = WS_text, msg_data = ''hi''\<rparr>), ws')"
    by (simp add: read_step_def r(1) [simplified] handle_frame_def)
  then show ?thesis by (subst ws_read.simps) simp
qed

lemma ws_read_text_witness: "valid_utf8 (msg_data \<lparr>msg_type = WS_text, msg_data = ''hi''\<rparr>)"
proof (rule ws_read_text)
  show "ws_read (\<lambda>_. CHR ''k'') (sample_channel True (frame_bytes True False 1 [] ''hi'')) =
      (Inr \<lparr>msg_type = WS_text, msg_data = ''hi''\<rparr>,
       snd (ws_read (\<lambda>_. CHR ''k'') (sample_channel True (frame_bytes True False 1 [] ''hi''))))"
    using text_run by (simp add: prod_eq_iff)
qed simp

definition sent_hi :: "bool \<times> channel" where
  "sent_hi = ws_send (\<lambda>_. CHR ''k'') ''hi'' True (sample_channel True [])"

lemma sent_hi: "fst sent_hi"
  by (simp add: sent_hi_def ws_send_def send_frame_def sample_channel_def connection_open_def free_write Let_def
      block_size_def message_limit_def)

lemma message_roundtrip_witness:
  "\<exists>b'. ws_read (\<lambda>_. CHR ''j'') (sample_channel False (wire (ws_io (snd sent_hi)) @ ''x'')) =
      (Inr \<lparr>msg_type = if True then WS_binary else WS_text, msg_data = ''hi''\<rparr>, b') \<and> calm b' ''x''"
proof (rule message_roundtrip)
  show "ws_send (\<lambda>_. CHR ''k'') ''hi'' True (sample_channel True []) = (True, snd sent_hi)"
    using sent_hi by (simp add: sent_hi_def prod_eq_iff)
qed (simp_all add: sample_channel_def calm_def wire_def, simp_all add: idle_io_def)

lemma fragmented_roundtrip_witness:
  "\<exists>ws'. ws_read (\<lambda>_. CHR ''j'') (sample_channel False
        (frame_bytes False True 1 ''abcd'' ''hel'' @ continuation_bytes True [(''wxyz'', ''lo'')] @ ''x'')) =
      (Inr \<lparr>msg_type = if (1::nat) = 1 then WS_text else WS_binary,
         msg_data = ''hel'' @ concat (map snd [(''wxyz'', ''lo'')])\<rparr>, ws')
    \<and> calm ws' ''x'' \<and> \<not> fragmented_active ws'"
proof (rule fragmented_roundtrip)
  have "length ''abcd'' = 4" "length ''wxyz'' = 4" by code_simp+
  then show "list_all (\<lambda>(k, d). length k = (if client_side (sample_channel False (frame_bytes False True 1 ''abcd'' ''hel''
        @ continuation_bytes True [(''wxyz'', ''lo'')] @ ''x'')) then 0 else 4)) ((''abcd'', ''hel'') # [(''wxyz'', ''lo'')])"
    by (simp add: sample_channel_def del: list.size)
qed (simp_all add: sample_channel_def calm_def message_limit_def idle_io_def)

end
