(* ===== verification/Ws_Handshake.thy ===== *)
theory Ws_Handshake
  imports Http_Exchange Websocket_Facts Url Base64
begin

text \<open>
  The opening handshake of a WebSocket (\<^verbatim>\<open>src/protocol.cpp\<close>: \<^verbatim>\<open>is_websocket_upgrade\<close>,
  \<^verbatim>\<open>websocket_server_handshake\<close>, \<^verbatim>\<open>make_websocket_channel\<close>, \<^verbatim>\<open>websocket_client_connect\<close>;
  \<^verbatim>\<open>src/common.cpp\<close>: \<^verbatim>\<open>websocket_accept\<close>; the upgrade branch of the session in
  \<^verbatim>\<open>src/server.cpp\<close>), in the build without TLS.  SHA-1, the random key, the connection attempt and the
  outcome of \<^verbatim>\<open>set_no_delay\<close> are parameters.
\<close>

section \<open>Tokens and keys\<close>

definition websocket_accept :: "(bytes \<Rightarrow> bytes) \<Rightarrow> bytes \<Rightarrow> bytes" where
  "websocket_accept sha1 key = base64_encode (sha1 (key @ ''258EAFA5-E914-47DA-95CA-C5AB0DC85B11''))"

definition random_websocket_key :: "(nat \<Rightarrow> char) \<Rightarrow> bytes" where
  "random_websocket_key rng = base64_encode (map rng [0..<16])"

section \<open>The server side\<close>

text \<open>The pass over the fields: the two tokens seen so far and the numbers of versions and keys.\<close>

fun upgrade_scan :: "headers \<Rightarrow> bool \<times> bool \<times> nat \<times> nat \<Rightarrow> bool" where
  "upgrade_scan [] (connection_upgrade, upgrade_websocket, versions, keys) \<longleftrightarrow>
     connection_upgrade \<and> upgrade_websocket \<and> versions = 1 \<and> keys = 1"
| "upgrade_scan ((name, v) # rest) (connection_upgrade, upgrade_websocket, versions, keys) \<longleftrightarrow>
     (if iequals name ''Connection'' then
        upgrade_scan rest
          (if \<not> connection_upgrade then header_value_has_token v ''upgrade'' else connection_upgrade,
           upgrade_websocket, versions, keys)
      else if iequals name ''Upgrade'' then
        upgrade_scan rest
          (connection_upgrade,
           if \<not> upgrade_websocket then header_value_has_token v ''websocket'' else upgrade_websocket,
           versions, keys)
      else if iequals name ''Sec-WebSocket-Version'' then
        (if v \<noteq> ''13'' then False else upgrade_scan rest (connection_upgrade, upgrade_websocket, versions + 1, keys))
      else if iequals name ''Sec-WebSocket-Key'' then
        upgrade_scan rest (connection_upgrade, upgrade_websocket, versions, keys + 1)
      else upgrade_scan rest (connection_upgrade, upgrade_websocket, versions, keys))"

definition is_websocket_upgrade :: "request \<Rightarrow> bool" where
  "is_websocket_upgrade req \<longleftrightarrow>
     (if \<not> iequals (req_method req) ''GET'' then False else upgrade_scan (req_headers req) (False, False, 0, 0))"

definition switching_headers :: "(bytes \<Rightarrow> bytes) \<Rightarrow> bytes \<Rightarrow> bytes \<Rightarrow> headers" where
  "switching_headers sha1 key subprotocol =
     (let h = [(''Upgrade'', ''websocket''), (''Connection'', ''Upgrade''),
               (''Sec-WebSocket-Accept'', websocket_accept sha1 key)]
      in if subprotocol \<noteq> [] then headers_add h ''Sec-WebSocket-Protocol'' subprotocol else h)"

definition websocket_server_handshake ::
    "(bytes \<Rightarrow> bytes) \<Rightarrow> request \<Rightarrow> bytes \<Rightarrow> nat \<Rightarrow> io \<Rightarrow> error_info \<times> io" where
  "websocket_server_handshake sha1 req subprotocol timeout io =
     (let key = headers_get (req_headers req) ''Sec-WebSocket-Key'' []
      in case base64_decode key of
           Inl _ \<Rightarrow> (error_of E_websocket_handshake ''Invalid Sec-WebSocket-Key'', io)
         | Inr decoded \<Rightarrow>
             if length decoded \<noteq> 16 then (error_of E_websocket_handshake ''Invalid Sec-WebSocket-Key'', io)
             else (case serialize_head ''HTTP/1.1 101 Switching Protocols'' (switching_headers sha1 key subprotocol) [] [] of
                     Inl e \<Rightarrow> (e, io)
                   | Inr out \<Rightarrow> connection_write out timeout io))"

definition make_websocket_channel :: "io \<Rightarrow> bool \<Rightarrow> bytes \<Rightarrow> nat \<Rightarrow> channel" where
  "make_websocket_channel io client subprotocol timeout =
     \<lparr>ws_io = io, client_side = client, ws_protocol = subprotocol, ws_timeout = timeout, ws_open = True,
      fragmented = [], fragmented_type = WS_text, fragmented_active = False, draws = 0\<rparr>"

definition offered_protocols :: "headers \<Rightarrow> bytes list" where
  "offered_protocols h =
     concat (map (\<lambda>v. split_tokens v CHR '','') (headers_get_all h ''Sec-WebSocket-Protocol''))"

definition select_protocol :: "(bytes list \<Rightarrow> bytes) option \<Rightarrow> bytes list \<Rightarrow> bytes" where
  "select_protocol selector offered =
     (let selected = (case selector of Some f \<Rightarrow> f offered | None \<Rightarrow> [])
      in if selected \<noteq> [] \<and> (\<not> valid_header_name selected \<or> selected \<notin> set offered) then [] else selected)"

text \<open>The session once the route of an upgrade request is known, up to the call of its handler.\<close>

definition accept_websocket ::
    "(bytes \<Rightarrow> bytes) \<Rightarrow> (bytes list \<Rightarrow> bytes) option \<Rightarrow> nat \<Rightarrow> request \<Rightarrow> io \<Rightarrow> channel option \<times> io" where
  "accept_websocket sha1 selector timeout req io =
     (let selected = select_protocol selector (offered_protocols (req_headers req))
      in case websocket_server_handshake sha1 req selected timeout io of
           (e, io') \<Rightarrow> if is_error e then (None, io')
             else (Some (make_websocket_channel io' False selected timeout), io'))"

section \<open>The client side\<close>

record connect_options =
  co_connect_timeout :: nat
  co_read_timeout :: nat
  co_write_timeout :: nat
  co_max_body :: nat

definition upgrade_request :: "bytes \<Rightarrow> parsed_url \<Rightarrow> headers \<Rightarrow> request" where
  "upgrade_request key u h =
     new_request\<lparr>req_method := ''GET'', req_target := target u,
       req_headers := headers_set (headers_set (headers_set (headers_set (headers_set h
         ''Host'' (authority u)) ''Upgrade'' ''websocket'') ''Connection'' ''Upgrade'')
         ''Sec-WebSocket-Version'' ''13'') ''Sec-WebSocket-Key'' key\<rparr>"

definition upgrade_read_options :: "connect_options \<Rightarrow> read_options" where
  "upgrade_read_options co =
     \<lparr>max_header_size = 64 * 1024, max_body_size = co_max_body co, read_timeout = co_read_timeout co,
      header_timeout = None, first_body_byte_timeout = None, idle_timeout = None, deadline = None,
      auto_decompress = False, cancelled = None, on_response_head = None, on_data = None, on_data_async = None,
      on_progress = None\<rparr>"

definition upgrade_accepted :: "(bytes \<Rightarrow> bytes) \<Rightarrow> bytes \<Rightarrow> response \<Rightarrow> bool" where
  "upgrade_accepted sha1 key res \<longleftrightarrow>
     status res = 101 \<and> has_token (res_headers res) ''Upgrade'' ''websocket''
     \<and> has_token (res_headers res) ''Connection'' ''upgrade''
     \<and> length (headers_get_all (res_headers res) ''Sec-WebSocket-Accept'') = 1
     \<and> \<not> length (headers_get_all (res_headers res) ''Sec-WebSocket-Protocol'') > 1
     \<and> headers_get (res_headers res) ''Sec-WebSocket-Accept'' [] = websocket_accept sha1 key"

text \<open>The error and the connection it closed, or the channel.\<close>

definition websocket_client_connect ::
    "(bytes \<Rightarrow> bytes) \<Rightarrow> (nat \<Rightarrow> char) \<Rightarrow> (bytes \<Rightarrow> nat \<Rightarrow> nat \<Rightarrow> io result) \<Rightarrow> error_info \<Rightarrow>
     bytes \<Rightarrow> headers \<Rightarrow> connect_options \<Rightarrow> error_info \<times> io option + channel" where
  "websocket_client_connect sha1 rng connect no_delay url h co =
     (case parse_url url [] of
        Inl e \<Rightarrow> Inl (e, None)
      | Inr u \<Rightarrow>
          if scheme u \<noteq> ''ws'' \<and> scheme u \<noteq> ''wss''
          then Inl (error_of E_invalid_url ''WebSocket URL must use ws or wss'', None)
          else
          (case connect (host u) (port u) (co_connect_timeout co) of
             Inl e \<Rightarrow> Inl (e, None)
           | Inr io \<Rightarrow>
               if is_error no_delay then Inl (no_delay, Some (connection_close io))
               else if secure u
               then Inl (error_of E_tls_unavailable ''TLS support is disabled'', Some (connection_close io))
               else
                 let key = random_websocket_key rng;
                     requested = offered_protocols h
                 in if list_ex (\<lambda>p. \<not> valid_header_name p) requested
                    then Inl (error_of E_websocket_handshake ''Invalid requested WebSocket subprotocol'',
                              Some (connection_close io))
                    else
                    (case write_request (upgrade_request key u h) None None (target u) (co_write_timeout co) None io of
                       (written, io1) \<Rightarrow>
                         if is_error written then Inl (written, Some (connection_close io1))
                         else
                         (case read_response (upgrade_read_options co) ''GET'' io1 of
                            (Inl e, io2) \<Rightarrow> Inl (e, Some (connection_close io2))
                          | (Inr res, io2) \<Rightarrow>
                              if \<not> upgrade_accepted sha1 key res
                              then Inl (error_of E_websocket_handshake ''WebSocket upgrade was rejected'',
                                        Some (connection_close io2))
                              else
                                let selected = headers_get (res_headers res) ''Sec-WebSocket-Protocol'' []
                                in if selected \<noteq> [] \<and> (\<not> valid_header_name selected \<or> selected \<notin> set requested)
                                   then Inl (error_of E_websocket_handshake
                                       ''Server selected an unrequested WebSocket subprotocol'',
                                     Some (connection_close io2))
                                   else Inr (make_websocket_channel io2 True selected (co_read_timeout co))))))"

section \<open>Token lists\<close>

lemma split_tokens_eq: "split_tokens v c = filter (\<lambda>p. p \<noteq> []) (map trim (split_on c v))"
proof (induction v c rule: split_tokens.induct)
  case (1 v c)
  then show ?case
    by (subst split_tokens.simps, subst split_on_find)
      (auto simp: Let_def substr_def split: option.splits)
qed

lemma trim_space:
  assumes "is_space x" shows "trim (x # s) = trim s" "trim (s @ [x]) = trim s"
proof -
  have "dropWhile is_space s = []" if "\<forall>y \<in> set s. is_space y" using that by simp
  then show "trim (x # s) = trim s" "trim (s @ [x]) = trim s"
    using assms by (simp_all add: trim_def trim_by_def dropWhile_append)
      (metis dropWhile.simps(1) dropWhile_eq_Nil_conv rev.simps(1))
qed

lemma split_tokens_space:
  assumes "is_space x" "\<not> is_space c"
  shows "split_tokens (x # s) c = split_tokens s c" "split_tokens (s @ [x]) c = split_tokens s c"
proof -
  have ne: "x \<noteq> c" using assms by auto
  obtain p ps where p: "split_on c s = p # ps" using split_on_nonempty by (metis neq_Nil_conv)
  then show "split_tokens (x # s) c = split_tokens s c"
    using ne assms(1) by (simp add: split_tokens_eq trim_space)
  have snoc: "split_on c (s @ [x]) = butlast (split_on c s) @ [last (split_on c s) @ [x]]"
    by (induction s) (auto simp: ne split: list.splits)
  have "split_on c s = butlast (split_on c s) @ [last (split_on c s)]" by simp
  then show "split_tokens (s @ [x]) c = split_tokens s c"
    unfolding split_tokens_eq snoc using assms(1)
    by (metis (no_types, lifting) filter_append list.simps(8,9) map_append trim_space(2))
qed

lemma split_tokens_trim: "split_tokens (trim_ows v) CHR '','' = split_tokens v CHR '',''"
proof -
  have ws: "is_ows x \<Longrightarrow> is_space x" "\<not> is_space CHR '',''" for x
    by (auto simp: is_ows_def is_space_def bytes_simps)
  have front: "split_tokens (dropWhile is_ows s) CHR '','' = split_tokens s CHR '',''" for s
    by (induction s) (auto simp: split_tokens_space ws)
  have rear: "split_tokens (rev (dropWhile is_ows s)) CHR '','' = split_tokens (rev s) CHR '',''" for s
    by (induction s) (auto simp: split_tokens_space ws)
  show ?thesis unfolding trim_ows_def trim_by_def rear by (simp add: front)
qed

lemma offered_trim: "offered_protocols (trim_fields h) = offered_protocols h"
  by (simp add: offered_protocols_def get_all_trim comp_def split_tokens_trim)

section \<open>Upgrade requests\<close>

lemma upgrade_scan_iff:
  "upgrade_scan h (c, u, v, k) \<longleftrightarrow>
     (c \<or> has_token h ''Connection'' ''upgrade'') \<and> (u \<or> has_token h ''Upgrade'' ''websocket'')
     \<and> set (headers_get_all h ''Sec-WebSocket-Version'') \<subseteq> {''13''}
     \<and> v + length (headers_get_all h ''Sec-WebSocket-Version'') = 1
     \<and> k + length (headers_get_all h ''Sec-WebSocket-Key'') = 1"
proof (induction h arbitrary: c u v k)
  case (Cons f h)
  obtain n x where f: "f = (n, x)" by (cases f)
  consider "iequals n ''Connection''" | "iequals n ''Upgrade''" | "iequals n ''Sec-WebSocket-Version''"
    | "iequals n ''Sec-WebSocket-Key''"
    | "\<not> iequals n ''Connection''" "\<not> iequals n ''Upgrade''" "\<not> iequals n ''Sec-WebSocket-Version''"
      "\<not> iequals n ''Sec-WebSocket-Key''" by blast
  then show ?case
  proof cases
    case 1
    then have "\<not> iequals n ''Upgrade''" "\<not> iequals n ''Sec-WebSocket-Version''" "\<not> iequals n ''Sec-WebSocket-Key''"
      using known_names [OF 1] by simp_all
    then show ?thesis using 1 Cons.IH by (auto simp: f has_token_all)
  next
    case 2
    then have "\<not> iequals n ''Connection''" "\<not> iequals n ''Sec-WebSocket-Version''" "\<not> iequals n ''Sec-WebSocket-Key''"
      using known_names [OF 2] by simp_all
    then show ?thesis using 2 Cons.IH by (auto simp: f has_token_all)
  next
    case 3
    then have "\<not> iequals n ''Connection''" "\<not> iequals n ''Upgrade''" "\<not> iequals n ''Sec-WebSocket-Key''"
      using known_names [OF 3] by simp_all
    then show ?thesis using 3 Cons.IH by (auto simp: f has_token_all)
  next
    case 4
    then have "\<not> iequals n ''Connection''" "\<not> iequals n ''Upgrade''" "\<not> iequals n ''Sec-WebSocket-Version''"
      using known_names [OF 4] by simp_all
    then show ?thesis using 4 Cons.IH by (auto simp: f has_token_all)
  next
    case 5
    then show ?thesis using Cons.IH by (auto simp: f has_token_all)
  qed
qed (auto simp: has_token_def)

lemma is_websocket_upgrade_iff:
  "is_websocket_upgrade req \<longleftrightarrow> iequals (req_method req) ''GET''
     \<and> has_token (req_headers req) ''Connection'' ''upgrade'' \<and> has_token (req_headers req) ''Upgrade'' ''websocket''
     \<and> headers_get_all (req_headers req) ''Sec-WebSocket-Version'' = [''13'']
     \<and> length (headers_get_all (req_headers req) ''Sec-WebSocket-Key'') = 1"
  by (cases "headers_get_all (req_headers req) ''Sec-WebSocket-Version''")
    (auto simp: is_websocket_upgrade_def upgrade_scan_iff)

lemma get_all_set: "headers_get_all (headers_set h n v) m = (if iequals n m then [v] else headers_get_all h m)"
  by (auto simp: headers_defs Let_def headers_get_all_append headers_get_all_kept)

lemma base64_chars: "c \<in> set (base64_encode s) \<Longrightarrow> c \<in> set alphabet \<or> c = CHR ''=''"
proof -
  have mem: "i < 64 \<Longrightarrow> alphabet ! i \<in> set alphabet" for i by (simp add: nth_mem)
  have small: "code x mod 64 < 64" "code x mod 4 * 16 < 64" "code x mod 16 * 4 < 64" for x
  proof -
    have "code x mod 4 < 4" "code x mod 16 < 16" by simp_all
    then show "code x mod 64 < 64" "code x mod 4 * 16 < 64" "code x mod 16 * 4 < 64" by linarith+
  qed
  note bounds = sextet_bounds(1-3) [THEN mem] small [THEN mem]
  have blk: "c \<in> set (base64_encode_blocks v) \<Longrightarrow> c \<in> set alphabet" for v
  proof (induction v rule: base64_encode_blocks.induct)
    case (1 f s t rest)
    then show ?case unfolding base64_block using bounds by auto
  qed simp_all
  obtain a r where a: "s = a @ r" "length a mod 3 = 0" "length r < 3" by (rule whole_groups)
  have tail: "c \<in> set (base64_encode r) \<Longrightarrow> c \<in> set alphabet \<or> c = CHR ''=''"
    using bounds by (cases rule: short_list [OF a(3)]) (auto simp: base64_tail)
  show "c \<in> set (base64_encode s) \<Longrightarrow> c \<in> set alphabet \<or> c = CHR ''=''"
    using blk tail unfolding a(1) base64_encode_split [OF a(2,3)] by auto
qed

lemma base64_plain: "valid_header_value (base64_encode s)" "trim_ows (base64_encode s) = base64_encode s"
proof -
  have "list_all (\<lambda>c. field_value_char c \<and> c \<noteq> SP \<and> c \<noteq> TAB) (CHR ''='' # alphabet)" by code_simp
  then have c: "c \<in> set (base64_encode s) \<Longrightarrow> field_value_char c \<and> c \<noteq> SP \<and> c \<noteq> TAB" for c
    using base64_chars [of c s] by (auto simp: list_all_iff)
  then show "valid_header_value (base64_encode s)" by (simp add: valid_header_value_iff)
  show "trim_ows (base64_encode s) = base64_encode s" by (rule trim_token) (use c in \<open>auto simp: list_all_iff\<close>)
qed

lemma valid_name_trim: "valid_header_name p \<Longrightarrow> trim_ows p = p"
  by (rule trim_token) (auto simp: valid_header_name_iff list_all_iff)

lemma select_protocol_offered:
  "select_protocol selector ps = [] \<or> (valid_header_name (select_protocol selector ps) \<and> select_protocol selector ps \<in> set ps)"
  by (auto simp: select_protocol_def Let_def)

section \<open>The switching response\<close>

definition switching_line :: bytes where
  "switching_line = ''HTTP/1.1 101 Switching Protocols''"

lemma switching_line_plain:
  "valid_header_value switching_line" "switching_line \<noteq> []" "parse_status_line switching_line = Inr (11, 101)"
  "find_idx (\<lambda>c. c = CR \<or> c = LF) switching_line = None"
proof -
  let ?res = "\<lparr>status = 101, version = 11, res_headers = [], res_body = [], res_keep_alive = True\<rparr>"
  have "status_line ?res = switching_line"
    by (simp add: status_line_def switching_line_def status_reason_view_def status_reasons_def to_string_def
        to_digits.simps digit_char_def char_of_eq_iff)
  then show "parse_status_line switching_line = Inr (11, 101)" using parse_status_line_print [of ?res] by simp
  show "valid_header_value switching_line"
    by (simp add: switching_line_def valid_header_value_iff field_value_char_def)
  show "switching_line \<noteq> []" "find_idx (\<lambda>c. c = CR \<or> c = LF) switching_line = None"
    by (simp_all add: switching_line_def find_idx_None)
qed

lemma emitted_all: "emitted_fields [] [] h = h"
proof -
  have "kept_fields [] [] h [] = (h, [])" by (induction h) auto
  then show ?thesis by (simp add: emitted_fields_def rest_fields_def)
qed

lemma switching_valid:
  assumes "p = [] \<or> valid_header_name p"
  shows "list_all valid_field (switching_headers sha1 key p)"
    "trim_fields (switching_headers sha1 key p) = switching_headers sha1 key p"
proof -
  have names: "valid_header_name ''Sec-WebSocket-Accept''" "valid_header_name ''Sec-WebSocket-Protocol''"
    "valid_field (''Upgrade'', ''websocket'')" "valid_field (''Connection'', ''Upgrade'')"
    "trim_ows ''websocket'' = ''websocket''" "trim_ows ''Upgrade'' = ''Upgrade''"
    by (simp_all add: valid_field_def valid_header_name_iff valid_header_value_iff token_char_def separators_def
        field_value_char_def in_range_def trim_token)
  have "valid_field (''Sec-WebSocket-Accept'', websocket_accept sha1 key)"
    using base64_plain(1) names(1) by (simp add: valid_field_def websocket_accept_def)
  moreover have "valid_header_name p \<Longrightarrow> valid_field (''Sec-WebSocket-Protocol'', p)"
    using names(2) by (simp add: valid_field_def valid_name_value)
  moreover have "trim_ows (websocket_accept sha1 key) = websocket_accept sha1 key"
    by (simp add: websocket_accept_def base64_plain(2))
  ultimately show "list_all valid_field (switching_headers sha1 key p)"
    "trim_fields (switching_headers sha1 key p) = switching_headers sha1 key p"
    using assms names(3-6) valid_name_trim
    by (auto simp: switching_headers_def headers_add_def Let_def trim_fields_def)
qed

lemma switching_fields:
  "headers_get_all (switching_headers sha1 key p) ''Upgrade'' = [''websocket'']"
  "headers_get_all (switching_headers sha1 key p) ''Connection'' = [''Upgrade'']"
  "headers_get_all (switching_headers sha1 key p) ''Sec-WebSocket-Accept'' = [websocket_accept sha1 key]"
  "headers_get_all (switching_headers sha1 key p) ''Sec-WebSocket-Protocol'' = (if p = [] then [] else [p])"
  "headers_get_all (switching_headers sha1 key p) ''Content-Length'' = []"
  "headers_get_all (switching_headers sha1 key p) ''Transfer-Encoding'' = []"
  "headers_get (switching_headers sha1 key p) ''Sec-WebSocket-Accept'' [] = websocket_accept sha1 key"
  "headers_get (switching_headers sha1 key p) ''Sec-WebSocket-Protocol'' [] = p"
  by (simp_all add: switching_headers_def headers_add_def Let_def iequals_def headers_get_def)

lemma handshake_written:
  assumes "websocket_server_handshake sha1 req p t io = (e, io')" "\<not> is_error e"
  shows "wire io' = wire io @ switching_line @ CRLF
    @ print_fields (switching_headers sha1 (headers_get (req_headers req) ''Sec-WebSocket-Key'' []) p) @ CRLF"
proof -
  let ?h = "switching_headers sha1 (headers_get (req_headers req) ''Sec-WebSocket-Key'' []) p"
  have bad: "serialize_head switching_line ?h [] [] = Inl err \<Longrightarrow> is_error err" for err
    by (auto simp: serialize_head_def split_beta Let_def split: if_splits)
  obtain out where out: "serialize_head switching_line ?h [] [] = Inr out" "connection_write out t io = (e, io')"
    using assms(1) [unfolded websocket_server_handshake_def Let_def, folded switching_line_def] assms(2) bad
    by (auto split: sum.splits if_splits)
  have "out = switching_line @ CRLF @ print_fields ?h @ CRLF"
    using serialize_head_print [OF out(1)] by (simp add: emitted_all)
  then show ?thesis using connection_write_wire [OF out(2) assms(2)] by simp
qed

text \<open>A response head without a body, whatever follows it.\<close>

lemma read_switching:
  assumes peer: "quiet opts" "on_response_head opts = None"
    and arrive: "stream opts io = switching_line @ CRLF @ print_fields hs @ CRLF @ rest"
    and fits: "length (switching_line @ CRLF @ print_fields hs @ CRLF) \<le> max_header_size opts"
    and hs: "list_all valid_field hs" "trim_fields hs = hs" "headers_get_all hs ''Content-Length'' = []"
      "headers_get_all hs ''Transfer-Encoding'' = []"
  shows "\<exists>res io'. read_response opts ''GET'' io = (Inr res, io') \<and> status res = 101 \<and> res_headers res = hs
    \<and> stream opts io' = rest"
proof -
  let ?hd = "switching_line @ CRLF @ print_fields hs"
  have "field_elements (trim_fields hs) ''Content-Length'' = (case None of None \<Rightarrow> [] | Some n \<Rightarrow> [to_string n])"
    "case (None :: nat option) of None \<Rightarrow> True | Some n \<Rightarrow> n \<le> uint64_max"
    "field_elements (trim_fields hs) ''Transfer-Encoding'' = (if False then [''chunked''] else [])"
    "\<not> False \<or> (None :: nat option) = None"
    using hs(3,4) by (simp_all add: field_elements_trim del: hs(2))
  from parse_framed_head [OF switching_line_plain(1,2) hs(1) this] obtain h where
    h: "parse_head ?hd = Inr h" "head_fields h = trim_fields hs" "start_line h = switching_line" by metis
  define e where "e = length ?hd - 2"
  have hd2: "length ?hd = e + 2" by (simp add: e_def)
  have find: "find_sub (CRLF @ CRLF) (?hd @ CRLF @ rest) = Some e"
    unfolding e_def using find_head_end [OF switching_line_plain(1,2) hs(1), of rest] by simp
  have full: "stream opts io = ?hd @ CRLF @ rest" using arrive by simp
  have lim: "e + 4 \<le> max_header_size opts" using fits hd2 by simp
  have cut: "take (e + 2) (?hd @ CRLF @ rest) = ?hd" unfolding hd2 [symmetric] by simp
  have "e + 4 = length (?hd @ CRLF)" using hd2 by simp
  then have after: "drop (e + 4) (?hd @ CRLF @ rest) = rest" by (metis append_assoc append_eq_conv_conj)
  from take_head_stream [OF peer(1) find lim full, unfolded cut after] obtain io1 where
    take: "take_head opts io = (Inr ?hd, io1)"
    and left: "stream opts (io1\<lparr>buffer := drop (e + 4) (buffer io1)\<rparr>) = rest" by blast
  have bare: "response_has_no_body ''GET'' 101 = True" "informational 101 = False"
    by (simp_all add: response_has_no_body_def status_has_no_body_def informational_def)
  have len: "length ?hd + 2 = e + 4" using hd2 by simp
  have "\<exists>res. read_response_once opts ''GET'' io = (Inr (Some res), io1\<lparr>buffer := drop (e + 4) (buffer io1)\<rparr>)
      \<and> status res = 101 \<and> res_headers res = hs"
    unfolding read_response_once_def take [unfolded take_head_def] prod.case sum.case h(1,3)
      switching_line_plain(3) Let_def len report_head_def peer(2) option.case bare
    by (simp add: finish_response_def h(2) hs(2))
  then show ?thesis using left by (subst read_response.simps) auto
qed

section \<open>Both sides together\<close>

lemma write_keeps_stream: "connection_write d t io = (e, io') \<Longrightarrow> stream opts io' = stream opts io"
  by (auto simp: connection_write_def stream_def split: if_splits list.splits)

lemma upgrade_request_simps [simp]:
  "req_body (upgrade_request key u h) = []" "req_method (upgrade_request key u h) = ''GET''"
  "req_version (upgrade_request key u h) = 11"
  by (simp_all add: upgrade_request_def new_request_def)

lemma upgrade_written:
  assumes "write_request (upgrade_request key u h) None None t timeout None io = (e, io')" "\<not> is_error e"
  shows "stream opts io' = stream opts io"
proof -
  let ?req = "upgrade_request key u h"
  have "\<exists>out. connection_write out timeout io = (no_error, io') \<or> connection_write out timeout io = (e, io')
      \<or> (\<exists>e1. connection_write out timeout io = (e1, io'))"
    using assms unfolding write_request_def
    by (auto simp: in_phase_def is_error_def split: if_splits sum.splits prod.splits dest: build_request_head_error)
  then show ?thesis using write_keeps_stream by blast
qed

lemma upgrade_fields:
  assumes n: "\<not> list_ex (iequals n) [''Content-Length'', ''Transfer-Encoding'', ''Connection'', ''User-Agent'']"
  shows "headers_get_all (trim_fields (request_fields (upgrade_request key u h))) n = map trim_ows
     (if iequals n ''Sec-WebSocket-Key'' then [key] else if iequals n ''Sec-WebSocket-Version'' then [''13'']
      else if iequals n ''Upgrade'' then [''websocket''] else if iequals n ''Host'' then [authority u]
      else headers_get_all h n)"
  using n unfolding get_all_trim request_fields_kept [OF n]
  by (simp add: upgrade_request_def get_all_set iequals_sym)

lemma upgrade_connection:
  "headers_get_all (trim_fields (request_fields (upgrade_request key u h))) ''Connection'' = [''Upgrade'']"
proof -
  have "\<not> iequals ''Sec-WebSocket-Version'' ''Connection''" "\<not> iequals ''Sec-WebSocket-Key'' ''Connection''"
    by (simp_all add: iequals_def)
  then have all: "headers_get_all (req_headers (upgrade_request key u h)) ''Connection'' = [''Upgrade'']"
    by (simp add: upgrade_request_def get_all_set)
  then have "find_header (req_headers (upgrade_request key u h)) ''Connection'' \<noteq> None"
    by (simp add: find_header_get_all)
  then show ?thesis by (simp add: get_all_trim request_fields_connection all trim_token)
qed

lemma handshake_names:
  "\<not> list_ex (iequals ''Upgrade'') [''Content-Length'', ''Transfer-Encoding'', ''Connection'', ''User-Agent'']"
  "\<not> list_ex (iequals ''Sec-WebSocket-Key'') [''Content-Length'', ''Transfer-Encoding'', ''Connection'', ''User-Agent'']"
  "\<not> list_ex (iequals ''Sec-WebSocket-Version'') [''Content-Length'', ''Transfer-Encoding'', ''Connection'', ''User-Agent'']"
  "\<not> list_ex (iequals ''Sec-WebSocket-Protocol'') [''Content-Length'', ''Transfer-Encoding'', ''Connection'', ''User-Agent'']"
  "\<not> iequals ''Upgrade'' ''Sec-WebSocket-Key''" "\<not> iequals ''Upgrade'' ''Sec-WebSocket-Version''"
  "\<not> iequals ''Sec-WebSocket-Version'' ''Sec-WebSocket-Key''"
  "\<not> iequals ''Sec-WebSocket-Protocol'' ''Sec-WebSocket-Key''" "\<not> iequals ''Sec-WebSocket-Protocol'' ''Upgrade''"
  "\<not> iequals ''Sec-WebSocket-Protocol'' ''Sec-WebSocket-Version''" "\<not> iequals ''Sec-WebSocket-Protocol'' ''Host''"
  by code_simp+

lemma upgrade_recognised:
  assumes "req_method r = ''GET''" "req_headers r = trim_fields (request_fields (upgrade_request key u h))"
    "trim_ows key = key"
  shows "is_websocket_upgrade r" "headers_get (req_headers r) ''Sec-WebSocket-Key'' [] = key"
    "offered_protocols (req_headers r) = offered_protocols h"
proof -
  note all = upgrade_fields [OF handshake_names(1), of key u h] upgrade_fields [OF handshake_names(2), of key u h]
    upgrade_fields [OF handshake_names(3), of key u h] upgrade_fields [OF handshake_names(4), of key u h]
  have plain: "trim_ows ''13'' = ''13''" "trim_ows ''websocket'' = ''websocket''" by (simp_all add: trim_token)
  have tok: "header_value_has_token ''Upgrade'' ''upgrade''" "header_value_has_token ''websocket'' ''websocket''"
    by code_simp+
  show "is_websocket_upgrade r"
    using tok unfolding is_websocket_upgrade_iff has_token_all assms(1,2) all upgrade_connection
    by (simp add: handshake_names plain)
  show "headers_get (req_headers r) ''Sec-WebSocket-Key'' [] = key"
    using all(2) assms(3) by (simp add: headers_get_find find_header_get_all assms(2))
  have "offered_protocols (req_headers r) = offered_protocols (trim_fields h)"
    using all(4) by (simp add: offered_protocols_def handshake_names get_all_trim assms(2))
  then show "offered_protocols (req_headers r) = offered_protocols h" by (simp add: offered_trim)
qed

text \<open>C4: The two ends of a handshake agree.  The client's upgrade request is read by the server and
  recognised as one, and a server that can write answers it.  Once the answer arrives, cut in any way and
  followed by anything, \<^verbatim>\<open>websocket_client_connect\<close> accepts it: both ends hold a channel, with opposite
  roles and the same subprotocol, and none of the bytes after the answer is lost.\<close>

theorem handshake_agreement:
  assumes url: "parse_url url [] = Inr u" "scheme u = ''ws''"
    and connected: "connect (host u) (port u) (co_connect_timeout co) = Inr io" "\<not> is_error no_delay" "wire io = []"
    and requested: "list_all valid_header_name (offered_protocols h)"
    and sent: "write_request (upgrade_request (random_websocket_key rng) u h) None None (target u)
        (co_write_timeout co) None io = (e, io1)" "\<not> is_error e"
    and fields: "\<not> headers_contains h ''Expect''" "\<not> bad_host (trim_ows (authority u))"
    and route: "routing_target (target u) = Inr rt" "route_target rt new_request = Inr r0"
    and server: "quiet sopts" "willing sopts" "\<not> auto_decompress sopts" "stream sopts sio = wire io1 @ early"
      "length (wire io1) \<le> max_header_size sopts"
  shows "\<exists>r sio1. read_request sopts sio = (Inr r, sio1) \<and> stream sopts sio1 = early \<and> is_websocket_upgrade r
    \<and> write_side sio1 = write_side sio \<and> offered_protocols (req_headers r) = offered_protocols h
    \<and> headers_get (req_headers r) ''Sec-WebSocket-Key'' [] = random_websocket_key rng
    \<and> (outgoing sio = [] \<longrightarrow> fst (accept_websocket sha1 selector t r sio1) \<noteq> None)
    \<and> (\<forall>ch sio2 rest. accept_websocket sha1 selector t r sio1 = (Some ch, sio2)
        \<and> wire sio1 @ stream (upgrade_read_options co) io = wire sio2 @ rest
        \<and> length (wire sio2) \<le> length (wire sio1) + 64 * 1024
        \<longrightarrow> (\<exists>ch'. websocket_client_connect sha1 rng connect no_delay url h co = Inr ch'
              \<and> ws_protocol ch' = ws_protocol ch \<and> client_side ch' \<and> \<not> client_side ch
              \<and> ws_open ch' \<and> ws_open ch \<and> stream (upgrade_read_options co) (ws_io ch') = rest))"
proof -
  let ?key = "random_websocket_key rng" and ?opts = "upgrade_read_options co"
  let ?req = "upgrade_request ?key u h"
  have host_all: "headers_get_all (req_headers ?req) ''Host'' = [authority u]"
    "\<not> headers_contains (req_headers ?req) ''Expect''"
    using fields(1) by (simp_all add: upgrade_request_def get_all_set hs.present_iff hs.lookup_put iequals_def)
  have key: "trim_ows ?key = ?key" "base64_decode ?key = Inr (map rng [0..<16])"
    by (simp_all add: random_websocket_key_def base64_plain base64_decode_def base64_decode_encode_loop
        length_base64_encode)
  have sizes: "length (wire io1) \<le> max_header_size sopts + length (req_body ?req)"
    "length (req_body ?req) \<le> max_body_size sopts" "length (req_body ?req) \<le> uint64_max"
    using server(5) by simp_all
  from request_read [OF sent connected(3) server(1-4) sizes route host_all(1) fields(2) host_all(2)]
  obtain r sio1 where r: "read_request sopts sio = (Inr r, sio1)" "req_method r = ''GET''"
    "req_headers r = trim_fields (request_fields ?req)" "stream sopts sio1 = early" "write_side sio1 = write_side sio"
    by (auto simp: received_body_def)
  note seen = upgrade_recognised [OF r(2,3) key(1)]
  define p where "p = select_protocol selector (offered_protocols h)"
  let ?sw = "switching_headers sha1 ?key p"
  have p: "p = [] \<or> valid_header_name p \<and> p \<in> set (offered_protocols h)"
    unfolding p_def using select_protocol_offered by blast
  then have valid: "list_all valid_field ?sw" "trim_fields ?sw = ?sw" using switching_valid by blast+
  have accept: "accept_websocket sha1 selector t r sio1 = (case websocket_server_handshake sha1 r p t sio1 of
      (e, io') \<Rightarrow> if is_error e then (None, io') else (Some (make_websocket_channel io' False p t), io'))"
    unfolding accept_websocket_def seen(3) Let_def p_def ..
  have "\<exists>out. serialize_head switching_line ?sw [] [] = Inr out"
    using valid(1) switching_line_plain(4) by (simp add: serialize_head_def split_beta list_all_iff list_ex_iff)
  then have "outgoing sio1 = [] \<Longrightarrow> fst (websocket_server_handshake sha1 r p t sio1) = no_error"
    by (auto simp: websocket_server_handshake_def seen(2) key(2) free_write switching_line_def)
  then have answered: "outgoing sio1 = [] \<Longrightarrow> fst (accept_websocket sha1 selector t r sio1) \<noteq> None"
    by (simp add: accept split_beta)
  have agree: "\<exists>ch'. websocket_client_connect sha1 rng connect no_delay url h co = Inr ch'
        \<and> ws_protocol ch' = ws_protocol ch \<and> client_side ch' \<and> \<not> client_side ch
        \<and> ws_open ch' \<and> ws_open ch \<and> stream ?opts (ws_io ch') = rest"
    if ok: "accept_websocket sha1 selector t r sio1 = (Some ch, sio2)"
      and arrive: "wire sio1 @ stream ?opts io = wire sio2 @ rest"
      and fits: "length (wire sio2) \<le> length (wire sio1) + 64 * 1024" for ch sio2 rest
  proof -
    obtain e2 where hs: "websocket_server_handshake sha1 r p t sio1 = (e2, sio2)" "\<not> is_error e2"
      and ch: "ch = make_websocket_channel sio2 False p t"
      using ok by (auto simp: accept split: prod.splits if_splits)
    note w = handshake_written [OF hs, unfolded seen(2)]
    have "stream ?opts io1 = switching_line @ CRLF @ print_fields ?sw @ CRLF @ rest"
      using arrive w upgrade_written [OF sent] by simp
    moreover have "length (switching_line @ CRLF @ print_fields ?sw @ CRLF) \<le> max_header_size ?opts"
      using fits w by (simp add: upgrade_read_options_def)
    moreover have "quiet ?opts" "on_response_head ?opts = None" by (simp_all add: quiet_def upgrade_read_options_def)
    ultimately obtain res io2 where res: "read_response ?opts ''GET'' io1 = (Inr res, io2)" "status res = 101"
      "res_headers res = ?sw" "stream ?opts io2 = rest"
      using read_switching [of ?opts io1 ?sw rest] valid switching_fields(5,6) by blast
    have tok: "header_value_has_token ''Upgrade'' ''upgrade''" "header_value_has_token ''websocket'' ''websocket''"
      by code_simp+
    then have acc: "upgrade_accepted sha1 ?key res"
      using res(2,3) by (simp add: upgrade_accepted_def has_token_all switching_fields)
    have sel: "headers_get (res_headers res) ''Sec-WebSocket-Protocol'' [] = p" by (simp add: res(3) switching_fields)
    have "\<not> secure u" using parse_url_wf [OF url(1)] url(2) by (simp add: wf_url_def)
    moreover have "\<not> list_ex (\<lambda>p. \<not> valid_header_name p) (offered_protocols h)"
      using requested by (simp add: list_all_iff list_ex_iff)
    ultimately have "websocket_client_connect sha1 rng connect no_delay url h co =
        Inr (make_websocket_channel io2 True p (co_read_timeout co))"
      unfolding websocket_client_connect_def url(1) sum.case
      using url(2) connected(1,2) sent p by (simp add: Let_def res(1) acc sel)
    then show ?thesis using res(4) by (simp add: ch make_websocket_channel_def)
  qed
  have "outgoing sio1 = outgoing sio" using r(5) by (simp add: write_side_def)
  then show ?thesis using r(1,4,5) seen answered agree by (intro exI [of _ r] exI [of _ sio1]) simp
qed

section \<open>A run\<close>

definition chat_url :: parsed_url where
  "chat_url = \<lparr>scheme = ''ws'', host = ''a'', port = 80, target = ''/c'', secure = False\<rparr>"

definition chat_headers :: headers where
  "chat_headers = [(''Sec-WebSocket-Protocol'', ''chat'')]"

definition chat_sha1 :: "bytes \<Rightarrow> bytes" where
  "chat_sha1 v = replicate 20 CHR ''x''"

definition chat_key :: bytes where
  "chat_key = random_websocket_key (\<lambda>_. CHR ''k'')"

definition chat_answer :: bytes where
  "chat_answer = switching_line @ CRLF @ print_fields (switching_headers chat_sha1 chat_key ''chat'') @ CRLF"

definition chat_io :: io where
  "chat_io = idle_io\<lparr>incoming := [(1, Inr (Chunk (chat_answer @ ''frames'')))]\<rparr>"

definition chat_options :: connect_options where
  "chat_options = \<lparr>co_connect_timeout = 10, co_read_timeout = 10, co_write_timeout = 10, co_max_body = 0\<rparr>"

definition chat_request :: "error_info \<times> io" where
  "chat_request = write_request (upgrade_request chat_key chat_url chat_headers) None None (target chat_url)
     (co_write_timeout chat_options) None chat_io"

definition chat_server :: read_options where
  "chat_server = plain_options\<lparr>max_header_size := length (wire (snd chat_request))\<rparr>"

lemma chat_written: "\<not> is_error (fst chat_request)"
proof -
  let ?req = "upgrade_request chat_key chat_url chat_headers"
  have auth: "authority chat_url = ''a''" by code_simp
  have names: "\<not> iequals ''Sec-WebSocket-Protocol'' ''Host''" "\<not> iequals ''Sec-WebSocket-Protocol'' ''Upgrade''"
    "\<not> iequals ''Sec-WebSocket-Protocol'' ''Connection''" "\<not> iequals ''Sec-WebSocket-Protocol'' ''Sec-WebSocket-Version''"
    "\<not> iequals ''Sec-WebSocket-Protocol'' ''Sec-WebSocket-Key''"
    by code_simp+
  have fields: "valid_field (''Host'', ''a'')" "valid_field (''Upgrade'', ''websocket'')"
    "valid_field (''Connection'', ''Upgrade'')" "valid_field (''Sec-WebSocket-Version'', ''13'')"
    "valid_field (''Sec-WebSocket-Protocol'', ''chat'')" "valid_header_name ''Sec-WebSocket-Key''"
    "\<not> list_ex url_space ''/c''"
    by (simp_all add: valid_field_def valid_header_name_iff valid_header_value_iff token_char_def separators_def
        field_value_char_def in_range_def url_space_def)
  have key: "valid_field (''Sec-WebSocket-Key'', chat_key)"
    using fields(6) by (simp add: valid_field_def chat_key_def random_websocket_key_def base64_plain)
  have "list_all valid_field (headers_set h n v) \<longleftrightarrow> list_all valid_field (filter (\<lambda>i. \<not> iequals (fst i) n) h) \<and> valid_field (n, v)"
    for h n v by (simp add: headers_set_def headers_erase_def headers_add_def Let_def)
  moreover have "list_all valid_field (filter P h)" if "list_all valid_field h" for P h
    using that by (auto simp: list_all_iff)
  ultimately have "list_all valid_field (req_headers ?req)"
    using fields key by (simp add: upgrade_request_def auth chat_headers_def)
  then have "\<not> list_ex (\<lambda>item. \<not> valid_field item) (req_headers ?req)" by (auto simp: list_all_iff list_ex_iff)
  moreover have "find_idx (\<lambda>c. c = CR \<or> c = LF) ''GET /c HTTP/1.1'' = None" by (simp add: find_idx_None)
  moreover have "req_keep_alive ?req" by (simp add: upgrade_request_def new_request_def)
  ultimately have "\<exists>out. build_request_head ?req False None ''/c'' = Inr out"
    by (simp add: build_request_head_def serialize_head_def Let_def default_fields split_beta)
  then show ?thesis
    using fields(7) plain_line(1)
    by (auto simp: chat_request_def write_request_def chat_url_def chat_io_def free_write)
qed

lemma chat_accepted:
  assumes "offered_protocols (req_headers r) = offered_protocols chat_headers"
    "headers_get (req_headers r) ''Sec-WebSocket-Key'' [] = chat_key" "outgoing io = []"
  shows "accept_websocket chat_sha1 (Some (\<lambda>_. ''chat'')) 10 r io =
      (Some (make_websocket_channel (io\<lparr>sent := sent io @ [chat_answer]\<rparr>) False ''chat'' 10),
       io\<lparr>sent := sent io @ [chat_answer]\<rparr>)"
proof -
  have chat: "valid_header_name ''chat''"
    by (simp add: valid_header_name_iff token_char_def separators_def in_range_def)
  have "offered_protocols chat_headers = [''chat'']" by code_simp
  then have sel: "select_protocol (Some (\<lambda>_. ''chat'')) (offered_protocols (req_headers r)) = ''chat''"
    using chat by (simp add: select_protocol_def assms(1))
  have key: "base64_decode chat_key = Inr (replicate 16 CHR ''k'')"
    by (simp add: chat_key_def random_websocket_key_def base64_plain base64_decode_def base64_decode_encode_loop
        length_base64_encode map_replicate_const)
  let ?h = "switching_headers chat_sha1 chat_key ''chat''"
  have "list_all valid_field ?h" using chat by (intro switching_valid) simp
  then have "\<exists>out. serialize_head switching_line ?h [] [] = Inr out"
    using switching_line_plain(4) by (simp add: serialize_head_def split_beta list_all_iff list_ex_iff)
  then have "serialize_head switching_line ?h [] [] = Inr chat_answer"
    using serialize_head_print [of switching_line ?h "[]" "[]"] by (auto simp: chat_answer_def emitted_all)
  moreover have "chat_answer \<noteq> []" by (simp add: chat_answer_def)
  ultimately show ?thesis
    unfolding accept_websocket_def sel Let_def websocket_server_handshake_def assms(2) key switching_line_def [symmetric]
    using assms(3) by (simp add: free_write)
qed

lemma handshake_agreement_witness:
  "\<exists>r sio1 ch sio2 ch'. read_request chat_server (cut_stream [wire (snd chat_request), ''early'']) = (Inr r, sio1)
    \<and> is_websocket_upgrade r
    \<and> accept_websocket chat_sha1 (Some (\<lambda>_. ''chat'')) 10 r sio1 = (Some ch, sio2)
    \<and> websocket_client_connect chat_sha1 (\<lambda>_. CHR ''k'') (\<lambda>_ _ _. Inr chat_io) no_error ''ws://a/c'' chat_headers
        chat_options = Inr ch'
    \<and> ws_protocol ch' = ''chat'' \<and> stream (upgrade_read_options chat_options) (ws_io ch') = ''frames''"
proof -
  let ?sio = "cut_stream [wire (snd chat_request), ''early'']"
  have url: "parse_url ''ws://a/c'' [] = Inr chat_url" by code_simp
  have route: "routing_target (target chat_url) = Inr ''/c''" "route_target ''/c'' new_request = Inr (new_request\<lparr>path := ''/c''\<rparr>)"
    by code_simp+
  have "offered_protocols chat_headers = [''chat'']" by code_simp
  then have offered: "list_all valid_header_name (offered_protocols chat_headers)"
    by (simp add: valid_header_name_iff token_char_def separators_def in_range_def)
  have fields: "\<not> headers_contains chat_headers ''Expect''" "\<not> bad_host (trim_ows (authority chat_url))" by code_simp+
  have server: "quiet chat_server" "willing chat_server" "\<not> auto_decompress chat_server"
    "stream chat_server ?sio = wire (snd chat_request) @ ''early''"
    "length (wire (snd chat_request)) \<le> max_header_size chat_server"
    by (simp_all add: chat_server_def quiet_def willing_def plain_options_def stream_def cut_stream_def)
  have sent: "write_request (upgrade_request (random_websocket_key (\<lambda>_. CHR ''k'')) chat_url chat_headers) None None
      (target chat_url) (co_write_timeout chat_options) None chat_io = (fst chat_request, snd chat_request)"
    by (simp add: chat_request_def chat_key_def)
  have io: "wire chat_io = []" "scheme chat_url = ''ws''" "\<not> is_error no_error"
    by (simp_all add: chat_io_def idle_io_def wire_def chat_url_def)
  from handshake_agreement [where connect = "\<lambda>_ _ _. Inr chat_io" and ?sha1.0 = chat_sha1 and
      selector = "Some (\<lambda>_. ''chat'')" and t = 10, OF url io(2) refl io(3,1) offered sent chat_written fields route server]
  obtain r sio1 where r: "read_request chat_server ?sio = (Inr r, sio1)" "is_websocket_upgrade r"
    "write_side sio1 = write_side ?sio" "offered_protocols (req_headers r) = offered_protocols chat_headers"
    "headers_get (req_headers r) ''Sec-WebSocket-Key'' [] = chat_key"
    and agree: "\<And>ch sio2 rest. accept_websocket chat_sha1 (Some (\<lambda>_. ''chat'')) 10 r sio1 = (Some ch, sio2) \<Longrightarrow>
      wire sio1 @ stream (upgrade_read_options chat_options) chat_io = wire sio2 @ rest \<Longrightarrow>
      length (wire sio2) \<le> length (wire sio1) + 64 * 1024 \<Longrightarrow>
      \<exists>ch'. websocket_client_connect chat_sha1 (\<lambda>_. CHR ''k'') (\<lambda>_ _ _. Inr chat_io) no_error ''ws://a/c'' chat_headers
          chat_options = Inr ch' \<and> ws_protocol ch' = ws_protocol ch
        \<and> stream (upgrade_read_options chat_options) (ws_io ch') = rest"
    unfolding chat_key_def by blast
  have "outgoing sio1 = []" using r(3) by (simp add: write_side_def cut_stream_def)
  note acc = chat_accepted [OF r(4,5) this]
  have "stream (upgrade_read_options chat_options) chat_io = chat_answer @ ''frames''"
    by (simp add: stream_def chat_io_def idle_io_def upgrade_read_options_def chat_options_def)
  moreover have "length chat_answer \<le> 64 * 1024"
    by (simp add: chat_answer_def switching_line_def print_fields_def field_line_def switching_headers_def headers_add_def
        Let_def websocket_accept_def chat_sha1_def length_base64_encode)
  ultimately show ?thesis
    using agree [OF acc, of "''frames''"] r(1,2) acc
    by (simp add: wire_def make_websocket_channel_def)
qed

end
