(* ===== verification/Server_Session.thy ===== *)
theory Server_Session
  imports Http_Exchange Routing Ranges Ws_Handshake
begin

text \<open>
  A session of the server (\<^verbatim>\<open>src/server.cpp\<close>: \<^verbatim>\<open>serve\<close>, \<^verbatim>\<open>dispatch\<close>, \<^verbatim>\<open>dispatch_stream\<close>, \<^verbatim>\<open>serve_static\<close>,
  \<^verbatim>\<open>send_file\<close>, \<^verbatim>\<open>send_response\<close>, \<^verbatim>\<open>ChunkSink\<close>, \<^verbatim>\<open>ServerRequestBodySource\<close>), in the build without TLS and
  compression.  Handlers, middleware and the WebSocket handler are the caller's code and so parameters:
  they take some time, change the response and return or throw; a handler that throws leaves the
  response as far as it got.  The file system is a parameter as well.  The handlers of routes run to
  their end in one step, on the loop or on a worker; an exception handler that throws itself, multipart
  forms and the remote address are left out.
\<close>

section \<open>Responses under construction\<close>

record reply =
  rp_response :: response
  rp_stream :: "producer option"
  rp_file :: "bytes option"

definition new_reply :: "nat \<Rightarrow> bool \<Rightarrow> reply" where
  "new_reply ver keep =
     \<lparr>rp_response = \<lparr>status = 200, version = ver, res_headers = [], res_body = [], res_keep_alive = keep\<rparr>,
      rp_stream = None, rp_file = None\<rparr>"

definition set_status :: "int \<Rightarrow> reply \<Rightarrow> reply" where
  "set_status n rp = rp\<lparr>rp_response := (rp_response rp)\<lparr>status := n\<rparr>\<rparr>"

definition set_keep_alive :: "bool \<Rightarrow> reply \<Rightarrow> reply" where
  "set_keep_alive keep rp = rp\<lparr>rp_response := (rp_response rp)\<lparr>res_keep_alive := keep\<rparr>\<rparr>"

definition set_header :: "bytes \<Rightarrow> bytes \<Rightarrow> reply \<Rightarrow> reply" where
  "set_header name v rp =
     rp\<lparr>rp_response := (rp_response rp)\<lparr>res_headers := headers_set (res_headers (rp_response rp)) name v\<rparr>\<rparr>"

definition set_content :: "bytes \<Rightarrow> bytes \<Rightarrow> reply \<Rightarrow> reply" where
  "set_content v content_type rp =
     set_header ''Content-Type'' content_type
       (rp\<lparr>rp_response := (rp_response rp)\<lparr>res_body := v\<rparr>, rp_stream := None, rp_file := None\<rparr>)"

definition set_file :: "bytes \<Rightarrow> bytes \<Rightarrow> reply \<Rightarrow> reply" where
  "set_file file_path content_type rp =
     set_header ''Content-Type'' content_type
       (rp\<lparr>rp_response := (rp_response rp)\<lparr>res_body := []\<rparr>, rp_stream := None, rp_file := Some file_path\<rparr>)"

definition set_stream :: "bytes \<Rightarrow> producer \<Rightarrow> reply \<Rightarrow> reply" where
  "set_stream content_type p rp =
     set_header ''Content-Type'' content_type
       (rp\<lparr>rp_response := (rp_response rp)\<lparr>res_body := []\<rparr>, rp_stream := Some p, rp_file := None\<rparr>)"

definition is_streaming :: "reply \<Rightarrow> bool" where
  "is_streaming rp \<longleftrightarrow> rp_stream rp \<noteq> None"

definition plain_text :: bytes where
  "plain_text = ''text/plain; charset=utf-8''"

section \<open>The caller's code\<close>

text \<open>The time a callback takes, whether it threw, and the response it leaves.\<close>

type_synonym handler = "request \<Rightarrow> path_params \<Rightarrow> reply \<Rightarrow> nat \<times> bool \<times> reply"

text \<open>Middleware answers whether the request is handled; \<open>None\<close> is an exception.\<close>

type_synonym middleware = "request \<Rightarrow> reply \<Rightarrow> nat \<times> bool option \<times> reply"

type_synonym error_handler = "request \<Rightarrow> reply \<Rightarrow> nat \<times> bool \<times> reply"

text \<open>
  A handler of a stream route consumes the body with a consumer and goes on with the result and the
  fields the request then has, or cancels the body, or spends time; in the end it leaves a response or
  throws.
\<close>

datatype body_user =
    Leave bool reply
  | Consume "bytes \<Rightarrow> nat \<times> verdict" "error_info \<times> headers \<Rightarrow> body_user"
  | Cancel_body body_user
  | Work nat body_user

record stream_options =
  st_max_body_size :: nat
  st_first_body_byte_timeout :: "nat option"
  st_idle_timeout :: "nat option"
  st_total_timeout :: "nat option"
  st_auto_decompress :: bool

record mount =
  mount_prefix :: bytes
  mount_root :: bytes
  mount_headers :: headers

text \<open>
  The file system: how paths are joined, what is a directory, a regular file or inside a root, the media
  type of a file, the size of a file that opens, and the bytes a read at an offset gives, absent when it
  fails and fewer than wanted when the file has become shorter.
\<close>

record filesystem =
  join_path :: "bytes \<Rightarrow> bytes \<Rightarrow> bytes"
  is_directory :: "bytes \<Rightarrow> bool"
  is_regular_file :: "bytes \<Rightarrow> bool"
  path_within :: "bytes \<Rightarrow> bytes \<Rightarrow> bool"
  media_type :: "bytes \<Rightarrow> bytes"
  file_size :: "bytes \<Rightarrow> nat option"
  file_read :: "bytes \<Rightarrow> nat \<Rightarrow> nat \<Rightarrow> bytes option"

record server =
  sv_max_header_size :: nat
  sv_max_body_size :: nat
  sv_request_timeout :: nat
  sv_keep_alive_timeout :: nat
  sv_keep_alive_max_requests :: nat
  sv_auto_decompress :: bool
  sv_stops_at :: "nat option"
  sv_routes :: "route_entry list"
  sv_handlers :: "nat \<Rightarrow> handler"
  sv_stream_routes :: "route_entry list"
  sv_stream_handlers :: "nat \<Rightarrow> request \<Rightarrow> path_params \<Rightarrow> reply \<Rightarrow> body_user"
  sv_stream_options :: "nat \<Rightarrow> stream_options"
  sv_ws_routes :: "compiled_pattern list"
  sv_ws_selectors :: "nat \<Rightarrow> (bytes list \<Rightarrow> bytes) option"
  sv_ws_handlers :: "nat \<Rightarrow> request \<Rightarrow> channel \<Rightarrow> bool \<times> channel"
  sv_mounts :: "mount list"
  sv_pre_routing :: "middleware option"
  sv_post_routing :: "middleware option"
  sv_error_handler :: "error_handler option"
  sv_exception_handler :: "(request \<Rightarrow> reply \<Rightarrow> nat \<times> reply) option"
  sv_files :: filesystem
  sv_sha1 :: "bytes \<Rightarrow> bytes"

definition pass_time :: "nat \<Rightarrow> io \<Rightarrow> io" where
  "pass_time t io = io\<lparr>clock := clock io + t\<rparr>"

definition stopping :: "server \<Rightarrow> io \<Rightarrow> bool" where
  "stopping sv io \<longleftrightarrow> (case sv_stops_at sv of None \<Rightarrow> False | Some t \<Rightarrow> t \<le> clock io)"

definition default_error_handler :: error_handler where
  "default_error_handler req rp =
     (0, False, set_content (if status (rp_response rp) = 404 then ''Not Found''
        else status_reason_view (status (rp_response rp))) plain_text rp)"

definition default_exception_handler :: "request \<Rightarrow> reply \<Rightarrow> nat \<times> reply" where
  "default_exception_handler req rp = (0, set_content ''Internal Server Error'' plain_text (set_status 500 rp))"

section \<open>Dispatch\<close>

definition mount_candidate :: "filesystem \<Rightarrow> mount \<Rightarrow> bytes \<Rightarrow> bytes" where
  "mount_candidate fs m s =
     (let p = join_path fs (mount_root m) (dropWhile (\<lambda>c. c = CHR ''/'') (drop (length (mount_prefix m)) s))
      in if is_directory fs p then join_path fs p ''index.html'' else p)"

text \<open>The first mount whose prefix fits decides.\<close>

definition serve_static :: "server \<Rightarrow> request \<Rightarrow> reply \<Rightarrow> reply option" where
  "serve_static sv req rp =
     (if \<not> iequals (req_method req) ''GET'' \<and> \<not> iequals (req_method req) ''HEAD'' then None
      else (case find (\<lambda>m. prefix (mount_prefix m) (path req)) (sv_mounts sv) of
              None \<Rightarrow> None
            | Some m \<Rightarrow>
                let fs = sv_files sv; file = mount_candidate fs m (path req)
                in if \<not> is_regular_file fs file \<or> \<not> path_within fs (mount_root m) file then None
                   else Some (set_header ''Accept-Ranges'' ''bytes''
                          (foldl (\<lambda>rp (name, v). set_header name v rp)
                            (set_file file (media_type fs file) rp) (mount_headers m)))))"

definition handle_exception :: "server \<Rightarrow> request \<Rightarrow> reply \<times> io \<Rightarrow> reply \<times> io" where
  "handle_exception sv req = (\<lambda>(rp, io).
     case (case sv_exception_handler sv of Some f \<Rightarrow> f | None \<Rightarrow> default_exception_handler) req rp of
       (cost, rp') \<Rightarrow> (rp', pass_time cost io))"

text \<open>The routing of a request; the flag says that something threw.\<close>

definition route_request :: "server \<Rightarrow> request \<Rightarrow> reply \<Rightarrow> io \<Rightarrow> bool \<times> reply \<times> io" where
  "route_request sv req rp io =
     (case find_route (sv_routes sv) (req_method req) (path req) of
        Some (i, params) \<Rightarrow>
          (case sv_handlers sv i req params rp of (cost, threw, rp') \<Rightarrow> (threw, rp', pass_time cost io))
      | None \<Rightarrow>
          (case (if sv_mounts sv \<noteq> [] then serve_static sv req rp else None) of
             Some rp' \<Rightarrow> (False, rp', io)
           | None \<Rightarrow>
               (case (case sv_error_handler sv of Some f \<Rightarrow> f | None \<Rightarrow> default_error_handler) req (set_status 404 rp) of
                  (cost, threw, rp') \<Rightarrow> (threw, rp', pass_time cost io))))"

definition run_middleware :: "middleware option \<Rightarrow> request \<Rightarrow> reply \<Rightarrow> io \<Rightarrow> bool option \<times> reply \<times> io" where
  "run_middleware m req rp io = (case m of
     None \<Rightarrow> (Some False, rp, io)
   | Some f \<Rightarrow> (case f req rp of (cost, answer, rp') \<Rightarrow> (answer, rp', pass_time cost io)))"

text \<open>
  \<^verbatim>\<open>dispatch\<close> and \<^verbatim>\<open>dispatch_stream\<close> around what they call in the middle, which may change the fields of
  the request the later callbacks see.
\<close>

definition dispatch_around ::
    "server \<Rightarrow> ('b \<Rightarrow> request) \<Rightarrow> ('b \<Rightarrow> reply \<Rightarrow> io \<Rightarrow> 'b \<times> bool \<times> reply \<times> io)
       \<Rightarrow> 'b \<Rightarrow> reply \<Rightarrow> io \<Rightarrow> 'b \<times> reply \<times> io" where
  "dispatch_around sv seen inner b rp io =
     (case run_middleware (sv_pre_routing sv) (seen b) rp io of
        (None, rp1, io1) \<Rightarrow> (b, handle_exception sv (seen b) (rp1, io1))
      | (Some True, rp1, io1) \<Rightarrow> (b, rp1, io1)
      | (Some False, rp1, io1) \<Rightarrow>
          (case inner b rp1 io1 of
             (b2, True, rp2, io2) \<Rightarrow> (b2, handle_exception sv (seen b2) (rp2, io2))
           | (b2, False, rp2, io2) \<Rightarrow>
               (case run_middleware (sv_post_routing sv) (seen b2) rp2 io2 of
                  (None, rp3, io3) \<Rightarrow> (b2, handle_exception sv (seen b2) (rp3, io3))
                | (Some _, rp3, io3) \<Rightarrow> (b2, rp3, io3))))"

definition dispatch_request :: "server \<Rightarrow> request \<Rightarrow> reply \<Rightarrow> io \<Rightarrow> reply \<times> io" where
  "dispatch_request sv req rp io =
     snd (dispatch_around sv id (\<lambda>r rp io. (r, route_request sv r rp io)) req rp io)"

section \<open>Streamed request bodies\<close>

text \<open>The source a stream handler reads from, with the fields of the request it belongs to.\<close>

record body_source =
  src_state :: request_body_state
  src_options :: read_options
  src_request :: request
  src_consumed :: bool
  src_complete :: bool
  src_cancelled :: bool
  src_error :: error_info

definition new_source :: "request_body_state \<Rightarrow> read_options \<Rightarrow> request \<Rightarrow> body_source" where
  "new_source st opts req =
     \<lparr>src_state = st, src_options = opts, src_request = req, src_consumed = False,
      src_complete = (\<not> bs_chunked st \<and> (case bs_length st of None \<Rightarrow> True | Some n \<Rightarrow> n = 0)),
      src_cancelled = False, src_error = no_error\<rparr>"

definition consume :: "(bytes \<Rightarrow> nat \<times> verdict) \<Rightarrow> body_source \<Rightarrow> io \<Rightarrow> error_info \<times> body_source \<times> io" where
  "consume consumer src io =
     (if src_consumed src
      then (if src_complete src then error_of E_invalid_argument ''Request body stream was already consumed''
            else error_of E_cancelled ''Request body stream is no longer available'', src, io)
      else
        let src1 = src\<lparr>src_consumed := True\<rparr>
        in if src_complete src1 then (no_error, src1, io)
           else if src_cancelled src1 then (error_of E_cancelled ''Request body stream cancelled'', src1, io)
           else if (case bs_length (src_state src1) of None \<Rightarrow> False | Some n \<Rightarrow> n > max_body_size (src_options src1))
           then let e = error_of E_body_too_large ''Request body exceeds the stream route limit''
                in (e, src1\<lparr>src_error := e\<rparr>, io)
           else
             (case read_request_body ((src_options src1)\<lparr>cancelled := Some (\<lambda>_. False), on_data_async := Some consumer\<rparr>)
                 (src_state src1) io of
                (Inl e, st, io1) \<Rightarrow> (e, src1\<lparr>src_state := st, src_error := e\<rparr>, io1)
              | (Inr _, st, io1) \<Rightarrow>
                  (no_error, src1\<lparr>src_state := st, src_complete := True,
                     src_request := (src_request src1)\<lparr>req_headers := bs_headers st\<rparr>\<rparr>, io1)))"

definition cancel_source :: "body_source \<Rightarrow> io \<Rightarrow> body_source \<times> io" where
  "cancel_source src io = (src\<lparr>src_cancelled := True\<rparr>, connection_close io)"

primrec run_body_user :: "body_user \<Rightarrow> body_source \<Rightarrow> io \<Rightarrow> body_source \<times> bool \<times> reply \<times> io" where
  "run_body_user (Leave threw rp) src io = (src, threw, rp, io)"
| "run_body_user (Consume f k) src io =
     (case consume f src io of
        (e, src1, io1) \<Rightarrow> run_body_user (k (e, req_headers (src_request src1))) src1 io1)"
| "run_body_user (Cancel_body u) src io =
     (case cancel_source src io of (src1, io1) \<Rightarrow> run_body_user u src1 io1)"
| "run_body_user (Work t u) src io = run_body_user u src (pass_time t io)"

definition dispatch_stream ::
    "server \<Rightarrow> nat \<Rightarrow> path_params \<Rightarrow> body_source \<Rightarrow> reply \<Rightarrow> io \<Rightarrow> body_source \<times> reply \<times> io" where
  "dispatch_stream sv i params src rp io =
     dispatch_around sv src_request
       (\<lambda>src rp io. run_body_user (sv_stream_handlers sv i (src_request src) params rp) src io) src rp io"

section \<open>Sending responses\<close>

record chunk_sink =
  cs_timeout :: nat
  cs_chunked :: bool
  cs_open :: bool

definition chunk_sink_open :: "chunk_sink \<Rightarrow> io \<Rightarrow> bool" where
  "chunk_sink_open sk io \<longleftrightarrow> cs_open sk \<and> connection_open io"

definition chunk_sink_write :: "bytes \<Rightarrow> chunk_sink \<Rightarrow> io \<Rightarrow> bool \<times> chunk_sink \<times> io" where
  "chunk_sink_write data sk io =
     (if \<not> cs_open sk then (False, sk, io)
      else if data = [] then (True, sk, io)
      else (case (if cs_chunked sk then write_chunk data (cs_timeout sk) io
                  else connection_write data (cs_timeout sk) io) of
              (e, io1) \<Rightarrow> (\<not> is_error e, if is_error e then sk\<lparr>cs_open := False\<rparr> else sk, io1)))"

text \<open>A stream handler is a producer; the first component says that it threw.\<close>

primrec run_stream :: "producer \<Rightarrow> chunk_sink \<Rightarrow> io \<Rightarrow> bool \<times> chunk_sink \<times> io" where
  "run_stream Produced sk io = (False, sk, io)"
| "run_stream (Throw_stream e) sk io = (True, sk, io)"
| "run_stream (Throw_std what) sk io = (True, sk, io)"
| "run_stream Throw_other sk io = (True, sk, io)"
| "run_stream (Pause t p) sk io = run_stream p sk (pass_time t io)"
| "run_stream (Write d k) sk io =
     (case chunk_sink_write d sk io of (ok, sk1, io1) \<Rightarrow> run_stream (k ok) sk1 io1)"
| "run_stream (Flush k) sk io = run_stream (k (chunk_sink_open sk io)) sk io"

definition send_stream :: "server \<Rightarrow> request \<Rightarrow> producer \<Rightarrow> reply \<Rightarrow> io \<Rightarrow> error_info \<times> reply \<times> io" where
  "send_stream sv req p rp io =
     (let timeout = sv_request_timeout sv;
          omit_body = (iequals (req_method req) ''HEAD'' \<or> status_has_no_body (status (rp_response rp)));
          chunks = (req_version req \<ge> 11);
          rp1 = (if chunks then rp else set_keep_alive False rp)
      in case write_response_head req (rp_response rp1) chunks (if chunks then Some 0 else None) timeout io of
           (e, io1) \<Rightarrow>
             if is_error e \<or> omit_body then (e, rp1, io1)
             else (case run_stream p \<lparr>cs_timeout = timeout, cs_chunked = chunks, cs_open = True\<rparr> io1 of
                     (threw, sk, io2) \<Rightarrow>
                       if threw then (error_of E_write ''Streaming response handler failed'', rp1, io2)
                       else if \<not> chunk_sink_open sk io2
                       then (error_of E_write ''Streaming connection closed'', rp1, io2)
                       else if chunks
                       then (case write_last_chunk timeout io2 of (e2, io3) \<Rightarrow> (e2, rp1, io3))
                       else (no_error, rp1, io2)))"

definition file_block :: nat where
  "file_block = 256 * 1024"

text \<open>The transfer of a file from an offset on; reads follow one another, so only the first one seeks.\<close>

function send_blocks :: "filesystem \<Rightarrow> bytes \<Rightarrow> nat \<Rightarrow> nat \<Rightarrow> nat \<Rightarrow> io \<Rightarrow> error_info \<times> io" where
  "send_blocks fs file timeout offset remaining io =
     (if remaining = 0 then (no_error, io)
      else if \<not> connection_open io then (error_of E_write ''File transfer connection closed'', io)
      else
        let n = min remaining file_block
        in (case file_read fs file offset n of
              None \<Rightarrow> (error_of E_read ''Static file read was truncated'', io)
            | Some chunk \<Rightarrow>
                if length chunk \<noteq> n then (error_of E_read ''Static file read was truncated'', io)
                else (case connection_write chunk timeout io of
                        (e, io1) \<Rightarrow> if is_error e then (e, io1)
                          else send_blocks fs file timeout (offset + n) (remaining - n) io1)))"
  by pat_completeness auto
termination
  by (relation "measure (\<lambda>(_, _, _, _, remaining, _). remaining)") (auto simp: file_block_def)

declare send_blocks.simps [simp del]

text \<open>Whether a validator lets a range be served: only a strong one that is the entity tag.\<close>

definition validator_matches :: "request \<Rightarrow> response \<Rightarrow> bool" where
  "validator_matches req res \<longleftrightarrow> (case find_header (req_headers req) ''If-Range'' of
     None \<Rightarrow> True
   | Some v \<Rightarrow> length v \<ge> 2 \<and> hd v = CHR 0x22 \<and> last v = CHR 0x22
       \<and> find_header (res_headers res) ''ETag'' = Some v)"

definition wanted_range :: "request \<Rightarrow> response \<Rightarrow> bytes option" where
  "wanted_range req res =
     (if status res = 200 \<and> iequals (req_method req) ''GET'' then
        (case find_header (req_headers req) ''Range'' of
           None \<Rightarrow> None
         | Some r \<Rightarrow> if istarts_with r ''bytes='' \<and> validator_matches req res then Some r else None)
      else None)"

definition send_part :: "server \<Rightarrow> request \<Rightarrow> bytes \<Rightarrow> reply \<Rightarrow> nat \<Rightarrow> nat \<Rightarrow> io \<Rightarrow> error_info \<times> reply \<times> io" where
  "send_part sv req file rp offset len io =
     (case write_response_head req (rp_response rp) False (Some len) (sv_request_timeout sv) io of
        (e, io1) \<Rightarrow>
          if is_error e \<or> iequals (req_method req) ''HEAD'' \<or> len = 0 \<or> status_has_no_body (status (rp_response rp))
          then (e, rp, io1)
          else (case send_blocks (sv_files sv) file (sv_request_timeout sv) offset len io1 of (e2, io2) \<Rightarrow> (e2, rp, io2)))"

definition send_buffered :: "server \<Rightarrow> request \<Rightarrow> reply \<Rightarrow> io \<Rightarrow> error_info \<times> reply \<times> io" where
  "send_buffered sv req rp io =
     (case write_response req (rp_response rp) (sv_request_timeout sv) io of (e, io1) \<Rightarrow> (e, rp, io1))"

definition send_file :: "server \<Rightarrow> request \<Rightarrow> bytes \<Rightarrow> reply \<Rightarrow> io \<Rightarrow> error_info \<times> reply \<times> io" where
  "send_file sv req file rp io =
     (case file_size (sv_files sv) file of
        None \<Rightarrow> send_buffered sv req
          (set_content ''Unable to open response file'' plain_text (set_keep_alive False (set_status 500 rp))) io
      | Some sz \<Rightarrow>
        (case wanted_range req (rp_response rp) of
           None \<Rightarrow> send_part sv req file rp 0 sz io
         | Some r \<Rightarrow>
           (case parse_range r sz of
              None \<Rightarrow>
                let rp1 = set_header ''Content-Range'' (''bytes */'' @ to_string sz) (set_status 416 rp)
                in send_buffered sv req (rp1\<lparr>rp_response := (rp_response rp1)\<lparr>res_body := []\<rparr>\<rparr>) io
            | Some (f, l) \<Rightarrow>
                send_part sv req file
                  (set_header ''Content-Range'' (''bytes '' @ to_string f @ ''-'' @ to_string l @ ''/'' @ to_string sz)
                    (set_status 206 rp)) f (l - f + 1) io)))"

text \<open>Without a compression library every coder fails, so a buffered body goes out as it is.\<close>

definition send_response :: "server \<Rightarrow> request \<Rightarrow> reply \<Rightarrow> io \<Rightarrow> error_info \<times> reply \<times> io" where
  "send_response sv req rp io =
     (case rp_file rp of
        Some file \<Rightarrow> send_file sv req file rp io
      | None \<Rightarrow>
        (case rp_stream rp of
           Some p \<Rightarrow> send_stream sv req p rp io
         | None \<Rightarrow> send_buffered sv req rp io))"

section \<open>One request of a session\<close>

text \<open>
  A turn of the loop: it hangs up, it has handed the connection to a WebSocket handler that is done with
  it, or it has sent a response, whose request and final form the logger sees, and goes on or not.
\<close>

datatype turn = Hang_up io | Upgraded io | Replied request reply bool io

definition plain_read_options :: "server \<Rightarrow> nat \<Rightarrow> bool \<Rightarrow> read_options" where
  "plain_read_options sv timeout decompress =
     \<lparr>max_header_size = sv_max_header_size sv, max_body_size = sv_max_body_size sv, read_timeout = timeout,
      header_timeout = None, first_body_byte_timeout = None, idle_timeout = None, deadline = None,
      auto_decompress = decompress, cancelled = None, on_response_head = None, on_data = None,
      on_data_async = None, on_progress = None\<rparr>"

definition stream_limit :: "server \<Rightarrow> nat \<Rightarrow> nat" where
  "stream_limit sv i = (if st_max_body_size (sv_stream_options sv i) = 0 then sv_max_body_size sv
     else st_max_body_size (sv_stream_options sv i))"

definition stream_read_options :: "server \<Rightarrow> nat \<Rightarrow> io \<Rightarrow> read_options" where
  "stream_read_options sv i io =
     (let so = sv_stream_options sv i
      in (plain_read_options sv (sv_request_timeout sv) (sv_auto_decompress sv \<and> st_auto_decompress so))
           \<lparr>max_body_size := stream_limit sv i, first_body_byte_timeout := st_first_body_byte_timeout so,
            idle_timeout := st_idle_timeout so,
            deadline := map_option (\<lambda>t. clock io + t) (st_total_timeout so)\<rparr>)"

definition refuse_request :: "server \<Rightarrow> request \<Rightarrow> int \<Rightarrow> bytes \<Rightarrow> io \<Rightarrow> io" where
  "refuse_request sv req n text io =
     snd (write_response req (rp_response (set_content text plain_text (set_status n (new_reply 11 False))))
       (sv_request_timeout sv) io)"

definition error_status :: "error_info \<Rightarrow> int" where
  "error_status e = (if err_code e = E_body_too_large then 413 else if err_code e = E_timeout then 408 else 400)"

definition answer_turn :: "server \<Rightarrow> nat \<Rightarrow> request \<Rightarrow> bool \<Rightarrow> reply \<Rightarrow> io \<Rightarrow> turn" where
  "answer_turn sv n req complete rp io =
     (let rp1 = (if complete then rp else set_keep_alive False rp);
          rp2 = (if n + 1 \<ge> sv_keep_alive_max_requests sv \<or> stopping sv io then set_keep_alive False rp1 else rp1);
          reusable = (res_keep_alive (rp_response rp2) \<and> req_keep_alive req \<and> complete)
      in case send_response sv req rp2 io of
           (e, rp3, io1) \<Rightarrow> Replied req rp3 (\<not> is_error e \<and> reusable) io1)"

definition stream_turn ::
    "server \<Rightarrow> nat \<Rightarrow> nat \<Rightarrow> path_params \<Rightarrow> request \<Rightarrow> request_body_state \<Rightarrow> io \<Rightarrow> turn" where
  "stream_turn sv n i params req0 st io =
     (let req = req0\<lparr>req_headers := bs_headers st\<rparr>
      in if (case bs_length st of None \<Rightarrow> False | Some len \<Rightarrow> len > stream_limit sv i)
         then Hang_up (refuse_request sv req 413 (status_reason_view 413) io)
         else
           (case dispatch_stream sv i params (new_source st (stream_read_options sv i io) req)
               (new_reply (req_version req) (req_keep_alive req)) io of
              (src, rp, io1) \<Rightarrow>
                if \<not> connection_open io1 then Hang_up io1
                else
                  let req1 = (src_request src)\<lparr>req_headers := bs_headers (src_state src)\<rparr>;
                      e = src_error src;
                      rp1 = (if is_error e \<and> status (rp_response rp) = 200 \<and> res_body (rp_response rp) = []
                                 \<and> \<not> is_streaming rp
                             then set_content (message e) plain_text (set_status (error_status e) rp) else rp)
                  in answer_turn sv n req1 (src_complete src) rp1 io1))"

definition websocket_turn :: "server \<Rightarrow> request \<Rightarrow> io \<Rightarrow> turn" where
  "websocket_turn sv req io =
     (case find_ws_route 0 (sv_ws_routes sv) (path req) Map.empty of
        None \<Rightarrow>
          (case default_error_handler req (set_status 404 (new_reply 11 False)) of
             (_, _, rp) \<Rightarrow> Hang_up (snd (write_response req (rp_response rp) (sv_request_timeout sv) io)))
      | Some (i, params) \<Rightarrow>
          (case accept_websocket (sv_sha1 sv) (sv_ws_selectors sv i) (sv_request_timeout sv) req io of
             (None, io1) \<Rightarrow> Hang_up io1
           | (Some ws, _) \<Rightarrow>
               (case sv_ws_handlers sv i req ws of
                  (failed, ws1) \<Rightarrow>
                    Upgraded (ws_io (ws_close (\<lambda>_. CHR 0x00) (if failed then 1011 else 1000)
                      (if failed then ''Handler error'' else []) ws1)))))"

definition has_body :: "request_body_state \<Rightarrow> bool" where
  "has_body st \<longleftrightarrow> bs_chunked st \<or> (case bs_length st of None \<Rightarrow> False | Some n \<Rightarrow> n \<noteq> 0) \<or> bs_expect st"

definition plain_turn :: "server \<Rightarrow> nat \<Rightarrow> request \<Rightarrow> request_body_state \<Rightarrow> io \<Rightarrow> turn" where
  "plain_turn sv n req st io =
     (case (if has_body st
            then read_request_body (plain_read_options sv (sv_request_timeout sv) (sv_auto_decompress sv)) st io
            else (Inr (req_body req), st, io)) of
        (Inl e, _, io1) \<Rightarrow> Hang_up (refuse_request sv req (error_status e) (message e) io1)
      | (Inr b, st1, io1) \<Rightarrow>
          let req1 = req\<lparr>req_body := b, req_headers := bs_headers st1\<rparr>
          in if is_websocket_upgrade req1 then websocket_turn sv req1 io1
             else (case dispatch_request sv req1 (new_reply (req_version req1) (req_keep_alive req1)) io1 of
                     (rp, io2) \<Rightarrow>
                       if \<not> connection_open io2 then Hang_up io2 else answer_turn sv n req1 True rp io2))"

definition serve_turn :: "server \<Rightarrow> nat \<Rightarrow> io \<Rightarrow> turn" where
  "serve_turn sv n io =
     (let timeout = (if n = 0 then sv_request_timeout sv else sv_keep_alive_timeout sv)
      in case read_request_head (plain_read_options sv timeout False) False io of
           (Inl e, io1) \<Rightarrow>
             Hang_up (if err_code e = E_body_too_large \<or> err_code e = E_protocol
               then let code = (if err_code e = E_body_too_large then 413 else 400)
                    in refuse_request sv (new_request\<lparr>req_keep_alive := False\<rparr>) code (status_reason_view code) io1
               else io1)
         | (Inr (req, st), io1) \<Rightarrow>
             (case find_stream_route (sv_stream_routes sv) (req_method req) (path req) of
                Some (i, params) \<Rightarrow> stream_turn sv n i params req st io1
              | None \<Rightarrow> plain_turn sv n req st io1))"

section \<open>The session\<close>

text \<open>The requests that were answered, with their responses, and the connection in the end.\<close>

function serve_loop :: "server \<Rightarrow> nat \<Rightarrow> io \<Rightarrow> (request \<times> reply) list \<times> io" where
  "serve_loop sv n io =
     (if \<not> connection_open io \<or> n \<ge> sv_keep_alive_max_requests sv \<or> stopping sv io
      then ([], connection_close io)
      else (case serve_turn sv n io of
              Hang_up io1 \<Rightarrow> ([], connection_close io1)
            | Upgraded io1 \<Rightarrow> ([], io1)
            | Replied req rp again io1 \<Rightarrow>
                if again then (case serve_loop sv (n + 1) io1 of (log, io2) \<Rightarrow> ((req, rp) # log, io2))
                else ([(req, rp)], connection_close io1)))"
  by pat_completeness auto
termination
  by (relation "measure (\<lambda>(sv, n, _). sv_keep_alive_max_requests sv - n)") auto

declare serve_loop.simps [simp del]

definition serve :: "server \<Rightarrow> io \<Rightarrow> (request \<times> reply) list \<times> io" where
  "serve sv io = serve_loop sv 0 (io\<lparr>buffer := []\<rparr>)"

end
