(* ===== verification/Session_Facts.thy ===== *)
theory Session_Facts
  imports Server_Session
begin

text \<open>
  What a session of the server guarantees: pipelined requests are read and answered in order, a
  connection is used again only behind a message that was read to its end, a session answers a bounded
  number of requests and closes its connection, and files and streams go out as the bytes they promise.
\<close>

section \<open>Connections that are on time\<close>

text \<open>No event is later than \<open>T\<close>: then any timeout of at least \<open>T\<close> yields the same stream.\<close>

definition on_time :: "nat \<Rightarrow> io \<Rightarrow> bool" where
  "on_time T io \<longleftrightarrow> (\<forall>(d, e) \<in> set (incoming io). d \<le> T)"

lemma arriving_on_time: "\<forall>(d, e) \<in> set es. d \<le> T \<Longrightarrow> T \<le> t \<Longrightarrow> arriving t es = arriving T es"
proof (induction es)
  case (Cons a es)
  obtain d e where a: "a = (d, e)" by (rule prod.exhaust)
  have "d \<le> T" "d \<le> t" "arriving t es = arriving T es" using Cons by (auto simp: a)
  then show ?case by (simp add: a split: sum.split read_chunk.split)
qed simp

lemma stream_on_time:
  "on_time T io \<Longrightarrow> T \<le> read_timeout opts \<Longrightarrow> stream opts io = buffer io @ arriving T (incoming io)"
  unfolding stream_def on_time_def by (rule arg_cong [OF arriving_on_time])

lemma on_time_updates [simp]:
  "on_time T (io\<lparr>clock := t\<rparr>) = on_time T io" "on_time T (io\<lparr>buffer := b\<rparr>) = on_time T io"
  "on_time T (io\<lparr>received := n\<rparr>) = on_time T io" "on_time T (io\<lparr>body := b\<rparr>) = on_time T io"
  "on_time T (io\<lparr>idle_deadline := dl\<rparr>) = on_time T io"
  by (simp_all add: on_time_def)

lemma on_time_incoming: "incoming io' = incoming io \<Longrightarrow> on_time T io' = on_time T io"
  by (simp add: on_time_def)

lemma connection_read_on_time: "on_time T io \<Longrightarrow> on_time T (snd (connection_read t io))"
  by (auto simp: on_time_def connection_read_def split: list.split)

lemma timed_read_on_time:
  assumes "on_time T io" shows "on_time T (snd (timed_read opts pd ph io))"
proof -
  have "on_time T (snd (connection_read t io))" for t by (rule connection_read_on_time [OF assms])
  then have "connection_read t io = (c, io') \<Longrightarrow> on_time T io'" for t c io' by (metis snd_conv)
  then show ?thesis using assms by (auto simp: timed_read_def split: sum.split prod.split)
qed

lemma read_head_loop_on_time: "on_time T io \<Longrightarrow> on_time T (snd (read_head_loop opts dl sf io))"
proof (induction opts dl sf io rule: read_head_loop.induct)
  case (1 opts dl sf io)
  obtain c io1 where r: "timed_read opts dl ''Response header'' io = (c, io1)" by (rule prod.exhaust)
  have t: "on_time T io1" using timed_read_on_time [OF "1.prems", of opts dl "''Response header''"] r by simp
  show ?case
  proof (cases "find_sub_from (CRLF @ CRLF) sf (buffer io) = None \<and> \<not> length (buffer io) \<ge> max_header_size opts")
    case False
    then show ?thesis using "1.prems" by (subst read_head_loop.simps) (auto split: option.split)
  next
    case go: True
    show ?thesis
    proof (cases "\<exists>b. c = Inr (Chunk b)")
      case True
      then obtain b where c: "c = Inr (Chunk b)" ..
      show ?thesis
        unfolding read_head_loop_step [OF go [THEN conjunct1] go [THEN conjunct2] r [unfolded c]]
        using "1.IH" [OF go [THEN conjunct1] go [THEN conjunct2] r [symmetric] c refl] t by simp
    next
      case False
      then show ?thesis using t go r "1.prems"
        by (subst read_head_loop.simps) (auto split: sum.split read_chunk.split)
    qed
  qed
qed

lemma read_request_head_on_time: "on_time T io \<Longrightarrow> on_time T (snd (read_request_head opts dup io))"
proof -
  assume t: "on_time T io"
  have "on_time T (snd (read_head_bytes opts io))"
    using read_head_loop_on_time [OF t] by (simp add: read_head_bytes_def)
  then have "read_head_bytes opts io = (r, io') \<Longrightarrow> on_time T io'" for r io' by simp
  then show ?thesis using t by (auto simp: read_request_head_def split: option.split sum.split prod.split)
qed

lemma read_more_on_time: "read_more opts fd io = (c, io') \<Longrightarrow> on_time T io \<Longrightarrow> on_time T io'"
  using timed_read_on_time by (metis read_more_def snd_conv)

lemma read_payload_on_time: "on_time T io \<Longrightarrow> on_time T (snd (read_payload opts aw fd en t n io))"
proof (induction n io rule: read_payload_induct [of _ opts fd])
  case (finished io)
  then show ?case by (simp add: read_payload_finished)
next
  case (buffered n io)
  have "on_time T (snd (deliver opts aw d t io))" for d using buffered(4) by (simp add: on_time_def deliver_incoming)
  then show ?case using buffered(3) by (simp add: read_payload_buffered [OF buffered(1,2) refl refl])
next
  case (stop n io c io1)
  then show ?case using read_more_on_time [OF stop(3,5)] by (simp add: read_payload_stop)
next
  case (skip n io io1)
  then show ?case using read_more_on_time [OF skip(3)] by (simp add: read_payload_skip)
next
  case (direct n io bs io1)
  have d: "on_time T (snd (deliver opts aw d t io1))" for d
    using read_more_on_time [OF direct(3,6)] by (simp add: on_time_def deliver_incoming)
  show ?case unfolding read_payload_direct [OF direct(1-4) refl refl] using d direct(5) by simp
qed

lemma read_request_body_on_time:
  assumes "on_time T io" "\<not> bs_chunked st" "\<not> bs_expect st"
  shows "on_time T (snd (snd (read_request_body opts st io)))"
proof -
  have "on_time T (snd (snd (read_body opts (body_head st) False False io)))"
    using assms(1,2) read_payload_on_time
    by (auto simp: read_body_def body_head_def read_fixed_def Let_def split_beta split: option.split)
  then show ?thesis using assms
    by (auto simp: read_request_body_def finish_request_body_def split_beta split: option.split)
qed

section \<open>Dispatch\<close>

lemma pass_time_simps [simp]:
  "pass_time a (pass_time b io) = pass_time (b + a) io" "pass_time 0 io = io"
  "incoming (pass_time t io) = incoming io" "buffer (pass_time t io) = buffer io"
  "outgoing (pass_time t io) = outgoing io" "closes_at (pass_time t io) = closes_at io"
  "sent (pass_time t io) = sent io" "wire (pass_time t io) = wire io" "read_side (pass_time t io) = read_side io"
  by (simp_all add: pass_time_def)

text \<open>What the caller's code answers does not depend on the connection, which only gets older.\<close>

lemma middleware_timed: "\<exists>a rp' c. \<forall>io. run_middleware m req rp io = (a, rp', pass_time c io)"
proof (cases m)
  case None
  then have "run_middleware m req rp io = (Some False, rp, pass_time 0 io)" for io by (simp add: run_middleware_def)
  then show ?thesis by blast
next
  case (Some f)
  obtain c a rp' where "f req rp = (c, a, rp')" by (rule prod_cases3)
  then have "run_middleware m req rp io = (a, rp', pass_time c io)" for io by (simp add: run_middleware_def Some)
  then show ?thesis by blast
qed

lemma exception_timed: "\<exists>rp' c. \<forall>io. handle_exception sv req (rp, io) = (rp', pass_time c io)"
proof -
  obtain c rp' where "(case sv_exception_handler sv of Some f \<Rightarrow> f | None \<Rightarrow> default_exception_handler) req rp = (c, rp')"
    by (rule prod.exhaust)
  then have "handle_exception sv req (rp, io) = (rp', pass_time c io)" for io by (simp add: handle_exception_def)
  then show ?thesis by blast
qed

lemma route_timed: "\<exists>threw rp' c. \<forall>io. route_request sv req rp io = (threw, rp', pass_time c io)"
proof -
  define found where "found = find_route (sv_routes sv) (req_method req) (path req)"
  define static where "static = (if sv_mounts sv \<noteq> [] then serve_static sv req rp else None)"
  obtain c threw rp' where e: "(case found of
      Some (i, params) \<Rightarrow> sv_handlers sv i req params rp
    | None \<Rightarrow> (case static of Some rp' \<Rightarrow> (0, False, rp')
       | None \<Rightarrow> (case sv_error_handler sv of Some f \<Rightarrow> f | None \<Rightarrow> default_error_handler) req (set_status 404 rp)))
    = (c, threw, rp')" by (rule prod_cases3)
  have "route_request sv req rp io = (threw, rp', pass_time c io)" for io
    using e unfolding route_request_def found_def [symmetric] static_def [symmetric]
    by (auto split: option.splits prod.splits)
  then show ?thesis by blast
qed

lemma dispatch_timed: "\<exists>rp' c. \<forall>io. dispatch_request sv req rp io = (rp', pass_time c io)"
proof -
  obtain a rp1 c1 where pre: "\<And>io. run_middleware (sv_pre_routing sv) req rp io = (a, rp1, pass_time c1 io)"
    using middleware_timed by metis
  obtain rp2 c2 where ex1: "\<And>io. handle_exception sv req (rp1, io) = (rp2, pass_time c2 io)"
    using exception_timed by metis
  obtain threw rp3 c3 where route: "\<And>io. route_request sv req rp1 io = (threw, rp3, pass_time c3 io)"
    using route_timed by metis
  obtain rp4 c4 where ex2: "\<And>io. handle_exception sv req (rp3, io) = (rp4, pass_time c4 io)"
    using exception_timed by metis
  obtain b rp5 c5 where post: "\<And>io. run_middleware (sv_post_routing sv) req rp3 io = (b, rp5, pass_time c5 io)"
    using middleware_timed by metis
  obtain rp6 c6 where ex3: "\<And>io. handle_exception sv req (rp5, io) = (rp6, pass_time c6 io)"
    using exception_timed by metis
  have "dispatch_request sv req rp io = (case a of
      None \<Rightarrow> (rp2, pass_time (c1 + c2) io)
    | Some True \<Rightarrow> (rp1, pass_time c1 io)
    | Some False \<Rightarrow> if threw then (rp4, pass_time (c1 + c3 + c4) io)
        else (case b of None \<Rightarrow> (rp6, pass_time (c1 + c3 + c5 + c6) io) | Some _ \<Rightarrow> (rp5, pass_time (c1 + c3 + c5) io)))" for io
    by (simp add: dispatch_request_def dispatch_around_def pre ex1 route ex2 post ex3 add.assoc
        split: option.split bool.split)
  then show ?thesis by (cases a; cases "the a"; cases b; cases threw) auto
qed

text \<open>The reply to a request, and the bytes it goes out as when it is a buffered one.\<close>

definition handled :: "server \<Rightarrow> request \<Rightarrow> reply" where
  "handled sv req = fst (dispatch_request sv req (new_reply (req_version req) (req_keep_alive req)) idle_io)"

lemma dispatch_handled:
  "\<exists>c. dispatch_request sv req (new_reply (req_version req) (req_keep_alive req)) io = (handled sv req, pass_time c io)"
  using dispatch_timed [of sv req "new_reply (req_version req) (req_keep_alive req)"] by (auto simp: handled_def)

definition response_bytes :: "request \<Rightarrow> response \<Rightarrow> bytes" where
  "response_bytes req res = (case build_response_head req res False (Some (length (res_body res))) of
     Inl _ \<Rightarrow> [] | Inr out \<Rightarrow> out @ response_payload req res)"

section \<open>Writes that succeed\<close>

text \<open>The connection is open for good and takes every write at once.\<close>

definition ready :: "io \<Rightarrow> bool" where
  "ready io \<longleftrightarrow> outgoing io = [] \<and> closes_at io = None"

lemma ready_open: "ready io \<Longrightarrow> connection_open io"
  by (simp add: ready_def connection_open_def)

lemma connection_write_ready:
  "ready io \<Longrightarrow> fst (connection_write d t io) = no_error \<and> ready (snd (connection_write d t io))
     \<and> clock (snd (connection_write d t io)) = clock io"
  by (simp add: ready_def free_write)

lemma write_blocks_ready:
  "ready io \<Longrightarrow> clock io < dl \<Longrightarrow> fst (write_blocks ex frame dl data io) = no_error
     \<and> ready (snd (write_blocks ex frame dl data io))"
proof (induction ex frame dl data io rule: write_blocks.induct)
  case (1 ex frame dl data io)
  show ?case
  proof (cases "data = []")
    case True
    then show ?thesis using 1(2) by (simp add: write_blocks.simps)
  next
    case False
    define c where "c = min (length data) block_size"
    define r where "r = connection_write (frame (take c data)) (dl - clock io) io"
    have r: "fst r = no_error" "ready (snd r)" "clock (snd r) = clock io"
      using connection_write_ready [OF 1(2)] by (simp_all add: r_def)
    have "write_blocks ex frame dl data io = write_blocks ex frame dl (drop c data) (snd r)"
      using False 1(3) r(1) by (subst write_blocks.simps) (simp add: c_def r_def Let_def)
    then show ?thesis using "1.IH" [OF False _ c_def r_def] 1(3) r by simp
  qed
qed

lemma write_response_ready:
  assumes "ready io" "build_response_head req res False (Some (length (res_body res))) = Inr out"
  obtains io' where "write_response req res t io = (no_error, io')" "ready io'"
    "wire io' = wire io @ response_bytes req res" "read_side io' = read_side io"
proof -
  obtain e io' where w: "write_response req res t io = (e, io')" by (rule prod.exhaust)
  define io1 where "io1 = snd (connection_write out t io)"
  have io1: "ready io1" "clock io1 = clock io" "connection_write out t io = (no_error, io1)"
    using connection_write_ready [OF assms(1), of out t] unfolding io1_def by (metis prod.collapse)+
  have body: "fst (write_body_bytes d t io1) = no_error \<and> ready (snd (write_body_bytes d t io1))" for d
    unfolding write_body_bytes_def by (rule write_blocks_ready [OF io1(1)]) simp
  have ok: "e = no_error" "ready io'"
    using w body [of "res_body res"] io1 connection_write_ready [OF assms(1), of "out @ res_body res" t]
    by (auto simp: write_response_def write_response_head_def assms(2) Let_def split: if_splits)
  have "read_side (snd (write_response req res t io)) = read_side io"
    by (simp add: write_response_def write_response_head_def assms(2) Let_def write_body_bytes_def split_beta)
  then have "read_side io' = read_side io" by (simp add: w)
  moreover have "wire io' = wire io @ response_bytes req res"
    using write_response_wire [OF w] ok(1) by (auto simp: response_bytes_def assms(2))
  ultimately show ?thesis using that w ok by simp
qed

section \<open>One turn\<close>

text \<open>A message of a client on the wire, and the request the server makes of it.\<close>

definition client_wrote :: "server \<Rightarrow> request \<Rightarrow> bytes \<Rightarrow> bytes \<Rightarrow> bool" where
  "client_wrote sv req t w \<longleftrightarrow>
     (\<exists>timeout prog client e client'. write_request req None None t timeout prog client = (e, client')
        \<and> \<not> is_error e \<and> wire client = [] \<and> w = wire client')
     \<and> length w \<le> sv_max_header_size sv + length (req_body req)
     \<and> length (req_body req) \<le> sv_max_body_size sv \<and> length (req_body req) \<le> uint64_max
     \<and> (\<exists>rt r0. routing_target t = Inr rt \<and> route_target rt new_request = Inr r0)
     \<and> (\<exists>hv. headers_get_all (req_headers req) ''Host'' = [hv] \<and> \<not> bad_host (trim_ows hv))
     \<and> \<not> headers_contains (req_headers req) ''Expect'' \<and> \<not> headers_contains (req_headers req) ''Content-Encoding''
     \<and> find_header (req_headers req) ''Connection'' = None \<and> req_keep_alive req"

definition received_request :: "request \<Rightarrow> bytes \<Rightarrow> request" where
  "received_request req t =
     (case routing_target t of Inl _ \<Rightarrow> req | Inr rt \<Rightarrow>
       (case route_target rt new_request of Inl _ \<Rightarrow> req | Inr r0 \<Rightarrow>
          (request_seen req t r0 True)\<lparr>req_body := req_body req, req_headers := trim_fields (request_fields req)\<rparr>))"

text \<open>A request that leads to a buffered answer which keeps the connection.\<close>

definition plainly_answered :: "server \<Rightarrow> request \<Rightarrow> bool" where
  "plainly_answered sv r \<longleftrightarrow>
     find_stream_route (sv_stream_routes sv) (req_method r) (path r) = None \<and> \<not> is_websocket_upgrade r
     \<and> rp_file (handled sv r) = None \<and> rp_stream (handled sv r) = None
     \<and> res_keep_alive (rp_response (handled sv r))
     \<and> (\<exists>out. build_response_head r (rp_response (handled sv r)) False
          (Some (length (res_body (rp_response (handled sv r))))) = Inr out)"

lemma same_body_ready: "same_body io io' \<Longrightarrow> ready io' = ready io" "same_body io io' \<Longrightarrow> wire io' = wire io"
  by (simp_all add: same_body_def write_side_def ready_def wire_def)

lemma received_ready: "received_body opts p rest io io' b \<Longrightarrow> ready io' = ready io"
  "received_body opts p rest io io' b \<Longrightarrow> wire io' = wire io"
  by (simp_all add: received_body_def write_side_def ready_def wire_def)

lemma read_side_ready: "read_side io' = read_side io \<Longrightarrow> on_time T io' = on_time T io"
  "read_side io' = read_side io \<Longrightarrow> buffer io' @ arriving T (incoming io') = buffer io @ arriving T (incoming io)"
  by (simp_all add: read_side_def on_time_def)

lemma plain_options_quiet: "quiet (plain_read_options sv t d)" "willing (plain_read_options sv t d)"
  "collects (plain_read_options sv t d)" "auto_decompress (plain_read_options sv t d) = d"
  "read_timeout (plain_read_options sv t d) = t" "max_header_size (plain_read_options sv t d) = sv_max_header_size sv"
  "max_body_size (plain_read_options sv t d) = sv_max_body_size sv"
  by (simp_all add: plain_read_options_def quiet_def willing_def collects_def)

lemma serve_turn_answers:
  assumes sent: "client_wrote sv req t w" and answered: "plainly_answered sv (received_request req t)"
    and server: "sv_stops_at sv = None" "n + 1 < sv_keep_alive_max_requests sv" "T \<le> sv_request_timeout sv" "T \<le> sv_keep_alive_timeout sv"
    and io: "on_time T io" "ready io" "buffer io @ arriving T (incoming io) = w @ rest"
  obtains io' where "serve_turn sv n io = Replied (received_request req t) (handled sv (received_request req t)) True io'"
    "on_time T io'" "ready io'" "buffer io' @ arriving T (incoming io') = rest"
    "wire io' = wire io @ response_bytes (received_request req t) (rp_response (handled sv (received_request req t)))"
proof -
  define timeout where "timeout = (if n = 0 then sv_request_timeout sv else sv_keep_alive_timeout sv)"
  define r where "r = received_request req t"
  let ?opts = "plain_read_options sv timeout False" and ?opts2 = "plain_read_options sv (sv_request_timeout sv) (sv_auto_decompress sv)"
  let ?st = "\<lparr>bs_headers = trim_fields (request_fields req), bs_length = Some (length (req_body req)), bs_chunked = False,
       bs_expect = False, continue_sent = False\<rparr>"
  have T: "T \<le> timeout" using server by (simp add: timeout_def)
  obtain to prog client e client' where w: "write_request req None None t to prog client = (e, client')" "\<not> is_error e"
      "wire client = []" "w = wire client'"
    and fits: "length (wire client') \<le> sv_max_header_size sv + length (req_body req)"
      "length (req_body req) \<le> sv_max_body_size sv" "length (req_body req) \<le> uint64_max"
    using sent unfolding client_wrote_def by blast
  obtain rt r0 hv where route: "routing_target t = Inr rt" "route_target rt new_request = Inr r0"
    and host: "headers_get_all (req_headers req) ''Host'' = [hv]" "\<not> bad_host (trim_ows hv)"
    and fields: "\<not> headers_contains (req_headers req) ''Expect''" "find_header (req_headers req) ''Connection'' = None"
      "req_keep_alive req" "\<not> headers_contains (req_headers req) ''Content-Encoding''"
    using sent unfolding client_wrote_def by blast
  have arrive: "stream ?opts io = wire client' @ rest"
    using stream_on_time [OF io(1), of ?opts] io(3) T w(4) by (simp add: plain_options_quiet)
  have lim: "length (wire client') \<le> max_header_size ?opts + length (req_body req)"
    using fits(1) by (simp add: plain_options_quiet)
  from request_head_read [OF w(1-3) plain_options_quiet(1) arrive lim fits(3) route host fields(1)] obtain keep io1 where
    "read_request_head ?opts False io = (Inr (request_seen req t r0 keep, ?st), io1)"
    "stream ?opts io1 = req_body req @ rest" and same: "same_body io io1"
    and "find_header (req_headers req) ''Connection'' = None \<longrightarrow> keep = req_keep_alive req"
    by (elim exE conjE) (rule that)
  then have head: "read_request_head ?opts False io = (Inr (request_seen req t r0 True, ?st), io1)"
    and left: "stream ?opts io1 = req_body req @ rest" using fields by simp_all
  have t1: "on_time T io1" using read_request_head_on_time [OF io(1), of ?opts False] by (simp add: head)
  have left2: "stream ?opts2 io1 = req_body req @ rest"
    using left stream_on_time [OF t1, of ?opts] stream_on_time [OF t1, of ?opts2] T server by (simp add: plain_options_quiet)
  have r: "r = (request_seen req t r0 True)\<lparr>req_body := req_body req, req_headers := trim_fields (request_fields req)\<rparr>"
    by (simp add: r_def received_request_def route)
  have "\<exists>io2. (if has_body ?st then read_request_body ?opts2 ?st io1 else (Inr (req_body (request_seen req t r0 True)), ?st, io1))
      = (Inr (req_body req), ?st, io2) \<and> on_time T io2 \<and> ready io2 \<and> wire io2 = wire io
      \<and> buffer io2 @ arriving T (incoming io2) = rest"
  proof (cases "req_body req = []")
    case True
    then show ?thesis
      using t1 left2 stream_on_time [OF t1, of ?opts2] same_body_ready [OF same] io(2) server
      by (simp add: has_body_def request_seen_def new_request_def plain_options_quiet)
  next
    case False
    have "\<not> list_ex (iequals ''Content-Encoding'') [''Content-Length'', ''Transfer-Encoding'', ''Connection'', ''User-Agent'']"
      by (simp add: iequals_def)
    from request_fields_kept [OF this, of req] fields(4)
    have "find_header (trim_fields (request_fields req)) ''Content-Encoding'' = None"
      by (simp add: find_header_get_all get_all_trim split: list.splits flip: find_header_None)
    then have "wants_decoding ?opts2 (bs_headers ?st) = None" by (simp add: wants_decoding_def)
    then have "\<exists>b io2. read_request_body ?opts2 ?st io1 = (Inr b, ?st, io2) \<and> received_body ?opts2 (req_body req) rest io1 io2 b"
      by (intro request_body_read [OF plain_options_quiet(1,2) _ _ _ _ left2])
        (use server fits in \<open>simp_all add: plain_options_quiet\<close>)
    then obtain b io2 where b: "read_request_body ?opts2 ?st io1 = (Inr b, ?st, io2)"
      "received_body ?opts2 (req_body req) rest io1 io2 b" by blast
    have t2: "on_time T io2" using read_request_body_on_time [OF t1, of ?st ?opts2] by (simp add: b(1))
    have "b = req_body req" "stream ?opts2 io2 = rest" using b(2) by (simp_all add: received_body_def plain_options_quiet)
    then show ?thesis
      using b False t2 stream_on_time [OF t2, of ?opts2] received_ready [OF b(2)] same_body_ready [OF same] io(2) server
      by (simp add: has_body_def plain_options_quiet)
  qed
  then obtain io2 where body: "(if has_body ?st then read_request_body ?opts2 ?st io1
        else (Inr (req_body (request_seen req t r0 True)), ?st, io1)) = (Inr (req_body req), ?st, io2)"
    and io2: "on_time T io2" "ready io2" "wire io2 = wire io" "buffer io2 @ arriving T (incoming io2) = rest" by blast
  obtain c where disp: "dispatch_request sv r (new_reply (req_version r) (req_keep_alive r)) io2 = (handled sv r, pass_time c io2)"
    using dispatch_handled by blast
  obtain out where out: "build_response_head r (rp_response (handled sv r)) False
      (Some (length (res_body (rp_response (handled sv r))))) = Inr out"
    and plain: "find_stream_route (sv_stream_routes sv) (req_method r) (path r) = None" "\<not> is_websocket_upgrade r"
      "rp_file (handled sv r) = None" "rp_stream (handled sv r) = None" "res_keep_alive (rp_response (handled sv r))"
    using answered unfolding plainly_answered_def r_def by blast
  have ready: "ready (pass_time c io2)" using io2(2) by (simp add: ready_def)
  from write_response_ready [OF this out, of "sv_request_timeout sv"] obtain io3 where
    w3: "write_response r (rp_response (handled sv r)) (sv_request_timeout sv) (pass_time c io2) = (no_error, io3)"
    and io3: "ready io3" "wire io3 = wire (pass_time c io2) @ response_bytes r (rp_response (handled sv r))"
      "read_side io3 = read_side (pass_time c io2)" by blast
  have keep: "req_keep_alive r" by (simp add: r request_seen_def)
  have "answer_turn sv n r True (handled sv r) (pass_time c io2) = Replied r (handled sv r) True io3"
    using server plain keep
    by (simp add: answer_turn_def stopping_def send_response_def send_buffered_def w3 Let_def no_error_def is_error_def)
  moreover have "serve_turn sv n io = plain_turn sv n (request_seen req t r0 True) ?st io1"
    using plain(1) unfolding r
    by (simp add: serve_turn_def Let_def flip: timeout_def) (simp add: head)
  moreover have "plain_turn sv n (request_seen req t r0 True) ?st io1 = answer_turn sv n r True (handled sv r) (pass_time c io2)"
    using plain(2) ready_open [OF ready]
    by (simp only: plain_turn_def body) (simp add: disp flip: r)
  ultimately have "serve_turn sv n io = Replied r (handled sv r) True io3" by simp
  moreover have "on_time T io3" "buffer io3 @ arriving T (incoming io3) = rest"
    using read_side_ready [OF io3(3), of T] io2 by (simp_all add: on_time_def)
  ultimately show ?thesis using that io3 io2(3) unfolding r_def by simp
qed

section \<open>The loop\<close>

lemma serve_loop_step:
  assumes "connection_open io" "n < sv_keep_alive_max_requests sv" "\<not> stopping sv io"
  shows "serve_loop sv n io = (case serve_turn sv n io of
      Hang_up io1 \<Rightarrow> ([], connection_close io1)
    | Upgraded io1 \<Rightarrow> ([], io1)
    | Replied req rp again io1 \<Rightarrow>
        if again then (case serve_loop sv (n + 1) io1 of (log, io2) \<Rightarrow> ((req, rp) # log, io2))
        else ([(req, rp)], connection_close io1))"
  using assms by (subst serve_loop.simps) simp

lemma serve_loop_stop:
  "\<not> (connection_open io \<and> n < sv_keep_alive_max_requests sv \<and> \<not> stopping sv io) \<Longrightarrow>
     serve_loop sv n io = ([], connection_close io)"
  by (subst serve_loop.simps) auto

lemma connection_close_closed: "\<not> connection_open (connection_close io)"
  by (simp add: connection_close_def connection_open_def split: option.split)

definition is_upgraded :: "turn \<Rightarrow> bool" where
  "is_upgraded t = (case t of Upgraded _ \<Rightarrow> True | _ \<Rightarrow> False)"

lemma serve_turn_upgrade: "sv_ws_routes sv = [] \<Longrightarrow> \<not> is_upgraded (serve_turn sv n io)"
proof -
  assume none: "sv_ws_routes sv = []"
  have stay: "\<not> is_upgraded (Hang_up io)" "\<not> is_upgraded (Replied req rp again io)" for io req rp again
    by (simp_all add: is_upgraded_def)
  have answer: "\<not> is_upgraded (answer_turn sv k req complete rp io)" for k req complete rp io
    by (simp add: answer_turn_def Let_def stay split: prod.split)
  have streamed: "\<not> is_upgraded (stream_turn sv k i params req st io)" for k i params req st io
    unfolding stream_turn_def Let_def by (auto simp: stay answer split: prod.split)
  have ws: "\<not> is_upgraded (websocket_turn sv req io)" for req io
    by (simp add: websocket_turn_def none stay default_error_handler_def)
  have plain: "\<not> is_upgraded (plain_turn sv k req st io)" for k req st io
    unfolding plain_turn_def Let_def by (auto simp: stay answer ws split: sum.split prod.split)
  show ?thesis
    unfolding serve_turn_def Let_def by (auto simp: stay streamed plain split: sum.split prod.split option.split)
qed

lemma serve_loop_bounds:
  "length (fst (serve_loop sv n io)) \<le> sv_keep_alive_max_requests sv - n
     \<and> (sv_ws_routes sv = [] \<longrightarrow> \<not> connection_open (snd (serve_loop sv n io)))"
proof (induction sv n io rule: serve_loop.induct)
  case (1 sv n io)
  show ?case
  proof (cases "connection_open io \<and> n < sv_keep_alive_max_requests sv \<and> \<not> stopping sv io")
    case go: True
    then have step: "serve_loop sv n io = (case serve_turn sv n io of
      Hang_up io1 \<Rightarrow> ([], connection_close io1)
    | Upgraded io1 \<Rightarrow> ([], io1)
    | Replied req rp again io1 \<Rightarrow>
        if again then (case serve_loop sv (n + 1) io1 of (log, io2) \<Rightarrow> ((req, rp) # log, io2))
        else ([(req, rp)], connection_close io1))"
      by (intro serve_loop_step) simp_all
    show ?thesis
    proof (cases "serve_turn sv n io")
      case (Hang_up io1)
      then show ?thesis using step connection_close_closed by simp
    next
      case (Upgraded io1)
      then have "sv_ws_routes sv \<noteq> []" using serve_turn_upgrade [of sv n io] by (auto simp: is_upgraded_def)
      then show ?thesis using step Upgraded by simp
    next
      case (Replied req rp again io1)
      then show ?thesis using step go connection_close_closed "1.IH" [OF _ Replied]
        by (cases again) (auto simp: split_beta)
    qed
  qed (simp add: serve_loop_stop connection_close_closed)
qed

lemma serve_loop_answers:
  assumes server: "sv_stops_at sv = None" "T \<le> sv_request_timeout sv" "T \<le> sv_keep_alive_timeout sv"
    and messages: "\<forall>(req, t, w) \<in> set ms. client_wrote sv req t w \<and> plainly_answered sv (received_request req t)"
    and io: "on_time T io" "ready io" "buffer io @ arriving T (incoming io) = concat (map (\<lambda>(req, t, w). w) ms) @ rest"
    and count: "n + length ms < sv_keep_alive_max_requests sv"
  shows "\<exists>io'. serve_loop sv n io = (let (log, io2) = serve_loop sv (n + length ms) io'
      in (map (\<lambda>(req, t, w). (received_request req t, handled sv (received_request req t))) ms @ log, io2))
    \<and> buffer io' @ arriving T (incoming io') = rest
    \<and> wire io' = wire io @ concat (map (\<lambda>(req, t, w).
        response_bytes (received_request req t) (rp_response (handled sv (received_request req t)))) ms)"
  using messages io count
proof (induction ms arbitrary: n io)
  case Nil
  then show ?case by (intro exI [of _ io]) simp
next
  case (Cons m ms)
  obtain req t w where m: "m = (req, t, w)" by (rule prod_cases3)
  have "client_wrote sv req t w" "plainly_answered sv (received_request req t)" using Cons.prems(1) by (simp_all add: m)
  moreover have "n + 1 < sv_keep_alive_max_requests sv" using Cons.prems(5) by simp
  moreover have "buffer io @ arriving T (incoming io) = w @ concat (map (\<lambda>(req, t, w). w) ms) @ rest"
    using Cons.prems(4) by (simp add: m)
  ultimately obtain io1 where turn: "serve_turn sv n io = Replied (received_request req t)
      (handled sv (received_request req t)) True io1"
    and io1: "on_time T io1" "ready io1" "buffer io1 @ arriving T (incoming io1) = concat (map (\<lambda>(req, t, w). w) ms) @ rest"
      "wire io1 = wire io @ response_bytes (received_request req t) (rp_response (handled sv (received_request req t)))"
    using serve_turn_answers server Cons.prems(2,3) by metis
  have "\<forall>(req, t, w) \<in> set ms. client_wrote sv req t w \<and> plainly_answered sv (received_request req t)"
    "Suc n + length ms < sv_keep_alive_max_requests sv" using Cons.prems(1,5) by simp_all
  from Cons.IH [OF this(1) io1(1-3) this(2)] obtain io' where
    ih: "serve_loop sv (Suc n) io1 = (let (log, io2) = serve_loop sv (Suc n + length ms) io'
      in (map (\<lambda>(req, t, w). (received_request req t, handled sv (received_request req t))) ms @ log, io2))"
    "buffer io' @ arriving T (incoming io') = rest"
    "wire io' = wire io1 @ concat (map (\<lambda>(req, t, w).
        response_bytes (received_request req t) (rp_response (handled sv (received_request req t)))) ms)" by blast
  have "serve_loop sv n io = (case serve_loop sv (n + 1) io1 of
      (log, io2) \<Rightarrow> ((received_request req t, handled sv (received_request req t)) # log, io2))"
    using serve_loop_step [of io n sv] Cons.prems(3,5) server(1) ready_open
    by (simp add: turn stopping_def)
  then show ?case using ih io1(4) by (intro exI [of _ io']) (simp add: m case_prod_unfold Let_def)
qed

section \<open>Connections that are used again\<close>

lemma chunk_sink_write_read_side [simp]: "read_side (snd (snd (chunk_sink_write d sk io))) = read_side io"
  by (simp add: chunk_sink_write_def split_beta)

lemma run_stream_read_side [simp]: "read_side (snd (snd (run_stream p sk io))) = read_side io"
  by (induction p arbitrary: sk io) (simp_all add: split_beta)

lemma send_blocks_step:
  assumes "remaining \<noteq> 0" "connection_open io" "n = min remaining file_block"
    and "file_read fs file offset n = Some chunk" "length chunk = n" "connection_write chunk t io = (e, io1)"
  shows "send_blocks fs file t offset remaining io =
    (if is_error e then (e, io1) else send_blocks fs file t (offset + n) (remaining - n) io1)"
  using assms by (subst send_blocks.simps) (simp add: Let_def)

lemma send_blocks_stop:
  assumes "\<not> (remaining \<noteq> 0 \<and> connection_open io
    \<and> (\<exists>chunk. file_read fs file offset (min remaining file_block) = Some chunk \<and> length chunk = min remaining file_block))"
  shows "snd (send_blocks fs file t offset remaining io) = io
    \<and> (is_error (fst (send_blocks fs file t offset remaining io)) \<or> remaining = 0)"
  using assms by (subst (1 2) send_blocks.simps) (auto simp: Let_def split: option.split)

lemma send_blocks_read_side [simp]: "read_side (snd (send_blocks fs file t offset remaining io)) = read_side io"
proof (induction fs "file" t offset remaining io rule: send_blocks.induct)
  case (1 fs fl t offset remaining io)
  show ?case
  proof (cases "remaining \<noteq> 0 \<and> connection_open io
      \<and> (\<exists>chunk. file_read fs fl offset (min remaining file_block) = Some chunk \<and> length chunk = min remaining file_block)")
    case True
    then obtain chunk where chunk: "file_read fs fl offset (min remaining file_block) = Some chunk"
      "length chunk = min remaining file_block" by blast
    obtain e io1 where w: "connection_write chunk t io = (e, io1)" by (rule prod.exhaust)
    have "read_side io1 = read_side io" using connection_write_read_side [of chunk t io] by (simp add: w)
    then show ?thesis
      using True "1.IH" [OF _ _ refl chunk(1) _ w [symmetric]] chunk(2)
      by (simp add: send_blocks_step [OF _ _ refl chunk w])
  next
    case False
    then show ?thesis using send_blocks_stop by metis
  qed
qed

lemma write_response_head_read_side [simp]: "read_side (snd (write_response_head req res c l t io)) = read_side io"
  by (simp add: write_response_head_def split: sum.split)

lemma write_response_read_side [simp]: "read_side (snd (write_response req res t io)) = read_side io"
  by (simp add: write_response_def Let_def write_body_bytes_def split_beta split: sum.split)

lemma send_buffered_read_side [simp]: "read_side (snd (snd (send_buffered sv req rp io))) = read_side io"
  by (simp add: send_buffered_def split_beta)

lemma send_part_read_side [simp]: "read_side (snd (snd (send_part sv req file rp offset len io))) = read_side io"
  by (simp add: send_part_def split_beta)

lemma send_response_read_side [simp]: "read_side (snd (snd (send_response sv req rp io))) = read_side io"
  by (simp add: send_response_def send_stream_def send_file_def write_last_chunk_def Let_def split_beta split: option.split)

text \<open>The message whose head left \<open>st\<close> and the connection \<open>io1\<close> is read to its end in \<open>io\<close>.\<close>

definition no_body :: "request_body_state \<Rightarrow> bool" where
  "no_body st \<longleftrightarrow> \<not> bs_chunked st \<and> (case bs_length st of None \<Rightarrow> True | Some n \<Rightarrow> n = 0)"

definition message_read :: "request_body_state \<Rightarrow> io \<Rightarrow> io \<Rightarrow> bool" where
  "message_read st io1 io \<longleftrightarrow> no_body st \<and> read_side io = read_side io1
     \<or> (\<exists>opts ioa b st' iob. read_side ioa = read_side io1 \<and> read_request_body opts st ioa = (Inr b, st', iob)
          \<and> read_side io = read_side iob)"

lemma message_read_side: "read_side io' = read_side io \<Longrightarrow> message_read st io1 io' = message_read st io1 io"
  by (simp add: message_read_def)

text \<open>The invariant of a streamed body while its handler runs.\<close>

definition source_ok :: "request_body_state \<Rightarrow> io \<Rightarrow> body_source \<Rightarrow> io \<Rightarrow> bool" where
  "source_ok st io1 src io \<longleftrightarrow> src_cancelled src \<and> \<not> connection_open io
     \<or> \<not> src_consumed src \<and> src_state src = st \<and> read_side io = read_side io1 \<and> (src_complete src \<longrightarrow> no_body st)
     \<or> src_consumed src \<and> (src_complete src \<longrightarrow> message_read st io1 io)"

lemma closed_later: "\<not> connection_open io \<Longrightarrow> \<not> connection_open (pass_time t io)"
  by (auto simp: connection_open_def pass_time_def split: option.splits)

lemma source_ok_pass_time: "source_ok st io1 src io \<Longrightarrow> source_ok st io1 src (pass_time t io)"
  using closed_later message_read_side [of "pass_time t io" io] by (auto simp: source_ok_def)

lemma source_ok_consume:
  assumes ok: "source_ok st io1 src io" and eq: "consume f src io = (e, src', io')"
  shows "source_ok st io1 src' io'"
proof -
  let ?long = "case bs_length (src_state src) of None \<Rightarrow> False | Some n \<Rightarrow> n > max_body_size (src_options src)"
  consider "src_consumed src" | "\<not> src_consumed src" "src_complete src \<or> src_cancelled src \<or> ?long"
    | "\<not> src_consumed src" "\<not> src_complete src" "\<not> src_cancelled src" "\<not> ?long" by blast
  then show ?thesis
  proof cases
    case 1
    then show ?thesis using ok eq by (auto simp: consume_def)
  next
    case 2
    then have "io' = io" "src_complete src' = src_complete src" "src_consumed src'" "src_cancelled src' = src_cancelled src"
      using eq by (auto simp: consume_def Let_def split: if_splits option.splits)
    then show ?thesis using ok 2(1) by (auto simp: source_ok_def message_read_def)
  next
    case 3
    define opts where "opts = (src_options src)\<lparr>cancelled := Some (\<lambda>_. False), on_data_async := Some f\<rparr>"
    obtain r st' io2 where r: "read_request_body opts (src_state src) io = (r, st', io2)" by (rule prod_cases3)
    have "consume f src io = (case read_request_body opts (src_state src) io of
                (Inl e, st, io1) \<Rightarrow> (e, src\<lparr>src_consumed := True, src_state := st, src_error := e\<rparr>, io1)
              | (Inr _, st, io1) \<Rightarrow>
                  (no_error, src\<lparr>src_consumed := True, src_state := st, src_complete := True,
                     src_request := (src_request src)\<lparr>req_headers := bs_headers st\<rparr>\<rparr>, io1))"
      using 3 by (cases "bs_length (src_state src)")
        (simp_all add: consume_def Let_def opts_def split: sum.split prod.split)
    then have "io' = io2" "src_consumed src'" "src_complete src' \<longrightarrow> (\<exists>b. r = Inr b)"
      using eq 3(2) r by (auto split: sum.splits)
    moreover have "src_state src = st" "read_side io = read_side io1" using ok 3(1,3) by (simp_all add: source_ok_def)
    ultimately show ?thesis using r unfolding source_ok_def message_read_def by blast
  qed
qed

lemma source_ok_run: "source_ok st io1 src io \<Longrightarrow> run_body_user u src io = (src', threw, rp, io') \<Longrightarrow> source_ok st io1 src' io'"
proof (induction u arbitrary: src io)
  case (Consume f k)
  obtain e src2 io2 where c: "consume f src io = (e, src2, io2)" by (rule prod_cases3)
  show ?case using Consume.IH [OF rangeI source_ok_consume [OF Consume.prems(1) c]] Consume.prems(2) by (simp add: c)
next
  case (Cancel_body u)
  have "source_ok st io1 (src\<lparr>src_cancelled := True\<rparr>) (connection_close io)"
    using connection_close_closed by (simp add: source_ok_def)
  then show ?case using Cancel_body by (simp add: cancel_source_def)
next
  case (Work t u)
  show ?case using Work.IH [OF source_ok_pass_time [OF Work.prems(1)]] Work.prems(2) by simp
qed simp

lemma source_ok_new: "source_ok st io (new_source st opts req) io"
  by (simp add: source_ok_def new_source_def no_body_def)

lemma dispatch_around_keeps:
  assumes "P b io" "\<And>b io t. P b io \<Longrightarrow> P b (pass_time t io)"
    and "\<And>b rp io b' threw rp' io'. P b io \<Longrightarrow> inner b rp io = (b', threw, rp', io') \<Longrightarrow> P b' io'"
    and "dispatch_around sv seen inner b rp io = (b', rp', io')"
  shows "P b' io'"
proof -
  have ex: "P b2 io2 \<Longrightarrow> handle_exception sv req (rp2, io2) = (rp3, io3) \<Longrightarrow> P b2 io3" for b2 req rp2 io2 rp3 io3
    using assms(2) by (auto simp: handle_exception_def split: prod.splits)
  have mid: "P b2 io2 \<Longrightarrow> run_middleware m req rp2 io2 = (a, rp3, io3) \<Longrightarrow> P b2 io3" for b2 m req rp2 io2 a rp3 io3
    using assms(2) by (auto simp: run_middleware_def split: prod.splits option.splits)
  obtain a rp1 io1 where pre: "run_middleware (sv_pre_routing sv) (seen b) rp io = (a, rp1, io1)" by (rule prod_cases3)
  have p1: "P b io1" by (rule mid [OF assms(1) pre])
  consider "a = None" | "a = Some True" | "a = Some False" by (cases a) auto
  then show ?thesis
  proof cases
    case 3
    obtain b2 threw rp2 io2 where i: "inner b rp1 io1 = (b2, threw, rp2, io2)" by (metis prod_cases4)
    have p2: "P b2 io2" by (rule assms(3) [OF p1 i])
    obtain a3 rp3 io3 where post: "run_middleware (sv_post_routing sv) (seen b2) rp2 io2 = (a3, rp3, io3)" by (rule prod_cases3)
    have p3: "P b2 io3" by (rule mid [OF p2 post])
    show ?thesis
      using assms(4) p3 ex [OF p2] ex [OF p3] by (cases threw; cases a3) (auto simp: dispatch_around_def pre 3 i post)
  qed (use assms(4) p1 ex [OF p1] in \<open>auto simp: dispatch_around_def pre\<close>)
qed

lemma answer_turn_read:
  assumes "answer_turn sv n req complete rp io = Replied req' rp' True io'"
  shows "complete \<and> read_side io' = read_side io"
proof -
  define rp1 where "rp1 = (if complete then rp else set_keep_alive False rp)"
  define rp2 where "rp2 = (if n + 1 \<ge> sv_keep_alive_max_requests sv \<or> stopping sv io then set_keep_alive False rp1 else rp1)"
  obtain e rp3 io1 where s: "send_response sv req rp2 io = (e, rp3, io1)" by (rule prod_cases3)
  have "read_side io1 = read_side io" using send_response_read_side [of sv req rp2 io] by (simp add: s)
  then show ?thesis
    using assms unfolding answer_turn_def Let_def rp1_def [symmetric] rp2_def [symmetric] s by auto
qed

lemma plain_turn_read:
  assumes "plain_turn sv n req st io = Replied req' rp True io'" shows "message_read st io io'"
proof -
  define opts where "opts = plain_read_options sv (sv_request_timeout sv) (sv_auto_decompress sv)"
  obtain r st1 io1 where b: "(if has_body st then read_request_body opts st io else (Inr (req_body req), st, io))
      = (r, st1, io1)" by (rule prod_cases3)
  note turn = assms [unfolded plain_turn_def opts_def [symmetric] b prod.case Let_def]
  obtain x where x: "r = Inr x" using turn by (cases r) auto
  have upgrade: "\<not> is_websocket_upgrade (req\<lparr>req_body := x, req_headers := bs_headers st1\<rparr>)"
    using turn unfolding x by (auto simp: websocket_turn_def default_error_handler_def split: if_splits option.splits prod.splits)
  define req1 where "req1 = req\<lparr>req_body := x, req_headers := bs_headers st1\<rparr>"
  obtain c where d: "dispatch_request sv req1 (new_reply (req_version req1) (req_keep_alive req1)) io1
      = (handled sv req1, pass_time c io1)" using dispatch_handled by blast
  have "answer_turn sv n req1 True (handled sv req1) (pass_time c io1) = Replied req' rp True io'"
    using turn upgrade unfolding x sum.case req1_def [symmetric] d by (auto split: if_splits)
  then have side: "read_side io' = read_side io1" using answer_turn_read by fastforce
  show ?thesis
  proof (cases "has_body st")
    case True
    then have "read_request_body opts st io = (Inr x, st1, io1)" using b x by simp
    then show ?thesis using side unfolding message_read_def by blast
  next
    case False
    then have "no_body st" "io1 = io" using b by (auto simp: has_body_def no_body_def split: option.splits)
    then show ?thesis using side by (simp add: message_read_def)
  qed
qed

lemma stream_turn_read:
  assumes "stream_turn sv n i params req st io = Replied req' rp True io'" shows "message_read st io io'"
proof -
  define src where "src = new_source st (stream_read_options sv i io) (req\<lparr>req_headers := bs_headers st\<rparr>)"
  obtain src1 rp1 io1 where d: "dispatch_stream sv i params src (new_reply (req_version (req\<lparr>req_headers := bs_headers st\<rparr>))
      (req_keep_alive (req\<lparr>req_headers := bs_headers st\<rparr>))) io = (src1, rp1, io1)" by (rule prod_cases3)
  note turn = assms [unfolded stream_turn_def Let_def src_def [symmetric] d prod.case]
  have "source_ok st io src io" unfolding src_def by (rule source_ok_new)
  then have ok: "source_ok st io src1 io1"
    by (rule dispatch_around_keeps [where P = "source_ok st io", OF _ source_ok_pass_time source_ok_run
          d [unfolded dispatch_stream_def]])
  have alive: "connection_open io1" using turn by (auto split: if_splits)
  obtain req2 rp2 where "answer_turn sv n req2 (src_complete src1) rp2 io1 = Replied req' rp True io'"
    using turn alive by (auto split: if_splits)
  from answer_turn_read [OF this] have "src_complete src1" "read_side io' = read_side io1" by simp_all
  then show ?thesis using ok alive by (auto simp: source_ok_def message_read_def)
qed

section \<open>Files and streams\<close>

text \<open>What the file system says of a file with a given content.\<close>

definition file_has :: "filesystem \<Rightarrow> bytes \<Rightarrow> bytes \<Rightarrow> bool" where
  "file_has fs file content \<longleftrightarrow> file_size fs file = Some (length content)
     \<and> (\<forall>offset n. offset + n \<le> length content \<longrightarrow> file_read fs file offset n = Some (take n (drop offset content)))"

lemma send_blocks_wire:
  "file_has fs file content \<Longrightarrow> offset + remaining \<le> length content \<Longrightarrow>
     send_blocks fs file t offset remaining io = (e, io') \<Longrightarrow> \<not> is_error e \<Longrightarrow>
     wire io' = wire io @ take remaining (drop offset content)"
proof (induction fs "file" t offset remaining io rule: send_blocks.induct)
  case (1 fs fl t offset remaining io)
  define n where "n = min remaining file_block"
  define chunk where "chunk = take n (drop offset content)"
  have r: "file_read fs fl offset n = Some chunk" "length chunk = n"
    using "1.prems"(1,2) by (auto simp: file_has_def chunk_def n_def)
  show ?case
  proof (cases "remaining \<noteq> 0 \<and> connection_open io")
    case True
    obtain e1 io1 where w: "connection_write chunk t io = (e1, io1)" by (rule prod.exhaust)
    note step = send_blocks_step [OF True [THEN conjunct1] True [THEN conjunct2] n_def r w]
    have ok: "\<not> is_error e1" using step "1.prems"(3,4) by (auto split: if_splits)
    then have "send_blocks fs fl t (offset + n) (remaining - n) io1 = (e, io')" using step "1.prems"(3) by simp
    moreover have "offset + n + (remaining - n) \<le> length content" using "1.prems"(2) by (simp add: n_def)
    ultimately have "wire io' = wire io1 @ take (remaining - n) (drop (offset + n) content)"
      using "1.IH" [OF _ _ n_def r(1) _ w [symmetric] ok "1.prems"(1)] True r(2) "1.prems"(4) by simp
    moreover have "wire io1 = wire io @ chunk" by (rule connection_write_wire [OF w ok])
    moreover have "take remaining (drop offset content) = chunk @ take (remaining - n) (drop (offset + n) content)"
      using take_add [of n "remaining - n" "drop offset content"] by (simp add: chunk_def n_def add.commute)
    ultimately show ?thesis by simp
  next
    case False
    then have "io' = io" "remaining = 0"
      using send_blocks_stop [of remaining io fs fl offset t] "1.prems"(3,4) by auto
    then show ?thesis by simp
  qed
qed

lemma write_response_head_wire:
  assumes "write_response_head req res c l t io = (e, io')" "\<not> is_error e"
  shows "\<exists>out. build_response_head req res c l = Inr out \<and> wire io' = wire io @ out"
proof (cases "build_response_head req res c l")
  case (Inl err)
  then have "is_error err" by (auto simp: build_response_head_def serialize_head_def split_beta Let_def split: if_splits)
  then show ?thesis using assms Inl by (simp add: write_response_head_def)
next
  case (Inr out)
  then show ?thesis using assms connection_write_wire by (simp add: write_response_head_def)
qed

lemma send_part_wire:
  assumes "send_part sv req file rp offset len io = (e, rp', io')" "\<not> is_error e" "file_has (sv_files sv) file content"
    "offset + len \<le> length content" "\<not> iequals (req_method req) ''HEAD''" "\<not> status_has_no_body (status (rp_response rp))"
  shows "rp' = rp \<and> (\<exists>out. build_response_head req (rp_response rp) False (Some len) = Inr out
    \<and> wire io' = wire io @ out @ take len (drop offset content))"
proof -
  obtain e1 io1 where h: "write_response_head req (rp_response rp) False (Some len) (sv_request_timeout sv) io = (e1, io1)"
    by (rule prod.exhaust)
  have ok: "\<not> is_error e1" using assms(1,2) by (auto simp: send_part_def h split: if_splits)
  obtain out where out: "build_response_head req (rp_response rp) False (Some len) = Inr out" "wire io1 = wire io @ out"
    using write_response_head_wire [OF h ok] by blast
  show ?thesis
  proof (cases "len = 0")
    case True
    then show ?thesis using assms(1) out h by (auto simp: send_part_def)
  next
    case False
    obtain e2 io2 where b: "send_blocks (sv_files sv) file (sv_request_timeout sv) offset len io1 = (e2, io2)" by (rule prod.exhaust)
    have "rp' = rp" "e = e2" "io' = io2" using assms(1,5,6) False ok by (simp_all add: send_part_def h b)
    then show ?thesis using send_blocks_wire [OF assms(3,4) b] assms(2) out by simp
  qed
qed

lemma connection_write_later: "clock io \<le> clock (snd (connection_write d t io))"
  by (simp add: connection_write_def split: list.split)

lemma write_blocks_later: "clock io \<le> clock (snd (write_blocks ex frame dl data io))"
proof (induction ex frame dl data io rule: write_blocks.induct)
  case (1 ex frame dl data io)
  show ?case
  proof (cases "data = [] \<or> dl \<le> clock io")
    case True
    then show ?thesis by (auto simp: write_blocks.simps [of ex frame dl data io])
  next
    case False
    define c where "c = min (length data) block_size"
    define r where "r = connection_write (frame (take c data)) (dl - clock io) io"
    have step: "write_blocks ex frame dl data io =
        (if is_error (fst r) then r else write_blocks ex frame dl (drop c data) (snd r))"
      using False by (subst write_blocks.simps) (simp add: c_def r_def Let_def)
    have "clock io \<le> clock (snd r)" using connection_write_later by (simp add: r_def)
    then show ?thesis using step "1.IH" [OF _ _ c_def r_def] False order.trans by (cases "is_error (fst r)") auto
  qed
qed

lemma chunk_sink_write_later: "clock io \<le> clock (snd (snd (chunk_sink_write d sk io)))"
  using connection_write_later write_blocks_later
  by (simp add: chunk_sink_write_def write_chunk_def write_chunk_blocks_def split_beta)

lemma run_stream_later:
  "clock io \<le> clock (snd (snd (run_stream p sk io))) \<and> (cs_open (fst (snd (run_stream p sk io))) \<longrightarrow> cs_open sk)
     \<and> cs_chunked (fst (snd (run_stream p sk io))) = cs_chunked sk"
proof (induction p arbitrary: sk io)
  case (Pause t p)
  show ?case using Pause [where sk = sk and io = "pass_time t io"] by (simp add: pass_time_def)
next
  case (Write d k)
  obtain ok sk1 io1 where w: "chunk_sink_write d sk io = (ok, sk1, io1)" by (rule prod_cases3)
  have "clock io \<le> clock io1" using chunk_sink_write_later [of io d sk] by (simp add: w)
  moreover have "cs_open sk1 \<longrightarrow> cs_open sk" "cs_chunked sk1 = cs_chunked sk"
    using w by (auto simp: chunk_sink_write_def split: if_splits prod.splits)
  moreover note Write [OF rangeI, where sk = sk1 and io = io1]
  ultimately show ?case using w order.trans by fastforce
next
  case (Flush k)
  show ?case using Flush [OF rangeI, where sk = sk and io = io] by simp
qed simp_all

lemma open_before: "chunk_sink_open sk io' \<Longrightarrow> clock io \<le> clock io' \<Longrightarrow> closes_at io' = closes_at io \<Longrightarrow> connection_open io"
  by (auto simp: chunk_sink_open_def connection_open_def split: option.splits)

lemma run_stream_wire:
  "run_stream p sk io = (False, sk', io') \<Longrightarrow> chunk_sink_open sk' io' \<Longrightarrow>
     \<exists>cs. [] \<notin> set cs \<and> concat cs = produced p \<and> wire io' = wire io @ framed (cs_chunked sk) cs"
proof (induction p arbitrary: sk io)
  case Produced
  then show ?case by (intro exI [of _ "[]"]) (simp add: framed_def)
next
  case (Pause t p)
  from Pause.IH [of sk "pass_time t io"] Pause.prems show ?case by simp
next
  case (Write d k)
  obtain ok sk1 io1 where w: "chunk_sink_write d sk io = (ok, sk1, io1)" by (rule prod_cases3)
  have run: "run_stream (k ok) sk1 io1 = (False, sk', io')" using Write.prems(1) by (simp add: w)
  have "cs_open sk1" using run_stream_later [of io1 "k ok" sk1] run Write.prems(2) by (simp add: chunk_sink_open_def)
  then have ok: "ok" "cs_chunked sk1 = cs_chunked sk"
    and sent: "\<exists>cs. [] \<notin> set cs \<and> concat cs = d \<and> wire io1 = wire io @ framed (cs_chunked sk) cs"
  proof -
    assume "cs_open sk1"
    then show "ok" "cs_chunked sk1 = cs_chunked sk"
      using w by (auto simp: chunk_sink_write_def split: if_splits prod.splits)
    show "\<exists>cs. [] \<notin> set cs \<and> concat cs = d \<and> wire io1 = wire io @ framed (cs_chunked sk) cs"
    proof (cases "d = []")
      case True
      then show ?thesis using w \<open>cs_open sk1\<close>
        by (intro exI [of _ "[]"]) (auto simp: chunk_sink_write_def framed_def split: if_splits)
    next
      case False
      obtain e2 io2 where x: "(if cs_chunked sk then write_chunk d (cs_timeout sk) io
          else connection_write d (cs_timeout sk) io) = (e2, io2)" by (rule prod.exhaust)
      have e2: "\<not> is_error e2" "io2 = io1"
        using w x False \<open>cs_open sk1\<close> by (auto simp: chunk_sink_write_def split: if_splits)
      show ?thesis
      proof (cases "cs_chunked sk")
        case True
        then show ?thesis using write_chunk_wire [of d "cs_timeout sk" io e2 io2] x e2 False by (simp add: framed_def)
      next
        case F: False
        then show ?thesis using connection_write_wire [of d "cs_timeout sk" io e2 io2] x e2 False
          by (intro exI [of _ "[d]"]) (simp add: framed_def)
      qed
    qed
  qed
  obtain cs where cs: "[] \<notin> set cs" "concat cs = d" "wire io1 = wire io @ framed (cs_chunked sk) cs" using sent by blast
  obtain cs2 where cs2: "[] \<notin> set cs2" "concat cs2 = produced (k True)" "wire io' = wire io1 @ framed (cs_chunked sk1) cs2"
    using Write.IH [OF rangeI run Write.prems(2)] ok by auto
  show ?case using cs cs2 ok by (intro exI [of _ "cs @ cs2"]) (simp add: framed_def)
next
  case (Flush k)
  have run: "run_stream (k (chunk_sink_open sk io)) sk io = (False, sk', io')" using Flush.prems(1) by simp
  note later = run_stream_later [of io "k (chunk_sink_open sk io)" sk]
  have "read_side io' = read_side io" using run_stream_read_side [of "k (chunk_sink_open sk io)" sk io] run by simp
  then have "connection_open io" using open_before [OF Flush.prems(2)] later run by (simp add: read_side_def)
  then have "chunk_sink_open sk io" using later run Flush.prems(2) by (simp add: chunk_sink_open_def)
  then show ?case using Flush.IH [OF rangeI run Flush.prems(2)] by simp
qed simp_all

section \<open>Properties\<close>

text \<open>C5: Requests a client pipelines on a connection, written by the client side and cut by the transport in
  any way, are each read, dispatched and answered, in order and once: the log of the session starts with
  exactly these requests and their replies, the responses go out in the same order, and the session goes on
  with the bytes that follow the last request.\<close>

theorem pipeline_answered:
  assumes server: "sv_stops_at sv = None" "T \<le> sv_request_timeout sv" "T \<le> sv_keep_alive_timeout sv"
    and messages: "\<forall>(req, t, w) \<in> set ms. client_wrote sv req t w \<and> plainly_answered sv (received_request req t)"
    and connection: "on_time T io" "ready io" "arriving T (incoming io) = concat (map (\<lambda>(req, t, w). w) ms) @ rest"
    and count: "length ms < sv_keep_alive_max_requests sv"
  shows "\<exists>io' log io2. serve_loop sv (length ms) io' = (log, io2)
    \<and> serve sv io = (map (\<lambda>(req, t, w). (received_request req t, handled sv (received_request req t))) ms @ log, io2)
    \<and> buffer io' @ arriving T (incoming io') = rest
    \<and> wire io' = wire io @ concat (map (\<lambda>(req, t, w).
        response_bytes (received_request req t) (rp_response (handled sv (received_request req t)))) ms)"
proof -
  let ?io = "io\<lparr>buffer := []\<rparr>"
  have "on_time T ?io" "ready ?io" "wire ?io = wire io"
    "buffer ?io @ arriving T (incoming ?io) = concat (map (\<lambda>(req, t, w). w) ms) @ rest" "0 + length ms < sv_keep_alive_max_requests sv"
    using connection count by (simp_all add: ready_def wire_def)
  from serve_loop_answers [OF server messages this(1,2,4,5)] this(3) show ?thesis
    by (auto simp: serve_def split_beta Let_def intro: exI [of _ "fst (serve_loop _ _ _)"])
qed


text \<open>C6: A connection is used for another request only when the message before was read to its end: it had no
  body, or its body reader succeeded, and nothing was read since.  No byte of an unread or failed body is
  ever taken for a request, whatever handlers, consumers and producers do.\<close>

theorem reused_behind_message:
  assumes "serve_turn sv n io = Replied req rp True io'"
  shows "\<exists>timeout r st io1. read_request_head (plain_read_options sv timeout False) False io = (Inr (r, st), io1)
    \<and> ((\<not> bs_chunked st \<and> bs_length st \<in> {None, Some 0} \<and> buffer io' = buffer io1 \<and> incoming io' = incoming io1)
       \<or> (\<exists>opts ioa b st' iob. buffer ioa = buffer io1 \<and> incoming ioa = incoming io1
            \<and> read_request_body opts st ioa = (Inr b, st', iob)
            \<and> buffer io' = buffer iob \<and> incoming io' = incoming iob))"
proof -
  define timeout where "timeout = (if n = 0 then sv_request_timeout sv else sv_keep_alive_timeout sv)"
  obtain x io1 where x: "read_request_head (plain_read_options sv timeout False) False io = (x, io1)" by (rule prod.exhaust)
  note turn = assms [unfolded serve_turn_def Let_def timeout_def [symmetric] x prod.case]
  obtain r st where r: "x = Inr (r, st)" using turn by (cases x) auto
  have "message_read st io1 io'"
    using turn plain_turn_read stream_turn_read unfolding r by (auto split: option.splits)
  then consider (none) "no_body st" "read_side io' = read_side io1"
    | (body) opts ioa b st' iob where "read_side ioa = read_side io1"
        "read_request_body opts st ioa = (Inr b, st', iob)" "read_side io' = read_side iob"
    unfolding message_read_def by blast
  then show ?thesis
  proof cases
    case none
    then have "\<not> bs_chunked st \<and> bs_length st \<in> {None, Some 0} \<and> buffer io' = buffer io1 \<and> incoming io' = incoming io1"
      by (auto simp: no_body_def read_side_def split: option.splits)
    then show ?thesis using x r by blast
  next
    case body
    then have "buffer ioa = buffer io1 \<and> incoming ioa = incoming io1 \<and> read_request_body opts st ioa = (Inr b, st', iob)
        \<and> buffer io' = buffer iob \<and> incoming io' = incoming iob"
      by (simp add: read_side_def)
    then show ?thesis using x r by blast
  qed
qed


text \<open>A streamed response that is reported as sent carries exactly what its producer wrote: as non-empty
  chunks closed by the last chunk for an HTTP/1.1 client, and bare behind a head without a length for an
  HTTP/1.0 client.\<close>

lemma stream_sent:
  assumes sent: "send_response sv req rp io = (e, rp', io')" "\<not> is_error e"
    and streamed: "rp_file rp = None" "rp_stream rp = Some p"
    and body: "\<not> iequals (req_method req) ''HEAD''" "\<not> status_has_no_body (status (rp_response rp))"
  shows "\<exists>out cs. [] \<notin> set cs \<and> concat cs = produced p \<and>
    (if req_version req \<ge> 11
     then rp' = rp \<and> build_response_head req (rp_response rp) True (Some 0) = Inr out
       \<and> wire io' = wire io @ out @ concat (map make_chunk_frame cs) @ last_chunk
     else rp' = set_keep_alive False rp \<and> build_response_head req (rp_response rp') False None = Inr out
       \<and> wire io' = wire io @ out @ produced p)"
proof -
  define chunks where "chunks = (req_version req \<ge> 11)"
  define rp1 where "rp1 = (if chunks then rp else set_keep_alive False rp)"
  obtain e1 io1 where h: "write_response_head req (rp_response rp1) chunks (if chunks then Some 0 else None)
      (sv_request_timeout sv) io = (e1, io1)" by (rule prod.exhaust)
  obtain threw sk io2 where r: "run_stream p \<lparr>cs_timeout = sv_request_timeout sv, cs_chunked = chunks, cs_open = True\<rparr> io1
      = (threw, sk, io2)" by (rule prod_cases3)
  obtain e3 io3 where l: "write_last_chunk (sv_request_timeout sv) io2 = (e3, io3)" by (rule prod.exhaust)
  have "send_stream sv req p rp io = (e, rp', io')" using sent(1) streamed by (simp add: send_response_def)
  then have eq: "(if is_error e1 then (e1, rp1, io1)
      else if threw then (error_of E_write ''Streaming response handler failed'', rp1, io2)
      else if \<not> chunk_sink_open sk io2 then (error_of E_write ''Streaming connection closed'', rp1, io2)
      else if chunks then (e3, rp1, io3) else (no_error, rp1, io2)) = (e, rp', io')"
    using body unfolding send_stream_def Let_def chunks_def [symmetric] rp1_def [symmetric] h prod.case r l by simp
  then have ok: "\<not> is_error e1" "\<not> threw" "chunk_sink_open sk io2" "rp' = rp1"
    using sent(2) by (auto simp: is_error_def error_of_def split: if_splits)
  obtain out where out: "build_response_head req (rp_response rp1) chunks (if chunks then Some 0 else None) = Inr out"
    "wire io1 = wire io @ out" using write_response_head_wire [OF h ok(1)] by blast
  obtain cs where cs: "[] \<notin> set cs" "concat cs = produced p" "wire io2 = wire io1 @ framed chunks cs"
    using run_stream_wire [of p _ io1 sk io2] r ok(2,3) by fastforce
  show ?thesis
  proof (cases chunks)
    case True
    then have "io' = io3" "\<not> is_error e3" using eq ok sent(2) by auto
    then have "wire io' = wire io2 @ last_chunk" using connection_write_wire l by (simp add: write_last_chunk_def)
    then show ?thesis using True out cs ok(4) chunks_def rp1_def by (intro exI [of _ out] exI [of _ cs]) (simp add: framed_def)
  next
    case False
    then have "io' = io2" using eq ok by auto
    then show ?thesis using False out cs ok(4) chunks_def rp1_def by (intro exI [of _ out] exI [of _ cs]) (simp add: framed_def)
  qed
qed


text \<open>A client that closes its side of an idle connection behind its last response is answered once more:
  the end of the stream counts as a broken head, and a 400 response goes out before the session hangs up.\<close>

lemma half_close_answered:
  assumes idle: "ready io" "buffer io = []" "incoming io = (d, Inr Closed) # rest"
      "d \<le> (if n = 0 then sv_request_timeout sv else sv_keep_alive_timeout sv)" "0 < sv_max_header_size sv"
    and server: "n < sv_keep_alive_max_requests sv" "sv_stops_at sv = None"
  shows "\<exists>io' out. serve_loop sv n io = ([], io') \<and> wire io' = wire io @ ''HTTP/1.1 400 Bad Request'' @ out"
proof -
  define timeout where "timeout = (if n = 0 then sv_request_timeout sv else sv_keep_alive_timeout sv)"
  let ?e = "error_of E_protocol ''Connection closed during HTTP headers''"
  let ?io = "io\<lparr>clock := clock io + d, incoming := rest\<rparr>"
  let ?req = "new_request\<lparr>req_keep_alive := False\<rparr>"
  let ?res = "rp_response (set_content (status_reason_view 400) plain_text (set_status 400 (new_reply 11 False)))"
  have "read_request_head (plain_read_options sv timeout False) False io = (Inl ?e, ?io)"
  proof -
    have "timed_read (plain_read_options sv timeout False) None ''Response header'' io = (Inr Closed, ?io)"
      using idle(3,4) by (simp add: timed_read_def plain_read_options_def is_cancelled_def apply_deadline_def
          connection_read_def timeout_def)
    moreover have "find_sub (CRLF @ CRLF) [] = None" by (simp add: find_sub_None_iff)
    ultimately show ?thesis
      using idle(2,5) unfolding read_request_head_def read_head_bytes_def
      by (subst read_head_loop.simps) (simp add: find_sub_from_def plain_read_options_def)
  qed
  then have "serve_turn sv n io = Hang_up (refuse_request sv ?req 400 (status_reason_view 400) ?io)"
    by (simp add: serve_turn_def error_of_def flip: timeout_def)
  moreover have "\<not> (\<not> connection_open io \<or> n \<ge> sv_keep_alive_max_requests sv \<or> stopping sv io)"
    using server ready_open [OF idle(1)] by (simp add: stopping_def)
  ultimately have loop: "serve_loop sv n io = ([], connection_close (refuse_request sv ?req 400 (status_reason_view 400) ?io))"
    by (simp add: serve_loop_step)
  have "find_idx (\<lambda>c. c = CR \<or> c = LF) (''HTTP/1.1 '' @ to_string 400 @ '' '' @ status_reason_view 400) = None"
    by (auto simp: find_idx_None status_reason_view_def status_reasons_def dest!: to_string_digit
        simp: is_digit_def in_range_def)
  moreover have "valid_field (''Content-Type'', plain_text)" "valid_field (''Connection'', ''close'')"
    by (simp_all add: plain_text_def valid_field_def valid_header_name_iff valid_header_value_iff token_char_def
        separators_def field_value_char_def in_range_def)
  moreover have "headers_set [] ''Content-Type'' plain_text = [(''Content-Type'', plain_text)]"
    by (simp add: headers_set_def headers_erase_def headers_add_def)
  ultimately have "\<exists>out. build_response_head ?req ?res False (Some (length (res_body ?res))) =
      Inr ((''HTTP/1.1 '' @ to_string 400 @ '' '' @ status_reason_view 400) @ out)"
    by (simp add: build_response_head_def serialize_head_def response_framing_def set_content_def set_status_def set_header_def
        new_reply_def new_request_def Let_def default_fields split_beta del: not_None_eq)
  moreover have line: "''HTTP/1.1 '' @ to_string 400 @ '' '' @ status_reason_view 400 = ''HTTP/1.1 400 Bad Request''"
    by code_simp
  ultimately obtain out where out: "build_response_head ?req ?res False (Some (length (res_body ?res))) =
      Inr (''HTTP/1.1 400 Bad Request'' @ out)"
    unfolding line by blast
  have "ready ?io" using idle(1) by (simp add: ready_def)
  from write_response_ready [OF this out, of "sv_request_timeout sv"] obtain io' where
    w: "write_response ?req ?res (sv_request_timeout sv) ?io = (no_error, io')" "wire io' = wire ?io @ response_bytes ?req ?res"
    by blast
  have "wire (connection_close io') = wire io @ ''HTTP/1.1 400 Bad Request'' @ out @ response_payload ?req ?res"
    using w(2) out by (simp add: response_bytes_def wire_def connection_close_def)
  then show ?thesis using loop w(1) by (auto simp: refuse_request_def)
qed

end
