(* ===== verification/Session_Runs.thy ===== *)
theory Session_Runs
  imports Session_Facts
begin

text \<open>
  Sessions on concrete connections: a small site, its pipelined requests, its file and its streams, which
  show that the properties of theory \<open>Session_Facts\<close> apply.
\<close>

section \<open>A site\<close>

text \<open>A server whose middleware sends every body back, with one file.\<close>

definition site_file :: bytes where
  "site_file = ''abcdefg''"

definition site_files :: filesystem where
  "site_files = \<lparr>join_path = (\<lambda>a b. a @ ''/'' @ b), is_directory = (\<lambda>_. False), is_regular_file = (\<lambda>_. True),
     path_within = (\<lambda>_ _. True), media_type = (\<lambda>_. plain_text), file_size = (\<lambda>_. Some (length site_file)),
     file_read = (\<lambda>_ offset n. Some (take n (drop offset site_file)))\<rparr>"

definition site :: server where
  "site = \<lparr>sv_max_header_size = Suc (length put_wire), sv_max_body_size = 16, sv_request_timeout = 100,
     sv_keep_alive_timeout = 50, sv_keep_alive_max_requests = 10, sv_auto_decompress = True, sv_stops_at = None,
     sv_routes = [], sv_handlers = (\<lambda>_ _ _ rp. (0, False, rp)), sv_stream_routes = [],
     sv_stream_handlers = (\<lambda>_ _ _ rp. Leave False rp),
     sv_stream_options = (\<lambda>_. \<lparr>st_max_body_size = 0, st_first_body_byte_timeout = None, st_idle_timeout = None,
       st_total_timeout = None, st_auto_decompress = True\<rparr>),
     sv_ws_routes = [], sv_ws_selectors = (\<lambda>_. None), sv_ws_handlers = (\<lambda>_ _ ws. (False, ws)), sv_mounts = [],
     sv_pre_routing = Some (\<lambda>req rp. (1, Some True, set_content (req_body req) plain_text rp)), sv_post_routing = None,
     sv_error_handler = None, sv_exception_handler = None, sv_files = site_files, sv_sha1 = id\<rparr>"

lemma site_simps:
  "sv_stops_at site = None" "sv_request_timeout site = 100" "sv_keep_alive_timeout site = 50"
  "sv_keep_alive_max_requests site = 10" "sv_ws_routes site = []" "sv_stream_routes site = []"
  "sv_max_header_size site = Suc (length put_wire)" "sv_max_body_size site = 16" "sv_files site = site_files"
  by (simp_all add: site_def)

lemma site_handled: "handled site r = set_content (req_body r) plain_text (new_reply (req_version r) (req_keep_alive r))"
  by (simp add: handled_def dispatch_request_def dispatch_around_def run_middleware_def site_def)

lemma plain_text_valid: "valid_field (''Content-Type'', plain_text)" "valid_field (''Connection'', ''close'')"
  by (simp_all add: plain_text_def valid_field_def valid_header_name_iff valid_header_value_iff token_char_def
      separators_def field_value_char_def in_range_def)

lemma head_built:
  assumes "version res \<in> {10, 11}" "status res \<in> {200, 206}" "list_all valid_field (res_headers res)"
  shows "\<exists>out. build_response_head req res chunks len = Inr out"
proof -
  have "find_idx (\<lambda>c. c = CR \<or> c = LF) ((if version res = 10 then ''HTTP/1.0 '' else ''HTTP/1.1 '')
      @ to_string (nat (status res)) @ '' '' @ status_reason_view (status res)) = None"
    using assms(2) by (auto simp: find_idx_None status_reason_view_def status_reasons_def dest!: to_string_digit
        simp: is_digit_def in_range_def)
  moreover have "\<not> list_ex (\<lambda>item. \<not> valid_field item) (res_headers res)"
    using assms(3) by (auto simp: list_all_iff list_ex_iff)
  moreover have "\<not> status res < 100" "\<not> 999 < status res" "\<not> (100 \<le> status res \<and> status res < 200)"
    "status res \<noteq> 204" "status res \<noteq> 205" "\<not> (version res \<noteq> 10 \<and> version res \<noteq> 11)" using assms(1,2) by auto
  ultimately show ?thesis
    using plain_text_valid
    by (simp add: build_response_head_def serialize_head_def response_framing_def Let_def default_fields
        split_beta split: option.split)
qed

lemma set_content_simps:
  "status (rp_response (set_content b c rp)) = status (rp_response rp)"
  "version (rp_response (set_content b c rp)) = version (rp_response rp)"
  "res_keep_alive (rp_response (set_content b c rp)) = res_keep_alive (rp_response rp)"
  "res_body (rp_response (set_content b c rp)) = b" "rp_file (set_content b c rp) = None" "rp_stream (set_content b c rp) = None"
  "res_headers (rp_response (set_content b c rp)) = headers_set (res_headers (rp_response rp)) ''Content-Type'' c"
  by (simp_all add: set_content_def set_header_def)

lemma one_content_type: "headers_set [] ''Content-Type'' v = [(''Content-Type'', v)]"
  by (simp add: headers_set_def headers_erase_def headers_add_def)

lemma site_message: "client_wrote site put_request ''/x?q=1'' put_wire"
  unfolding client_wrote_def
proof (intro conjI)
  show "\<exists>timeout prog client e client'. write_request put_request None None ''/x?q=1'' timeout prog client = (e, client')
      \<and> \<not> is_error e \<and> wire client = [] \<and> put_wire = wire client'"
    using put_request_written put_wire_def prod.collapse
    by (intro exI [of _ 10] exI [of _ None] exI [of _ idle_io]
        exI [of _ "fst (write_request put_request None None ''/x?q=1'' 10 None idle_io)"]
        exI [of _ "snd (write_request put_request None None ''/x?q=1'' 10 None idle_io)"])
      (simp add: wire_def idle_io_def)
  show "\<exists>rt r0. routing_target ''/x?q=1'' = Inr rt \<and> route_target rt new_request = Inr r0"
  proof (intro exI conjI)
    show "routing_target ''/x?q=1'' = Inr ''/x?q=1''" by (simp add: routing_target_def)
    show "route_target ''/x?q=1'' new_request = Inr (new_request\<lparr>path := ''/x'', query := [(''q'', ''1'')]\<rparr>)" by code_simp
  qed
  show "\<exists>hv. headers_get_all (req_headers put_request) ''Host'' = [hv] \<and> \<not> bad_host (trim_ows hv)"
    by (intro exI [of _ "''a''"] conjI) code_simp+
  show "\<not> headers_contains (req_headers put_request) ''Expect''" "\<not> headers_contains (req_headers put_request) ''Content-Encoding''"
    "find_header (req_headers put_request) ''Connection'' = None"
    by code_simp+
qed (simp_all add: site_simps put_request_def new_request_def)

lemma site_received: "received_request put_request ''/x?q=1'' =
  (request_seen put_request ''/x?q=1'' (new_request\<lparr>path := ''/x'', query := [(''q'', ''1'')]\<rparr>) True)
    \<lparr>req_body := ''hi'', req_headers := trim_fields (request_fields put_request)\<rparr>"
proof -
  have "routing_target ''/x?q=1'' = Inr ''/x?q=1''" by (simp add: routing_target_def)
  moreover have "route_target ''/x?q=1'' new_request = Inr (new_request\<lparr>path := ''/x'', query := [(''q'', ''1'')]\<rparr>)"
    by code_simp
  ultimately show ?thesis by (simp add: received_request_def) (simp add: put_request_def)
qed

lemma site_answers: "plainly_answered site (received_request put_request ''/x?q=1'')"
proof -
  let ?r = "received_request put_request ''/x?q=1''"
  have r: "req_version ?r = 11" "req_keep_alive ?r" "req_method ?r = ''PUT''"
    unfolding site_received by (simp_all add: request_seen_def) (simp_all add: put_request_def new_request_def)
  have not_get: "\<not> iequals ''PUT'' ''GET''" by code_simp
  have "find_stream_route [] m s = None" for m s by (simp add: find_stream_route_def build_dispatch_index_def)
  moreover have "\<not> is_websocket_upgrade ?r" using not_get by (simp add: is_websocket_upgrade_def r)
  moreover have "\<exists>out. build_response_head ?r (rp_response (handled site ?r)) False
      (Some (length (res_body (rp_response (handled site ?r))))) = Inr out"
    by (rule head_built) (simp_all add: site_handled set_content_simps new_reply_def one_content_type r plain_text_valid)
  ultimately show ?thesis
    using r by (simp add: plainly_answered_def site_simps) (simp add: site_handled set_content_simps new_reply_def)
qed

definition site_io :: io where
  "site_io = cut_stream [put_wire, put_wire @ ''next'']"

lemma site_io_simps: "on_time 5 site_io" "ready site_io" "arriving 5 (incoming site_io) = put_wire @ put_wire @ ''next''"
  "wire site_io = []" "buffer site_io = []" "site_io\<lparr>buffer := []\<rparr> = site_io"
  by (simp_all add: site_io_def cut_stream_def on_time_def ready_def wire_def)

abbreviation site_request :: request where
  "site_request \<equiv> received_request put_request ''/x?q=1''"

lemma pipeline_answered_witness:
  "\<exists>io' log io2. serve_loop site 2 io' = (log, io2)
    \<and> serve site site_io = ([(site_request, handled site site_request), (site_request, handled site site_request)] @ log, io2)
    \<and> buffer io' @ arriving 5 (incoming io') = ''next''
    \<and> wire io' = response_bytes site_request (rp_response (handled site site_request))
        @ response_bytes site_request (rp_response (handled site site_request))"
proof -
  let ?ms = "[(put_request, ''/x?q=1'', put_wire), (put_request, ''/x?q=1'', put_wire)]"
  have "\<forall>(req, t, w) \<in> set ?ms. client_wrote site req t w \<and> plainly_answered site (received_request req t)"
    using site_message site_answers by simp
  moreover have "arriving 5 (incoming site_io) = concat (map (\<lambda>(req, t, w). w) ?ms) @ ''next''"
    by (simp add: site_io_simps)
  moreover have "5 \<le> sv_request_timeout site" "5 \<le> sv_keep_alive_timeout site" "length ?ms < sv_keep_alive_max_requests site"
    by (simp_all add: site_simps)
  ultimately have "\<exists>io' log io2. serve_loop site (length ?ms) io' = (log, io2)
    \<and> serve site site_io = (map (\<lambda>(req, t, w). (received_request req t, handled site (received_request req t))) ?ms @ log, io2)
    \<and> buffer io' @ arriving 5 (incoming io') = ''next''
    \<and> wire io' = wire site_io @ concat (map (\<lambda>(req, t, w).
        response_bytes (received_request req t) (rp_response (handled site (received_request req t)))) ?ms)"
    by (intro pipeline_answered site_simps site_io_simps)
  then show ?thesis by (simp add: site_io_simps numeral_2_eq_2)
qed


lemma site_turn: "\<exists>rp io'. serve_turn site 0 site_io = Replied site_request rp True io'"
proof -
  obtain io' where "serve_turn site 0 site_io = Replied site_request (handled site site_request) True io'"
    by (rule serve_turn_answers [OF site_message site_answers, where n = 0 and io = site_io and T = 5 and rest = "put_wire @ ''next''"])
      (simp_all add: site_simps site_io_simps)
  then show ?thesis by blast
qed

lemma reused_behind_message_witness:
  "\<exists>rp io' timeout r st io1. serve_turn site 0 site_io = Replied site_request rp True io'
    \<and> read_request_head (plain_read_options site timeout False) False site_io = (Inr (r, st), io1)
    \<and> ((\<not> bs_chunked st \<and> bs_length st \<in> {None, Some 0} \<and> buffer io' = buffer io1 \<and> incoming io' = incoming io1)
       \<or> (\<exists>opts ioa b st' iob. buffer ioa = buffer io1 \<and> incoming ioa = incoming io1
            \<and> read_request_body opts st ioa = (Inr b, st', iob)
            \<and> buffer io' = buffer iob \<and> incoming io' = incoming iob))"
proof -
  obtain rp io' where "serve_turn site 0 site_io = Replied site_request rp True io'" using site_turn by blast
  with reused_behind_message [OF this] show ?thesis by blast
qed

text \<open>A reply with the file, a request for a part of it, and two streamed replies.\<close>

definition file_reply :: reply where
  "file_reply = set_file ''f'' plain_text (new_reply 11 True)"

definition range_text :: bytes where
  "range_text = ''bytes='' @ to_string 2 @ ''-'' @ to_string 4"

definition range_request :: request where
  "range_request = new_request\<lparr>req_headers := [(''Range'', range_text)]\<rparr>"

definition stream_reply :: "nat \<Rightarrow> reply" where
  "stream_reply v = set_stream plain_text two_pieces (new_reply v True)"

lemma site_file_has: "file_has site_files ''f'' site_file"
  by (simp add: file_has_def site_files_def)

lemma write_response_head_ready:
  assumes "ready io" "build_response_head req res c l = Inr out"
  shows "\<exists>io'. write_response_head req res c l t io = (no_error, io') \<and> ready io' \<and> clock io' = clock io"
  using connection_write_ready [OF assms(1), of out t] assms(2) by (metis prod.collapse sum.case(2) write_response_head_def)

lemma range_request_simps: "req_version range_request = 11" "\<not> iequals (req_method range_request) ''HEAD''"
  by (simp_all add: range_request_def new_request_def iequals_def)

lemma file_reply_simps: "rp_file file_reply = Some ''f''" "status (rp_response file_reply) = 200"
  "version (rp_response file_reply) = 11" "res_headers (rp_response file_reply) = [(''Content-Type'', plain_text)]"
  by (simp_all add: file_reply_def set_file_def set_header_def new_reply_def one_content_type)

lemma range_wanted: "wanted_range range_request (rp_response file_reply) = Some range_text"
  "parse_range range_text (length site_file) = Some (2, 4)"
proof -
  have "iequals (req_method range_request) ''GET''" "find_header (req_headers range_request) ''Range'' = Some range_text"
    "find_header (req_headers range_request) ''If-Range'' = None"
    by (simp_all add: range_request_def new_request_def iequals_def)
  moreover have "istarts_with range_text ''bytes=''"
    unfolding range_text_def istarts_with_iff by (simp add: lower_def)
  ultimately show "wanted_range range_request (rp_response file_reply) = Some range_text"
    by (simp add: wanted_range_def validator_matches_def file_reply_simps)
  let ?v = "to_string 2 @ CHR ''-'' # to_string 4"
  have comma: "CHR '','' \<notin> set ?v" by simp
  have dash: "find_char CHR ''-'' ?v = Some (length (to_string 2))" by (rule find_char_split) simp
  have spelled: "range_text = ''bytes='' @ ?v" by (simp add: range_text_def)
  have size: "length site_file \<noteq> 0" by (simp add: site_file_def)
  show "parse_range range_text (length site_file) = Some (2, 4)"
    unfolding spelled parse_range_bytes [OF comma size dash] by (simp add: substr_def site_file_def)
qed

lemma file_written: "\<exists>rp' io'. send_response site range_request file_reply idle_io = (no_error, rp', io')"
proof -
  define rp where "rp = set_header ''Content-Range''
    (''bytes '' @ to_string 2 @ ''-'' @ to_string 4 @ ''/'' @ to_string (length site_file)) (set_status 206 file_reply)"
  have ready: "ready idle_io" by (simp add: ready_def)
  have "field_value_char c" if "c \<in> set (to_string n)" for c n
    using to_string_plain [OF that] by (simp add: field_value_char_def)
  moreover have "valid_header_name ''Content-Range''"
    by (simp add: valid_header_name_iff token_char_def separators_def in_range_def)
  ultimately have "valid_field (''Content-Range'', ''bytes '' @ to_string 2 @ ''-'' @ to_string 4 @ ''/'' @ to_string (length site_file))"
    by (auto simp: valid_field_def valid_header_value_iff field_value_char_def)
  moreover have "res_headers (rp_response rp) = [(''Content-Type'', plain_text),
      (''Content-Range'', ''bytes '' @ to_string 2 @ ''-'' @ to_string 4 @ ''/'' @ to_string (length site_file))]"
    by (simp add: rp_def set_header_def set_status_def file_reply_simps headers_set_def headers_erase_def headers_add_def
        iequals_def)
  ultimately have fields: "list_all valid_field (res_headers (rp_response rp))" by (simp add: plain_text_valid)
  have st: "status (rp_response rp) = 206" "version (rp_response rp) = 11"
    by (simp_all add: rp_def set_header_def set_status_def file_reply_simps)
  obtain out where "build_response_head range_request (rp_response rp) False (Some 3) = Inr out"
    using head_built [of "rp_response rp" range_request False "Some 3"] fields st by auto
  from write_response_head_ready [OF ready this, of 100] obtain io1 where
    h: "write_response_head range_request (rp_response rp) False (Some 3) 100 idle_io = (no_error, io1)" "ready io1" by blast
  define chunk where "chunk = take 3 (drop 2 site_file)"
  obtain io2 where w: "connection_write chunk 100 io1 = (no_error, io2)"
    using connection_write_ready [OF h(2), of chunk 100] by (metis prod.collapse)
  have block: "3 = min 3 file_block" by (simp add: file_block_def)
  have len: "length chunk = 3" by (simp add: chunk_def site_file_def)
  have read: "file_read site_files ''f'' 2 3 = Some chunk" by (simp add: site_files_def chunk_def)
  have "send_blocks site_files ''f'' 100 2 3 io1 = send_blocks site_files ''f'' 100 (2 + 3) (3 - 3) io2"
    using send_blocks_step [OF _ ready_open [OF h(2)] block read len w] by (simp add: no_error_def is_error_def)
  then have "send_blocks site_files ''f'' 100 2 3 io1 = (no_error, io2)" by (simp add: send_blocks.simps)
  then have "send_part site range_request ''f'' rp 2 3 idle_io = (no_error, rp, io2)"
    using h(1) st range_request_simps
    by (simp add: send_part_def site_simps status_has_no_body_def no_error_def is_error_def)
  moreover have "file_size site_files ''f'' = Some (length site_file)" by (simp add: site_files_def)
  ultimately have "send_file site range_request ''f'' file_reply idle_io = (no_error, rp, io2)"
    by (simp add: send_file_def site_simps range_wanted rp_def)
  then show ?thesis by (simp add: send_response_def file_reply_simps)
qed


lemma stream_written:
  assumes "v \<in> {10, 11}"
  shows "\<exists>rp' io'. send_response site (new_request\<lparr>req_version := v\<rparr>) (stream_reply v) idle_io = (no_error, rp', io')"
proof -
  let ?rp = "if v \<ge> 11 then stream_reply v else set_keep_alive False (stream_reply v)"
  have r: "status (rp_response ?rp) = 200" "version (rp_response ?rp) = v"
    "res_headers (rp_response ?rp) = [(''Content-Type'', plain_text)]"
    by (simp_all add: stream_reply_def set_stream_def set_header_def set_keep_alive_def new_reply_def one_content_type)
  have ready: "ready idle_io" by (simp add: ready_def)
  obtain out where "build_response_head (new_request\<lparr>req_version := v\<rparr>) (rp_response ?rp) (v \<ge> 11)
      (if v \<ge> 11 then Some 0 else None) = Inr out"
    using head_built [of "rp_response ?rp" "new_request\<lparr>req_version := v\<rparr>" "v \<ge> 11" "if v \<ge> 11 then Some 0 else None"]
      assms r plain_text_valid by auto
  from write_response_head_ready [OF ready this, of 100] obtain io1 where
    h: "write_response_head (new_request\<lparr>req_version := v\<rparr>) (rp_response ?rp) (v \<ge> 11)
      (if v \<ge> 11 then Some 0 else None) 100 idle_io = (no_error, io1)" "ready io1" by blast
  have free: "outgoing io1 = []" "connection_open io1" using h(2) ready_open by (simp_all add: ready_def)
  let ?sk = "\<lparr>cs_timeout = 100, cs_chunked = (v \<ge> 11), cs_open = True\<rparr>"
  have ok: "\<not> is_error no_error" by (simp add: no_error_def is_error_def)
  have open2: "connection_open (io1\<lparr>sent := s\<rparr>)" for s using free(2) by (simp add: connection_open_def split: option.splits)
  have "\<exists>s. run_stream two_pieces ?sk io1 = (False, ?sk, io1\<lparr>sent := s\<rparr>)"
    by (cases "v \<ge> 11") (simp_all add: two_pieces_def chunk_sink_write_def write_chunk_def block_size_def free_write free ok
        make_chunk_frame_def chunk_sink_open_def open2, (rule exI, rule refl)+)
  then obtain s where run: "run_stream two_pieces ?sk io1 = (False, ?sk, io1\<lparr>sent := s\<rparr>)" by blast
  have sink: "chunk_sink_open ?sk (io1\<lparr>sent := s\<rparr>)" using open2 by (simp add: chunk_sink_open_def)
  have last: "write_last_chunk 100 (io1\<lparr>sent := s\<rparr>) = (no_error, io1\<lparr>sent := s @ [last_chunk]\<rparr>)"
    by (simp add: write_last_chunk_def free_write free last_chunk_def)
  have m: "\<not> iequals (req_method (new_request\<lparr>req_version := v\<rparr>)) ''HEAD''" "\<not> status_has_no_body (status (rp_response (stream_reply v)))"
    "req_version (new_request\<lparr>req_version := v\<rparr>) = v"
    by (simp_all add: new_request_def iequals_def stream_reply_def set_stream_def set_header_def new_reply_def status_has_no_body_def)
  have "send_stream site (new_request\<lparr>req_version := v\<rparr>) two_pieces (stream_reply v) idle_io =
      (no_error, ?rp, if v \<ge> 11 then io1\<lparr>sent := s @ [last_chunk]\<rparr> else io1\<lparr>sent := s\<rparr>)"
    using h(1) m ok run sink last unfolding send_stream_def Let_def m(3) site_simps by simp
  then show ?thesis by (simp add: send_response_def) (simp add: stream_reply_def set_stream_def set_header_def)
qed

lemma stream_reply_simps: "rp_file (stream_reply v) = None" "rp_stream (stream_reply v) = Some two_pieces"
  "\<not> status_has_no_body (status (rp_response (stream_reply v)))" "res_keep_alive (rp_response (stream_reply v))"
  by (simp_all add: stream_reply_def set_stream_def set_header_def new_reply_def status_has_no_body_def)

lemma stream_sent_witness:
  "\<exists>rp' io' out cs. send_response site (new_request\<lparr>req_version := 11\<rparr>) (stream_reply 11) idle_io = (no_error, rp', io')
    \<and> concat cs = ''abc'' \<and> wire io' = wire idle_io @ out @ concat (map make_chunk_frame cs) @ last_chunk"
proof -
  obtain rp' io' where s: "send_response site (new_request\<lparr>req_version := 11\<rparr>) (stream_reply 11) idle_io = (no_error, rp', io')"
    using stream_written [of 11] by auto
  have "\<not> is_error no_error" "\<not> iequals (req_method (new_request\<lparr>req_version := 11\<rparr>)) ''HEAD''" "produced two_pieces = ''abc''"
    by (simp_all add: no_error_def is_error_def new_request_def iequals_def two_pieces_def)
  with stream_sent [OF s _ stream_reply_simps(1,2) _ stream_reply_simps(3)] s show ?thesis by auto
qed


lemma half_close_answered_witness:
  "\<exists>io' out. serve_loop site 3 (idle_io\<lparr>incoming := [(2, Inr Closed)]\<rparr>) = ([], io')
    \<and> wire io' = wire (idle_io\<lparr>incoming := [(2, Inr Closed)]\<rparr>) @ ''HTTP/1.1 400 Bad Request'' @ out"
proof (rule half_close_answered [where d = 2 and rest = "[]"])
qed (simp_all add: ready_def idle_io_def site_simps)

end
