(* ===== verification/Sse.thy ===== *)
theory Sse
  imports Headers
begin

text \<open>
  Server-sent events: the writer \<^verbatim>\<open>format_sse\<close> (\<^verbatim>\<open>src/common.cpp\<close>) and the incremental parser
  \<^verbatim>\<open>SseParser\<close> (\<^verbatim>\<open>src/sse.cpp\<close>).  The callbacks are functions that say how they end, the
  calls made to them are logged in order.  A count of milliseconds is a natural number, bounded where
  the source bounds it.  The buffers' capacities, which the source trims, are not modelled.
\<close>

section \<open>Events and the writer\<close>

record sse_event =
  ev_data :: bytes
  ev_type :: bytes
  ev_id :: bytes
  ev_retry :: "nat option"

text \<open>The \<^verbatim>\<open>do ... while\<close> loop over the lines of the data.\<close>

function format_data :: "bytes \<Rightarrow> bytes" where
  "format_data s =
     (case find_char LF s of
        None \<Rightarrow> ''data: '' @ s @ [LF]
      | Some e \<Rightarrow> ''data: '' @ substr s 0 (Some e) @ [LF] @ format_data (substr s (e + 1) None))"
  by pat_completeness auto
termination
  by (relation "measure length") (auto simp: substr_def dest!: find_char_less)

declare format_data.simps [simp del]

definition format_sse :: "sse_event \<Rightarrow> bytes" where
  "format_sse ev =
     (if ev_type ev \<noteq> [] then ''event: '' @ ev_type ev @ [LF] else [])
     @ (if ev_id ev \<noteq> [] then ''id: '' @ ev_id ev @ [LF] else [])
     @ (case ev_retry ev of Some n \<Rightarrow> ''retry: '' @ to_string n @ [LF] | None \<Rightarrow> [])
     @ format_data (ev_data ev) @ [LF]"

section \<open>The parser\<close>

text \<open>How a callback ends, and which callback was called.\<close>

datatype outcome = Returns | Throws bytes | Throws_other

datatype callback = On_message | On_event bytes

type_synonym handler = "sse_event \<Rightarrow> outcome"

record sse_parser =
  max_line_size :: nat
  max_event_size :: nat
  initial_id :: bytes
  message_handler :: "handler option"
  event_handlers :: "bytes \<Rightarrow> handler option"
  line :: bytes
  pdata :: bytes
  event_type :: bytes
  last_id :: bytes
  retry_delay :: "nat option"
  event_retry :: "nat option"
  first_line :: bool
  skip_lf :: bool
  failed :: error_info
  calls :: "(callback \<times> sse_event) list"

definition milliseconds_max :: nat where
  "milliseconds_max = 2 ^ 63 - 1"

definition sse_reset :: "sse_parser \<Rightarrow> sse_parser" where
  "sse_reset p = p\<lparr>line := [], pdata := [], event_type := [], last_id := initial_id p,
     retry_delay := None, event_retry := None, first_line := True, skip_lf := False,
     failed := no_error\<rparr>"

definition sse_parser_new :: "nat \<Rightarrow> nat \<Rightarrow> bytes \<Rightarrow> sse_parser" where
  "sse_parser_new max_line max_event id0 =
     \<lparr>max_line_size = max_line, max_event_size = max_event, initial_id = id0,
      message_handler = None, event_handlers = (\<lambda>_. None), line = [], pdata = [], event_type = [],
      last_id = id0, retry_delay = None, event_retry = None, first_line = True, skip_lf = False,
      failed = no_error, calls = []\<rparr>"

definition on_message :: "handler \<Rightarrow> sse_parser \<Rightarrow> sse_parser" where
  "on_message h p = p\<lparr>message_handler := Some h\<rparr>"

definition on_event :: "bytes \<Rightarrow> handler \<Rightarrow> sse_parser \<Rightarrow> sse_parser" where
  "on_event t h p = p\<lparr>event_handlers := (event_handlers p)(t := Some h)\<rparr>"

definition callback_error :: "outcome \<Rightarrow> error_info" where
  "callback_error r = (case r of
     Returns \<Rightarrow> no_error
   | Throws what \<Rightarrow> error_of E_internal (''SSE callback failed: '' @ what)
   | Throws_other \<Rightarrow> error_of E_internal ''SSE callback failed'')"

text \<open>The \<^verbatim>\<open>try\<close> block of \<^verbatim>\<open>dispatch\<close>: the general handler, then the one of the event's type.\<close>

definition invoke_handlers :: "sse_event \<Rightarrow> sse_parser \<Rightarrow> error_info \<times> sse_parser" where
  "invoke_handlers ev p =
     (let (e1, p1) = (case message_handler p of
              None \<Rightarrow> (no_error, p)
            | Some h \<Rightarrow> (callback_error (h ev), p\<lparr>calls := calls p @ [(On_message, ev)]\<rparr>))
      in if is_error e1 then (e1, p1)
         else (case event_handlers p1 (ev_type ev) of
           None \<Rightarrow> (no_error, p1)
         | Some h \<Rightarrow> (callback_error (h ev),
                      p1\<lparr>calls := calls p1 @ [(On_event (ev_type ev), ev)]\<rparr>)))"

definition dispatch :: "sse_parser \<Rightarrow> error_info \<times> sse_parser" where
  "dispatch p =
     (if pdata p = [] then (no_error, p\<lparr>event_type := [], event_retry := None\<rparr>)
      else
        let d = (if last (pdata p) = LF then butlast (pdata p) else pdata p);
            t = (if event_type p = [] then ''message'' else event_type p);
            ev = \<lparr>ev_data = d, ev_type = t, ev_id = last_id p, ev_retry = event_retry p\<rparr>
        in invoke_handlers ev (p\<lparr>pdata := [], event_type := [], event_retry := None\<rparr>))"

fun exceeds :: "nat \<Rightarrow> nat list \<Rightarrow> bool" where
  "exceeds remaining [] = False"
| "exceeds remaining (n # ns) = (if n > remaining then True else exceeds (remaining - n) ns)"

definition too_large :: error_info where
  "too_large = error_of E_body_too_large ''SSE event exceeds configured limit''"

definition process_field :: "bytes \<Rightarrow> bytes \<Rightarrow> sse_parser \<Rightarrow> error_info \<times> sse_parser" where
  "process_field field v p =
     (if field = ''data'' then
        (if length v \<ge> max_event_size p \<or> length (pdata p) > max_event_size p - length v - 1
            \<or> exceeds (max_event_size p)
                [length (pdata p) + length v + 1, length (event_type p), length (last_id p)]
         then (too_large, p)
         else (no_error, p\<lparr>pdata := pdata p @ v @ [LF]\<rparr>))
      else if field = ''event'' then
        (if exceeds (max_event_size p) [length (pdata p), length v, length (last_id p)]
         then (too_large, p)
         else (no_error, p\<lparr>event_type := v\<rparr>))
      else if field = ''id'' \<and> find_char CHR 0x00 v = None then
        (if exceeds (max_event_size p) [length (pdata p), length (event_type p), length v]
         then (error_of E_body_too_large ''SSE event ID exceeds configured limit'', p)
         else (no_error, p\<lparr>last_id := v\<rparr>))
      else if field = ''retry'' then
        (case parse_number 10 uint64_max v of
           Some ms \<Rightarrow> if ms \<le> milliseconds_max
             then (no_error, p\<lparr>retry_delay := Some ms, event_retry := Some ms\<rparr>) else (no_error, p)
         | None \<Rightarrow> (no_error, p))
      else (no_error, p))"

definition byte_order_mark :: bytes where
  "byte_order_mark = [CHR 0xEF, CHR 0xBB, CHR 0xBF]"

definition process_line :: "bytes \<Rightarrow> sse_parser \<Rightarrow> error_info \<times> sse_parser" where
  "process_line v0 p0 =
     (let v = (if first_line p0 \<and> prefix byte_order_mark v0 then drop 3 v0 else v0);
          p = p0\<lparr>first_line := False\<rparr>
      in if v = [] then dispatch p
         else if hd v = CHR '':'' then (no_error, p)
         else
           let colon = find_char CHR '':'' v;
               field = substr v 0 colon;
               rest = (case colon of None \<Rightarrow> [] | Some i \<Rightarrow> substr v (i + 1) None);
               fv = (if rest \<noteq> [] \<and> hd rest = SP then tl rest else rest)
           in process_field field fv p)"

definition line_end :: "char \<Rightarrow> bool" where
  "line_end c \<longleftrightarrow> c = CR \<or> c = LF"

definition line_too_long :: error_info where
  "line_too_long = error_of E_body_too_large ''SSE line exceeds configured limit''"

text \<open>
  One round of the loop of \<^verbatim>\<open>feed\<close>: the parser after it, carrying its error in \<open>failed\<close>, and the
  bytes still to read when the loop goes on.
\<close>

definition feed_round :: "bytes \<Rightarrow> sse_parser \<Rightarrow> sse_parser \<times> bytes option" where
  "feed_round bs p =
     (let p1 = p\<lparr>skip_lf := False\<rparr>;
          bs1 = (if skip_lf p \<and> hd bs = LF then tl bs else bs)
      in if bs1 = [] then (p1, None)
         else
           let e = find_idx line_end bs1;
               count = (case e of None \<Rightarrow> length bs1 | Some i \<Rightarrow> i)
           in if count > max_line_size p1 \<or> length (line p1) > max_line_size p1 - count
              then (p1\<lparr>failed := line_too_long\<rparr>, None)
              else (case e of
                None \<Rightarrow> (p1\<lparr>line := line p1 @ bs1\<rparr>, None)
              | Some i \<Rightarrow>
                  let p2 = p1\<lparr>line := (if line p1 = [] then [] else line p1 @ take i bs1)\<rparr>;
                      (err, p3) = process_line (if line p1 = [] then take i bs1 else line p2) p2
                  in if is_error err then (p3\<lparr>failed := err\<rparr>, None)
                     else (p3\<lparr>failed := err, line := [], skip_lf := bs1 ! i = CR\<rparr>,
                           Some (drop (i + 1) bs1))))"

lemma feed_round_shorter: "bs \<noteq> [] \<Longrightarrow> feed_round bs p = (p', Some rest) \<Longrightarrow> length rest < length bs"
  by (auto simp: feed_round_def Let_def dest!: find_idx_SomeD split: if_splits option.splits prod.splits)

function feed_loop :: "bytes \<Rightarrow> sse_parser \<Rightarrow> sse_parser" where
  "feed_loop bs p =
     (if bs = [] then p
      else (case feed_round bs p of (p', None) \<Rightarrow> p' | (p', Some rest) \<Rightarrow> feed_loop rest p'))"
  by pat_completeness auto
termination
  by (relation "measure (length \<circ> fst)") (auto dest!: sym [of "(_, Some _)"] intro: feed_round_shorter)

declare feed_loop.simps [simp del]

definition feed :: "sse_parser \<Rightarrow> bytes \<Rightarrow> error_info \<times> sse_parser" where
  "feed p bs =
     (if is_error (failed p) then (failed p, p)
      else let p' = feed_loop bs p in (if is_error (failed p') then failed p' else no_error, p'))"

definition finish :: "sse_parser \<Rightarrow> error_info \<times> sse_parser" where
  "finish p = (if is_error (failed p) then (failed p, p)
     else (no_error, p\<lparr>line := [], pdata := [], event_type := [], event_retry := None, skip_lf := False\<rparr>))"

section \<open>The parser byte by byte\<close>

text \<open>
  The abstract parser: one byte per step, whatever chunks the transport delivers.  \<open>view\<close> forgets
  the text of a line once the parser has failed, which no operation reads again.
\<close>

definition end_line :: "char \<Rightarrow> error_info \<times> sse_parser \<Rightarrow> sse_parser" where
  "end_line c r = (case r of (err, p) \<Rightarrow>
     if is_error err then p\<lparr>failed := err\<rparr> else p\<lparr>failed := err, line := [], skip_lf := c = CR\<rparr>)"

definition step_byte :: "sse_parser \<Rightarrow> char \<Rightarrow> sse_parser" where
  "step_byte p c =
     (if is_error (failed p) then p
      else
        let p1 = p\<lparr>skip_lf := False\<rparr>
        in if skip_lf p \<and> c = LF then p1
           else if line_end c then end_line c (process_line (line p) p1)
           else if length (line p) + 1 > max_line_size p then p1\<lparr>failed := line_too_long\<rparr>
           else p1\<lparr>line := line p @ [c]\<rparr>)"

definition run :: "sse_parser \<Rightarrow> bytes \<Rightarrow> sse_parser" where
  "run p bs = foldl step_byte p bs"

definition view :: "sse_parser \<Rightarrow> sse_parser" where
  "view p = (if is_error (failed p) then p\<lparr>line := []\<rparr> else p)"

lemma run_simps [simp]:
  "run p [] = p" "run p (c # cs) = run (step_byte p c) cs" "run p (as @ bs) = run (run p as) bs"
  by (simp_all add: run_def)

lemma line_too_long_error [simp]: "is_error line_too_long" "is_error too_large"
  by (simp_all add: line_too_long_def too_large_def)

lemma run_failed: "is_error (failed p) \<Longrightarrow> run p bs = p"
  by (induction bs) (auto simp: step_byte_def)

lemma view_failed [simp]: "failed (view p) = failed p"
  by (simp add: view_def)

lemma view_run_failed: "view p = view q \<Longrightarrow> is_error (failed p) \<Longrightarrow> view (run p bs) = view (run q bs)"
  by (metis run_failed view_failed)

text \<open>Processing a line neither reads nor writes the line buffer and the pending line feed.\<close>

lemma invoke_handlers_frame:
  "invoke_handlers ev (p\<lparr>line := l\<rparr>) = apsnd (\<lambda>q. q\<lparr>line := l\<rparr>) (invoke_handlers ev p)"
  "line (snd (invoke_handlers ev p)) = line p" "max_line_size (snd (invoke_handlers ev p)) = max_line_size p"
  "skip_lf (snd (invoke_handlers ev p)) = skip_lf p"
  by (auto simp: invoke_handlers_def Let_def split: option.splits)

lemma line_commute:
  "p\<lparr>line := l, pdata := d, event_type := t, event_retry := r\<rparr> =
     p\<lparr>pdata := d, event_type := t, event_retry := r, line := l\<rparr>"
  "p\<lparr>line := l, first_line := b\<rparr> = p\<lparr>first_line := b, line := l\<rparr>"
  "p\<lparr>line := l, event_type := t, event_retry := r\<rparr> = p\<lparr>event_type := t, event_retry := r, line := l\<rparr>"
  by (cases p; simp)+

lemma dispatch_frame:
  "dispatch (p\<lparr>line := l\<rparr>) = apsnd (\<lambda>q. q\<lparr>line := l\<rparr>) (dispatch p)"
  "line (snd (dispatch p)) = line p" "max_line_size (snd (dispatch p)) = max_line_size p"
  "skip_lf (snd (dispatch p)) = skip_lf p"
  by (auto simp: dispatch_def Let_def invoke_handlers_frame line_commute)

lemma process_field_frame:
  "process_field f v (p\<lparr>line := l\<rparr>) = apsnd (\<lambda>q. q\<lparr>line := l\<rparr>) (process_field f v p)"
  "line (snd (process_field f v p)) = line p" "max_line_size (snd (process_field f v p)) = max_line_size p"
  "skip_lf (snd (process_field f v p)) = skip_lf p"
  by (auto simp: process_field_def split: option.splits)

lemma process_line_frame:
  "process_line v (p\<lparr>line := l\<rparr>) = apsnd (\<lambda>q. q\<lparr>line := l\<rparr>) (process_line v p)"
  "line (snd (process_line v p)) = line p" "max_line_size (snd (process_line v p)) = max_line_size p"
  "skip_lf (snd (process_line v p)) = skip_lf p"
  by (auto simp: process_line_def Let_def dispatch_frame process_field_frame line_commute)

lemma run_segment:
  "\<forall>c \<in> set seg. \<not> line_end c \<Longrightarrow> \<not> is_error (failed p) \<Longrightarrow> \<not> skip_lf p \<Longrightarrow>
     length (line p) + length seg \<le> max_line_size p \<Longrightarrow> run p seg = p\<lparr>line := line p @ seg\<rparr>"
proof (induction seg arbitrary: p)
  case (Cons c seg)
  have "step_byte p c = p\<lparr>line := line p @ [c]\<rparr>"
    using Cons.prems by (simp add: step_byte_def Let_def)
  with Cons show ?case by simp
qed simp

lemma run_long_segment:
  "\<forall>c \<in> set seg. \<not> line_end c \<Longrightarrow> \<not> is_error (failed p) \<Longrightarrow> \<not> skip_lf p \<Longrightarrow>
     length (line p) \<le> max_line_size p \<Longrightarrow> length (line p) + length seg > max_line_size p \<Longrightarrow>
     view (run p seg) = p\<lparr>failed := line_too_long, line := []\<rparr>"
proof (induction seg arbitrary: p)
  case (Cons c seg)
  show ?case
  proof (cases "length (line p) + 1 > max_line_size p")
    case True
    then have "step_byte p c = p\<lparr>failed := line_too_long\<rparr>"
      using Cons.prems by (simp add: step_byte_def Let_def)
    then show ?thesis by (simp add: run_failed view_def)
  next
    case False
    then have "step_byte p c = p\<lparr>line := line p @ [c]\<rparr>"
      using Cons.prems by (simp add: step_byte_def Let_def)
    with Cons False show ?thesis by simp
  qed
qed simp

lemma step_no_skip:
  "\<not> is_error (failed p) \<Longrightarrow> \<not> (skip_lf p \<and> c = LF) \<Longrightarrow> step_byte (p\<lparr>skip_lf := False\<rparr>) c = step_byte p c"
  by (auto simp: step_byte_def Let_def)

lemma run_drop_lf:
  assumes "\<not> is_error (failed p)"
  shows "run (p\<lparr>skip_lf := False\<rparr>) (if skip_lf p \<and> bs \<noteq> [] \<and> hd bs = LF then tl bs else bs) =
    (if bs = [] then p\<lparr>skip_lf := False\<rparr> else run p bs)"
proof (cases bs)
  case (Cons c cs)
  show ?thesis
  proof (cases "skip_lf p \<and> c = LF")
    case True
    then have "step_byte p c = p\<lparr>skip_lf := False\<rparr>" using assms by (simp add: step_byte_def Let_def)
    with True Cons show ?thesis by simp
  next
    case False
    with Cons step_no_skip [OF assms False] show ?thesis by auto
  qed
qed simp

lemma skip_same: "\<not> skip_lf p \<Longrightarrow> p\<lparr>skip_lf := False\<rparr> = p"
  by (cases p) simp

lemma end_line_step:
  "\<not> is_error (failed p) \<Longrightarrow> \<not> skip_lf p \<Longrightarrow> line_end c \<Longrightarrow>
     step_byte p c = end_line c (process_line (line p) p)"
  by (simp add: step_byte_def skip_same)

lemma view_end_line: "view (end_line c (apsnd (\<lambda>q. q\<lparr>line := l\<rparr>) r)) = view (end_line c r)"
  by (cases r) (simp add: end_line_def view_def)

lemma end_line_ok: "\<not> is_error (fst r) \<Longrightarrow>
    end_line c (apsnd (\<lambda>q. q\<lparr>line := l\<rparr>) r) = end_line c r"
  by (cases r) (simp add: end_line_def)

lemma feed_line:
  assumes seg: "\<forall>c \<in> set seg. \<not> line_end c" and c: "line_end c"
    and p: "\<not> is_error (failed p)" "\<not> skip_lf p" "length (line p) + length seg \<le> max_line_size p"
    and r: "process_line (if line p = [] then seg else line p @ seg)
                  (p\<lparr>line := (if line p = [] then [] else line p @ seg)\<rparr>) = (err, q)"
  shows "is_error err \<Longrightarrow> view (run p (seg @ c # cs)) = view (q\<lparr>failed := err\<rparr>)"
    "\<not> is_error err \<Longrightarrow>
       run p (seg @ c # cs) = run (q\<lparr>failed := err, line := [], skip_lf := c = CR\<rparr>) cs"
proof -
  let ?l = "if line p = [] then [] else line p @ seg"
  obtain err' q' where q': "process_line (line p @ seg) (p\<lparr>line := line p @ seg\<rparr>) = (err', q')"
    by (cases "process_line (line p @ seg) (p\<lparr>line := line p @ seg\<rparr>)")
  have "process_line (line p @ seg) (p\<lparr>line := line p @ seg, line := ?l\<rparr>) = (err', q'\<lparr>line := ?l\<rparr>)"
    using process_line_frame(1) [where p = "p\<lparr>line := line p @ seg\<rparr>" and l = ?l and v = "line p @ seg"] q' by simp
  moreover have "(if line p = [] then seg else line p @ seg) = line p @ seg" by simp
  ultimately have eq: "err' = err" "q = q'\<lparr>line := ?l\<rparr>" using r by simp_all
  have "run p seg = p\<lparr>line := line p @ seg\<rparr>" using seg p by (rule run_segment)
  then have run: "run p (seg @ c # cs) = run (end_line c (err', q')) cs"
    using end_line_step [of "p\<lparr>line := line p @ seg\<rparr>" c] c p q' by simp
  show "is_error err \<Longrightarrow> view (run p (seg @ c # cs)) = view (q\<lparr>failed := err\<rparr>)"
    unfolding run eq by (simp add: end_line_def run_failed view_def)
  show "\<not> is_error err \<Longrightarrow>
       run p (seg @ c # cs) = run (q\<lparr>failed := err, line := [], skip_lf := c = CR\<rparr>) cs"
    unfolding run eq by (simp add: end_line_def)
qed

definition line_fits :: "sse_parser \<Rightarrow> bool" where
  "line_fits p \<longleftrightarrow> length (line p) \<le> max_line_size p"

text \<open>A round does what the byte steps do on the bytes it consumes.\<close>

lemma view_eq_failed: "view p = view q \<Longrightarrow> failed p = failed q"
  by (metis view_failed)

lemma view_run_ended:
  assumes "view (run p as) = view q" "is_error (failed q)"
  shows "view (run p (as @ bs)) = view q"
  using assms view_eq_failed [OF assms(1)] by (simp add: run_failed)

lemma feed_round_run:
  assumes p: "\<not> is_error (failed p)" "line_fits p" and bs: "bs \<noteq> []"
  shows "case feed_round bs p of
      (p', None) \<Rightarrow> view (run p bs) = view p'
    | (p', Some rest) \<Rightarrow> run p bs = run p' rest \<and> \<not> is_error (failed p') \<and> line_fits p'"
proof -
  define p1 where "p1 = p\<lparr>skip_lf := False\<rparr>"
  define bs1 where "bs1 = (if skip_lf p \<and> hd bs = LF then tl bs else bs)"
  define e where "e = find_idx line_end bs1"
  define n where "n = (case e of None \<Rightarrow> length bs1 | Some i \<Rightarrow> i)"
  have p1: "\<not> is_error (failed p1)" "\<not> skip_lf p1" "length (line p1) \<le> max_line_size p1"
    using p by (simp_all add: p1_def line_fits_def)
  have run: "run p bs = run p1 bs1"
    using run_drop_lf [OF p(1), of bs] bs by (auto simp: p1_def bs1_def)
  have seg: "\<forall>c \<in> set (take n bs1). \<not> line_end c"
    by (auto simp: n_def e_def find_idx_None split: option.splits dest: find_idx_SomeD)
  have nl: "n \<le> length bs1"
    by (auto simp: n_def e_def split: option.splits dest: find_idx_SomeD)
  note unfold = feed_round_def [of bs p, folded p1_def bs1_def, unfolded Let_def, folded e_def,
      folded n_def]
  consider "bs1 = []" | (long) "bs1 \<noteq> []" "length (line p1) + n > max_line_size p1"
    | (part) "bs1 \<noteq> []" "length (line p1) + n \<le> max_line_size p1" "e = None"
    | (full) i where "bs1 \<noteq> []" "length (line p1) + n \<le> max_line_size p1" "e = Some i"
    by fastforce
  then show ?thesis
  proof cases
    case 1
    then show ?thesis by (simp add: unfold run)
  next
    case long
    then have "feed_round bs p = (p1\<lparr>failed := line_too_long\<rparr>, None)"
      unfolding unfold using p1(3) by auto
    moreover have "view (run p1 (take n bs1)) = view (p1\<lparr>failed := line_too_long\<rparr>)"
      using run_long_segment [OF seg p1] long nl by (simp add: view_def)
    then have "view (run p1 (take n bs1 @ drop n bs1)) = view (p1\<lparr>failed := line_too_long\<rparr>)"
      by (rule view_run_ended) simp
    ultimately show ?thesis by (simp add: run)
  next
    case part
    then have "feed_round bs p = (p1\<lparr>line := line p1 @ bs1\<rparr>, None)"
      unfolding unfold by auto
    moreover have "run p1 bs1 = p1\<lparr>line := line p1 @ bs1\<rparr>"
      using run_segment [OF seg p1(1,2)] part by (simp add: n_def)
    ultimately show ?thesis by (simp add: run)
  next
    case full
    then have i: "n = i" "i < length bs1" "line_end (bs1 ! i)"
      by (auto simp: n_def e_def dest: find_idx_SomeD)
    obtain err q where r: "process_line (if line p1 = [] then take i bs1 else line p1 @ take i bs1)
        (p1\<lparr>line := (if line p1 = [] then [] else line p1 @ take i bs1)\<rparr>) = (err, q)"
      by (metis surj_pair)
    have bs1: "bs1 = take i bs1 @ bs1 ! i # drop (i + 1) bs1"
      using i(2) by (simp add: id_take_nth_drop)
    have round: "feed_round bs p = (if is_error err then (q\<lparr>failed := err\<rparr>, None)
        else (q\<lparr>failed := err, line := [], skip_lf := bs1 ! i = CR\<rparr>, Some (drop (i + 1) bs1)))"
      unfolding unfold using full i r by (auto split: if_splits)
    have "length (line p1) + length (take i bs1) \<le> max_line_size p1" using full i by simp
    note line = feed_line [OF seg [unfolded i(1)] i(3) p1(1,2) this r, of "drop (i + 1) bs1", folded bs1]
    then show ?thesis
      by (cases "is_error err") (simp_all add: round run line_fits_def)
  qed
qed

lemma feed_loop_run:
  "\<not> is_error (failed p) \<Longrightarrow> line_fits p \<Longrightarrow> view (feed_loop bs p) = view (run p bs)"
proof (induction bs p rule: feed_loop.induct)
  case (1 bs p)
  show ?case
  proof (cases "bs = []")
    case False
    with 1 feed_round_run [OF 1(2,3) False] show ?thesis
      by (subst feed_loop.simps) (auto split: prod.splits option.splits)
  qed (simp add: feed_loop.simps)
qed

lemma end_line_fits: "line_fits (snd r) \<Longrightarrow> line_fits (end_line c r)"
  by (cases r) (simp add: end_line_def line_fits_def)

lemma process_line_fits: "line_fits (snd (process_line v p)) \<longleftrightarrow> line_fits p"
  by (simp add: line_fits_def process_line_frame)

lemma step_byte_fits: "line_fits p \<Longrightarrow> line_fits (step_byte p c)"
proof -
  assume p: "line_fits p"
  then have "line_fits (p\<lparr>skip_lf := False\<rparr>)" by (simp add: line_fits_def)
  then have "line_fits (end_line c (process_line (line p) (p\<lparr>skip_lf := False\<rparr>)))"
    by (intro end_line_fits) (simp add: process_line_fits)
  with p show ?thesis by (simp add: step_byte_def Let_def) (simp add: line_fits_def)
qed

lemma run_fits: "line_fits p \<Longrightarrow> line_fits (run p bs)"
  by (induction bs arbitrary: p) (auto simp: step_byte_fits)

lemma feed_run: "line_fits p \<Longrightarrow> view (snd (feed p bs)) = view (run p bs)"
  by (simp add: feed_def Let_def feed_loop_run run_failed)

lemma view_ok: "view p = view q \<Longrightarrow> \<not> is_error (failed p) \<Longrightarrow> p = q"
  by (metis view_def view_failed)

lemma feed_result: "fst (feed p bs) = (let e = failed (snd (feed p bs)) in if is_error e then e else no_error)"
  by (simp add: feed_def Let_def)

text \<open>Feeding a sequence of chunks, whatever each call returns.\<close>

definition feed_all :: "sse_parser \<Rightarrow> bytes list \<Rightarrow> sse_parser" where
  "feed_all p chunks = foldl (\<lambda>q c. snd (feed q c)) p chunks"

lemma feed_all_simps [simp]: "feed_all p [] = p" "feed_all p (c # cs) = feed_all (snd (feed p c)) cs"
  by (simp_all add: feed_all_def)

lemma feed_all_run: "line_fits p \<or> is_error (failed p) \<Longrightarrow> view (feed_all p chunks) = view (run p (concat chunks))"
proof (induction chunks arbitrary: p)
  case (Cons c cs)
  show ?case
  proof (cases "is_error (failed p)")
    case True
    then have "snd (feed p c) = p" by (simp add: feed_def)
    with Cons.IH [of p] True show ?thesis by (simp add: run_failed)
  next
    case False
    then have fits: "line_fits p" using Cons.prems by simp
    have v: "view (snd (feed p c)) = view (run p c)" using fits by (rule feed_run)
    show ?thesis
    proof (cases "is_error (failed (snd (feed p c)))")
      case True
      then have "view (feed_all (snd (feed p c)) cs) = view (snd (feed p c))"
        using Cons.IH [of "snd (feed p c)"] by (simp add: run_failed)
      moreover have "is_error (failed (run p c))" using True view_eq_failed [OF v] by simp
      ultimately show ?thesis using v by (simp add: run_failed)
    next
      case False
      then have eq: "snd (feed p c) = run p c" using view_ok [OF v] by simp
      have "line_fits (run p c)" using fits by (rule run_fits)
      then have "view (feed_all (run p c) cs) = view (run (run p c) (concat cs))"
        by (intro Cons.IH) simp
      then show ?thesis by (simp only: feed_all_simps concat.simps run_simps(3) eq)
    qed
  qed
qed simp

section \<open>Reading what the writer printed\<close>

definition idle :: "sse_parser \<Rightarrow> bool" where
  "idle p \<longleftrightarrow> \<not> is_error (failed p) \<and> \<not> skip_lf p \<and> line p = []"

definition cleared :: "sse_parser \<Rightarrow> sse_parser" where
  "cleared p = p\<lparr>first_line := False, failed := no_error\<rparr>"

lemma run_text_line:
  assumes "idle p" "\<forall>c \<in> set seg. \<not> line_end c" "length seg \<le> max_line_size p"
    "process_line seg p = (no_error, q)"
  shows "run p (seg @ LF # rest) = run (q\<lparr>failed := no_error\<rparr>) rest" "idle (q\<lparr>failed := no_error\<rparr>)"
proof -
  have p: "p\<lparr>line := []\<rparr> = p" using assms(1) by (cases p) (simp add: idle_def)
  have q: "line q = []" "\<not> skip_lf q"
    using process_line_frame(2,4) [of seg p] assms(1,4) by (simp_all add: idle_def)
  have "q\<lparr>failed := no_error, line := [], skip_lf := LF = CR\<rparr> = q\<lparr>failed := no_error\<rparr>"
    using q by (cases q) simp
  moreover have pl: "process_line (if line p = [] then seg else line p @ seg)
      (p\<lparr>line := (if line p = [] then [] else line p @ seg)\<rparr>) = (no_error, q)"
    using assms(1,4) by (simp only: idle_def p simp_thms if_True)
  ultimately show "run p (seg @ LF # rest) = run (q\<lparr>failed := no_error\<rparr>) rest"
    using feed_line(2) [OF assms(2) _ _ _ _ pl, of LF rest] assms(1,3)
    by (simp add: idle_def line_end_def del: run_simps)
  show "idle (q\<lparr>failed := no_error\<rparr>)" using q by (simp add: idle_def)
qed

lemma process_named_line:
  assumes "field \<in> {''data'', ''event'', ''id'', ''retry''}"
  shows "process_line (field @ '': '' @ v) p = process_field field v (p\<lparr>first_line := False\<rparr>)"
proof -
  have "CHR '':'' \<notin> set field" "field \<noteq> []" "hd field \<noteq> CHR '':''" "hd field \<noteq> CHR 0xEF"
    using assms by auto
  moreover from this have "find_char CHR '':'' (field @ CHR '':'' # w) = Some (length field)" for w
    by (simp add: find_char_split)
  moreover have "\<not> prefix byte_order_mark (field @ w)" for w
    using calculation(2,4) by (cases field) (auto simp: byte_order_mark_def)
  ultimately show ?thesis
    by (simp add: process_line_def Let_def substr_def)
qed

lemma exceeds_sum: "exceeds n ns \<longleftrightarrow> sum_list ns > n"
  by (induction n ns rule: exceeds.induct) auto

lemma format_data_snoc: "format_data s = ''data: '' @ (case find_char LF s of None \<Rightarrow> s @ [LF]
    | Some e \<Rightarrow> take e s @ LF # format_data (drop (Suc e) s))"
  by (subst format_data.simps) (simp add: substr_def split: option.splits)

lemma run_data_line:
  assumes "idle p" "\<forall>c \<in> set v. \<not> line_end c" "length v + 6 \<le> max_line_size p"
    "length (pdata p) + length v + 1 + length (event_type p) + length (last_id p) \<le> max_event_size p"
  shows "run p (''data: '' @ v @ LF # rest) = run ((cleared p)\<lparr>pdata := pdata p @ v @ [LF]\<rparr>) rest"
    "idle ((cleared p)\<lparr>pdata := pdata p @ v @ [LF]\<rparr>)"
proof -
  have pl: "process_line (''data: '' @ v) p = (no_error, p\<lparr>first_line := False, pdata := pdata p @ v @ [LF]\<rparr>)"
    using process_named_line [of "''data''" v p] assms(4) by (simp add: process_field_def exceeds_sum)
  have eq: "p\<lparr>first_line := False, pdata := d, failed := no_error\<rparr> = (cleared p)\<lparr>pdata := d\<rparr>" for d
    by (simp add: cleared_def)
  have "\<forall>c \<in> set (''data: '' @ v). \<not> line_end c" "length (''data: '' @ v) \<le> max_line_size p"
    using assms(2,3) by (auto simp: line_end_def)
  from run_text_line(1) [OF assms(1) this pl, of rest, unfolded eq]
    run_text_line(2) [OF assms(1) this pl, unfolded eq]
  show "run p (''data: '' @ v @ LF # rest) = run ((cleared p)\<lparr>pdata := pdata p @ v @ [LF]\<rparr>) rest"
    "idle ((cleared p)\<lparr>pdata := pdata p @ v @ [LF]\<rparr>)" by simp_all
qed

lemma run_format_data:
  assumes "idle p" "CR \<notin> set s" "length s + 6 \<le> max_line_size p"
    "length (pdata p) + length s + 1 + length (event_type p) + length (last_id p) \<le> max_event_size p"
  shows "run p (format_data s @ rest) = run ((cleared p)\<lparr>pdata := pdata p @ s @ [LF]\<rparr>) rest
    \<and> idle ((cleared p)\<lparr>pdata := pdata p @ s @ [LF]\<rparr>)"
  using assms
proof (induction s arbitrary: p rule: length_induct)
  case (1 s)
  show ?case
  proof (cases "find_char LF s")
    case None
    then have "\<forall>c \<in> set s. \<not> line_end c" using 1(3) by (auto simp: line_end_def find_char_None)
    from run_data_line(1) [OF 1(2) this 1(4,5), of rest] run_data_line(2) [OF 1(2) this 1(4,5)]
    show ?thesis by (simp add: format_data_snoc None del: run_simps)
  next
    case (Some e)
    then obtain us vs where s: "s = us @ LF # vs" "LF \<notin> set us" "length us = e"
      by (auto elim: find_char_SomeE)
    let ?p = "(cleared p)\<lparr>pdata := pdata p @ us @ [LF]\<rparr>"
    have us: "\<forall>c \<in> set us. \<not> line_end c" using s 1(3) by (auto simp: line_end_def)
    have "length us + 6 \<le> max_line_size p"
      "length (pdata p) + length us + 1 + length (event_type p) + length (last_id p) \<le> max_event_size p"
      using 1(4,5) s by simp_all
    note line = run_data_line(1) [OF 1(2) us this, of "format_data vs @ rest"]
      run_data_line(2) [OF 1(2) us this]
    have "run ?p (format_data vs @ rest) = run ((cleared ?p)\<lparr>pdata := pdata ?p @ vs @ [LF]\<rparr>) rest
      \<and> idle ((cleared ?p)\<lparr>pdata := pdata ?p @ vs @ [LF]\<rparr>)"
      using 1(1) [rule_format, of vs ?p] line(2) 1(3,4,5) s by (simp add: cleared_def)
    moreover have "(cleared ?p)\<lparr>pdata := pdata ?p @ vs @ [LF]\<rparr> = (cleared p)\<lparr>pdata := pdata p @ s @ [LF]\<rparr>"
      by (simp add: cleared_def s)
    moreover have "format_data s = ''data: '' @ us @ LF # format_data vs"
      using Some s by (simp add: format_data_snoc)
    ultimately show ?thesis using line(1) by (simp del: run_simps)
  qed
qed

text \<open>What the parser must hand over for an event, and when an event can be written at all.\<close>

definition received :: "sse_parser \<Rightarrow> sse_event \<Rightarrow> sse_event" where
  "received p ev = ev\<lparr>ev_type := (if ev_type ev = [] then ''message'' else ev_type ev),
     ev_id := (if ev_id ev = [] then last_id p else ev_id ev)\<rparr>"

definition printable_event :: "sse_event \<Rightarrow> bool" where
  "printable_event ev \<longleftrightarrow> CR \<notin> set (ev_data ev) \<and> list_all (\<lambda>c. \<not> line_end c) (ev_type ev)
     \<and> list_all (\<lambda>c. \<not> line_end c \<and> c \<noteq> CHR 0x00) (ev_id ev)
     \<and> (case ev_retry ev of None \<Rightarrow> True | Some n \<Rightarrow> n \<le> milliseconds_max)"

definition between_events :: "sse_parser \<Rightarrow> bool" where
  "between_events p \<longleftrightarrow> idle p \<and> pdata p = [] \<and> event_type p = [] \<and> event_retry p = None"

lemma run_field:
  assumes "idle p" "\<forall>c \<in> set v. \<not> line_end c" "length v + length f + 2 \<le> max_line_size p"
    "f \<in> {''data'', ''event'', ''id'', ''retry''}"
    "process_field f v (p\<lparr>first_line := False\<rparr>) = (no_error, q)"
  shows "run p (f @ '': '' @ v @ LF # rest) = run (q\<lparr>failed := no_error\<rparr>) rest
    \<and> idle (q\<lparr>failed := no_error\<rparr>)"
proof -
  have "process_line (f @ '': '' @ v) p = (no_error, q)"
    using process_named_line [OF assms(4), of v p] assms(5) by simp
  moreover have "\<forall>c \<in> set f. \<not> line_end c"
    using assms(4) by (elim insertE emptyE) (simp_all add: line_end_def)
  then have "\<forall>c \<in> set (f @ '': '' @ v). \<not> line_end c" using assms(2)
    by (simp add: ball_Un line_end_def)
  moreover have "length (f @ '': '' @ v) \<le> max_line_size p" using assms(3) by simp
  ultimately show ?thesis
    using run_text_line(1) [OF assms(1), of "f @ '': '' @ v" q rest]
      run_text_line(2) [OF assms(1), of "f @ '': '' @ v" q] by (simp del: run_simps)
qed

lemma cleared_fields:
  "p\<lparr>first_line := False, event_type := v, failed := no_error\<rparr> = (cleared p)\<lparr>event_type := v\<rparr>"
  "p\<lparr>first_line := False, last_id := v, failed := no_error\<rparr> = (cleared p)\<lparr>last_id := v\<rparr>"
  "p\<lparr>first_line := False, retry_delay := r, event_retry := r', failed := no_error\<rparr> =
     (cleared p)\<lparr>retry_delay := r, event_retry := r'\<rparr>"
  by (simp_all add: cleared_def)

lemma run_type:
  assumes "idle p" "\<forall>c \<in> set v. \<not> line_end c" "length v + 7 \<le> max_line_size p" "pdata p = []"
    "length v + length (last_id p) \<le> max_event_size p"
  shows "run p (''event: '' @ v @ LF # rest) = run ((cleared p)\<lparr>event_type := v\<rparr>) rest
    \<and> idle ((cleared p)\<lparr>event_type := v\<rparr>)"
  using run_field [OF assms(1,2), of "''event''" "p\<lparr>first_line := False, event_type := v\<rparr>" rest] assms(3-5)
  by (simp add: process_field_def exceeds_sum cleared_fields del: run_simps)

lemma run_id:
  assumes "idle p" "\<forall>c \<in> set v. \<not> line_end c \<and> c \<noteq> CHR 0x00" "length v + 4 \<le> max_line_size p" "pdata p = []"
    "length v + length (event_type p) \<le> max_event_size p"
  shows "run p (''id: '' @ v @ LF # rest) = run ((cleared p)\<lparr>last_id := v\<rparr>) rest
    \<and> idle ((cleared p)\<lparr>last_id := v\<rparr>)"
proof -
  have "find_char CHR 0x00 v = None" using assms(2) by (auto simp: find_char_None)
  with run_field [OF assms(1), of v "''id''" "p\<lparr>first_line := False, last_id := v\<rparr>" rest] assms(2-5)
  show ?thesis by (simp add: process_field_def exceeds_sum cleared_fields del: run_simps)
qed

lemma run_retry:
  assumes "idle p" "n \<le> milliseconds_max" "length (to_string n) + 7 \<le> max_line_size p"
  shows "run p (''retry: '' @ to_string n @ LF # rest) =
      run ((cleared p)\<lparr>retry_delay := Some n, event_retry := Some n\<rparr>) rest
    \<and> idle ((cleared p)\<lparr>retry_delay := Some n, event_retry := Some n\<rparr>)"
proof -
  have "\<not> is_digit CR" "\<not> is_digit LF" by (simp_all add: bytes_simps)
  then have "\<forall>c \<in> set (to_string n). \<not> line_end c"
    using to_string_digit unfolding line_end_def by blast
  moreover have "parse_number 10 uint64_max (to_string n) = Some n"
    by (rule parse_number_to_string) (use assms(2) in \<open>simp add: milliseconds_max_def\<close>)
  ultimately show ?thesis
    using run_field [OF assms(1), of "to_string n" "''retry''"
        "p\<lparr>first_line := False, retry_delay := Some n, event_retry := Some n\<rparr>" rest] assms(2,3)
    by (simp add: process_field_def cleared_fields del: run_simps)
qed

lemma run_dispatch:
  assumes "idle p" "pdata p = d @ [LF]" "invoke_handlers
      \<lparr>ev_data = d, ev_type = (if event_type p = [] then ''message'' else event_type p),
        ev_id = last_id p, ev_retry = event_retry p\<rparr>
      (p\<lparr>first_line := False, pdata := [], event_type := [], event_retry := None\<rparr>) = (no_error, q)"
  shows "run p [LF] = q\<lparr>failed := no_error\<rparr>" "idle (q\<lparr>failed := no_error\<rparr>)"
proof -
  have "process_line [] p = (no_error, q)"
    using assms(2,3)
    by (cases "event_type p = []") (simp_all add: process_line_def byte_order_mark_def dispatch_def Let_def)
  with run_text_line(1) [OF assms(1), of "[]" q "[]"] run_text_line(2) [OF assms(1), of "[]" q]
  show "run p [LF] = q\<lparr>failed := no_error\<rparr>" "idle (q\<lparr>failed := no_error\<rparr>)" by simp_all
qed

text \<open>The writer's output is read with every field in turn; \<open>after_fields\<close> is the state before the
  blank line.\<close>

definition after_fields :: "sse_event \<Rightarrow> sse_parser \<Rightarrow> sse_parser" where
  "after_fields ev p = p\<lparr>first_line := False, failed := no_error, pdata := ev_data ev @ [LF],
     event_type := ev_type ev, last_id := (if ev_id ev = [] then last_id p else ev_id ev),
     retry_delay := (if ev_retry ev = None then retry_delay p else ev_retry ev),
     event_retry := ev_retry ev\<rparr>"

lemma length_format_data: "length s + 7 \<le> length (format_data s)"
proof (induction s rule: length_induct)
  case (1 s)
  show ?case
  proof (cases "find_char LF s")
    case (Some e)
    then have "e < length s" by (rule find_char_less)
    then have "length (drop (Suc e) s) < length s" by simp
    with 1 have "length (drop (Suc e) s) + 7 \<le> length (format_data (drop (Suc e) s))" by blast
    with \<open>e < length s\<close> show ?thesis
      by (simp add: format_data_snoc [of s] Some)
  qed (simp add: format_data_snoc [of s])
qed

lemma run_event:
  assumes p: "between_events p" and ev: "printable_event ev"
    and fits: "length (format_sse ev) \<le> max_line_size p"
      "length (format_sse ev) + length (last_id p) \<le> max_event_size p"
  shows "run p (format_sse ev) = run (after_fields ev p) [LF] \<and> idle (after_fields ev p)"
proof -
  define p1 where "p1 = (if ev_type ev \<noteq> [] then (cleared p)\<lparr>event_type := ev_type ev\<rparr> else p)"
  define p2 where "p2 = (if ev_id ev \<noteq> [] then (cleared p1)\<lparr>last_id := ev_id ev\<rparr> else p1)"
  define p3 where "p3 = (case ev_retry ev of None \<Rightarrow> p2
     | Some n \<Rightarrow> (cleared p2)\<lparr>retry_delay := Some n, event_retry := Some n\<rparr>)"
  define t1 where "t1 = (if ev_type ev \<noteq> [] then ''event: '' @ ev_type ev @ [LF] else [])"
  define t2 where "t2 = (if ev_id ev \<noteq> [] then ''id: '' @ ev_id ev @ [LF] else [])"
  define t3 where "t3 = (case ev_retry ev of Some n \<Rightarrow> ''retry: '' @ to_string n @ [LF] | None \<Rightarrow> [])"
  let ?d = "format_data (ev_data ev)"
  have fmt: "format_sse ev = t1 @ t2 @ t3 @ ?d @ [LF]"
    by (simp only: format_sse_def t1_def t2_def t3_def)
  have len: "length t1 + length t2 + length t3 + length (ev_data ev) + 8 \<le> length (format_sse ev)"
    using length_format_data [of "ev_data ev"] by (simp add: fmt)
  have ids: "\<forall>c \<in> set (ev_type ev). \<not> line_end c" "\<forall>c \<in> set (ev_id ev). \<not> line_end c \<and> c \<noteq> CHR 0x00"
    "CR \<notin> set (ev_data ev)"
    using ev by (auto simp: printable_event_def list_all_iff)
  have idle: "idle p" "pdata p = []" "event_type p = []" "event_retry p = None"
    using p by (simp_all add: between_events_def)
  have lt1: "ev_type ev \<noteq> [] \<Longrightarrow> length t1 = length (ev_type ev) + 8" by (simp add: t1_def)
  have lt2: "ev_id ev \<noteq> [] \<Longrightarrow> length t2 = length (ev_id ev) + 5" by (simp add: t2_def)
  have tl: "length (ev_type ev) \<le> length t1" "length (ev_id ev) \<le> length t2"
    using lt1 lt2 by (cases "ev_type ev = []"; cases "ev_id ev = []"; simp)+
  have s1: "run p (t1 @ r) = run p1 r \<and> idle p1" for r
  proof (cases "ev_type ev = []")
    case False
    have "length (ev_type ev) + 7 \<le> max_line_size p"
      "length (ev_type ev) + length (last_id p) \<le> max_event_size p"
      using len fits lt1 [OF False] by simp_all
    from run_type [OF idle(1) ids(1) this(1) idle(2) this(2), of r] False show ?thesis
      by (simp add: p1_def t1_def del: run_simps)
  qed (use idle in \<open>simp add: t1_def p1_def\<close>)
  have f1: "pdata p1 = []" "max_line_size p1 = max_line_size p" "max_event_size p1 = max_event_size p"
    "last_id p1 = last_id p" "event_type p1 = ev_type ev" "event_retry p1 = None"
    using idle by (simp_all add: p1_def cleared_def)
  have s2: "run p1 (t2 @ r) = run p2 r \<and> idle p2" for r
  proof (cases "ev_id ev = []")
    case False
    have "length (ev_id ev) + 4 \<le> max_line_size p1"
      "length (ev_id ev) + length (event_type p1) \<le> max_event_size p1"
      using len fits f1 lt2 [OF False] tl by simp_all
    from run_id [OF conjunct2 [OF s1 [of "[]"]] ids(2) this(1) f1(1) this(2), of r] False show ?thesis
      by (simp add: t2_def p2_def del: run_simps)
  qed (use s1 in \<open>simp add: t2_def p2_def\<close>)
  have f2: "pdata p2 = []" "max_line_size p2 = max_line_size p" "max_event_size p2 = max_event_size p"
    "last_id p2 = (if ev_id ev = [] then last_id p else ev_id ev)" "event_type p2 = ev_type ev"
    "event_retry p2 = None"
    using f1 by (simp_all add: p2_def cleared_def)
  have s3: "run p2 (t3 @ r) = run p3 r \<and> idle p3" for r
  proof (cases "ev_retry ev")
    case (Some n)
    then have "n \<le> milliseconds_max" using ev by (simp add: printable_event_def)
    moreover have "length (to_string n) + 7 \<le> max_line_size p2"
      using Some len fits f2 by (simp add: t3_def)
    ultimately show ?thesis using run_retry [OF conjunct2 [OF s2 [of "[]"]], of n r] Some
      by (simp add: t3_def p3_def del: run_simps)
  qed (use s2 in \<open>simp add: t3_def p3_def\<close>)
  have f3: "pdata p3 = []" "max_line_size p3 = max_line_size p" "max_event_size p3 = max_event_size p"
    "last_id p3 = (if ev_id ev = [] then last_id p else ev_id ev)" "event_type p3 = ev_type ev"
    "event_retry p3 = ev_retry ev"
    using f2 by (simp_all add: p3_def cleared_def split: option.splits)
  have "(cleared p3)\<lparr>pdata := pdata p3 @ ev_data ev @ [LF]\<rparr> = after_fields ev p"
    using f3 idle by (simp add: after_fields_def cleared_def p1_def p2_def p3_def split: option.splits)
  moreover have "length (pdata p3) + length (ev_data ev) + 1 + length (event_type p3) + length (last_id p3)
      \<le> max_event_size p3"
    using f3 len fits tl by auto
  moreover have "length (ev_data ev) + 6 \<le> max_line_size p3" using f3 len fits by simp
  ultimately have "run p3 (?d @ [LF]) = run (after_fields ev p) [LF] \<and> idle (after_fields ev p)"
    using run_format_data [of p3 "ev_data ev" "[LF]"] s3 ids(3) by (simp del: run_simps)
  then show ?thesis unfolding fmt using s1 s2 s3 by (simp del: run_simps)
qed

lemma invoke_message_only:
  assumes "message_handler p = Some h" "h ev = Returns" "event_handlers p (ev_type ev) = None"
  shows "invoke_handlers ev p = (no_error, p\<lparr>calls := calls p @ [(On_message, ev)]\<rparr>)"
  using assms by (simp add: invoke_handlers_def callback_error_def)

lemma feed_ok:
  assumes "\<not> is_error (failed p)" "line_fits p" "\<not> is_error (failed (run p bs))"
  shows "feed p bs = (no_error, run p bs)"
proof -
  have "view (run p bs) = view (snd (feed p bs))" using feed_run [OF assms(2)] by simp
  then have "snd (feed p bs) = run p bs" using view_ok assms(3) by metis
  then show ?thesis using feed_result [of p bs] assms(3) by (simp add: Let_def prod_eq_iff)
qed

text \<open>The parser behind a printed event, which its message handler has been given.\<close>

definition after_event :: "sse_event \<Rightarrow> sse_parser \<Rightarrow> sse_parser" where
  "after_event ev p = (after_fields ev p)\<lparr>first_line := False, pdata := [], event_type := [], event_retry := None,
     calls := calls p @ [(On_message, received p ev)], failed := no_error\<rparr>"

lemma run_printed_event:
  assumes "between_events p" "printable_event ev" "length (format_sse ev) \<le> max_line_size p"
    "length (format_sse ev) + length (last_id p) \<le> max_event_size p"
    "message_handler p = Some h" "h (received p ev) = Returns" "event_handlers p (ev_type (received p ev)) = None"
  shows "run p (format_sse ev) = after_event ev p"
proof -
  let ?a = "after_fields ev p"
  let ?q = "?a\<lparr>first_line := False, pdata := [], event_type := [], event_retry := None\<rparr>"
  have r: "run p (format_sse ev) = run ?a [LF]" "idle ?a" using run_event [OF assms(1-4)] by auto
  have "invoke_handlers (received p ev) ?q = (no_error, ?q\<lparr>calls := calls ?q @ [(On_message, received p ev)]\<rparr>)"
    by (rule invoke_message_only [of _ h]) (use assms(5-7) in \<open>simp_all add: after_fields_def\<close>)
  moreover have "received p ev = \<lparr>ev_data = ev_data ev,
      ev_type = (if event_type ?a = [] then ''message'' else event_type ?a),
      ev_id = last_id ?a, ev_retry = event_retry ?a\<rparr>"
    by (simp add: received_def after_fields_def)
  ultimately have "run p (format_sse ev) = ?q\<lparr>calls := calls ?q @ [(On_message, received p ev)], failed := no_error\<rparr>"
    using run_dispatch(1) [OF r(2), of "ev_data ev"] r(1) by (simp add: after_fields_def)
  then show ?thesis by (simp add: after_event_def after_fields_def)
qed

lemma id_line_run:
  assumes "between_events p" "list_all (\<lambda>c. \<not> line_end c \<and> c \<noteq> CHR 0x00) v"
    "length v + 4 \<le> max_line_size p" "length v \<le> max_event_size p"
  shows "run p (''id: '' @ v @ [LF]) = (cleared p)\<lparr>last_id := v\<rparr>"
  using run_id [of p v "[]"] assms by (simp add: between_events_def list_all_iff)

text \<open>An identifier whose event never arrives is kept when the stream ends.\<close>

lemma undelivered_id:
  assumes "between_events p" "list_all (\<lambda>c. \<not> line_end c \<and> c \<noteq> CHR 0x00) v"
    "length v + 4 \<le> max_line_size p" "length v \<le> max_event_size p"
  shows "last_id (snd (finish (snd (feed p (''id: '' @ v @ [LF]))))) = v
    \<and> calls (snd (finish (snd (feed p (''id: '' @ v @ [LF]))))) = calls p"
proof -
  have p: "idle p" using assms(1) by (simp add: between_events_def)
  have "feed p (''id: '' @ v @ [LF]) = (no_error, (cleared p)\<lparr>last_id := v\<rparr>)"
    using feed_ok [of p "''id: '' @ v @ [LF]"] id_line_run [OF assms] p by (simp add: idle_def line_fits_def cleared_def)
  then show ?thesis by (simp add: finish_def cleared_def)
qed

section \<open>Memory bounds\<close>

definition event_fits :: "sse_parser \<Rightarrow> bool" where
  "event_fits p \<longleftrightarrow> length (pdata p) + length (event_type p) + length (last_id p) \<le> max_event_size p"

lemma invoke_handlers_fits [simp]: "event_fits (snd (invoke_handlers ev p)) = event_fits p"
  by (simp add: invoke_handlers_def event_fits_def Let_def split: option.splits)

lemma process_line_event_fits: "event_fits p \<Longrightarrow> event_fits (snd (process_line v p))"
proof -
  assume p: "event_fits p"
  have "event_fits (snd (dispatch q))" if "event_fits q" for q
    using that by (auto simp: dispatch_def Let_def) (auto simp: event_fits_def)
  moreover have "event_fits (snd (process_field f w q))" if "event_fits q" for f w q
    using that by (auto simp: process_field_def event_fits_def exceeds_sum split: option.splits)
  moreover have "event_fits (p\<lparr>first_line := False\<rparr>)" using p by (simp add: event_fits_def)
  ultimately show ?thesis by (simp add: process_line_def Let_def)
qed

definition bounded :: "sse_parser \<Rightarrow> bool" where
  "bounded p \<longleftrightarrow> line_fits p \<and> event_fits p"

lemma bounded_updates [simp]:
  "bounded (p\<lparr>failed := e\<rparr>) = bounded p" "bounded (p\<lparr>skip_lf := b\<rparr>) = bounded p"
  "line_fits (p\<lparr>failed := e\<rparr>) = line_fits p"
  by (simp_all add: bounded_def line_fits_def event_fits_def)

lemma feed_round_bounded: "bounded p \<Longrightarrow> bounded (fst (feed_round bs p))"
proof -
  assume p: "bounded p"
  have line: "bounded (p\<lparr>skip_lf := False, line := l\<rparr>)" if "length l \<le> max_line_size p" for l
    using that p by (simp add: bounded_def line_fits_def event_fits_def)
  have fin: "bounded (q\<lparr>failed := e, line := [], skip_lf := b\<rparr>)" if "bounded q" for q e b
    using that by (simp add: bounded_def line_fits_def event_fits_def)
  have "bounded (snd (process_line v q))" if "bounded q" for v q
    using that by (simp add: bounded_def process_line_fits process_line_event_fits)
  then have proc: "bounded r" if "process_line v q = (e, r)" "bounded q" for v q e r
    using that by (metis snd_conv)
  define p1 where "p1 = p\<lparr>skip_lf := False\<rparr>"
  define bs1 where "bs1 = (if skip_lf p \<and> hd bs = LF then tl bs else bs)"
  define e where "e = find_idx line_end bs1"
  define n where "n = (case e of None \<Rightarrow> length bs1 | Some i \<Rightarrow> i)"
  have p1: "bounded p1" using p by (simp add: p1_def)
  note unfold = feed_round_def [of bs p, folded p1_def bs1_def, unfolded Let_def, folded e_def,
      folded n_def]
  show ?thesis
  proof (cases "bs1 = [] \<or> length (line p1) + n > max_line_size p1")
    case True
    then show ?thesis unfolding unfold using p1 by auto
  next
    case False
    then have room: "\<not> (n > max_line_size p1 \<or> length (line p1) > max_line_size p1 - n)" "bs1 \<noteq> []"
      by auto
    show ?thesis
    proof (cases e)
      case None
      then have "fst (feed_round bs p) = p1\<lparr>line := line p1 @ bs1\<rparr>" unfolding unfold using room by simp
      moreover have "bounded (p1\<lparr>line := line p1 @ bs1\<rparr>)"
        unfolding p1_def by (rule line) (use False None in \<open>simp add: n_def p1_def\<close>)
      ultimately show ?thesis by simp
    next
      case (Some i)
      let ?p2 = "p1\<lparr>line := (if line p1 = [] then [] else line p1 @ take i bs1)\<rparr>"
      have "bounded ?p2"
        unfolding p1_def by (rule line) (use False Some in \<open>auto simp: n_def p1_def\<close>)
      moreover obtain err q where
        r: "process_line (if line p1 = [] then take i bs1 else line ?p2) ?p2 = (err, q)"
        by (metis surj_pair)
      ultimately have "bounded q" by (intro proc [OF r])
      with fin room r show ?thesis unfolding unfold by (simp add: Some)
    qed
  qed
qed

lemma feed_loop_bounded: "bounded p \<Longrightarrow> bounded (feed_loop bs p)"
proof (induction bs p rule: feed_loop.induct)
  case (1 bs p)
  show ?case
    using 1 feed_round_bounded [of p bs]
    by (subst feed_loop.simps) (auto split: prod.splits option.splits)
qed

lemma feed_all_bounded: "bounded p \<Longrightarrow> bounded (feed_all p chunks)"
  by (induction chunks arbitrary: p) (auto simp: feed_def Let_def feed_loop_bounded)

section \<open>Properties\<close>

text \<open>C18: However the transport splits a stream into chunks, the parser makes the same callbacks in the
  same order, keeps the same identifier and delay and fails with the same error as on the whole
  stream at once; only the unread text of the line at a failure may differ.\<close>

theorem feed_chunks: "view (feed_all (sse_reset p) chunks) = view (snd (feed (sse_reset p) (concat chunks)))"
proof -
  have "line_fits (sse_reset p)" by (simp add: sse_reset_def line_fits_def)
  then show ?thesis using feed_run [of "sse_reset p" "concat chunks"] feed_all_run by simp
qed

text \<open>A parser between events that reads what \<open>format_sse\<close> wrote for an event without stray line ends
  calls its message handler exactly once, with that event, and is between events again.\<close>

lemma parse_format_sse:
  assumes "between_events p" "printable_event ev"
    "length (format_sse ev) \<le> max_line_size p"
    "length (format_sse ev) + length (last_id p) \<le> max_event_size p"
    "message_handler p = Some h" "h (received p ev) = Returns"
    "event_handlers p (ev_type (received p ev)) = None"
  shows "fst (feed p (format_sse ev)) = no_error
    \<and> calls (snd (feed p (format_sse ev))) = calls p @ [(On_message, received p ev)]
    \<and> between_events (snd (feed p (format_sse ev)))"
proof -
  have run: "run p (format_sse ev) = after_event ev p" by (rule run_printed_event [OF assms])
  have "feed p (format_sse ev) = (no_error, run p (format_sse ev))"
    by (rule feed_ok) (use assms(1) in \<open>simp_all add: run after_event_def between_events_def idle_def line_fits_def\<close>)
  then show ?thesis
    using assms(1) by (simp add: run after_event_def between_events_def idle_def after_fields_def)
qed

theorem parse_format_sse_witness:
  "calls (snd (feed (on_message (\<lambda>_. Returns) (sse_parser_new 100 100 ''7''))
       (format_sse \<lparr>ev_data = [CHR ''a'', LF, CHR ''b''], ev_type = [], ev_id = [], ev_retry = None\<rparr>))) =
     [(On_message, \<lparr>ev_data = [CHR ''a'', LF, CHR ''b''], ev_type = ''message'', ev_id = ''7'', ev_retry = None\<rparr>)]"
  using parse_format_sse [of "on_message (\<lambda>_. Returns) (sse_parser_new 100 100 ''7'')"
      "\<lparr>ev_data = [CHR ''a'', LF, CHR ''b''], ev_type = [], ev_id = [], ev_retry = None\<rparr>" "\<lambda>_. Returns"]
  by (simp add: on_message_def sse_parser_new_def between_events_def idle_def printable_event_def
      received_def format_sse_def format_data_snoc find_char_def)

text \<open>C19: The parser never holds more text than its limits allow: the pending line stays within the
  line limit, and data, type and identifier together within the event limit, from any chunks.\<close>

theorem parser_bounded:
  "length (initial_id p) \<le> max_event_size p \<Longrightarrow> bounded (feed_all (sse_reset p) chunks)"
  by (rule feed_all_bounded) (simp add: bounded_def line_fits_def event_fits_def sse_reset_def)

theorem parser_bounded_witness:
  "bounded (feed_all (sse_reset (sse_parser_new 10 20 ''id'')) [''data'', '': x'', [LF, LF]])"
  by (rule parser_bounded) (simp add: sse_parser_new_def)

end
