(* ===== verification/Sse_Client.thy ===== *)
theory Sse_Client
  imports Sse Http_Message
begin

text \<open>
  The reconnecting client of an event stream, \<^verbatim>\<open>SseClient::Impl\<close> of \<^verbatim>\<open>src/sse.cpp\<close>, around the parser of
  theory \<open>Sse\<close>.  The HTTP client below it is seen through its callbacks: for the request of a round the
  network gives the heads and the data they are called with, in order, until one refuses, and the result
  that depends on whether one did.  The moments at which another thread calls \<^verbatim>\<open>stop\<close> are part of the round,
  and so is nothing else: the client is run on a list of rounds.
\<close>

section \<open>The stream of one round\<close>

datatype delivery = Got_head response | Got_data bytes | Stop_called

record sse_round =
  deliveries :: "delivery list"
  round_result :: "bool \<Rightarrow> response result"
  stop_in_pause :: "nat option"

record stream_state =
  ss_parser :: sse_parser
  ss_parser_error :: error_info
  ss_head_error :: error_info
  ss_valid :: bool
  ss_running :: bool

definition is_redirect :: "response \<Rightarrow> bool" where
  "is_redirect h \<longleftrightarrow> status h \<in> {301, 302, 303, 307, 308} \<and> headers_contains (res_headers h) ''Location''"

definition open_error :: "outcome \<Rightarrow> error_info" where
  "open_error r = (case r of
     Returns \<Rightarrow> no_error
   | Throws what \<Rightarrow> error_of E_internal (''SSE open callback failed: '' @ what)
   | Throws_other \<Rightarrow> error_of E_internal ''SSE open callback failed'')"

definition event_stream_type :: "response \<Rightarrow> bool" where
  "event_stream_type h \<longleftrightarrow>
     (let t = lower (headers_get (res_headers h) ''Content-Type'' [])
      in trim (substr t 0 (find_char CHR '';'' t)) = ''text/event-stream'')"

text \<open>\<^verbatim>\<open>on_response_head\<close>: whether the transfer goes on.\<close>

definition receive_head :: "(response \<Rightarrow> outcome) option \<Rightarrow> response \<Rightarrow> stream_state \<Rightarrow> bool \<times> stream_state" where
  "receive_head open_handler h s =
     (if is_redirect h then (True, s)
      else if status h \<noteq> 200
      then (False, s\<lparr>ss_head_error := error_of E_protocol (''SSE endpoint returned HTTP '' @ to_string (nat (status h)))\<rparr>)
      else if \<not> event_stream_type h
      then (False, s\<lparr>ss_head_error := error_of E_protocol ''SSE endpoint has an invalid Content-Type''\<rparr>)
      else
        let s1 = s\<lparr>ss_valid := True\<rparr>;
            e = (case open_handler of None \<Rightarrow> no_error | Some f \<Rightarrow> open_error (f h))
        in if is_error e then (False, s1\<lparr>ss_head_error := e\<rparr>) else (True, s1))"

text \<open>\<^verbatim>\<open>on_data\<close>.\<close>

definition receive_data :: "bytes \<Rightarrow> stream_state \<Rightarrow> bool \<times> stream_state" where
  "receive_data bs s =
     (if \<not> ss_valid s then (True, s)
      else (case feed (ss_parser s) bs of
              (e, p) \<Rightarrow> (\<not> is_error e \<and> ss_running s, s\<lparr>ss_parser := p, ss_parser_error := e\<rparr>)))"

text \<open>The transfer; the first component says that a callback refused.\<close>

fun transfer_stream :: "(response \<Rightarrow> outcome) option \<Rightarrow> delivery list \<Rightarrow> stream_state \<Rightarrow> bool \<times> stream_state" where
  "transfer_stream f [] s = (False, s)"
| "transfer_stream f (Stop_called # ds) s = transfer_stream f ds (s\<lparr>ss_running := False\<rparr>)"
| "transfer_stream f (Got_head h # ds) s =
     (case receive_head f h s of (go_on, s1) \<Rightarrow> if go_on then transfer_stream f ds s1 else (True, s1))"
| "transfer_stream f (Got_data bs # ds) s =
     (case receive_data bs s of (go_on, s1) \<Rightarrow> if go_on then transfer_stream f ds s1 else (True, s1))"

section \<open>The client\<close>

record sse_client =
  sc_request :: request
  sc_reconnect :: bool
  sc_initial_retry :: nat
  sc_max_retry :: nat
  sc_message :: "handler option"
  sc_events :: "bytes \<Rightarrow> handler option"
  sc_open :: "(response \<Rightarrow> outcome) option"
  sc_running :: bool
  sc_delay :: nat
  sc_last_id :: bytes
  sc_calls :: "(callback \<times> sse_event) list"
  sc_log :: "(request \<times> error_info \<times> nat) list"

definition client_parser :: "sse_client \<Rightarrow> sse_parser" where
  "client_parser c =
     (sse_parser_new (1024 * 1024) (8 * 1024 * 1024) (sc_last_id c))
       \<lparr>message_handler := Some (\<lambda>ev. case sc_message c of None \<Rightarrow> Returns | Some h \<Rightarrow> h ev),
        event_handlers := sc_events c\<rparr>"

definition stream_request :: "sse_client \<Rightarrow> request" where
  "stream_request c =
     (let r = sc_request c;
          h = headers_set (headers_set (req_headers r) ''Accept'' ''text/event-stream'') ''Cache-Control'' ''no-cache''
      in r\<lparr>req_headers := (if sc_last_id c \<noteq> [] then headers_set h ''Last-Event-ID'' (sc_last_id c) else h)\<rparr>)"

definition round_error :: "stream_state \<Rightarrow> response result \<Rightarrow> error_info" where
  "round_error s r =
     (if is_error (ss_head_error s) then ss_head_error s
      else if is_error (ss_parser_error s) then ss_parser_error s
      else (case r of
              Inl e \<Rightarrow> e
            | Inr _ \<Rightarrow> if \<not> ss_valid s then error_of E_protocol ''SSE endpoint did not open an event stream''
                else error_of E_read ''SSE connection ended''))"

text \<open>The pause, in steps of 25 milliseconds: how long it took, and whether the client still runs.\<close>

function pause_client :: "nat \<Rightarrow> nat \<Rightarrow> nat option \<Rightarrow> nat \<times> bool" where
  "pause_client remaining elapsed stop =
     (if (case stop of None \<Rightarrow> False | Some t \<Rightarrow> t \<le> elapsed) then (elapsed, False)
      else if remaining = 0 then (elapsed, True)
      else let interval = min remaining 25 in pause_client (remaining - interval) (elapsed + interval) stop)"
  by pat_completeness auto
termination
  by (relation "measure fst") auto

declare pause_client.simps [simp del]

text \<open>One round of the loop; a result ends \<^verbatim>\<open>connect\<close>.  The log holds the request, the error and the pause.\<close>

definition client_round :: "(request \<Rightarrow> sse_round) \<Rightarrow> sse_client \<Rightarrow> error_info option \<times> sse_client" where
  "client_round net c =
     (let req = stream_request c;
          rd = net req;
          s0 = \<lparr>ss_parser = client_parser c, ss_parser_error = no_error, ss_head_error = no_error, ss_valid = False,
            ss_running = True\<rparr>;
          (refused, s1) = transfer_stream (sc_open c) (deliveries rd) s0;
          s2 = (if \<not> is_error (ss_parser_error s1) \<and> ss_running s1
                then (case finish (ss_parser s1) of (e, p) \<Rightarrow> s1\<lparr>ss_parser := p, ss_parser_error := e\<rparr>) else s1);
          c1 = c\<lparr>sc_last_id := last_id (ss_parser s2), sc_calls := sc_calls c @ calls (ss_parser s2),
            sc_delay := (case retry_delay (ss_parser s2) of None \<Rightarrow> sc_delay c | Some d \<Rightarrow> min d (sc_max_retry c))\<rparr>
      in if \<not> ss_running s2 then (Some no_error, c1\<lparr>sc_running := False\<rparr>)
         else
           let e = round_error s2 (round_result rd refused)
           in if \<not> sc_reconnect c then (Some e, c1\<lparr>sc_running := False, sc_log := sc_log c @ [(req, e, 0)]\<rparr>)
              else (case pause_client (sc_delay c1) 0 (stop_in_pause rd) of
                      (slept, still) \<Rightarrow>
                        (None, c1\<lparr>sc_running := still, sc_delay := min (sc_delay c1 * 2) (sc_max_retry c),
                           sc_log := sc_log c @ [(req, e, slept)]\<rparr>)))"

text \<open>The loop over the rounds the network gives; nothing is returned while they last.\<close>

fun client_rounds :: "(request \<Rightarrow> sse_round) list \<Rightarrow> sse_client \<Rightarrow> error_info option \<times> sse_client" where
  "client_rounds nets c =
     (if \<not> sc_running c then (Some no_error, c)
      else (case nets of
              [] \<Rightarrow> (None, c)
            | net # rest \<Rightarrow> (case client_round net c of
                  (Some e, c1) \<Rightarrow> (Some e, c1) | (None, c1) \<Rightarrow> client_rounds rest c1)))"

declare client_rounds.simps [simp del]

definition sse_connect :: "(request \<Rightarrow> sse_round) list \<Rightarrow> sse_client \<Rightarrow> error_info option \<times> sse_client" where
  "sse_connect nets c =
     (if sc_running c then (Some (error_of E_protocol ''SSE client is already running''), c)
      else client_rounds nets (c\<lparr>sc_running := True, sc_delay := sc_initial_retry c\<rparr>))"

definition new_client :: "request \<Rightarrow> bool \<Rightarrow> nat \<Rightarrow> nat \<Rightarrow> bytes \<Rightarrow> sse_client" where
  "new_client req reconnect initial most id0 =
     \<lparr>sc_request = req, sc_reconnect = reconnect, sc_initial_retry = initial, sc_max_retry = most, sc_message = None,
      sc_events = (\<lambda>_. None), sc_open = None, sc_running = False, sc_delay = initial, sc_last_id = id0,
      sc_calls = [], sc_log = []\<rparr>"

definition client_on_message :: "handler \<Rightarrow> sse_client \<Rightarrow> sse_client" where
  "client_on_message h c = c\<lparr>sc_message := Some h\<rparr>"

definition client_on_event :: "bytes \<Rightarrow> handler \<Rightarrow> sse_client \<Rightarrow> sse_client" where
  "client_on_event t h c = c\<lparr>sc_events := (sc_events c)(t \<mapsto> h)\<rparr>"

definition client_on_open :: "(response \<Rightarrow> outcome) \<Rightarrow> sse_client \<Rightarrow> sse_client" where
  "client_on_open f c = c\<lparr>sc_open := Some f\<rparr>"

section \<open>Streams that arrive\<close>

lemma run_not_failed_before: "\<not> is_error (failed (run p (xs @ ys))) \<Longrightarrow> \<not> is_error (failed (run p xs))"
  using run_failed [of "run p xs" ys] by auto

lemma transfer_pieces:
  "\<not> is_error (failed (ss_parser s)) \<Longrightarrow> line_fits (ss_parser s) \<Longrightarrow> \<not> is_error (failed (run (ss_parser s) (concat pieces)))
     \<Longrightarrow> ss_valid s \<Longrightarrow> ss_running s \<Longrightarrow> ss_parser_error s = no_error \<Longrightarrow>
   transfer_stream f (map Got_data pieces) s = (False, s\<lparr>ss_parser := run (ss_parser s) (concat pieces)\<rparr>)"
proof (induction pieces arbitrary: s)
  case (Cons x xs)
  have r: "run (ss_parser s) (x @ concat xs) = run (run (ss_parser s) x) (concat xs)" by simp
  have ok: "\<not> is_error (failed (run (ss_parser s) x))" using Cons.prems(3) run_not_failed_before by simp
  have "feed (ss_parser s) x = (no_error, run (ss_parser s) x)" by (rule feed_ok [OF Cons.prems(1,2) ok])
  then have "receive_data x s = (True, s\<lparr>ss_parser := run (ss_parser s) x\<rparr>)"
    using Cons.prems(4-6) by (simp add: receive_data_def)
  moreover have "line_fits (run (ss_parser s) x)" by (rule run_fits [OF Cons.prems(2)])
  ultimately show ?case using Cons.IH [of "s\<lparr>ss_parser := run (ss_parser s) x\<rparr>"] Cons.prems ok r by simp
qed simp

text \<open>An event the client can be sent: with an identifier, and short enough for its line limit.\<close>

definition sendable :: "sse_event \<Rightarrow> bool" where
  "sendable ev \<longleftrightarrow> printable_event ev \<and> ev_id ev \<noteq> [] \<and> length (format_sse ev) \<le> 1024 * 1024"

definition seen :: "sse_event \<Rightarrow> callback \<times> sse_event" where
  "seen ev = (On_message, ev\<lparr>ev_type := (if ev_type ev = [] then ''message'' else ev_type ev)\<rparr>)"

definition listening :: "sse_parser \<Rightarrow> bool" where
  "listening p \<longleftrightarrow> between_events p \<and> max_line_size p = 1024 * 1024 \<and> max_event_size p = 8 * 1024 * 1024
     \<and> length (last_id p) \<le> 1024 * 1024 \<and> (\<exists>h. message_handler p = Some h \<and> (\<forall>ev. h ev = Returns))
     \<and> (\<forall>t. event_handlers p t = None)"

lemma id_short: "length (ev_id ev) \<le> length (format_sse ev)"
  by (simp add: format_sse_def)

lemma run_sendable:
  assumes "listening p" "sendable ev"
  shows "run p (format_sse ev) = after_event ev p" "listening (after_event ev p)"
    "calls (after_event ev p) = calls p @ [seen ev]" "last_id (after_event ev p) = ev_id ev"
proof -
  obtain h where h: "message_handler p = Some h" "\<forall>ev. h ev = Returns" using assms(1) by (auto simp: listening_def)
  show "run p (format_sse ev) = after_event ev p"
    by (rule run_printed_event [where h = h]) (use assms h in \<open>auto simp: listening_def sendable_def\<close>)
  have "length (ev_id ev) \<le> 1024 * 1024" using id_short [of ev] assms(2) by (simp add: sendable_def)
  then show "listening (after_event ev p)"
    using assms h by (auto simp: listening_def sendable_def after_event_def after_fields_def between_events_def idle_def)
  show "calls (after_event ev p) = calls p @ [seen ev]" "last_id (after_event ev p) = ev_id ev"
    using assms(2) by (simp_all add: after_event_def after_fields_def sendable_def seen_def Sse.received_def)
qed

lemma run_events:
  assumes "listening p" "\<forall>ev \<in> set evs. sendable ev"
  shows "\<exists>q. run p (concat (map format_sse evs)) = q \<and> listening q \<and> calls q = calls p @ map seen evs
    \<and> last_id q = (if evs = [] then last_id p else ev_id (last evs))"
  using assms
proof (induction evs arbitrary: p)
  case (Cons ev evs)
  note one = run_sendable [of p ev]
  have ev: "listening p" "sendable ev" using Cons.prems by simp_all
  have "run p (concat (map format_sse (ev # evs))) = run (after_event ev p) (concat (map format_sse evs))"
    using one(1) [OF ev] by (simp del: run_simps add: run_simps(3))
  then show ?case using Cons.IH [of "after_event ev p"] one(2-4) [OF ev] Cons.prems(2) by simp
qed simp

section \<open>A server that resumes\<close>

text \<open>The events behind the one with an identifier; all of them when there is none.\<close>

definition events_after :: "bytes \<Rightarrow> sse_event list \<Rightarrow> sse_event list" where
  "events_after v evs = (if v = [] then evs else tl (dropWhile (\<lambda>ev. ev_id ev \<noteq> v) evs))"

definition wanted_id :: "request \<Rightarrow> bytes" where
  "wanted_id req = headers_get (req_headers req) ''Last-Event-ID'' []"

text \<open>
  A round of a server that holds a list of events: it sends the first of those behind the identifier the
  client names and breaks off between two events, or it does not open a stream at all.
\<close>

definition refuses_stream :: "sse_round \<Rightarrow> bool" where
  "refuses_stream rd \<longleftrightarrow> Stop_called \<notin> set (deliveries rd)
     \<and> (\<forall>h. Got_head h \<in> set (deliveries rd) \<longrightarrow> is_redirect h \<or> status h \<noteq> 200 \<or> \<not> event_stream_type h)"

definition streams :: "sse_event list \<Rightarrow> nat \<Rightarrow> request \<Rightarrow> sse_round \<Rightarrow> bool" where
  "streams evs k req rd \<longleftrightarrow> (\<exists>h pieces. deliveries rd = Got_head h # map Got_data pieces \<and> status h = 200
     \<and> event_stream_type h \<and> concat pieces = concat (map format_sse (take k (events_after (wanted_id req) evs))))"

definition resumes :: "sse_event list \<Rightarrow> (request \<Rightarrow> sse_round) \<Rightarrow> bool" where
  "resumes evs net \<longleftrightarrow> (\<forall>req. refuses_stream (net req) \<or> (\<exists>k. streams evs k req (net req)))"

text \<open>A round that sends all there is, and a client that nobody stops.\<close>

definition sends_all :: "sse_event list \<Rightarrow> (request \<Rightarrow> sse_round) \<Rightarrow> bool" where
  "sends_all evs net \<longleftrightarrow> (\<forall>req. streams evs (length evs) req (net req))"

definition never_stopped :: "(request \<Rightarrow> sse_round) list \<Rightarrow> bool" where
  "never_stopped nets \<longleftrightarrow> (\<forall>net \<in> set nets. \<forall>req. stop_in_pause (net req) = None)"

lemma refused_transfer:
  "Stop_called \<notin> set ds \<Longrightarrow> \<forall>h. Got_head h \<in> set ds \<longrightarrow> is_redirect h \<or> status h \<noteq> 200 \<or> \<not> event_stream_type h \<Longrightarrow>
     \<not> ss_valid s \<Longrightarrow> \<exists>r e. transfer_stream f ds s = (r, s\<lparr>ss_head_error := e\<rparr>)"
proof (induction f ds s rule: transfer_stream.induct)
  case (1 f s)
  then show ?case by (intro exI [of _ False] exI [of _ "ss_head_error s"]) simp
next
  case (3 f h ds s)
  show ?case
  proof (cases "is_redirect h")
    case True
    then show ?thesis using 3 by (auto simp: receive_head_def)
  next
    case False
    then show ?thesis using 3(3) by (auto simp: receive_head_def)
  qed
next
  case (4 f bs ds s)
  then show ?case by (simp add: receive_data_def)
qed simp

text \<open>A client whose callbacks return and which asks for no event of its own accord.\<close>

definition attentive :: "sse_client \<Rightarrow> bool" where
  "attentive c \<longleftrightarrow> (\<forall>h. sc_message c = Some h \<longrightarrow> (\<forall>ev. h ev = Returns)) \<and> (\<forall>t. sc_events c t = None)
     \<and> (\<forall>f. sc_open c = Some f \<longrightarrow> (\<forall>h. f h = Returns)) \<and> \<not> headers_contains (req_headers (sc_request c)) ''Last-Event-ID''"

text \<open>It has been given the first events, in order and once, and names the last of them.\<close>

definition caught_up :: "sse_event list \<Rightarrow> nat \<Rightarrow> sse_client \<Rightarrow> bool" where
  "caught_up evs n c \<longleftrightarrow> attentive c \<and> n \<le> length evs \<and> sc_calls c = map seen (take n evs)
     \<and> sc_last_id c = (if n = 0 then [] else ev_id (evs ! (n - 1)))"

lemma events_after_nth:
  assumes "distinct (map ev_id evs)" "n < length evs" "ev_id (evs ! n) \<noteq> []"
  shows "events_after (ev_id (evs ! n)) evs = drop (Suc n) evs"
proof -
  have "dropWhile (\<lambda>ev. ev_id ev \<noteq> ev_id (evs ! n)) (take n evs @ evs ! n # drop (Suc n) evs) = evs ! n # drop (Suc n) evs"
  proof -
    have "ev_id ev \<noteq> ev_id (evs ! n)" if "ev \<in> set (take n evs)" for ev
    proof -
      obtain i where "i < n" "ev = evs ! i" using \<open>ev \<in> set (take n evs)\<close> assms(2) by (auto simp: in_set_conv_nth)
      then show ?thesis using assms(1,2) nth_eq_iff_index_eq [OF assms(1), of i n] by simp
    qed
    then show ?thesis by (subst dropWhile_append2) auto
  qed
  then show ?thesis using assms(2,3) by (simp add: events_after_def id_take_nth_drop [symmetric])
qed

lemma wanted_stream:
  assumes "\<not> headers_contains (req_headers (sc_request c)) ''Last-Event-ID''"
  shows "wanted_id (stream_request c) = sc_last_id c"
proof -
  have names: "\<not> iequals ''Accept'' ''Last-Event-ID''" "\<not> iequals ''Cache-Control'' ''Last-Event-ID''"
    by code_simp+
  have kept: "find_header (headers_set h m v) n = (if iequals m n then Some v else find_header h n)" for h m n v
    by (simp add: headers_set_def headers_erase_def headers_add_def find_header_append find_header_filter Let_def
        split: option.split)
  show ?thesis
    using assms names
    by (simp add: wanted_id_def stream_request_def Let_def headers_get_find kept find_header_None [THEN iffD2])
qed

lemma pause_runs: "pause_client r e stop = (t, still) \<Longrightarrow> stop = None \<Longrightarrow> still \<and> t = e + r"
proof (induction r e stop rule: pause_client.induct)
  case (1 r e stop)
  show ?case
  proof (cases "r = 0")
    case True
    then show ?thesis using 1(2,3) by (simp add: pause_client.simps [of 0 e])
  next
    case False
    then have "pause_client (r - min r 25) (e + min r 25) stop = (t, still)"
      using 1(2,3) by (simp add: pause_client.simps [of r e] Let_def)
    from 1(1) [OF _ False refl this 1(3)] show ?thesis using 1(3) by simp
  qed
qed

abbreviation fresh_state :: "sse_client \<Rightarrow> stream_state" where
  "fresh_state c \<equiv> \<lparr>ss_parser = client_parser c, ss_parser_error = no_error, ss_head_error = no_error, ss_valid = False,
     ss_running = True\<rparr>"

lemma fresh_parser: "calls (client_parser c) = []" "last_id (client_parser c) = sc_last_id c"
  "\<not> is_error (failed (client_parser c))" "line_fits (client_parser c)"
  by (simp_all add: client_parser_def sse_parser_new_def line_fits_def)

lemma streamed:
  assumes "attentive c" "status h = 200" "event_stream_type h" "\<not> is_error (failed (run (client_parser c) (concat pieces)))"
  shows "transfer_stream (sc_open c) (Got_head h # map Got_data pieces) (fresh_state c)
    = (False, (fresh_state c)\<lparr>ss_valid := True, ss_parser := run (client_parser c) (concat pieces)\<rparr>)"
proof -
  have "\<not> is_redirect h" using assms(2) by (simp add: is_redirect_def)
  then have "receive_head (sc_open c) h (fresh_state c) = (True, (fresh_state c)\<lparr>ss_valid := True\<rparr>)"
    using assms(1-3) by (auto simp: receive_head_def attentive_def open_error_def Let_def split: option.split)
  then show ?thesis
    using transfer_pieces [of "(fresh_state c)\<lparr>ss_valid := True\<rparr>" pieces "sc_open c"] assms(4) by (simp add: fresh_parser)
qed

lemma round_outcome:
  assumes "transfer_stream (sc_open c) (deliveries (net (stream_request c))) (fresh_state c) = (b, s1)"
    and "ss_running s1" "\<not> is_error (failed (ss_parser s1))" "client_round net c = (r, c')"
  shows "sc_calls c' = sc_calls c @ calls (ss_parser s1)" "sc_last_id c' = last_id (ss_parser s1)"
    "sc_message c' = sc_message c" "sc_events c' = sc_events c" "sc_open c' = sc_open c" "sc_request c' = sc_request c"
    "sc_reconnect c' = sc_reconnect c"
    "sc_reconnect c \<Longrightarrow> stop_in_pause (net (stream_request c)) = None \<Longrightarrow> r = None \<and> sc_running c'"
proof -
  define s2 where "s2 = (if \<not> is_error (ss_parser_error s1) \<and> ss_running s1
    then (case finish (ss_parser s1) of (e, p) \<Rightarrow> s1\<lparr>ss_parser := p, ss_parser_error := e\<rparr>) else s1)"
  have s2: "calls (ss_parser s2) = calls (ss_parser s1)" "last_id (ss_parser s2) = last_id (ss_parser s1)" "ss_running s2"
    using assms(2,3) by (simp_all add: s2_def finish_def)
  note round = assms(4) [unfolded client_round_def Let_def assms(1) prod.case, folded s2_def]
  show "sc_calls c' = sc_calls c @ calls (ss_parser s1)" "sc_last_id c' = last_id (ss_parser s1)"
    "sc_message c' = sc_message c" "sc_events c' = sc_events c" "sc_open c' = sc_open c" "sc_request c' = sc_request c"
    "sc_reconnect c' = sc_reconnect c"
    using round s2 by (auto split: if_splits prod.splits)
  show "r = None \<and> sc_running c'" if "sc_reconnect c" "stop_in_pause (net (stream_request c)) = None"
    using round s2(3) that by (auto dest!: pause_runs [OF _ refl] split: prod.splits)
qed

lemma round_caught_up:
  assumes "caught_up evs n c" "distinct (map ev_id evs)" "\<forall>ev \<in> set evs. sendable ev"
    and "refuses_stream (net (stream_request c)) \<and> k0 = 0 \<or> streams evs k0 (stream_request c) (net (stream_request c))"
    and "client_round net c = (r, c')"
  shows "caught_up evs (n + min k0 (length evs - n)) c' \<and> sc_reconnect c' = sc_reconnect c
    \<and> (sc_reconnect c \<and> stop_in_pause (net (stream_request c)) = None \<longrightarrow> r = None \<and> sc_running c')"
proof -
  let ?rd = "net (stream_request c)" and ?p = "client_parser c"
  let ?s = "fresh_state c"
  have att: "attentive c" "n \<le> length evs" "sc_calls c = map seen (take n evs)"
    "sc_last_id c = (if n = 0 then [] else ev_id (evs ! (n - 1)))"
    using assms(1) by (simp_all add: caught_up_def)
  have wanted: "wanted_id (stream_request c) = sc_last_id c"
    by (rule wanted_stream) (use att(1) in \<open>simp add: attentive_def\<close>)
  have rest: "events_after (sc_last_id c) evs = drop n evs"
  proof (cases "n = 0")
    case False
    then have "n - 1 < length evs" "ev_id (evs ! (n - 1)) \<noteq> []" using att(2) assms(3) by (auto simp: sendable_def)
    then show ?thesis using events_after_nth [OF assms(2), of "n - 1"] att(4) False by simp
  qed (simp add: att(4) events_after_def)
  have small: "length (sc_last_id c) \<le> 1024 * 1024"
  proof (cases "n = 0")
    case False
    then have "evs ! (n - 1) \<in> set evs" using att(2) by simp
    then show ?thesis using assms(3) id_short [of "evs ! (n - 1)"] att(4) False by (auto simp: sendable_def)
  qed (simp add: att(4))
  have listening: "listening ?p"
    using att(1) small
    by (auto simp: listening_def client_parser_def sse_parser_new_def between_events_def idle_def attentive_def
        split: option.split)
  obtain b s1 where t: "transfer_stream (sc_open c) (deliveries ?rd) ?s = (b, s1)" by (rule prod.exhaust)
  let ?k = "min k0 (length evs - n)"
  have "ss_running s1 \<and> \<not> is_error (failed (ss_parser s1))
      \<and> calls (ss_parser s1) = map seen (take ?k (drop n evs))
      \<and> last_id (ss_parser s1) = (if ?k = 0 then sc_last_id c else ev_id (evs ! (n + ?k - 1)))"
  proof (cases "refuses_stream ?rd \<and> k0 = 0")
    case True
    then obtain e where "s1 = ?s\<lparr>ss_head_error := e\<rparr>"
      using refused_transfer [of "deliveries ?rd" ?s "sc_open c"] t by (auto simp: refuses_stream_def)
    then show ?thesis using fresh_parser True by simp
  next
    case False
    then obtain h pieces where d: "deliveries ?rd = Got_head h # map Got_data pieces" "status h = 200" "event_stream_type h"
      "concat pieces = concat (map format_sse (take k0 (drop n evs)))"
      using assms(4) wanted rest by (auto simp: streams_def)
    define es where "es = take k0 (drop n evs)"
    have sub: "\<forall>ev \<in> set es. sendable ev" using assms(3) by (auto simp: es_def dest!: in_set_takeD in_set_dropD)
    obtain q where q: "run ?p (concat pieces) = q" "listening q" "calls q = map seen es"
      "last_id q = (if es = [] then sc_last_id c else ev_id (last es))"
      using run_events [OF listening sub] d(4) by (auto simp: es_def fresh_parser)
    have ok: "\<not> is_error (failed q)" using q(2) by (simp add: listening_def between_events_def idle_def)
    have "s1 = ?s\<lparr>ss_valid := True, ss_parser := q\<rparr>"
      using t streamed [OF att(1) d(2,3)] q(1) ok d(1) by auto
    moreover have whole: "es = take (length es) (drop n evs)"
      by (cases "k0 \<le> length (drop n evs)") (simp_all add: es_def)
    moreover have "length es = ?k" by (simp add: es_def min.commute)
    moreover have "last es = evs ! (n + length es - 1)" if "es \<noteq> []"
    proof -
      have "last es = es ! (length es - 1)" using that by (rule last_conv_nth)
      also have "\<dots> = drop n evs ! (length es - 1)"
        using that by (subst whole) (cases es; simp)
      also have "\<dots> = evs ! (n + length es - 1)" using that att(2) by (cases es) simp_all
      finally show ?thesis .
    qed
    ultimately show ?thesis
      using q ok by (cases "es = []") auto
  qed
  then have k: "ss_running s1" "\<not> is_error (failed (ss_parser s1))"
    "calls (ss_parser s1) = map seen (take ?k (drop n evs))"
    "last_id (ss_parser s1) = (if ?k = 0 then sc_last_id c else ev_id (evs ! (n + ?k - 1)))" by simp_all
  note c' = round_outcome [OF t k(1,2) assms(5)]
  obtain k where kd: "k = ?k" "n + k \<le> length evs" using att(2) by simp
  have calls: "sc_calls c' = map seen (take (n + k) evs)" using att(3) k(3) c'(1) kd(1) by (simp add: take_add)
  have id: "sc_last_id c' = (if n + k = 0 then [] else ev_id (evs ! (n + k - 1)))"
    using att(4) k(4) c'(2) kd(1) [symmetric] by (cases "k = 0") simp_all
  have att': "attentive c'" using att(1) c'(3-6) by (simp add: attentive_def)
  have "caught_up evs (n + k) c'" unfolding caught_up_def using att' kd(2) calls id by blast
  then show ?thesis using c'(7,8) kd(1) by simp
qed

lemma rounds_caught_up:
  assumes "distinct (map ev_id evs)" "\<forall>ev \<in> set evs. sendable ev"
  shows "caught_up evs n c \<Longrightarrow> client_rounds nets c = (r, c') \<Longrightarrow> \<forall>net \<in> set nets. resumes evs net \<Longrightarrow>
    \<exists>m \<ge> n. caught_up evs m c' \<and> (sc_running c \<and> sc_reconnect c \<and> never_stopped nets \<and> (\<exists>net \<in> set nets. sends_all evs net)
      \<longrightarrow> m = length evs)"
proof (induction nets arbitrary: n c)
  case Nil
  then show ?case by (auto simp: client_rounds.simps split: if_splits)
next
  case (Cons net nets)
  show ?case
  proof (cases "sc_running c")
    case False
    then show ?thesis using Cons.prems by (auto simp: client_rounds.simps)
  next
    case True
    let ?req = "stream_request c"
    obtain x c1 where r: "client_round net c = (x, c1)" by (rule prod.exhaust)
    have n: "n \<le> length evs" using Cons.prems(1) by (simp add: caught_up_def)
    obtain k where k: "refuses_stream (net ?req) \<and> k = 0 \<or> streams evs k ?req (net ?req)"
      "sends_all evs net \<longrightarrow> k = length evs"
    proof (cases "sends_all evs net")
      case True
      then show ?thesis using that [of "length evs"] by (simp add: sends_all_def)
    next
      case False
      have "resumes evs net" using Cons.prems(3) by simp
      then show ?thesis using that False by (auto simp: resumes_def)
    qed
    define m where "m = n + min k (length evs - n)"
    have c1: "caught_up evs m c1" "sc_reconnect c1 = sc_reconnect c"
      "sc_reconnect c \<and> stop_in_pause (net ?req) = None \<longrightarrow> x = None \<and> sc_running c1"
      using round_caught_up [OF Cons.prems(1) assms k(1) r] by (simp_all add: m_def)
    have m: "n \<le> m" "m \<le> length evs" "sends_all evs net \<longrightarrow> m = length evs" using n k(2) by (simp_all add: m_def)
    show ?thesis
    proof (cases x)
      case None
      then have "client_rounds nets c1 = (r, c')" using Cons.prems(2) True r by (simp add: client_rounds.simps [of "net # nets"])
      moreover have "\<forall>net \<in> set nets. resumes evs net" using Cons.prems(3) by simp
      ultimately obtain j where j: "m \<le> j" "caught_up evs j c'" "sc_running c1 \<and> sc_reconnect c1 \<and> never_stopped nets
          \<and> (\<exists>net \<in> set nets. sends_all evs net) \<longrightarrow> j = length evs"
        using Cons.IH [OF c1(1)] by blast
      have "j \<le> length evs" using j(2) by (simp add: caught_up_def)
      then have "sc_running c \<and> sc_reconnect c \<and> never_stopped (net # nets) \<and> (\<exists>net' \<in> set (net # nets). sends_all evs net')
          \<longrightarrow> j = length evs"
        using j(1,3) m c1(2,3) by (auto simp: never_stopped_def)
      with j(1,2) m(1) show ?thesis by (intro exI [of _ j]) simp
    next
      case (Some e)
      then have "c' = c1" using Cons.prems(2) True r by (simp add: client_rounds.simps [of "net # nets"])
      moreover have "\<not> (sc_reconnect c \<and> never_stopped (net # nets))" using c1(3) Some by (auto simp: never_stopped_def)
      ultimately show ?thesis using c1(1) m(1) by (intro exI [of _ m]) blast
    qed
  qed
qed

text \<open>C14: Against a server that keeps its events, answers the identifier the client names with those behind it and
  breaks off between events, or fails, as often as it likes, the handler of a reconnecting client is called with
  the events from the first on, in order, each exactly once and none left out, however the data is cut; and with
  all of them once a round has sent all there was, unless the client is stopped.\<close>

theorem events_exactly_once:
  assumes "\<forall>net \<in> set nets. resumes evs net" "distinct (map ev_id evs)" "\<forall>ev \<in> set evs. sendable ev"
    and "attentive c" "sc_last_id c = []" "sc_calls c = []" "\<not> sc_running c" "sse_connect nets c = (r, c')"
  shows "\<exists>n \<le> length evs. sc_calls c' = map seen (take n evs)
    \<and> sc_last_id c' = (if n = 0 then [] else ev_id (evs ! (n - 1)))
    \<and> (sc_reconnect c \<and> never_stopped nets \<and> (\<exists>net \<in> set nets. sends_all evs net) \<longrightarrow> n = length evs)"
proof -
  let ?c = "c\<lparr>sc_running := True, sc_delay := sc_initial_retry c\<rparr>"
  have "caught_up evs 0 ?c" using assms(4-6) by (simp add: caught_up_def attentive_def)
  moreover have "client_rounds nets ?c = (r, c')" using assms(7,8) by (simp add: sse_connect_def)
  ultimately obtain n where "caught_up evs n c'"
    "sc_running ?c \<and> sc_reconnect ?c \<and> never_stopped nets \<and> (\<exists>net \<in> set nets. sends_all evs net) \<longrightarrow> n = length evs"
    using rounds_caught_up [OF assms(2,3) _ _ assms(1)] by blast
  then show ?thesis by (intro exI [of _ n]) (simp add: caught_up_def)
qed

text \<open>A server that sends at most k events and breaks off, one that is not there, and two events.\<close>

abbreviation stream_head :: response where
  "stream_head \<equiv> ok_response\<lparr>status := 200,
     res_headers := headers_add [] ''Content-Type'' ''text/event-stream; charset=utf-8''\<rparr>"

definition serve :: "sse_event list \<Rightarrow> nat \<Rightarrow> request \<Rightarrow> sse_round" where
  "serve evs k req = \<lparr>deliveries = Got_head stream_head #
       map Got_data [concat (map format_sse (take k (events_after (wanted_id req) evs)))],
     round_result = (\<lambda>refused. Inr stream_head), stop_in_pause = None\<rparr>"

definition unreachable :: "request \<Rightarrow> sse_round" where
  "unreachable req = \<lparr>deliveries = [], round_result = (\<lambda>refused. Inl (error_of E_connect ''refused'')),
     stop_in_pause = None\<rparr>"

definition two_events :: "sse_event list" where
  "two_events = [\<lparr>ev_data = ''one'', ev_type = [], ev_id = ''a'', ev_retry = None\<rparr>,
     \<lparr>ev_data = ''two'' @ [LF] @ ''lines'', ev_type = ''tick'', ev_id = ''b'', ev_retry = Some 5\<rparr>]"

abbreviation plain_client :: sse_client where
  "plain_client \<equiv> new_client new_request True 1000 30000 []"

lemma stream_head_opens: "status stream_head = 200" "event_stream_type stream_head"
  by code_simp+

lemma serve_streams: "streams evs k req (serve evs k req)"
  unfolding streams_def serve_def
  by (intro exI [of _ stream_head] exI [of _ "[concat (map format_sse (take k (events_after (wanted_id req) evs)))]"])
    (simp add: stream_head_opens)

lemma resuming_servers: "resumes evs (serve evs k)" "sends_all evs (serve evs (length evs))" "resumes evs unreachable"
  "stop_in_pause (serve evs k req) = None" "stop_in_pause (unreachable req) = None"
  using serve_streams [of evs] by (auto simp: resumes_def sends_all_def refuses_stream_def unreachable_def serve_def)

lemma plain_attentive: "attentive plain_client"
proof -
  have "\<not> headers_contains (req_headers new_request) ''Last-Event-ID''" by code_simp
  then show ?thesis by (simp add: attentive_def new_client_def)
qed

theorem events_exactly_once_witness:
  "\<exists>n \<le> length two_events. sc_calls (snd (sse_connect [serve two_events 1, unreachable, serve two_events (length two_events)] plain_client))
      = map seen (take n two_events) \<and> n = length two_events"
proof -
  let ?nets = "[serve two_events 1, unreachable, serve two_events (length two_events)]"
  have one: "\<forall>net \<in> set ?nets. resumes two_events net"
    by (simp add: resuming_servers)
  have ids: "distinct (map ev_id two_events)" by (simp add: two_events_def)
  have send: "\<forall>ev \<in> set two_events. sendable ev"
  proof -
    have small: "list_all (\<lambda>ev. CR \<notin> set (ev_data ev) \<and> list_all (\<lambda>c. \<not> line_end c) (ev_type ev)
        \<and> list_all (\<lambda>c. \<not> line_end c \<and> c \<noteq> CHR 0x00) (ev_id ev) \<and> ev_id ev \<noteq> [] \<and> length (format_sse ev) \<le> 60) two_events"
      by code_simp
    have "list_all (\<lambda>ev. case ev_retry ev of None \<Rightarrow> True | Some n \<Rightarrow> n \<le> milliseconds_max) two_events"
      by (simp add: milliseconds_max_def two_events_def)
    with small show ?thesis unfolding sendable_def printable_event_def list_all_iff by fastforce
  qed
  have start: "sc_last_id plain_client = []" "sc_calls plain_client = []" "\<not> sc_running plain_client" "sc_reconnect plain_client"
    by (simp_all add: new_client_def)
  have all: "\<exists>net \<in> set ?nets. sends_all two_events net" "never_stopped ?nets"
    by (simp_all add: never_stopped_def resuming_servers)
  obtain r c' where c': "sse_connect ?nets plain_client = (r, c')" by (rule prod.exhaust)
  show ?thesis
    using events_exactly_once [OF one ids send plain_attentive start(1-3) c'] all start(4) c' by auto
qed

section \<open>Pauses\<close>

lemma pause_length:
  "pause_client r e stop = (t, still) \<Longrightarrow> t \<le> e + r \<and> (\<forall>at. stop = Some at \<longrightarrow> t < max (e + 1) (at + 25))"
proof (induction r e stop rule: pause_client.induct)
  case (1 r e stop)
  show ?case
  proof (cases "(case stop of None \<Rightarrow> False | Some t \<Rightarrow> t \<le> e) \<or> r = 0")
    case True
    then show ?thesis using 1(2) by (auto simp: pause_client.simps [of r e] split: option.splits if_splits)
  next
    case False
    then have rec: "pause_client (r - min r 25) (e + min r 25) stop = (t, still)"
      using 1(2) by (simp add: pause_client.simps [of r e] Let_def split: option.splits if_splits)
    from False have "\<not> (case stop of None \<Rightarrow> False | Some t \<Rightarrow> t \<le> e)" "r \<noteq> 0" by simp_all
    from 1(1) [OF this refl rec] show ?thesis using False by (auto split: option.splits)
  qed
qed

lemma round_pause:
  assumes "client_round net c = (r, c')"
  shows "sc_max_retry c' = sc_max_retry c \<and> sc_initial_retry c' = sc_initial_retry c
    \<and> (r = None \<longrightarrow> sc_delay c' \<le> sc_max_retry c)
    \<and> (\<exists>new. sc_log c' = sc_log c @ new \<and> length new \<le> 1 \<and> (r = None \<longrightarrow> length new = 1)
         \<and> (\<forall>(req, e, t) \<in> set new. req = stream_request c \<and> t \<le> max (sc_delay c) (sc_max_retry c)))"
proof -
  have small: "t \<le> max (sc_delay c) (sc_max_retry c)"
    if "pause_client (case d of None \<Rightarrow> sc_delay c | Some d \<Rightarrow> min d (sc_max_retry c)) 0 stop = (t, still)" for d stop t still
    using pause_length [OF that] by (auto split: option.splits)
  show ?thesis
    using assms small unfolding client_round_def Let_def
    by (auto split: prod.splits if_splits)
qed

lemma rounds_pause:
  "client_rounds nets c = (r, c') \<Longrightarrow>
     \<exists>new. sc_log c' = sc_log c @ new \<and> length new \<le> length nets
       \<and> (\<forall>i < length new. snd (snd (new ! i)) \<le> (if i = 0 then max (sc_delay c) (sc_max_retry c) else sc_max_retry c))"
proof (induction nets arbitrary: c)
  case (Cons net nets)
  show ?case
  proof (cases "sc_running c")
    case True
    obtain x c1 where rd: "client_round net c = (x, c1)" by (rule prod.exhaust)
    obtain a where a: "sc_log c1 = sc_log c @ a" "length a \<le> 1"
      "\<forall>(req, e, t) \<in> set a. req = stream_request c \<and> t \<le> max (sc_delay c) (sc_max_retry c)"
      and c1: "sc_max_retry c1 = sc_max_retry c" "x = None \<longrightarrow> sc_delay c1 \<le> sc_max_retry c" "x = None \<longrightarrow> length a = 1"
      using round_pause [OF rd] by blast
    have first: "snd (snd (a ! 0)) \<le> max (sc_delay c) (sc_max_retry c)" if "a \<noteq> []"
      using that a(3) by (cases a) auto
    show ?thesis
    proof (cases x)
      case None
      then have "client_rounds nets c1 = (r, c')" using Cons.prems True rd by (simp add: client_rounds.simps [of "net # nets"])
      note ih = Cons.IH [OF this]
      have "max (sc_delay c1) (sc_max_retry c1) = sc_max_retry c" using c1(1,2) None by simp
      with ih obtain new where new: "sc_log c' = sc_log c1 @ new" "length new \<le> length nets"
        "\<forall>i < length new. snd (snd (new ! i)) \<le> sc_max_retry c"
        using c1(1) by (auto cong: if_cong)
      obtain y where y: "a = [y]" using c1(3) None by (cases a) auto
      have "snd (snd ((y # new) ! i)) \<le> (if i = 0 then max (sc_delay c) (sc_max_retry c) else sc_max_retry c)"
        if "i < length (y # new)" for i
        using that first y new(3) by (cases i) simp_all
      then show ?thesis using a(1) y new(1,2) by (intro exI [of _ "y # new"]) simp
    next
      case (Some e)
      then have "c' = c1" using Cons.prems True rd by (simp add: client_rounds.simps [of "net # nets"])
      then show ?thesis using a first by (intro exI [of _ a]) (auto simp: less_Suc_eq_0_disj le_Suc_eq Suc_le_eq)
    qed
  qed (use Cons.prems in \<open>auto simp: client_rounds.simps\<close>)
qed (auto simp: client_rounds.simps split: if_splits)

text \<open>Of all the pauses a client makes between its connections, at most one for every connection, the first is
  no longer than the larger of the initial and the largest delay, and every other no longer than the largest,
  whatever delays the server asks for and however often it fails.\<close>

lemma pauses_bounded:
  assumes "sse_connect nets c = (r, c')"
  shows "\<exists>new. sc_log c' = sc_log c @ new \<and> length new \<le> length nets
    \<and> (\<forall>i < length new. snd (snd (new ! i)) \<le> (if i = 0 then max (sc_initial_retry c) (sc_max_retry c) else sc_max_retry c))"
proof (cases "sc_running c")
  case False
  then show ?thesis using rounds_pause [of nets "c\<lparr>sc_running := True, sc_delay := sc_initial_retry c\<rparr>" r c'] assms
    by (simp add: sse_connect_def cong: if_cong)
qed (use assms in \<open>simp add: sse_connect_def\<close>)

section \<open>A stream that breaks inside an event\<close>

text \<open>C15: When the stream breaks behind the identifier of an event, no handler is called, yet the next request names
  that identifier, so a server that resumes behind it never sends the event again.\<close>

theorem broken_event_skipped:
  assumes "attentive c" "deliveries (net (stream_request c)) = Got_head h # map Got_data pieces"
    and "status h = 200" "event_stream_type h" "concat pieces = ''id: '' @ v @ [LF]"
    and "list_all (\<lambda>c. \<not> line_end c \<and> c \<noteq> CHR 0x00) v" "length v + 4 \<le> 1024 * 1024" "client_round net c = (r, c')"
  shows "sc_calls c' = sc_calls c \<and> wanted_id (stream_request c') = v"
proof -
  let ?p = "client_parser c"
  have p: "between_events ?p" "max_line_size ?p = 1024 * 1024" "max_event_size ?p = 8 * 1024 * 1024"
    by (simp_all add: client_parser_def sse_parser_new_def between_events_def idle_def)
  have q: "run ?p (''id: '' @ v @ [LF]) = (cleared ?p)\<lparr>last_id := v\<rparr>"
    by (rule id_line_run) (use p assms(6,7) in simp_all)
  have ok: "\<not> is_error (failed ((cleared ?p)\<lparr>last_id := v\<rparr>))" by (simp add: cleared_def fresh_parser)
  then have "transfer_stream (sc_open c) (deliveries (net (stream_request c))) (fresh_state c)
      = (False, (fresh_state c)\<lparr>ss_valid := True, ss_parser := (cleared ?p)\<lparr>last_id := v\<rparr>\<rparr>)"
    using streamed [OF assms(1,3,4), of pieces] assms(2,5) q by simp
  note c' = round_outcome [OF this _ _ assms(8), simplified, OF ok [simplified]]
  have "wanted_id (stream_request c') = sc_last_id c'"
    by (rule wanted_stream) (use assms(1) c'(6) in \<open>simp add: attentive_def\<close>)
  then show ?thesis using c'(1,2) by (simp add: cleared_def fresh_parser)
qed

theorem broken_event_skipped_witness:
  "\<exists>c'. snd (client_round (\<lambda>req. \<lparr>deliveries = Got_head stream_head # map Got_data [''id: '', ''7'' @ [LF]],
       round_result = (\<lambda>refused. Inr stream_head), stop_in_pause = None\<rparr>) plain_client) = c'
     \<and> sc_calls c' = [] \<and> wanted_id (stream_request c') = ''7''"
proof -
  let ?net = "\<lambda>req. \<lparr>deliveries = Got_head stream_head # map Got_data [''id: '', ''7'' @ [LF]],
       round_result = (\<lambda>refused. Inr stream_head), stop_in_pause = None\<rparr>"
  obtain r c' where c': "client_round ?net plain_client = (r, c')" by (rule prod.exhaust)
  have "list_all (\<lambda>c. \<not> line_end c \<and> c \<noteq> CHR 0x00) ''7''" by code_simp
  then show ?thesis
    using broken_event_skipped [OF plain_attentive _ stream_head_opens(1,2) _ _ _ c',
        of "[''id: '', ''7'' @ [LF]]" "''7''"] c'
    by (simp add: new_client_def)
qed

theorem pauses_bounded_witness:
  "\<exists>new. sc_log (snd (sse_connect [unreachable, unreachable] plain_client)) = new \<and> length new \<le> 2
     \<and> (\<forall>i < length new. snd (snd (new ! i)) \<le> 30000)"
proof -
  obtain r c' where c': "sse_connect [unreachable, unreachable] plain_client = (r, c')" by (rule prod.exhaust)
  show ?thesis using pauses_bounded [OF c'] c' by (auto simp: new_client_def split: if_splits)
qed

end
