(* ===== verification/Task_Handoff.thy ===== *)
theory Task_Handoff
  imports Chhttp_Prelude
begin

text \<open>
  The coroutine result type (\<^verbatim>\<open>include/chhttp/chhttp.hpp\<close>: \<^verbatim>\<open>detail::TaskState\<close>,
  \<^verbatim>\<open>release_task_state\<close>, \<^verbatim>\<open>TaskFinalAwaiter\<close>, \<^verbatim>\<open>Task::get\<close>, \<^verbatim>\<open>Task::Awaiter\<close>, \<^verbatim>\<open>Task::release\<close>) as two
  threads that interleave: the coroutine that produces the result and the one consumer that blocks on
  it, awaits it or drops it.  Every atomic operation, lock and wait is a step of its own.  The lemmas
  say that no interleaving touches a destroyed frame, destroys it twice, loses a wake-up or hands over
  anything but the stored result.
\<close>

section \<open>The shared state\<close>

text \<open>The handoff word; an address is above the sentinels.\<close>

datatype word = Unclaimed | Completed | Parked | Address nat

datatype party = Producer | Consumer

text \<open>Where the coroutine is in its final suspend point.\<close>

datatype producer_at =
    Running | Exchanging | Branching word | Locking | Notifying | Unlocking | Resuming | Releasing | Ended

text \<open>Where the consumer is: in \<^verbatim>\<open>wait\<close>, in \<^verbatim>\<open>await_ready\<close> and \<^verbatim>\<open>suspend\<close>, or leaving.\<close>

datatype consumer_at =
    Owning | Loading | Testing word | Acquiring | Predicate | Asleep | Woken
  | Asking | Suspending | Suspended | Taking | Dropping | Gone

record 'r task =
  handoff :: word
  references :: nat
  outcome :: "'r option"
  block :: bool
  mutex :: "party option"
  destroyed :: nat
  result_of :: "'r option"
  producer :: producer_at
  consumer :: consumer_at

definition new_task :: "'r task" where
  "new_task = \<lparr>handoff = Unclaimed, references = 2, outcome = None, block = False, mutex = None, destroyed = 0,
     result_of = None, producer = Running, consumer = Owning\<rparr>"

definition done_state :: "'r task \<Rightarrow> bool" where
  "done_state t \<longleftrightarrow> handoff t = Completed"

section \<open>Operations\<close>

text \<open>Whether the caller took the last reference of a finished task; it then destroys the frame.\<close>

definition release_task_state :: "'r task \<Rightarrow> bool \<times> 'r task" where
  "release_task_state t = (references t = 1 \<and> done_state t, t\<lparr>references := references t - 1\<rparr>)"

definition release_frame :: "'r task \<Rightarrow> 'r task" where
  "release_frame t = (case release_task_state t of
     (True, t') \<Rightarrow> t'\<lparr>destroyed := destroyed t' + 1\<rparr> | (False, t') \<Rightarrow> t')"

text \<open>
  \<^verbatim>\<open>publish\<close> and the final awaiter, one step at a time; \<open>None\<close> is a thread that cannot move.  Resuming
  the consumer runs it on this thread until its \<^verbatim>\<open>await_resume\<close> has returned.
\<close>

fun publish :: "'r \<Rightarrow> 'r task \<Rightarrow> 'r task option" where
  "publish r t = (case producer t of
     Running \<Rightarrow> Some (t\<lparr>outcome := Some r, producer := Exchanging\<rparr>)
   | Exchanging \<Rightarrow> Some (t\<lparr>handoff := Completed, producer := Branching (handoff t)\<rparr>)
   | Branching (Address a) \<Rightarrow> Some (t\<lparr>consumer := Taking, producer := Resuming\<rparr>)
   | Branching Parked \<Rightarrow> Some (t\<lparr>producer := Locking\<rparr>)
   | Branching _ \<Rightarrow> Some (t\<lparr>producer := Releasing\<rparr>)
   | Locking \<Rightarrow> if mutex t = None then Some (t\<lparr>mutex := Some Producer, producer := Notifying\<rparr>) else None
   | Notifying \<Rightarrow> Some (t\<lparr>consumer := (if consumer t = Asleep then Woken else consumer t), producer := Unlocking\<rparr>)
   | Unlocking \<Rightarrow> Some (t\<lparr>mutex := None, producer := Releasing\<rparr>)
   | Resuming \<Rightarrow> if consumer t = Gone then Some (t\<lparr>producer := Releasing\<rparr>) else None
   | Releasing \<Rightarrow> Some ((release_frame t)\<lparr>producer := Ended\<rparr>)
   | Ended \<Rightarrow> None)"

text \<open>A failed exchange leaves the word it saw in \<open>current\<close>; a successful one leaves \<open>current\<close> alone.\<close>

fun wait :: "'r task \<Rightarrow> 'r task option" where
  "wait t = (case consumer t of
     Loading \<Rightarrow> Some (t\<lparr>consumer := Testing (handoff t)\<rparr>)
   | Testing Completed \<Rightarrow> Some (t\<lparr>consumer := Taking\<rparr>)
   | Testing Unclaimed \<Rightarrow>
       if handoff t = Unclaimed then Some (t\<lparr>block := True, handoff := Parked\<rparr>)
       else Some (t\<lparr>block := True, consumer := Testing (handoff t)\<rparr>)
   | Testing Parked \<Rightarrow> Some (t\<lparr>consumer := Acquiring\<rparr>)
   | Testing (Address a) \<Rightarrow> Some (t\<lparr>consumer := Testing (handoff t)\<rparr>)
   | Acquiring \<Rightarrow> if mutex t = None then Some (t\<lparr>mutex := Some Consumer, consumer := Predicate\<rparr>) else None
   | Predicate \<Rightarrow>
       if done_state t then Some (t\<lparr>mutex := None, consumer := Taking\<rparr>)
       else Some (t\<lparr>mutex := None, consumer := Asleep\<rparr>)
   | Woken \<Rightarrow> if mutex t = None then Some (t\<lparr>mutex := Some Consumer, consumer := Predicate\<rparr>) else None
   | _ \<Rightarrow> None)"

fun suspend :: "nat \<Rightarrow> 'r task \<Rightarrow> 'r task option" where
  "suspend a t = (case consumer t of
     Asking \<Rightarrow> Some (t\<lparr>consumer := (if done_state t then Taking else Suspending)\<rparr>)
   | Suspending \<Rightarrow>
       if handoff t = Unclaimed then Some (t\<lparr>handoff := Address a, consumer := Suspended\<rparr>)
       else if handoff t = Completed then Some (t\<lparr>consumer := Taking\<rparr>)
       else Some t
   | _ \<Rightarrow> None)"

fun take_result :: "'r task \<Rightarrow> 'r task option" where
  "take_result t = (case consumer t of
     Taking \<Rightarrow> Some (t\<lparr>result_of := outcome t, consumer := Dropping\<rparr>)
   | Dropping \<Rightarrow> Some ((release_frame t)\<lparr>consumer := Gone\<rparr>)
   | _ \<Rightarrow> None)"

section \<open>Interleavings\<close>

text \<open>The consumer chooses once what it does with its task; a condition variable may wake for no reason.\<close>

inductive task_step :: "'r \<Rightarrow> 'r task \<Rightarrow> 'r task \<Rightarrow> bool" for r where
  step_publish: "publish r t = Some t' \<Longrightarrow> task_step r t t'"
| step_get: "consumer t = Owning \<Longrightarrow> task_step r t (t\<lparr>consumer := Loading\<rparr>)"
| step_await: "consumer t = Owning \<Longrightarrow> task_step r t (t\<lparr>consumer := Asking\<rparr>)"
| step_drop: "consumer t = Owning \<Longrightarrow> task_step r t (t\<lparr>consumer := Dropping\<rparr>)"
| step_wait: "wait t = Some t' \<Longrightarrow> task_step r t t'"
| step_suspend: "suspend a t = Some t' \<Longrightarrow> task_step r t t'"
| step_take: "take_result t = Some t' \<Longrightarrow> task_step r t t'"

text \<open>\<open>task_run r n k t\<close>: \<open>n\<close> steps and \<open>k\<close> spurious wake-ups lead from a new task to \<open>t\<close>.\<close>

inductive task_run :: "'r \<Rightarrow> nat \<Rightarrow> nat \<Rightarrow> 'r task \<Rightarrow> bool" for r where
  run_new: "task_run r 0 0 new_task"
| run_step: "task_run r n k t \<Longrightarrow> task_step r t t' \<Longrightarrow> task_run r (Suc n) k t'"
| run_spurious: "task_run r n k t \<Longrightarrow> consumer t = Asleep \<Longrightarrow> task_run r n (Suc k) (t\<lparr>consumer := Woken\<rparr>)"

inductive_simps task_step_iff: "task_step r t t'"

text \<open>A schedule names the thread that moves next; it makes runs computable.\<close>

datatype move = Produce | Get | Await | Drop | Waits | Suspends nat | Take

fun scheduled :: "'r \<Rightarrow> move \<Rightarrow> 'r task \<Rightarrow> 'r task option" where
  "scheduled r Produce t = publish r t"
| "scheduled r Get t = (if consumer t = Owning then Some (t\<lparr>consumer := Loading\<rparr>) else None)"
| "scheduled r Await t = (if consumer t = Owning then Some (t\<lparr>consumer := Asking\<rparr>) else None)"
| "scheduled r Drop t = (if consumer t = Owning then Some (t\<lparr>consumer := Dropping\<rparr>) else None)"
| "scheduled r Waits t = wait t"
| "scheduled r (Suspends a) t = suspend a t"
| "scheduled r Take t = take_result t"

fun schedule :: "'r \<Rightarrow> move list \<Rightarrow> 'r task \<Rightarrow> 'r task option" where
  "schedule r [] t = Some t"
| "schedule r (m # ms) t = (case scheduled r m t of None \<Rightarrow> None | Some t' \<Rightarrow> schedule r ms t')"

lemma scheduled_step: "scheduled r m t = Some t' \<Longrightarrow> task_step r t t'"
  by (cases m) (auto intro: task_step.intros split: if_splits simp del: publish.simps wait.simps suspend.simps take_result.simps)

lemma schedule_run:
  "task_run r n k t \<Longrightarrow> schedule r ms t = Some t' \<Longrightarrow> task_run r (n + length ms) k t'"
proof (induction ms arbitrary: n t)
  case (Cons m ms)
  then obtain u where u: "scheduled r m t = Some u" "schedule r ms u = Some t'" by (auto split: option.splits)
  have "task_run r (Suc n) k u" by (rule run_step [OF Cons.prems(1) scheduled_step [OF u(1)]])
  from Cons.IH [OF this u(2)] show ?case by simp
qed simp

lemmas schedule_new_run = schedule_run [OF run_new, simplified add_0]

section \<open>The invariant\<close>

text \<open>What the word and the two positions say about each other.\<close>

definition word_inv :: "'r task \<Rightarrow> bool" where
  "word_inv t \<longleftrightarrow>
     (handoff t = Completed \<longleftrightarrow> producer t \<notin> {Running, Exchanging})
     \<and> (handoff t = Parked \<longrightarrow> block t \<and> consumer t \<in> {Testing Unclaimed, Testing Parked, Acquiring, Predicate, Asleep, Woken})
     \<and> (\<forall>a. handoff t = Address a \<longrightarrow> consumer t = Suspended)"

definition consumer_inv :: "'r task \<Rightarrow> bool" where
  "consumer_inv t \<longleftrightarrow> (case consumer t of
     Testing Parked \<Rightarrow> handoff t \<in> {Parked, Completed}
   | Testing Completed \<Rightarrow> handoff t = Completed
   | Testing (Address a) \<Rightarrow> False
   | Acquiring \<Rightarrow> handoff t \<in> {Parked, Completed}
   | Predicate \<Rightarrow> handoff t \<in> {Parked, Completed}
   | Asleep \<Rightarrow> handoff t = Parked \<or> producer t \<in> {Branching Parked, Locking, Notifying}
   | Woken \<Rightarrow> handoff t \<in> {Parked, Completed}
   | Suspended \<Rightarrow> (\<exists>a. handoff t = Address a \<or> producer t = Branching (Address a))
   | Taking \<Rightarrow> handoff t = Completed
   | _ \<Rightarrow> True)"

definition producer_inv :: "'r task \<Rightarrow> bool" where
  "producer_inv t \<longleftrightarrow> (case producer t of
     Branching Completed \<Rightarrow> False
   | Branching Parked \<Rightarrow> block t
   | Branching (Address a) \<Rightarrow> consumer t = Suspended
   | Locking \<Rightarrow> block t
   | Notifying \<Rightarrow> block t
   | Unlocking \<Rightarrow> block t
   | Resuming \<Rightarrow> consumer t \<in> {Taking, Dropping, Gone}
   | _ \<Rightarrow> True)"

definition mutex_inv :: "'r task \<Rightarrow> bool" where
  "mutex_inv t \<longleftrightarrow> (mutex t = Some Producer \<longleftrightarrow> producer t \<in> {Notifying, Unlocking})
     \<and> (mutex t = Some Consumer \<longleftrightarrow> consumer t = Predicate)"

definition frame_inv :: "'r \<Rightarrow> 'r task \<Rightarrow> bool" where
  "frame_inv r t \<longleftrightarrow>
     references t = (if producer t = Ended then 0 else 1) + (if consumer t = Gone then 0 else 1)
     \<and> destroyed t = (if producer t = Ended \<and> consumer t = Gone then 1 else 0)
     \<and> outcome t = (if producer t = Running then None else Some r)
     \<and> result_of t \<in> {None, Some r}"

definition task_inv :: "'r \<Rightarrow> 'r task \<Rightarrow> bool" where
  "task_inv r t \<longleftrightarrow> word_inv t \<and> consumer_inv t \<and> producer_inv t \<and> mutex_inv t \<and> frame_inv r t"

lemmas task_inv_defs = word_inv_def consumer_inv_def producer_inv_def mutex_inv_def frame_inv_def

lemmas task_op_defs = release_frame_def release_task_state_def done_state_def

lemma task_inv_new: "task_inv r new_task"
  by (simp add: task_inv_def task_inv_defs new_task_def)

lemma suspend_inv:
  assumes inv: "task_inv r t" and step: "suspend a t = Some t'" shows "task_inv r t'"
proof (cases "consumer t")
  case Asking
  then have t': "t' = t\<lparr>consumer := if done_state t then Taking else Suspending\<rparr>" using step by simp
  show ?thesis using inv Asking unfolding t'
    by (cases "handoff t"; cases "producer t") (simp_all add: task_inv_def task_inv_defs task_op_defs split: word.splits)
next
  case Suspending
  consider "handoff t = Unclaimed" | "handoff t = Completed" | "handoff t \<noteq> Unclaimed" "handoff t \<noteq> Completed" by blast
  then show ?thesis
  proof cases
    case 1
    then have t': "t' = t\<lparr>handoff := Address a, consumer := Suspended\<rparr>" using step Suspending by simp
    show ?thesis using inv Suspending 1 unfolding t'
      by (cases "handoff t"; cases "producer t") (simp_all add: task_inv_def task_inv_defs split: word.splits)
  next
    case 2
    then have t': "t' = t\<lparr>consumer := Taking\<rparr>" using step Suspending by simp
    show ?thesis using inv Suspending 2 unfolding t'
      by (cases "handoff t"; cases "producer t") (simp_all add: task_inv_def task_inv_defs split: word.splits)
  next
    case 3
    then have "t' = t" using step Suspending by simp
    then show ?thesis using inv by simp
  qed
qed (use step in simp_all)

lemma take_result_inv:
  assumes inv: "task_inv r t" and step: "take_result t = Some t'" shows "task_inv r t'"
proof (cases "consumer t")
  case Taking
  then have t': "t' = t\<lparr>result_of := outcome t, consumer := Dropping\<rparr>" using step by simp
  show ?thesis using inv Taking unfolding t'
    by (cases "handoff t"; cases "producer t") (simp_all add: task_inv_def task_inv_defs split: word.splits)
next
  case Dropping
  then have t': "t' = (release_frame t)\<lparr>consumer := Gone\<rparr>" using step by simp
  show ?thesis using inv Dropping unfolding t'
    by (cases "handoff t"; cases "producer t") (simp_all add: task_inv_def task_inv_defs task_op_defs split: word.splits)
qed (use step in simp_all)

lemma wait_inv:
  assumes inv: "task_inv r t" and step: "wait t = Some t'" shows "task_inv r t'"
proof (cases "consumer t")
  case Loading
  then have t': "t' = t\<lparr>consumer := Testing (handoff t)\<rparr>" using step by simp
  show ?thesis using inv Loading unfolding t'
    by (cases "handoff t"; cases "producer t") (simp_all add: task_inv_def task_inv_defs split: word.splits)
next
  case (Testing w)
  show ?thesis
  proof (cases w)
    case Unclaimed
    show ?thesis
    proof (cases "handoff t = Unclaimed")
      case True
      then have t': "t' = t\<lparr>block := True, handoff := Parked\<rparr>" using step Testing Unclaimed by simp
      show ?thesis using inv Testing Unclaimed True unfolding t'
        by (cases "handoff t"; cases "producer t") (simp_all add: task_inv_def task_inv_defs split: word.splits)
    next
      case False
      then have t': "t' = t\<lparr>block := True, consumer := Testing (handoff t)\<rparr>" using step Testing Unclaimed by simp
      show ?thesis using inv Testing Unclaimed False unfolding t'
        by (cases "handoff t"; cases "producer t") (simp_all add: task_inv_def task_inv_defs split: word.splits)
    qed
  next
    case Completed
    then have t': "t' = t\<lparr>consumer := Taking\<rparr>" using step Testing by simp
    show ?thesis using inv Testing Completed unfolding t'
      by (cases "handoff t"; cases "producer t") (simp_all add: task_inv_def task_inv_defs split: word.splits)
  next
    case Parked
    then have t': "t' = t\<lparr>consumer := Acquiring\<rparr>" using step Testing by simp
    show ?thesis using inv Testing Parked unfolding t'
      by (cases "handoff t"; cases "producer t") (simp_all add: task_inv_def task_inv_defs split: word.splits)
  next
    case (Address a)
    then show ?thesis using inv Testing by (simp add: task_inv_def consumer_inv_def)
  qed
next
  case Acquiring
  then have t': "t' = t\<lparr>mutex := Some Consumer, consumer := Predicate\<rparr>" "mutex t = None"
    using step by (simp_all split: if_splits)
  show ?thesis using inv Acquiring t'(2) unfolding t'(1)
    by (cases "handoff t"; cases "producer t") (simp_all add: task_inv_def task_inv_defs split: word.splits)
next
  case Predicate
  show ?thesis
  proof (cases "done_state t")
    case True
    then have t': "t' = t\<lparr>mutex := None, consumer := Taking\<rparr>" using step Predicate by simp
    show ?thesis using inv Predicate True unfolding t'
      by (cases "handoff t"; cases "producer t") (simp_all add: task_inv_def task_inv_defs task_op_defs split: word.splits)
  next
    case False
    then have t': "t' = t\<lparr>mutex := None, consumer := Asleep\<rparr>" using step Predicate by simp
    show ?thesis using inv Predicate False unfolding t'
      by (cases "handoff t"; cases "producer t") (simp_all add: task_inv_def task_inv_defs task_op_defs split: word.splits)
  qed
next
  case Woken
  then have t': "t' = t\<lparr>mutex := Some Consumer, consumer := Predicate\<rparr>" "mutex t = None"
    using step by (simp_all split: if_splits)
  show ?thesis using inv Woken t'(2) unfolding t'(1)
    by (cases "handoff t"; cases "producer t") (simp_all add: task_inv_def task_inv_defs split: word.splits)
qed (use step in simp_all)

lemma publish_inv:
  assumes inv: "task_inv r t" and step: "publish r t = Some t'" shows "task_inv r t'"
proof (cases "producer t")
  case Running
  then have t': "t' = t\<lparr>outcome := Some r, producer := Exchanging\<rparr>" using step by simp
  show ?thesis using inv Running unfolding t'
    by (cases "handoff t"; cases "consumer t") (simp_all add: task_inv_def task_inv_defs split: word.splits)
next
  case Exchanging
  then have t': "t' = t\<lparr>handoff := Completed, producer := Branching (handoff t)\<rparr>" using step by simp
  show ?thesis using inv Exchanging unfolding t'
    by (cases "handoff t"; cases "consumer t") (simp_all add: task_inv_def task_inv_defs split: word.splits)
next
  case (Branching w)
  show ?thesis
  proof (cases w)
    case Unclaimed
    then have t': "t' = t\<lparr>producer := Releasing\<rparr>" using step Branching by simp
    show ?thesis using inv Branching Unclaimed unfolding t'
      by (cases "handoff t"; cases "consumer t") (simp_all add: task_inv_def task_inv_defs split: word.splits)
  next
    case Completed
    then show ?thesis using inv Branching by (simp add: task_inv_def producer_inv_def)
  next
    case Parked
    then have t': "t' = t\<lparr>producer := Locking\<rparr>" using step Branching by simp
    show ?thesis using inv Branching Parked unfolding t'
      by (cases "handoff t"; cases "consumer t") (simp_all add: task_inv_def task_inv_defs split: word.splits)
  next
    case (Address a)
    then have t': "t' = t\<lparr>consumer := Taking, producer := Resuming\<rparr>" using step Branching by simp
    show ?thesis using inv Branching Address unfolding t'
      by (simp add: task_inv_def task_inv_defs)
  qed
next
  case Locking
  then have t': "t' = t\<lparr>mutex := Some Producer, producer := Notifying\<rparr>" "mutex t = None"
    using step by (simp_all split: if_splits)
  show ?thesis using inv Locking t'(2) unfolding t'(1)
    by (cases "handoff t"; cases "consumer t") (simp_all add: task_inv_def task_inv_defs split: word.splits)
next
  case Notifying
  then have t': "t' = t\<lparr>consumer := (if consumer t = Asleep then Woken else consumer t), producer := Unlocking\<rparr>"
    using step by simp
  show ?thesis using inv Notifying unfolding t'
    by (cases "handoff t"; cases "consumer t") (simp_all add: task_inv_def task_inv_defs split: word.splits)
next
  case Unlocking
  then have t': "t' = t\<lparr>mutex := None, producer := Releasing\<rparr>" using step by simp
  show ?thesis using inv Unlocking unfolding t'
    by (cases "handoff t"; cases "consumer t") (simp_all add: task_inv_def task_inv_defs split: word.splits)
next
  case Resuming
  then have t': "t' = t\<lparr>producer := Releasing\<rparr>" "consumer t = Gone" using step by (simp_all split: if_splits)
  show ?thesis using inv Resuming t'(2) unfolding t'(1) by (simp add: task_inv_def task_inv_defs)
next
  case Releasing
  then have t': "t' = (release_frame t)\<lparr>producer := Ended\<rparr>" using step by simp
  show ?thesis using inv Releasing unfolding t'
    by (cases "handoff t"; cases "consumer t") (simp_all add: task_inv_def task_inv_defs task_op_defs split: word.splits)
qed (use step in simp_all)

lemma spurious_inv:
  assumes inv: "task_inv r t" and asleep: "consumer t = Asleep" shows "task_inv r (t\<lparr>consumer := Woken\<rparr>)"
proof -
  have "handoff t = Parked \<or> producer t \<in> {Branching Parked, Locking, Notifying}"
    using inv asleep by (simp add: task_inv_def consumer_inv_def)
  then consider "handoff t = Parked" "producer t = Running \<or> producer t = Exchanging"
    | "handoff t = Completed" "producer t \<in> {Branching Parked, Locking, Notifying}"
    using inv unfolding task_inv_def word_inv_def by auto
  then show ?thesis
    by cases (use inv asleep in \<open>auto simp: task_inv_def task_inv_defs\<close>)
qed

lemma choice_inv:
  assumes inv: "task_inv r t" and owning: "consumer t = Owning" and c: "c \<in> {Loading, Asking, Dropping}"
  shows "task_inv r (t\<lparr>consumer := c\<rparr>)"
proof -
  have "handoff t = Unclaimed \<or> handoff t = Completed"
    using inv owning by (cases "handoff t") (simp_all add: task_inv_def word_inv_def)
  then show ?thesis
    using c inv owning unfolding insert_iff empty_iff
    by (elim disjE; cases "producer t") (simp_all add: task_inv_def task_inv_defs split: word.splits)
qed

lemma task_step_inv: "task_step r t t' \<Longrightarrow> task_inv r t \<Longrightarrow> task_inv r t'"
proof (induction rule: task_step.induct)
  case (step_publish t t')
  then show ?case by (rule publish_inv [rotated])
next
  case (step_wait t t')
  then show ?case by (rule wait_inv [rotated])
next
  case (step_suspend a t t')
  then show ?case by (rule suspend_inv [rotated])
next
  case (step_take t t')
  then show ?case by (rule take_result_inv [rotated])
qed (simp_all add: choice_inv)

lemma run_inv: "task_run r n k t \<Longrightarrow> task_inv r t"
proof (induction rule: task_run.induct)
  case run_new
  show ?case by (rule task_inv_new)
next
  case (run_step n k t t')
  show ?case by (rule task_step_inv [OF run_step.hyps(2) run_step.IH])
next
  case (run_spurious n k t)
  show ?case by (rule spurious_inv [OF run_spurious.IH run_spurious.hyps(2)])
qed

section \<open>Progress\<close>

text \<open>How many steps a party still takes at most.  A wake-up without a completion costs two more: the lock
  is taken again, and the predicate fails again.\<close>

definition producer_work :: "producer_at \<Rightarrow> nat" where
  "producer_work p = (case p of Running \<Rightarrow> 7 | Exchanging \<Rightarrow> 6 | Branching w \<Rightarrow> 5 | Locking \<Rightarrow> 4 | Notifying \<Rightarrow> 3
     | Unlocking \<Rightarrow> 2 | Resuming \<Rightarrow> 2 | Releasing \<Rightarrow> 1 | Ended \<Rightarrow> 0)"

definition consumer_work :: "'r task \<Rightarrow> nat" where
  "consumer_work t = (case consumer t of
     Owning \<Rightarrow> 11 | Loading \<Rightarrow> 10
   | Testing Unclaimed \<Rightarrow> if handoff t = Unclaimed then 9 else 8
   | Testing Parked \<Rightarrow> 7 | Acquiring \<Rightarrow> 6
   | Predicate \<Rightarrow> if handoff t = Completed then 3 else 5
   | Asleep \<Rightarrow> 4 | Woken \<Rightarrow> if handoff t = Completed then 4 else 6 | Testing _ \<Rightarrow> 3
   | Asking \<Rightarrow> 6 | Suspending \<Rightarrow> 5 | Suspended \<Rightarrow> 3
   | Taking \<Rightarrow> 2 | Dropping \<Rightarrow> 1 | Gone \<Rightarrow> 0)"

definition work :: "'r task \<Rightarrow> nat" where
  "work t = producer_work (producer t) + consumer_work t"

text \<open>Both parties have left, the frame has been destroyed once.\<close>

definition finished :: "'r task \<Rightarrow> bool" where
  "finished t \<longleftrightarrow> producer t = Ended \<and> consumer t = Gone"

lemma release_frame_simps [simp]:
  "handoff (release_frame t) = handoff t" "consumer (release_frame t) = consumer t"
  "producer (release_frame t) = producer t" "mutex (release_frame t) = mutex t"
  "outcome (release_frame t) = outcome t" "block (release_frame t) = block t"
  by (simp_all add: release_frame_def release_task_state_def split: bool.split)

lemmas work_defs = work_def producer_work_def consumer_work_def

lemma publish_work:
  assumes inv: "task_inv r t" and step: "publish r t = Some t'" shows "work t' < work t"
proof (cases "producer t")
  case (Branching w)
  then show ?thesis using inv step
    by (cases w) (auto simp: work_defs task_inv_def producer_inv_def)
next
  case Exchanging
  then have t': "t' = t\<lparr>handoff := Completed, producer := Branching (handoff t)\<rparr>" using step by simp
  show ?thesis using Exchanging unfolding t'
    by (cases "consumer t") (auto simp: work_defs split: word.splits)
next
  case Notifying
  then have t': "t' = t\<lparr>consumer := (if consumer t = Asleep then Woken else consumer t), producer := Unlocking\<rparr>"
    using step by simp
  have "handoff t = Completed" using inv Notifying by (simp add: task_inv_def word_inv_def)
  then show ?thesis using Notifying unfolding t'
    by (cases "consumer t") (auto simp: work_defs split: word.splits)
next
  case Releasing
  then have t': "t' = (release_frame t)\<lparr>producer := Ended\<rparr>" using step by simp
  show ?thesis using Releasing unfolding t' by (simp add: work_defs)
qed (use step in \<open>auto simp: work_defs split: if_splits\<close>)

lemma wait_work:
  assumes inv: "task_inv r t" and step: "wait t = Some t'" shows "work t' < work t"
proof (cases "consumer t")
  case Loading
  then have t': "t' = t\<lparr>consumer := Testing (handoff t)\<rparr>" using step by simp
  show ?thesis using Loading unfolding t' by (cases "handoff t") (simp_all add: work_defs)
next
  case (Testing w)
  show ?thesis
  proof (cases w)
    case Unclaimed
    then show ?thesis using step Testing inv
      by (cases "handoff t") (auto simp: work_defs task_inv_def word_inv_def)
  next
    case (Address a)
    then show ?thesis using inv Testing by (simp add: task_inv_def consumer_inv_def)
  qed (use step Testing in \<open>auto simp: work_defs\<close>)
next
  case Predicate
  then show ?thesis using step by (auto simp: work_defs done_state_def split: if_splits)
qed (use step in \<open>auto simp: work_defs split: if_splits\<close>)

lemma suspend_work:
  assumes inv: "task_inv r t" and step: "suspend a t = Some t'" shows "work t' < work t"
proof (cases "consumer t")
  case Suspending
  have "handoff t = Unclaimed \<or> handoff t = Completed"
    using inv Suspending by (cases "handoff t") (simp_all add: task_inv_def word_inv_def)
  then show ?thesis using step Suspending by (auto simp: work_defs)
qed (use step in \<open>auto simp: work_defs\<close>)

lemma take_result_work: "take_result t = Some t' \<Longrightarrow> work t' < work t"
  by (cases "consumer t") (auto simp: work_defs)

lemma choice_work: "consumer t = Owning \<Longrightarrow> c \<in> {Loading, Asking, Dropping} \<Longrightarrow> work (t\<lparr>consumer := c\<rparr>) < work t"
  by (auto simp: work_defs)

lemma task_step_work: "task_step r t t' \<Longrightarrow> task_inv r t \<Longrightarrow> work t' < work t"
proof (induction rule: task_step.induct)
  case (step_publish t t')
  then show ?case by (rule publish_work [rotated])
next
  case (step_wait t t')
  then show ?case by (rule wait_work [rotated])
next
  case (step_suspend a t t')
  then show ?case by (rule suspend_work [rotated])
next
  case (step_take t t')
  then show ?case by (intro take_result_work)
qed (simp_all add: choice_work)

lemma spurious_work: "consumer t = Asleep \<Longrightarrow> work (t\<lparr>consumer := Woken\<rparr>) \<le> work t + 2"
  by (simp add: work_defs)

lemma run_work: "task_run r n k t \<Longrightarrow> n + work t \<le> 18 + 2 * k"
proof (induction rule: task_run.induct)
  case run_new
  show ?case by (simp add: work_defs new_task_def)
next
  case (run_step n k t t')
  have "work t' < work t" by (rule task_step_work [OF run_step.hyps(2) run_inv [OF run_step.hyps(1)]])
  then show ?case using run_step.IH by simp
next
  case (run_spurious n k t)
  show ?case using spurious_work [OF run_spurious.hyps(2)] run_spurious.IH by simp
qed

text \<open>No party waits for something that does not come: either thread can move.\<close>

lemma producer_moves: "publish r t = None \<Longrightarrow> producer t = Ended
    \<or> (producer t = Locking \<and> mutex t \<noteq> None) \<or> (producer t = Resuming \<and> consumer t \<noteq> Gone)"
  by (cases "producer t") (auto split: word.splits if_splits)

lemma consumer_moves:
  assumes inv: "task_inv r t" and stopped: "producer t = Ended" and here: "consumer t \<noteq> Gone"
  shows "\<exists>t'. task_step r t t'"
proof -
  have free: "consumer t = Predicate \<or> mutex t = None"
    using inv stopped unfolding task_inv_def mutex_inv_def by (cases "mutex t"; cases "the (mutex t)") auto
  have "consumer t \<noteq> Asleep" "consumer t \<noteq> Suspended"
    using inv stopped by (auto simp: task_inv_def consumer_inv_def word_inv_def)
  then consider "consumer t = Owning" | "\<exists>t'. wait t = Some t'" | "\<exists>t'. suspend 3 t = Some t'" | "\<exists>t'. take_result t = Some t'"
    using here free by (cases "consumer t") (auto split: word.split)
  then show ?thesis
    by cases (auto intro: task_step.intros simp del: wait.simps suspend.simps take_result.simps)
qed

lemma not_stuck:
  assumes inv: "task_inv r t" and left: "\<not> finished t" shows "\<exists>t'. task_step r t t'"
proof (cases "publish r t")
  case (Some t')
  then show ?thesis by (auto intro: step_publish simp del: publish.simps)
next
  case None
  from producer_moves [OF this] consider "producer t = Ended" | "producer t = Locking" "mutex t \<noteq> None"
    | "producer t = Resuming" "consumer t \<noteq> Gone" by blast
  then show ?thesis
  proof cases
    case 1
    then show ?thesis using consumer_moves [OF inv 1] left by (simp add: finished_def)
  next
    case 2
    then have "mutex t = Some Consumer"
      using inv by (cases "mutex t"; cases "the (mutex t)") (auto simp: task_inv_def mutex_inv_def)
    then have "consumer t = Predicate" using inv by (simp add: task_inv_def mutex_inv_def)
    then have "\<exists>t'. wait t = Some t'" by simp
    then show ?thesis by (auto intro: step_wait simp del: wait.simps)
  next
    case 3
    then have "consumer t = Taking \<or> consumer t = Dropping"
      using inv by (simp add: task_inv_def producer_inv_def)
    then have "\<exists>t'. take_result t = Some t'" by auto
    then show ?thesis by (auto intro: step_take simp del: take_result.simps)
  qed
qed

lemma finished_stops: "finished t \<Longrightarrow> \<not> task_step r t t'"
  by (auto simp: finished_def task_step_iff)

section \<open>Properties\<close>

text \<open>C33: In every interleaving the frame is destroyed at most once, exactly when both references have
  been dropped, hence after the coroutine and the consumer have made their last access; a consumer reads
  the result only when it is there, and never another one; whenever the coroutine locks or notifies
  through the block, the block has been allocated.\<close>

theorem frame_outlives_use:
  assumes "task_run r n k t"
  shows "destroyed t = (if finished t then 1 else 0) \<and> (references t = 0 \<longleftrightarrow> finished t)
    \<and> (consumer t = Taking \<longrightarrow> outcome t = Some r) \<and> result_of t \<in> {None, Some r}
    \<and> (producer t \<in> {Locking, Notifying, Unlocking} \<longrightarrow> block t)
    \<and> (consumer t \<in> {Acquiring, Predicate, Asleep, Woken} \<longrightarrow> handoff t \<in> {Parked, Completed})"
proof -
  have inv: "word_inv t" "consumer_inv t" "producer_inv t" "frame_inv r t"
    using run_inv [OF assms] by (simp_all add: task_inv_def)
  have "consumer t = Taking \<Longrightarrow> outcome t = Some r"
    using inv(1,2,4) by (auto simp: word_inv_def consumer_inv_def frame_inv_def)
  moreover have "consumer t = Asleep \<Longrightarrow> handoff t \<in> {Parked, Completed}"
    using inv(1,2) by (auto simp: word_inv_def consumer_inv_def)
  ultimately show ?thesis
    using inv(2-4) by (auto simp: consumer_inv_def producer_inv_def frame_inv_def finished_def)
qed

definition blocking_get :: "move list" where
  "blocking_get = [Get, Waits, Waits, Waits, Waits, Waits, Waits, Produce, Produce, Produce, Produce, Produce, Produce, Waits,
     Waits, Take, Produce, Take]"

lemma frame_outlives_use_witness:
  "\<exists>t :: nat task. schedule 7 blocking_get new_task = Some t \<and> destroyed t = 1 \<and> references t = 0"
proof -
  obtain t :: "nat task" where t: "schedule 7 blocking_get new_task = Some t" "finished t"
    by (simp add: blocking_get_def new_task_def finished_def task_op_defs)
  show ?thesis using frame_outlives_use [OF schedule_new_run [OF t(1)]] t by auto
qed

text \<open>C32: A task comes to rest after at most 18 steps and two more for each spurious wake-up of the
  condition variable, and it only rests when both parties have left: no interleaving loses a wake-up or
  blocks a thread for good.\<close>

theorem tasks_finish:
  assumes "task_run r n k t"
  shows "n \<le> 18 + 2 * k \<and> (finished t \<longleftrightarrow> (\<nexists>t'. task_step r t t'))"
proof -
  have "n \<le> 18 + 2 * k" using run_work [OF assms] by simp
  moreover have "finished t \<longleftrightarrow> (\<nexists>t'. task_step r t t')"
    using not_stuck [OF run_inv [OF assms]] finished_stops [of t r] by (cases "finished t") simp_all
  ultimately show ?thesis by simp
qed

lemma tasks_finish_witness:
  "\<exists>t :: nat task. schedule 7 (take 17 blocking_get) new_task = Some t \<and> (\<exists>t'. task_step 7 t t')"
proof -
  obtain t :: "nat task" where t: "schedule 7 (take 17 blocking_get) new_task = Some t" "\<not> finished t"
    by (simp add: blocking_get_def new_task_def finished_def task_op_defs)
  show ?thesis using tasks_finish [OF schedule_new_run [OF t(1)]] t by auto
qed

end
