(* ===== verification/Uv_Connection.thy ===== *)
theory Uv_Connection
  imports Errors "HOL-Library.Sublist" "HOL-Library.Multiset"
begin

text \<open>
  A connection on its loop (\<^verbatim>\<open>detail::Connection\<close> of \<^verbatim>\<open>src/runtime.cpp\<close>), in the build without TLS, as a step
  relation.  What libuv holds is part of the state: the timers that are armed, the write requests in their
  queue, the connect and resolve requests, the handles whose close callback is to come.  Completing an
  operation resumes its coroutine on the spot, in the middle of the function that completes it, and the
  coroutine may read, write or close before that function goes on: the stack holds what is still to run,
  user code on top of the rest of the functions that resumed it.  A callback of libuv starts on an empty
  stack.
\<close>

section \<open>State\<close>

text \<open>A suspended coroutine, by the number of its operation.\<close>

type_synonym waiter = nat

text \<open>The status of a libuv call and \<^verbatim>\<open>uv_message\<close> of it.\<close>

type_synonym uv_error = "int \<times> bytes"

datatype chunk = Chunk bytes | End_of_stream

datatype completion = Read_done "chunk result" | Write_done error_info | Connect_done error_info

datatype handle = Tcp | Read_timer | Write_timer

text \<open>What runs when the coroutine above it on the stack has suspended again.\<close>

datatype frame =
    User
  | Close_loop | Close_read | Close_write | Close_connect | Close_handles
  | Resume_connect waiter error_info
  | Created waiter bool "uv_error option"
  | Release waiter

record conn =
  begun :: bool
  initialized :: "handle set"
  self_keep :: bool
  closing :: bool
  conn_open :: bool
  read_started :: bool
  immediate_writes :: nat
  closing_handles :: nat
  pending_read :: "waiter option"
  pending_write :: "waiter option"
  pending_connect :: "waiter option"
  resolving :: bool
  completed :: "waiter set"
  kept :: "waiter set"
  read_timer :: bool
  write_timer :: bool
  write_queue :: "(waiter \<times> bytes) list"
  connect_request :: "waiter option"
  resolve_request :: "waiter option"
  to_close :: "handle set"
  posted_closes :: nat
  stack :: "frame list"
  host :: bytes
  address :: bytes
  next_waiter :: waiter
  asked :: "waiter \<Rightarrow> bytes"
  sent :: "(waiter \<times> bytes) list"
  resumed :: "(waiter \<times> completion) list"

definition new_connection :: conn where
  "new_connection =
     \<lparr>begun = False, initialized = {}, self_keep = False, closing = False, conn_open = False, read_started = False,
      immediate_writes = 0, closing_handles = 0, pending_read = None, pending_write = None, pending_connect = None,
      resolving = True, completed = {}, kept = {}, read_timer = False, write_timer = False, write_queue = [],
      connect_request = None, resolve_request = None, to_close = {}, posted_closes = 0, stack = [], host = [], address = [], next_waiter = 0,
      asked = (\<lambda>_. []), sent = [], resumed = []\<rparr>"

section \<open>Completing an operation\<close>

definition uv_failure :: "error_code \<Rightarrow> bytes \<Rightarrow> uv_error \<Rightarrow> error_info" where
  "uv_failure e what u = make_error e (what @ snd u) (fst u) 0"

text \<open>\<^verbatim>\<open>UV_ETIMEDOUT\<close> has its value on Linux.\<close>

definition timed_out :: "bytes \<Rightarrow> error_info" where
  "timed_out what = make_error E_timeout what (-110) 0"

definition connection_closed :: error_info where
  "connection_closed = error_of E_cancelled ''Connection closed''"

text \<open>A result without a suspension, and \<^verbatim>\<open>continuation.resume()\<close>.\<close>

definition answer :: "waiter \<Rightarrow> completion \<Rightarrow> conn \<Rightarrow> conn" where
  "answer w d c = c\<lparr>completed := insert w (completed c), resumed := resumed c @ [(w, d)]\<rparr>"

definition resume :: "waiter \<Rightarrow> completion \<Rightarrow> conn \<Rightarrow> conn" where
  "resume w d c = c\<lparr>resumed := resumed c @ [(w, d)], stack := User # stack c\<rparr>"

definition mark_completed :: "waiter \<Rightarrow> conn \<Rightarrow> conn" where
  "mark_completed w c = c\<lparr>completed := insert w (completed c)\<rparr>"

definition finish_read :: "chunk result \<Rightarrow> conn \<Rightarrow> conn" where
  "finish_read r c =
     (case pending_read c of
        None \<Rightarrow> c
      | Some w \<Rightarrow>
          let c1 = c\<lparr>pending_read := None\<rparr>
          in if w \<in> completed c1 then c1
             else resume w (Read_done r) ((mark_completed w c1)\<lparr>read_timer := False, read_started := False\<rparr>))"

definition finish_write :: "error_info \<Rightarrow> conn \<Rightarrow> conn" where
  "finish_write e c =
     (case pending_write c of
        None \<Rightarrow> c
      | Some w \<Rightarrow>
          let c1 = c\<lparr>pending_write := None\<rparr>
          in if w \<in> completed c1 then c1
             else resume w (Write_done e) ((mark_completed w c1)\<lparr>write_timer := False\<rparr>))"

text \<open>A failed attempt closes the connection before its coroutine is resumed.\<close>

definition finish_connect :: "error_info \<Rightarrow> conn \<Rightarrow> conn" where
  "finish_connect e c =
     (case pending_connect c of
        None \<Rightarrow> c
      | Some w \<Rightarrow>
          let c1 = c\<lparr>pending_connect := None\<rparr>
          in if w \<in> completed c1 then c1
             else
               let c2 = mark_completed w c1;
                   c3 = (if Read_timer \<in> initialized c2 then c2\<lparr>read_timer := False\<rparr> else c2)
               in if \<not> is_error e then resume w (Connect_done e) (c3\<lparr>conn_open := True\<rparr>)
                  else c3\<lparr>stack := Close_loop # Resume_connect w e # stack c3\<rparr>)"

section \<open>Closing\<close>

text \<open>\<^verbatim>\<open>close_on_loop\<close>, cut where a coroutine may run: \<open>begin_close\<close> to the first of them.\<close>

definition begin_close :: "conn \<Rightarrow> conn" where
  "begin_close c =
     (if closing c then c
      else c\<lparr>closing := True, conn_open := False,
        stack := [Close_read, Close_write, Close_connect, Close_handles] @ stack c\<rparr>)"

definition close_handles :: "conn \<Rightarrow> conn" where
  "close_handles c =
     (let c1 = c\<lparr>closing_handles := card (initialized c), to_close := initialized c, read_timer := False,
        write_timer := False\<rparr>
      in if closing_handles c1 = 0 then c1\<lparr>self_keep := False\<rparr> else c1)"

definition close_callback :: "handle \<Rightarrow> conn \<Rightarrow> conn" where
  "close_callback h c =
     (let c1 = c\<lparr>to_close := to_close c - {h}, closing_handles := closing_handles c - 1\<rparr>
      in if closing_handles c1 = 0 then c1\<lparr>self_keep := False\<rparr> else c1)"

text \<open>\<^verbatim>\<open>close\<close> on the loop, and from another thread, where the rest is posted.\<close>

definition close_here :: "conn \<Rightarrow> conn" where
  "close_here c = c\<lparr>conn_open := False, stack := Close_loop # stack c\<rparr>"

definition close_remote :: "conn \<Rightarrow> conn" where
  "close_remote c = c\<lparr>conn_open := False, posted_closes := posted_closes c + 1\<rparr>"

section \<open>Connecting and accepting\<close>

definition start_tcp_connect :: "waiter \<Rightarrow> uv_error option \<Rightarrow> conn \<Rightarrow> conn" where
  "start_tcp_connect w status c =
     (case status of
        None \<Rightarrow> c\<lparr>connect_request := Some w\<rparr>
      | Some u \<Rightarrow> finish_connect (uv_failure E_connect (''Unable to start connection to '' @ host c @ '' ('' @ address c @ ''): '') u)
          (c\<lparr>stack := Release w # stack c\<rparr>))"

definition start_resolve :: "waiter \<Rightarrow> uv_error option \<Rightarrow> conn \<Rightarrow> conn" where
  "start_resolve w status c =
     (case status of
        None \<Rightarrow> c\<lparr>resolve_request := Some w\<rparr>
      | Some u \<Rightarrow> finish_connect (uv_failure E_resolve ''Unable to start DNS resolution: '' u)
          (c\<lparr>stack := Release w # stack c\<rparr>))"

text \<open>Behind the observer of a new attempt, which may have closed it.\<close>

definition after_created :: "waiter \<Rightarrow> bool \<Rightarrow> uv_error option \<Rightarrow> conn \<Rightarrow> conn" where
  "after_created w candidate status c =
     (if w \<in> completed c then c\<lparr>kept := kept c - {w}\<rparr>
      else
        let c1 = c\<lparr>read_timer := True\<rparr>
        in if candidate then start_tcp_connect w status c1 else start_resolve w status c1)"

text \<open>The handles that libuv initialises before it fails, or all of them.\<close>

definition first_handles :: "nat \<Rightarrow> handle set" where
  "first_handles n = set (take n [Tcp, Read_timer, Write_timer])"

definition start_connect ::
    "bytes \<Rightarrow> bytes option \<Rightarrow> nat \<Rightarrow> uv_error \<Rightarrow> uv_error option \<Rightarrow> conn \<Rightarrow> conn" where
  "start_connect name candidate n failed status c =
     (let w = next_waiter c;
          c1 = c\<lparr>begun := True, next_waiter := w + 1, self_keep := True, initialized := first_handles n,
            pending_connect := Some w, host := name,
            address := (case candidate of None \<Rightarrow> [] | Some a \<Rightarrow> a)\<rparr>
      in if n < 3 then finish_connect (uv_failure E_connect ''Unable to initialize TCP: '' failed) c1
         else c1\<lparr>kept := insert w (kept c1), stack := User # Created w (candidate \<noteq> None) status # stack c1\<rparr>)"

definition accept_connection :: "nat \<Rightarrow> bool \<Rightarrow> conn \<Rightarrow> conn" where
  "accept_connection n accepted c =
     (let c1 = c\<lparr>begun := True, self_keep := True, initialized := first_handles n\<rparr>
      in if n < 3 \<or> \<not> accepted then c1\<lparr>stack := Close_loop # stack c1\<rparr> else c1\<lparr>conn_open := True\<rparr>)"

definition resolve_callback :: "waiter \<Rightarrow> bytes \<Rightarrow> uv_error option \<Rightarrow> uv_error option \<Rightarrow> conn \<Rightarrow> conn" where
  "resolve_callback w first_address failed status c =
     (let c1 = c\<lparr>resolve_request := None, resolving := False\<rparr>
      in if w \<in> completed c1 then c1\<lparr>kept := kept c1 - {w}\<rparr>
         else (case failed of
                 Some u \<Rightarrow> finish_connect (uv_failure E_resolve (''Unable to resolve '' @ host c @ '': '') u)
                   (c1\<lparr>stack := Release w # stack c1\<rparr>)
               | None \<Rightarrow> start_tcp_connect w status (c1\<lparr>address := first_address\<rparr>)))"

definition connect_callback :: "waiter \<Rightarrow> uv_error option \<Rightarrow> conn \<Rightarrow> conn" where
  "connect_callback w failed c =
     (let c1 = c\<lparr>connect_request := None, stack := Release w # stack c\<rparr>
      in if w \<in> completed c1 then c1
         else (case failed of
                 None \<Rightarrow> finish_connect no_error c1
               | Some u \<Rightarrow> finish_connect (uv_failure E_connect (''Unable to connect to '' @ host c @ '' ('' @ address c @ ''): '') u) c1))"

section \<open>Reading and writing\<close>

definition start_read :: "uv_error option \<Rightarrow> conn \<Rightarrow> conn" where
  "start_read status c =
     (let w = next_waiter c; c0 = c\<lparr>next_waiter := w + 1\<rparr>
      in if \<not> conn_open c0 then resume w (Read_done (Inr End_of_stream)) (mark_completed w c0)
         else if pending_read c0 \<noteq> None
         then resume w (Read_done (fail E_read ''Concurrent reads are not supported'')) (mark_completed w c0)
         else
           let c1 = c0\<lparr>pending_read := Some w, read_timer := True\<rparr>
           in if read_started c1 then c1
              else (case status of
                      None \<Rightarrow> c1\<lparr>read_started := True\<rparr>
                    | Some u \<Rightarrow> finish_read (Inl (uv_failure E_read ''Unable to start read: '' u)) c1))"

definition queue_write :: "waiter \<Rightarrow> bytes \<Rightarrow> uv_error option \<Rightarrow> conn \<Rightarrow> conn" where
  "queue_write w rest status c =
     (if \<not> conn_open c
      then resume w (Write_done (error_of E_write ''Connection is closed'')) (mark_completed w c)
      else if pending_write c \<noteq> None
      then resume w (Write_done (error_of E_write ''Concurrent writes are not supported'')) (mark_completed w c)
      else
        let c1 = c\<lparr>pending_write := Some w, immediate_writes := 0, kept := insert w (kept c), write_timer := True\<rparr>
        in (case status of
              None \<Rightarrow> c1\<lparr>write_queue := write_queue c1 @ [(w, rest)]\<rparr>
            | Some u \<Rightarrow> finish_write (uv_failure E_write ''Unable to start write: '' u)
                (c1\<lparr>stack := Release w # stack c1\<rparr>)))"

text \<open>What \<^verbatim>\<open>uv_try_write\<close> says: so many bytes, try again, or an error.\<close>

datatype attempt = Took nat | Busy | Refused uv_error

definition try_write :: "attempt \<Rightarrow> uv_error option \<Rightarrow> waiter \<Rightarrow> bytes \<Rightarrow> conn \<Rightarrow> conn" where
  "try_write a status w data c =
     (case a of
        Took n \<Rightarrow>
          let c1 = c\<lparr>sent := sent c @ [(w, take n data)], immediate_writes := immediate_writes c + 1\<rparr>
          in if n = length data then answer w (Write_done no_error) c1 else queue_write w (drop n data) status c1
      | Busy \<Rightarrow> queue_write w data status c
      | Refused u \<Rightarrow> answer w (Write_done (uv_failure E_write ''Socket write failed: '' u)) c)"

definition start_write :: "bytes \<Rightarrow> attempt \<Rightarrow> uv_error option \<Rightarrow> conn \<Rightarrow> conn" where
  "start_write data a status c =
     (let w = next_waiter c; c0 = c\<lparr>next_waiter := w + 1, asked := (asked c)(w := data)\<rparr>
      in if data = [] then answer w (Write_done no_error) c0
         else if \<not> conn_open c0 then answer w (Write_done (error_of E_write ''Connection is closed'')) c0
         else if pending_write c0 \<noteq> None
         then answer w (Write_done (error_of E_write ''Concurrent writes are not supported'')) c0
         else if length data > 16 * 1024 \<or> immediate_writes c0 \<ge> 64 then queue_write w data status c0
         else try_write a status w data c0)"

text \<open>A call without data is \<^verbatim>\<open>UV_EAGAIN\<close>.\<close>

datatype arrival = Arrived bytes | Ended | Broken uv_error

definition read_callback :: "arrival \<Rightarrow> conn \<Rightarrow> conn" where
  "read_callback a c =
     (case a of
        Arrived bs \<Rightarrow> if bs = [] then c else finish_read (Inr (Chunk bs)) c
      | Ended \<Rightarrow> finish_read (Inr End_of_stream) c
      | Broken u \<Rightarrow> finish_read (Inl (uv_failure E_read ''Socket read failed: '' u)) c)"

text \<open>The oldest request of the queue is done, with some of its bytes sent when it failed.\<close>

definition write_callback :: "(nat \<times> uv_error) option \<Rightarrow> conn \<Rightarrow> conn" where
  "write_callback failed c =
     (case write_queue c of
        [] \<Rightarrow> c
      | (w, data) # rest \<Rightarrow>
          let c1 = c\<lparr>write_queue := rest, stack := Release w # stack c,
                sent := sent c @ [(w, case failed of None \<Rightarrow> data | Some (n, _) \<Rightarrow> take n data)]\<rparr>
          in if w \<in> completed c1 then c1
             else (case failed of
                     None \<Rightarrow> finish_write no_error c1
                   | Some (_, u) \<Rightarrow> finish_write (uv_failure E_write ''Socket write failed: '' u) c1))"

definition read_timeout :: "conn \<Rightarrow> conn" where
  "read_timeout c =
     (let c1 = c\<lparr>read_timer := False, stack := Close_loop # stack c\<rparr>
      in if pending_connect c1 \<noteq> None then finish_connect (timed_out ''Connection attempt timed out'') c1
         else finish_read (Inl (timed_out ''Socket read timed out'')) c1)"

definition write_timeout :: "conn \<Rightarrow> conn" where
  "write_timeout c = finish_write (timed_out ''Socket write timed out'')
     (c\<lparr>write_timer := False, stack := Close_loop # stack c\<rparr>)"

section \<open>Steps\<close>

definition run_frame :: "frame \<Rightarrow> conn \<Rightarrow> conn" where
  "run_frame f c =
     (case f of
        User \<Rightarrow> c
      | Close_loop \<Rightarrow> begin_close c
      | Close_read \<Rightarrow> finish_read (Inl connection_closed) c
      | Close_write \<Rightarrow> finish_write connection_closed c
      | Close_connect \<Rightarrow> finish_connect connection_closed c
      | Close_handles \<Rightarrow> close_handles c
      | Resume_connect w e \<Rightarrow> resume w (Connect_done e) c
      | Created w candidate status \<Rightarrow> after_created w candidate status c
      | Release w \<Rightarrow> c\<lparr>kept := kept c - {w}\<rparr>)"

text \<open>
  User code acts when it is on top of the stack, callbacks of libuv come when the stack is empty, and
  another thread may close at any time.  \<^verbatim>\<open>uv_try_write\<close> takes nothing while requests are queued, and the
  close callback of the socket comes behind those of its requests.
\<close>

definition user_runs :: "conn \<Rightarrow> bool" where
  "user_runs c \<longleftrightarrow> (\<exists>rest. stack c = User # rest)"

definition attempt_possible :: "attempt \<Rightarrow> bytes \<Rightarrow> conn \<Rightarrow> bool" where
  "attempt_possible a data c \<longleftrightarrow> (case a of Took n \<Rightarrow> n \<le> length data \<and> write_queue c = [] | _ \<Rightarrow> True)"

inductive conn_step :: "conn \<Rightarrow> conn \<Rightarrow> bool" where
  Accept: "\<not> begun c \<Longrightarrow> stack c = [] \<Longrightarrow> conn_step c (accept_connection n accepted c)"
| Connect: "\<not> begun c \<Longrightarrow> stack c = [] \<Longrightarrow> conn_step c (start_connect name candidate n failed status c)"
| Frame: "stack c = f # rest \<Longrightarrow> conn_step c (run_frame f (c\<lparr>stack := rest\<rparr>))"
| User_reads: "begun c \<Longrightarrow> user_runs c \<Longrightarrow> conn_step c (start_read status c)"
| User_writes: "begun c \<Longrightarrow> user_runs c \<Longrightarrow> attempt_possible a data c \<Longrightarrow> conn_step c (start_write data a status c)"
| User_closes: "begun c \<Longrightarrow> user_runs c \<Longrightarrow> conn_step c (close_here c)"
| Other_thread: "begun c \<Longrightarrow> conn_step c (close_remote c)"
| Posted_close: "stack c = [] \<Longrightarrow> posted_closes c > 0 \<Longrightarrow>
    conn_step c (c\<lparr>posted_closes := posted_closes c - 1, stack := [Close_loop]\<rparr>)"
| Posted_user: "begun c \<Longrightarrow> stack c = [] \<Longrightarrow> conn_step c (c\<lparr>stack := [User]\<rparr>)"
| Arrives: "stack c = [] \<Longrightarrow> read_started c \<Longrightarrow> conn_step c (read_callback a c)"
| Write_ends: "stack c = [] \<Longrightarrow> write_queue c \<noteq> [] \<Longrightarrow> conn_step c (write_callback res c)"
| Read_expires: "stack c = [] \<Longrightarrow> read_timer c \<Longrightarrow> conn_step c (read_timeout c)"
| Write_expires: "stack c = [] \<Longrightarrow> write_timer c \<Longrightarrow> conn_step c (write_timeout c)"
| Resolved: "stack c = [] \<Longrightarrow> resolve_request c = Some w \<Longrightarrow> conn_step c (resolve_callback w a res status c)"
| Connection_ends: "stack c = [] \<Longrightarrow> connect_request c = Some w \<Longrightarrow> conn_step c (connect_callback w res c)"
| Handle_closed: "stack c = [] \<Longrightarrow> h \<in> to_close c \<Longrightarrow> h = Tcp \<longrightarrow> write_queue c = [] \<and> connect_request c = None \<Longrightarrow>
    conn_step c (close_callback h c)"

inductive reach :: "conn \<Rightarrow> bool" where
  Start: "reach new_connection"
| Step: "reach c \<Longrightarrow> conn_step c c' \<Longrightarrow> reach c'"

end
