(* ===== verification/Uv_Connection_Facts.thy ===== *)
theory Uv_Connection_Facts
  imports Uv_Connection
begin

text \<open>
  What holds in every state a connection reaches: each operation is completed once, a closed connection
  leaves none behind, what a write reports as written has been given to the kernel, and libuv holds
  nothing of a connection that has been let go.
\<close>

section \<open>Every operation is completed once\<close>

abbreviation waiting :: "waiter option \<Rightarrow> waiter list" where
  "waiting p \<equiv> (case p of None \<Rightarrow> [] | Some w \<Rightarrow> [w])"

text \<open>The coroutines of failed attempts that wait for the end of \<^verbatim>\<open>close_on_loop\<close>.\<close>

fun delayed :: "frame list \<Rightarrow> waiter list" where
  "delayed [] = []"
| "delayed (f # fs) = (case f of Resume_connect w e \<Rightarrow> w # delayed fs | _ \<Rightarrow> delayed fs)"

definition known :: "conn \<Rightarrow> waiter list" where
  "known c = map fst (resumed c) @ delayed (stack c)"

definition waiters :: "conn \<Rightarrow> waiter list" where
  "waiters c = known c @ waiting (pending_read c) @ waiting (pending_write c) @ waiting (pending_connect c)"

definition accounted :: "conn \<Rightarrow> bool" where
  "accounted c \<longleftrightarrow> mset (waiters c) = mset [0..<next_waiter c] \<and> completed c = set (known c)"

text \<open>The same, but for an operation that has just been given its number.\<close>

definition placing :: "waiter \<Rightarrow> conn \<Rightarrow> bool" where
  "placing w c \<longleftrightarrow> add_mset w (mset (waiters c)) = mset [0..<next_waiter c] \<and> completed c = set (known c)"

lemmas waiter_defs = accounted_def placing_def waiters_def known_def

lemma mset_upt_distinct: "mset xs = mset [0..<n] \<Longrightarrow> distinct xs"
  by (metis distinct_upt mset_eq_imp_distinct_iff)

lemma placing_new: "accounted c \<Longrightarrow> placing (next_waiter c) (c\<lparr>next_waiter := next_waiter c + 1\<rparr>)"
  by (simp add: waiter_defs)

lemma accounted_pending:
  assumes "accounted c"
  shows "pending_read c = Some w \<Longrightarrow> w \<notin> completed c" "pending_write c = Some w \<Longrightarrow> w \<notin> completed c"
    "pending_connect c = Some w \<Longrightarrow> w \<notin> completed c"
proof -
  have d: "distinct (waiters c)" and k: "completed c = set (known c)"
    using assms by (simp_all add: accounted_def mset_upt_distinct)
  show "pending_read c = Some w \<Longrightarrow> w \<notin> completed c" "pending_write c = Some w \<Longrightarrow> w \<notin> completed c"
    "pending_connect c = Some w \<Longrightarrow> w \<notin> completed c"
    using d k by (simp_all add: waiters_def)
qed

text \<open>What completing an operation does, when it is pending.\<close>

lemma finish_read_cases:
  assumes "accounted c"
  obtains "pending_read c = None" "finish_read r c = c"
  | w where "pending_read c = Some w" "w \<notin> completed c"
      "finish_read r c = c\<lparr>pending_read := None, completed := insert w (completed c), read_timer := False,
         read_started := False, resumed := resumed c @ [(w, Read_done r)], stack := User # stack c\<rparr>"
proof (cases "pending_read c")
  case None
  then show thesis using that(1) by (simp add: finish_read_def)
next
  case (Some w)
  have n: "w \<notin> completed c" by (rule accounted_pending(1) [OF assms Some])
  show thesis by (rule that(2) [OF Some n]) (simp add: finish_read_def resume_def mark_completed_def Some n)
qed

lemma finish_write_cases:
  assumes "accounted c"
  obtains "pending_write c = None" "finish_write e c = c"
  | w where "pending_write c = Some w" "w \<notin> completed c"
      "finish_write e c = c\<lparr>pending_write := None, completed := insert w (completed c), write_timer := False,
         resumed := resumed c @ [(w, Write_done e)], stack := User # stack c\<rparr>"
proof (cases "pending_write c")
  case None
  then show thesis using that(1) by (simp add: finish_write_def)
next
  case (Some w)
  have n: "w \<notin> completed c" by (rule accounted_pending(2) [OF assms Some])
  show thesis by (rule that(2) [OF Some n]) (simp add: finish_write_def resume_def mark_completed_def Some n)
qed

lemma finish_connect_cases:
  assumes "accounted c"
  obtains "pending_connect c = None" "finish_connect e c = c"
  | w where "pending_connect c = Some w" "w \<notin> completed c" "\<not> is_error e"
      "finish_connect e c = c\<lparr>pending_connect := None, completed := insert w (completed c),
         read_timer := (Read_timer \<notin> initialized c \<and> read_timer c), conn_open := True,
         resumed := resumed c @ [(w, Connect_done e)], stack := User # stack c\<rparr>"
  | w where "pending_connect c = Some w" "w \<notin> completed c" "is_error e"
      "finish_connect e c = c\<lparr>pending_connect := None, completed := insert w (completed c),
         read_timer := (Read_timer \<notin> initialized c \<and> read_timer c),
         stack := Close_loop # Resume_connect w e # stack c\<rparr>"
proof (cases "pending_connect c")
  case None
  then show thesis using that(1) by (simp add: finish_connect_def)
next
  case (Some w)
  have n: "w \<notin> completed c" by (rule accounted_pending(3) [OF assms Some])
  show thesis
  proof (cases "is_error e")
    case True
    then show thesis using that(3) [OF Some n True] Some n
      by (cases "Read_timer \<in> initialized c") (simp_all add: finish_connect_def mark_completed_def Let_def)
  next
    case False
    then show thesis using that(2) [OF Some n False] Some n
      by (cases "Read_timer \<in> initialized c") (simp_all add: finish_connect_def resume_def mark_completed_def Let_def)
  qed
qed

lemma finish_read_accounted:
  assumes "accounted c" shows "accounted (finish_read r c)"
  using assms by (rule finish_read_cases [where r = r]) (use assms in \<open>simp_all add: waiter_defs\<close>)

lemma finish_write_accounted:
  assumes "accounted c" shows "accounted (finish_write e c)"
  using assms by (rule finish_write_cases [where e = e]) (use assms in \<open>simp_all add: waiter_defs\<close>)

lemma finish_connect_accounted:
  assumes "accounted c" shows "accounted (finish_connect e c)"
  using assms by (rule finish_connect_cases [where e = e]) (use assms in \<open>simp_all add: waiter_defs\<close>)

lemma placing_resumed: "placing w c \<Longrightarrow> accounted (resume w d (mark_completed w c))"
  by (simp add: resume_def mark_completed_def waiter_defs)

lemma placing_answered: "placing w c \<Longrightarrow> accounted (answer w d c)"
  by (simp add: answer_def waiter_defs)

text \<open>Fields that do not matter.\<close>

lemma accounted_updates [simp]:
  "accounted (c\<lparr>begun := v_begun\<rparr>) = accounted c"
  "accounted (c\<lparr>initialized := v_initialized\<rparr>) = accounted c"
  "accounted (c\<lparr>self_keep := v_self_keep\<rparr>) = accounted c"
  "accounted (c\<lparr>closing := v_closing\<rparr>) = accounted c"
  "accounted (c\<lparr>conn_open := v_conn_open\<rparr>) = accounted c"
  "accounted (c\<lparr>read_started := v_read_started\<rparr>) = accounted c"
  "accounted (c\<lparr>immediate_writes := v_immediate_writes\<rparr>) = accounted c"
  "accounted (c\<lparr>closing_handles := v_closing_handles\<rparr>) = accounted c"
  "accounted (c\<lparr>resolving := v_resolving\<rparr>) = accounted c"
  "accounted (c\<lparr>kept := v_kept\<rparr>) = accounted c"
  "accounted (c\<lparr>read_timer := v_read_timer\<rparr>) = accounted c"
  "accounted (c\<lparr>write_timer := v_write_timer\<rparr>) = accounted c"
  "accounted (c\<lparr>write_queue := v_write_queue\<rparr>) = accounted c"
  "accounted (c\<lparr>connect_request := v_connect_request\<rparr>) = accounted c"
  "accounted (c\<lparr>resolve_request := v_resolve_request\<rparr>) = accounted c"
  "accounted (c\<lparr>to_close := v_to_close\<rparr>) = accounted c"
  "accounted (c\<lparr>posted_closes := v_posted_closes\<rparr>) = accounted c"
  "accounted (c\<lparr>host := v_host\<rparr>) = accounted c"
  "accounted (c\<lparr>address := v_address\<rparr>) = accounted c"
  "accounted (c\<lparr>asked := v_asked\<rparr>) = accounted c"
  "accounted (c\<lparr>sent := v_sent\<rparr>) = accounted c"
  "delayed fs = delayed (stack c) \<Longrightarrow> accounted (c\<lparr>stack := fs\<rparr>) = accounted c"
  by (simp_all add: waiter_defs)

lemma placing_updates [simp]:
  "placing w (c\<lparr>begun := v_begun\<rparr>) = placing w c"
  "placing w (c\<lparr>initialized := v_initialized\<rparr>) = placing w c"
  "placing w (c\<lparr>self_keep := v_self_keep\<rparr>) = placing w c"
  "placing w (c\<lparr>closing := v_closing\<rparr>) = placing w c"
  "placing w (c\<lparr>conn_open := v_conn_open\<rparr>) = placing w c"
  "placing w (c\<lparr>read_started := v_read_started\<rparr>) = placing w c"
  "placing w (c\<lparr>immediate_writes := v_immediate_writes\<rparr>) = placing w c"
  "placing w (c\<lparr>closing_handles := v_closing_handles\<rparr>) = placing w c"
  "placing w (c\<lparr>resolving := v_resolving\<rparr>) = placing w c"
  "placing w (c\<lparr>kept := v_kept\<rparr>) = placing w c"
  "placing w (c\<lparr>read_timer := v_read_timer\<rparr>) = placing w c"
  "placing w (c\<lparr>write_timer := v_write_timer\<rparr>) = placing w c"
  "placing w (c\<lparr>write_queue := v_write_queue\<rparr>) = placing w c"
  "placing w (c\<lparr>connect_request := v_connect_request\<rparr>) = placing w c"
  "placing w (c\<lparr>resolve_request := v_resolve_request\<rparr>) = placing w c"
  "placing w (c\<lparr>to_close := v_to_close\<rparr>) = placing w c"
  "placing w (c\<lparr>posted_closes := v_posted_closes\<rparr>) = placing w c"
  "placing w (c\<lparr>host := v_host\<rparr>) = placing w c"
  "placing w (c\<lparr>address := v_address\<rparr>) = placing w c"
  "placing w (c\<lparr>asked := v_asked\<rparr>) = placing w c"
  "placing w (c\<lparr>sent := v_sent\<rparr>) = placing w c"
  "delayed fs = delayed (stack c) \<Longrightarrow> placing w (c\<lparr>stack := fs\<rparr>) = placing w c"
  by (simp_all add: waiter_defs)

lemma start_tcp_accounted: "accounted c \<Longrightarrow> accounted (start_tcp_connect w status c)"
  by (simp add: start_tcp_connect_def finish_connect_accounted split: option.split)

lemma start_resolve_accounted: "accounted c \<Longrightarrow> accounted (start_resolve w status c)"
  by (simp add: start_resolve_def finish_connect_accounted split: option.split)

lemma close_accounted:
  "accounted c \<Longrightarrow> accounted (begin_close c)" "accounted c \<Longrightarrow> accounted (close_handles c)"
  "accounted c \<Longrightarrow> accounted (close_callback h c)" "accounted c \<Longrightarrow> accounted (close_here c)"
  "accounted c \<Longrightarrow> accounted (close_remote c)"
  by (simp_all add: begin_close_def close_handles_def close_callback_def close_here_def close_remote_def Let_def)

lemma after_created_accounted: "accounted c \<Longrightarrow> accounted (after_created w candidate status c)"
  by (simp add: after_created_def start_tcp_accounted start_resolve_accounted Let_def)

lemma frame_accounted:
  assumes "accounted c" "stack c = f # rest"
  shows "accounted (run_frame f (c\<lparr>stack := rest\<rparr>))"
proof (cases f)
  case (Resume_connect w e)
  then show ?thesis using assms by (simp add: run_frame_def resume_def waiter_defs)
qed (use assms in \<open>simp_all add: run_frame_def close_accounted finish_read_accounted finish_write_accounted
    finish_connect_accounted after_created_accounted\<close>)

lemma start_read_accounted:
  assumes "accounted c" shows "accounted (start_read status c)"
proof -
  let ?w = "next_waiter c"
  let ?c = "c\<lparr>next_waiter := ?w + 1\<rparr>"
  have p: "placing ?w ?c" by (rule placing_new [OF assms])
  have "accounted (?c\<lparr>pending_read := Some ?w\<rparr>)" if "pending_read c = None"
    using p that by (simp add: waiter_defs)
  then show ?thesis
    using placing_resumed [OF p]
    by (auto simp: start_read_def Let_def intro!: finish_read_accounted split: option.split)
qed

lemma queue_write_accounted:
  assumes "placing w c" shows "accounted (queue_write w rest status c)"
proof -
  have "accounted (c\<lparr>pending_write := Some w\<rparr>)" if "pending_write c = None"
    using assms that by (simp add: waiter_defs)
  then show ?thesis
    using placing_resumed [OF assms]
    by (auto simp: queue_write_def Let_def intro!: finish_write_accounted split: option.split)
qed

lemma start_write_accounted:
  assumes "accounted c" shows "accounted (start_write data a status c)"
  using placing_new [OF assms]
  by (auto simp: start_write_def try_write_def Let_def placing_answered queue_write_accounted split: attempt.split)

lemma start_connect_accounted:
  assumes "accounted c" "pending_connect c = None"
  shows "accounted (start_connect name candidate n failed status c)"
proof -
  let ?w = "next_waiter c"
  have "accounted (c\<lparr>begun := True, next_waiter := ?w + 1, self_keep := True, initialized := first_handles n,
      pending_connect := Some ?w, host := name, address := (case candidate of None \<Rightarrow> [] | Some a \<Rightarrow> a)\<rparr>)"
    using placing_new [OF assms(1)] assms(2) by (simp add: waiter_defs)
  then show ?thesis by (auto simp: start_connect_def Let_def intro!: finish_connect_accounted)
qed

lemma callbacks_accounted:
  assumes "accounted c"
  shows "accounted (read_callback a c)" "accounted (write_callback res c)" "accounted (read_timeout c)"
    "accounted (write_timeout c)" "accounted (resolve_callback w ad why status c)" "accounted (connect_callback w why c)"
  using assms
  by (auto simp: read_callback_def write_callback_def read_timeout_def write_timeout_def resolve_callback_def
      connect_callback_def Let_def intro!: finish_read_accounted finish_write_accounted finish_connect_accounted
      start_tcp_accounted split: arrival.split list.split option.split)

section \<open>Beginnings\<close>

lemma finish_begun [simp]:
  "begun (finish_read r c) = begun c" "begun (finish_write e c) = begun c" "begun (finish_connect e c) = begun c"
  by (simp_all add: finish_read_def finish_write_def finish_connect_def resume_def mark_completed_def Let_def
      split: option.split)

lemmas operation_defs = answer_def resume_def mark_completed_def begin_close_def close_handles_def close_callback_def
  close_here_def close_remote_def start_tcp_connect_def start_resolve_def after_created_def resolve_callback_def
  connect_callback_def start_read_def queue_write_def try_write_def start_write_def read_callback_def
  write_callback_def read_timeout_def write_timeout_def run_frame_def Let_def

lemma step_begun: "conn_step c c' \<Longrightarrow> begun c \<Longrightarrow> begun c'"
  by (induction rule: conn_step.induct)
    (auto simp: operation_defs start_connect_def accept_connection_def
      split: option.split list.split arrival.split attempt.split frame.split)

lemma begun_or_new: "reach c \<Longrightarrow> begun c \<or> c = new_connection"
proof (induction rule: reach.induct)
  case (Step c c')
  show ?case
  proof (cases "begun c")
    case True
    then show ?thesis using step_begun [OF Step(2)] by simp
  next
    case False
    then have "c = new_connection" using Step(3) by simp
    then show ?thesis using Step(2)
      by (auto elim!: conn_step.cases simp: start_connect_def accept_connection_def Let_def user_runs_def)
        (auto simp: new_connection_def)
  qed
qed simp

lemma reach_accounted: "reach c \<Longrightarrow> accounted c"
proof (induction rule: reach.induct)
  case Start
  then show ?case by (simp add: new_connection_def waiter_defs)
next
  case (Step c c')
  note frames = frame_accounted [OF Step.IH] and ops = start_read_accounted start_write_accounted close_accounted
    callbacks_accounted
  show ?case using Step(2)
  proof cases
    case (Connect name candidate n failed status)
    moreover have "c = new_connection" using begun_or_new [OF Step(1)] Connect by simp
    ultimately show ?thesis using start_connect_accounted [OF Step.IH] by (simp add: new_connection_def)
  qed (use Step.IH frames in \<open>auto simp: ops accept_connection_def Let_def\<close>)
qed

section \<open>Closing\<close>

text \<open>What is left of \<^verbatim>\<open>close_on_loop\<close>, and the frame behind the observer of an attempt, which is the last.\<close>

definition parts :: "frame list \<Rightarrow> frame list" where
  "parts fs = filter (\<lambda>f. f \<in> {Close_read, Close_write, Close_connect, Close_handles}) fs"

fun created :: "frame \<Rightarrow> bool" where
  "created (Created w candidate status) = True"
| "created _ = False"

fun created_last :: "frame list \<Rightarrow> bool" where
  "created_last [] = True"
| "created_last (f # fs) = (fs = [] \<or> \<not> created f \<and> created_last fs)"

lemma parts_simps [simp]:
  "parts [] = []" "parts (User # fs) = parts fs" "parts (Close_loop # fs) = parts fs"
  "parts (Resume_connect w e # fs) = parts fs" "parts (Created w b s # fs) = parts fs" "parts (Release w # fs) = parts fs"
  "parts (Close_read # fs) = Close_read # parts fs" "parts (Close_write # fs) = Close_write # parts fs"
  "parts (Close_connect # fs) = Close_connect # parts fs" "parts (Close_handles # fs) = Close_handles # parts fs"
  by (simp_all add: parts_def)

definition unfinished :: "waiter \<Rightarrow> conn \<Rightarrow> bool" where
  "unfinished w c \<longleftrightarrow> w \<notin> completed c \<longrightarrow> pending_connect c = Some w"

definition phased :: "conn \<Rightarrow> bool" where
  "phased c \<longleftrightarrow>
     parts (stack c) \<in> (if closing c then {[Close_read, Close_write, Close_connect, Close_handles],
       [Close_write, Close_connect, Close_handles], [Close_connect, Close_handles], [Close_handles], []} else {[]})
   \<and> (closing c \<longrightarrow> \<not> conn_open c
        \<and> (Close_read \<notin> set (parts (stack c)) \<longrightarrow> pending_read c = None)
        \<and> (Close_write \<notin> set (parts (stack c)) \<longrightarrow> pending_write c = None)
        \<and> (Close_connect \<notin> set (parts (stack c)) \<longrightarrow> pending_connect c = None))
   \<and> (pending_connect c \<noteq> None \<longrightarrow> \<not> conn_open c \<and> pending_read c = None \<and> pending_write c = None)
   \<and> (conn_open c \<or> pending_read c \<noteq> None \<or> pending_write c \<noteq> None \<longrightarrow> initialized c = UNIV)
   \<and> created_last (stack c)"

text \<open>An attempt that is under way is pending or completed.\<close>

definition attempts :: "conn \<Rightarrow> bool" where
  "attempts c \<longleftrightarrow> (\<forall>w b s. Created w b s \<in> set (stack c) \<longrightarrow> unfinished w c)
     \<and> (\<forall>w b s v. Created w b s \<in> set (stack c) \<longrightarrow> pending_connect c = Some v \<longrightarrow> v = w)
     \<and> (\<forall>w. resolve_request c = Some w \<longrightarrow> unfinished w c) \<and> (\<forall>w. connect_request c = Some w \<longrightarrow> unfinished w c)
     \<and> (pending_connect c \<noteq> None \<longrightarrow> initialized c = UNIV)"

lemma finish_phased:
  assumes "accounted c" "phased c"
  shows "phased (finish_read r c)" "phased (finish_write e c)" "is_error e \<or> \<not> closing c \<and> initialized c = UNIV \<Longrightarrow> phased (finish_connect e c)"
proof -
  show "phased (finish_read r c)"
    using assms(1) by (rule finish_read_cases [where r = r]) (use assms(2) in \<open>auto simp: phased_def\<close>)
  show "phased (finish_write e c)"
    using assms(1) by (rule finish_write_cases [where e = e]) (use assms(2) in \<open>auto simp: phased_def\<close>)
  show "phased (finish_connect e c)" if "is_error e \<or> \<not> closing c \<and> initialized c = UNIV"
    using assms(1) by (rule finish_connect_cases [where e = e]) (use assms(2) that in \<open>auto simp: phased_def\<close>)
qed

lemma failure_errors [simp]: "is_error (uv_failure e what u) \<longleftrightarrow> e \<noteq> E_none" "is_error (timed_out what)"
  "is_error connection_closed" "is_error (error_of e what) \<longleftrightarrow> e \<noteq> E_none"
  by (simp_all add: uv_failure_def timed_out_def connection_closed_def make_error_def is_error_def error_of_def)

lemma connect_phased:
  assumes "accounted c" "phased c"
  shows "phased (start_tcp_connect w status c)" "phased (start_resolve w status c)"
proof -
  have r: "phased (c\<lparr>stack := Release w # stack c\<rparr>)" using assms(2) by (auto simp: phased_def)
  have a: "accounted (c\<lparr>stack := Release w # stack c\<rparr>)" using assms(1) by simp
  note f = finish_phased(3) [OF a r]
  show "phased (start_tcp_connect w status c)" "phased (start_resolve w status c)"
    using assms(2) by (auto simp: start_tcp_connect_def start_resolve_def intro!: f split: option.split)
      (simp_all add: phased_def)
qed

lemma frame_phased:
  assumes "accounted c" "phased c" "stack c = f # rest"
  shows "phased (run_frame f (c\<lparr>stack := rest\<rparr>))"
proof -
  let ?c = "c\<lparr>stack := rest\<rparr>"
  have last: "created_last rest" using assms(2,3) by (auto simp: phased_def)
  show ?thesis
  proof (cases f)
    case User
    then show ?thesis using assms(2,3) last by (auto simp: run_frame_def phased_def)
  next
    case Close_loop
    then show ?thesis using assms(2,3) last
      by (cases "closing c") (simp_all add: run_frame_def phased_def begin_close_def)
  next
    case Close_read
    have c: "closing c" "parts rest = [Close_write, Close_connect, Close_handles]"
      using assms(2,3) Close_read by (auto simp: phased_def split: if_splits)
    have "accounted ?c" using assms(1,3) Close_read by simp
    then show ?thesis unfolding Close_read run_frame_def frame.case
      by (rule finish_read_cases [where r = "Inl connection_closed"])
        (use assms(2) c last in \<open>simp_all add: phased_def\<close>)
  next
    case Close_write
    have c: "closing c" "parts rest = [Close_connect, Close_handles]"
      using assms(2,3) Close_write by (auto simp: phased_def split: if_splits)
    have "accounted ?c" using assms(1,3) Close_write by simp
    then show ?thesis unfolding Close_write run_frame_def frame.case
      by (rule finish_write_cases [where e = connection_closed])
        (use assms(2,3) Close_write c last in \<open>simp_all add: phased_def\<close>)
  next
    case Close_connect
    have c: "closing c" "parts rest = [Close_handles]"
      using assms(2,3) Close_connect by (auto simp: phased_def split: if_splits)
    have "accounted ?c" using assms(1,3) Close_connect by simp
    then show ?thesis unfolding Close_connect run_frame_def frame.case
      by (rule finish_connect_cases [where e = connection_closed])
        (use assms(2,3) Close_connect c last in \<open>simp_all add: phased_def\<close>)
  next
    case Close_handles
    have "closing c" "parts rest = []"
      using assms(2,3) Close_handles by (auto simp: phased_def split: if_splits)
    then show ?thesis using assms(2,3) last Close_handles
      by (simp add: run_frame_def phased_def close_handles_def Let_def)
  next
    case (Resume_connect w e)
    then show ?thesis using assms(2,3) last by (auto simp: run_frame_def phased_def resume_def)
  next
    case (Created w b s)
    then have "rest = []" using assms(2,3) by (simp add: phased_def)
    then have p: "phased ?c" using assms(2,3) Created by (auto simp: phased_def)
    have a: "accounted ?c" using assms(1,3) Created by simp
    have "phased (?c\<lparr>read_timer := True\<rparr>)" using p by (simp add: phased_def)
    then show ?thesis using connect_phased [of "?c\<lparr>read_timer := True\<rparr>" w s] a p
      by (auto simp: run_frame_def Created after_created_def Let_def) (simp_all add: phased_def)
  next
    case (Release w)
    then show ?thesis using assms(2,3) last by (auto simp: run_frame_def phased_def)
  qed
qed

lemma resume_phased: "phased c \<Longrightarrow> phased (resume w d (mark_completed w c))" "phased c \<Longrightarrow> phased (answer w d c)"
  by (auto simp: phased_def resume_def mark_completed_def answer_def)

lemma phased_updates [simp]:
  "phased (c\<lparr>next_waiter := n\<rparr>) = phased c" "phased (c\<lparr>read_timer := t\<rparr>) = phased c" "phased (c\<lparr>write_timer := t\<rparr>) = phased c"
  "phased (c\<lparr>asked := a\<rparr>) = phased c" "phased (c\<lparr>sent := l\<rparr>) = phased c" "phased (c\<lparr>immediate_writes := i\<rparr>) = phased c"
  "phased (c\<lparr>kept := k\<rparr>) = phased c" "phased (c\<lparr>write_queue := q\<rparr>) = phased c" "phased (c\<lparr>read_started := b\<rparr>) = phased c"
  "phased (c\<lparr>connect_request := r\<rparr>) = phased c" "phased (c\<lparr>resolve_request := r\<rparr>) = phased c"
  "phased (c\<lparr>to_close := hs\<rparr>) = phased c" "phased (c\<lparr>closing_handles := n\<rparr>) = phased c" "phased (c\<lparr>self_keep := b\<rparr>) = phased c"
  "phased (c\<lparr>resolving := b\<rparr>) = phased c" "phased (c\<lparr>address := ad\<rparr>) = phased c" "phased (c\<lparr>posted_closes := n\<rparr>) = phased c"
  by (simp_all add: phased_def)

lemma start_read_phased:
  assumes "accounted c" "phased c"
  shows "phased (start_read status c)"
proof -
  let ?w = "next_waiter c"
  let ?c = "c\<lparr>next_waiter := ?w + 1, pending_read := Some ?w, read_timer := True\<rparr>"
  have a: "accounted ?c" if "pending_read c = None" using placing_new [OF assms(1)] that by (simp add: waiter_defs)
  have p: "phased ?c" if "conn_open c" using assms(2) that by (auto simp: phased_def)
  show ?thesis using assms(2) finish_phased(1) [OF a p] p
    by (auto simp: start_read_def Let_def intro!: resume_phased split: option.split)
qed

lemma queue_write_phased:
  assumes "placing w c" "phased c"
  shows "phased (queue_write w rest status c)"
proof -
  let ?c = "c\<lparr>pending_write := Some w, immediate_writes := 0, kept := insert w (kept c), write_timer := True\<rparr>"
  have a: "accounted ?c" if "pending_write c = None" using assms(1) that by (simp add: waiter_defs)
  have p: "phased ?c" if "conn_open c" using assms(2) that by (auto simp: phased_def)
  have p': "phased (?c\<lparr>stack := Release w # stack c\<rparr>)" if "conn_open c" using p that by (auto simp: phased_def)
  show ?thesis using assms(2) finish_phased(2) [of "?c\<lparr>stack := Release w # stack c\<rparr>"] a p p'
    by (auto simp: queue_write_def Let_def intro!: resume_phased split: option.split)
qed

lemma start_write_phased:
  assumes "accounted c" "phased c"
  shows "phased (start_write data a status c)"
  using placing_new [OF assms(1)] assms(2)
  by (auto simp: start_write_def try_write_def Let_def intro!: resume_phased queue_write_phased split: attempt.split)

text \<open>Attempts; an operation only completes more of them.\<close>

lemma attempts_updates [simp]:
  "attempts (c\<lparr>next_waiter := v_next_waiter\<rparr>) = attempts c"
  "attempts (c\<lparr>read_timer := v_read_timer\<rparr>) = attempts c"
  "attempts (c\<lparr>write_timer := v_write_timer\<rparr>) = attempts c"
  "attempts (c\<lparr>asked := v_asked\<rparr>) = attempts c"
  "attempts (c\<lparr>sent := v_sent\<rparr>) = attempts c"
  "attempts (c\<lparr>immediate_writes := v_immediate_writes\<rparr>) = attempts c"
  "attempts (c\<lparr>kept := v_kept\<rparr>) = attempts c"
  "attempts (c\<lparr>write_queue := v_write_queue\<rparr>) = attempts c"
  "attempts (c\<lparr>read_started := v_read_started\<rparr>) = attempts c"
  "attempts (c\<lparr>resolving := v_resolving\<rparr>) = attempts c"
  "attempts (c\<lparr>address := v_address\<rparr>) = attempts c"
  "attempts (c\<lparr>posted_closes := v_posted_closes\<rparr>) = attempts c"
  "attempts (c\<lparr>self_keep := v_self_keep\<rparr>) = attempts c"
  "attempts (c\<lparr>closing := v_closing\<rparr>) = attempts c"
  "attempts (c\<lparr>conn_open := v_conn_open\<rparr>) = attempts c"
  "attempts (c\<lparr>closing_handles := v_closing_handles\<rparr>) = attempts c"
  "attempts (c\<lparr>to_close := v_to_close\<rparr>) = attempts c"
  "attempts (c\<lparr>begun := v_begun\<rparr>) = attempts c"
  "attempts (c\<lparr>host := v_host\<rparr>) = attempts c"
  "attempts (c\<lparr>pending_read := v_pending_read\<rparr>) = attempts c"
  "attempts (c\<lparr>pending_write := v_pending_write\<rparr>) = attempts c"
  "attempts (c\<lparr>resumed := v_resumed\<rparr>) = attempts c"
  "attempts c \<Longrightarrow> attempts (c\<lparr>resolve_request := None\<rparr>)" "attempts c \<Longrightarrow> attempts (c\<lparr>connect_request := None\<rparr>)"
  "attempts c \<Longrightarrow> attempts (c\<lparr>completed := insert w (completed c)\<rparr>)"
  "attempts c \<Longrightarrow> unfinished w c \<Longrightarrow> attempts (c\<lparr>resolve_request := Some w\<rparr>)"
  "attempts c \<Longrightarrow> unfinished w c \<Longrightarrow> attempts (c\<lparr>connect_request := Some w\<rparr>)"
  "attempts c \<Longrightarrow> \<not> created f \<Longrightarrow> stack c = fs \<Longrightarrow> attempts (c\<lparr>stack := f # fs\<rparr>)"
  "attempts c \<Longrightarrow> stack c = f # rest \<Longrightarrow> attempts (c\<lparr>stack := rest\<rparr>)"
  by (auto simp: attempts_def unfinished_def)

lemma finish_attempts:
  assumes "accounted c" "attempts c"
  shows "attempts (finish_read r c)" "attempts (finish_write e c)" "attempts (finish_connect e c)"
proof -
  show "attempts (finish_read r c)"
    using assms(1) by (rule finish_read_cases [where r = r]) (use assms(2) in \<open>auto simp: attempts_def unfinished_def\<close>)
  show "attempts (finish_write e c)"
    using assms(1) by (rule finish_write_cases [where e = e]) (use assms(2) in \<open>auto simp: attempts_def unfinished_def\<close>)
  show "attempts (finish_connect e c)"
    using assms(1) by (rule finish_connect_cases [where e = e]) (use assms(2) in \<open>auto simp: attempts_def unfinished_def\<close>)
qed

lemma resume_attempts [simp]:
  "attempts c \<Longrightarrow> attempts (resume w d c)" "attempts c \<Longrightarrow> attempts (answer w d c)" "attempts c \<Longrightarrow> attempts (mark_completed w c)"
  by (auto simp: attempts_def unfinished_def resume_def mark_completed_def answer_def)

lemma close_attempts:
  assumes "attempts c"
  shows "attempts (begin_close c)" "attempts (close_handles c)" "attempts (close_callback h c)" "attempts (close_here c)"
    "attempts (close_remote c)"
  using assms
  by (auto simp: begin_close_def close_handles_def close_callback_def close_here_def close_remote_def Let_def)
    (auto simp: attempts_def unfinished_def)

lemma connect_attempts:
  assumes "accounted c" "attempts c" "unfinished w c"
  shows "attempts (start_tcp_connect w status c)" "attempts (start_resolve w status c)"
  using assms by (auto simp: start_tcp_connect_def start_resolve_def intro!: finish_attempts split: option.split)

lemma frame_attempts:
  assumes "accounted c" "attempts c" "stack c = f # rest"
  shows "attempts (run_frame f (c\<lparr>stack := rest\<rparr>))"
proof -
  have p: "attempts (c\<lparr>stack := rest\<rparr>)" using assms(2,3) by simp
  show ?thesis
  proof (cases f)
    case (Created w b s)
    have "unfinished w c" using assms(2,3) Created by (simp add: attempts_def)
    then have u: "unfinished w (c\<lparr>stack := rest, read_timer := True\<rparr>)" by (simp add: unfinished_def)
    have a: "accounted (c\<lparr>stack := rest, read_timer := True\<rparr>)" using assms(1,3) Created by simp
    show ?thesis using connect_attempts [OF a _ u] p
      by (auto simp: run_frame_def Created after_created_def Let_def)
  qed (use assms p in \<open>simp_all add: run_frame_def close_attempts finish_attempts\<close>)
qed

lemma start_read_attempts:
  assumes "accounted c" "attempts c"
  shows "attempts (start_read status c)"
proof -
  let ?c = "c\<lparr>next_waiter := next_waiter c + 1, pending_read := Some (next_waiter c), read_timer := True\<rparr>"
  have "accounted ?c" if "pending_read c = None" using placing_new [OF assms(1)] that by (simp add: waiter_defs)
  then show ?thesis using assms(2)
    by (auto simp: start_read_def Let_def intro!: finish_attempts split: option.split)
qed

lemma queue_write_attempts:
  assumes "placing w c" "attempts c"
  shows "attempts (queue_write w rest status c)"
proof -
  have "accounted (c\<lparr>pending_write := Some w\<rparr>)" if "pending_write c = None" using assms(1) that by (simp add: waiter_defs)
  then show ?thesis using assms(2)
    by (auto simp: queue_write_def Let_def intro!: finish_attempts split: option.split)
qed

lemma start_write_attempts:
  assumes "accounted c" "attempts c"
  shows "attempts (start_write data a status c)"
  using placing_new [OF assms(1)] assms(2)
  by (auto simp: start_write_def try_write_def Let_def intro!: queue_write_attempts split: attempt.split)

lemma callbacks_attempts:
  assumes "accounted c" "attempts c"
  shows "attempts (read_callback a c)" "attempts (write_callback res c)" "attempts (read_timeout c)"
    "attempts (write_timeout c)"
  using assms
  by (auto simp: read_callback_def write_callback_def read_timeout_def write_timeout_def Let_def
      intro!: finish_attempts split: arrival.split list.split option.split)

lemma connect_callbacks_attempts:
  assumes "accounted c" "attempts c" "unfinished w c"
  shows "attempts (resolve_callback w ad why status c)" "attempts (connect_callback w why c)"
proof -
  have "unfinished w (c\<lparr>resolve_request := None, resolving := False, address := ad\<rparr>)"
    using assms(3) by (simp add: unfinished_def)
  then show "attempts (resolve_callback w ad why status c)" "attempts (connect_callback w why c)"
    using assms(1,2) by (auto simp: resolve_callback_def connect_callback_def Let_def
        intro!: finish_attempts connect_attempts split: option.split)
qed

lemma first_handles_all [simp]: "n \<ge> 3 \<Longrightarrow> first_handles n = UNIV"
proof -
  have "x = Tcp \<or> x = Read_timer \<or> x = Write_timer" for x by (cases x) simp_all
  then show "n \<ge> 3 \<Longrightarrow> first_handles n = UNIV" by (auto simp: first_handles_def)
qed

lemma push_phased:
  "phased c \<Longrightarrow> stack c = fs \<Longrightarrow> parts [f] = [] \<Longrightarrow> \<not> created f \<Longrightarrow> phased (c\<lparr>stack := f # fs\<rparr>)"
  by (cases f) (simp_all add: phased_def)

lemma callbacks_phased:
  assumes "accounted c" "phased c"
  shows "phased (read_callback a c)" "phased (write_callback res c)" "phased (read_timeout c)" "phased (write_timeout c)"
    "phased (close_callback h c)" "phased (close_here c)" "phased (close_remote c)"
proof -
  show "phased (read_callback a c)" "phased (write_callback res c)" "phased (read_timeout c)" "phased (write_timeout c)"
    using assms
    by (auto simp: read_callback_def write_callback_def read_timeout_def write_timeout_def Let_def
        intro!: finish_phased push_phased split: arrival.split list.split option.split)
  show "phased (close_callback h c)" using assms(2) by (simp add: close_callback_def Let_def)
  show "phased (close_here c)" "phased (close_remote c)"
    using assms(2) by (simp_all add: close_here_def close_remote_def phased_def)
qed

lemma pending_open:
  assumes "phased c" "attempts c" "unfinished w c" "w \<notin> completed c" "stack c = []"
  shows "\<not> closing c" "initialized c = UNIV"
  using assms by (auto simp: phased_def attempts_def unfinished_def)

lemma connect_callbacks_phased:
  assumes "accounted c" "phased c" "attempts c" "unfinished w c" "stack c = []"
  shows "phased (resolve_callback w ad why status c)" "phased (connect_callback w why c)"
proof -
  show "phased (resolve_callback w ad why status c)"
    using assms(1,2) by (auto simp: resolve_callback_def Let_def intro!: connect_phased finish_phased(3) push_phased split: option.split)
  show "phased (connect_callback w why c)"
    using assms(1,2) pending_open [OF assms(2,3,4) _ assms(5)]
    by (auto simp: connect_callback_def Let_def intro!: finish_phased(3) push_phased split: option.split)
qed

lemma begin_phased:
  "phased (start_connect name candidate n failed status new_connection) \<and> attempts (start_connect name candidate n failed status new_connection)"
  "phased (accept_connection n accepted new_connection) \<and> attempts (accept_connection n accepted new_connection)"
  by (auto simp: start_connect_def accept_connection_def finish_connect_def new_connection_def phased_def attempts_def
      unfinished_def mark_completed_def Let_def)

lemma reach_phased: "reach c \<Longrightarrow> phased c \<and> attempts c"
proof (induction rule: reach.induct)
  case Start
  then show ?case by (simp add: new_connection_def phased_def attempts_def)
next
  case (Step c c')
  note a = reach_accounted [OF Step(1)] and p = Step.IH [THEN conjunct1] and t = Step.IH [THEN conjunct2]
  have new: "c = new_connection" if "\<not> begun c" using begun_or_new [OF Step(1)] that by simp
  show ?case using Step(2)
  proof cases
    case (Resolved w ad res status)
    then have "unfinished w c" using t by (simp add: attempts_def)
    then show ?thesis using Resolved connect_callbacks_phased(1) [OF a p t] connect_callbacks_attempts(1) [OF a t] by blast
  next
    case (Connection_ends w res)
    then have "unfinished w c" using t by (simp add: attempts_def)
    then show ?thesis using Connection_ends connect_callbacks_phased(2) [OF a p t] connect_callbacks_attempts(2) [OF a t] by blast
  next
    case (Posted_close)
    then show ?thesis using p t by (simp add: phased_def attempts_def unfinished_def)
  next
    case (Posted_user)
    then show ?thesis using p t by (simp add: phased_def attempts_def unfinished_def)
  qed (auto dest!: new simp: begin_phased callbacks_phased [OF a p] callbacks_attempts [OF a t] close_attempts [OF t]
      frame_phased [OF a p] frame_attempts [OF a t] start_read_phased [OF a p] start_write_phased [OF a p]
      start_read_attempts [OF a t] start_write_attempts [OF a t])
qed

section \<open>Timers\<close>

text \<open>An operation that waits has its timer armed, and no timer runs for nothing.\<close>

definition timed :: "conn \<Rightarrow> bool" where
  "timed c \<longleftrightarrow>
     (pending_read c \<noteq> None \<longrightarrow> read_timer c) \<and> (read_started c \<longleftrightarrow> pending_read c \<noteq> None)
   \<and> (write_timer c \<longleftrightarrow> pending_write c \<noteq> None)
   \<and> (\<forall>w. pending_connect c = Some w \<longrightarrow> read_timer c \<or> (\<exists>b s. Created w b s \<in> set (stack c)))
   \<and> (read_timer c \<longrightarrow> pending_read c \<noteq> None \<or> pending_connect c \<noteq> None)"

text \<open>The invariants so far.\<close>

definition sound :: "conn \<Rightarrow> bool" where
  "sound c \<longleftrightarrow> accounted c \<and> phased c \<and> attempts c"

lemma finish_timed:
  assumes "sound c" "timed c"
  shows "timed (finish_read r c)" "timed (finish_write e c)" "timed (finish_connect e c)"
proof -
  have a: "accounted c" and x: "pending_connect c \<noteq> None \<longrightarrow> pending_read c = None"
    and u: "pending_connect c \<noteq> None \<longrightarrow> initialized c = UNIV"
    using assms(1) by (auto simp: sound_def phased_def attempts_def)
  show "timed (finish_read r c)"
    using a by (rule finish_read_cases [where r = r]) (use assms(2) x in \<open>auto simp: timed_def\<close>)
  show "timed (finish_write e c)"
    using a by (rule finish_write_cases [where e = e]) (use assms(2) in \<open>auto simp: timed_def\<close>)
  show "timed (finish_connect e c)"
    using a by (rule finish_connect_cases [where e = e]) (use assms(2) x u in \<open>auto simp: timed_def\<close>)
qed

lemma sound_updates [simp]:
  "sound (c\<lparr>read_timer := t\<rparr>) = sound c" "sound (c\<lparr>write_timer := t\<rparr>) = sound c"
  "sound (c\<lparr>sent := l\<rparr>) = sound c" "sound (c\<lparr>write_queue := q\<rparr>) = sound c"
  "sound (c\<lparr>kept := k\<rparr>) = sound c" "sound (c\<lparr>resolving := b\<rparr>) = sound c" "sound (c\<lparr>address := ad\<rparr>) = sound c"
  "sound c \<Longrightarrow> sound (c\<lparr>resolve_request := None\<rparr>)" "sound c \<Longrightarrow> sound (c\<lparr>connect_request := None\<rparr>)"
  "sound c \<Longrightarrow> stack c = fs \<Longrightarrow> sound (c\<lparr>stack := Release w # fs\<rparr>)"
  "sound c \<Longrightarrow> stack c = fs \<Longrightarrow> sound (c\<lparr>stack := Close_loop # fs\<rparr>)"
  by (auto simp: sound_def intro: push_phased)

lemma timed_updates [simp]:
  "timed (c\<lparr>sent := l\<rparr>) = timed c" "timed (c\<lparr>write_queue := q\<rparr>) = timed c" "timed (c\<lparr>kept := k\<rparr>) = timed c"
  "timed (c\<lparr>resolving := b\<rparr>) = timed c" "timed (c\<lparr>address := ad\<rparr>) = timed c" "timed (c\<lparr>resolve_request := r\<rparr>) = timed c"
  "timed (c\<lparr>connect_request := r\<rparr>) = timed c" "timed (c\<lparr>next_waiter := n\<rparr>) = timed c" "timed (c\<lparr>asked := xs\<rparr>) = timed c"
  "timed (c\<lparr>immediate_writes := n\<rparr>) = timed c" "timed (c\<lparr>completed := ws\<rparr>) = timed c" "timed (c\<lparr>resumed := rs\<rparr>) = timed c"
  "timed c \<Longrightarrow> stack c = fs \<Longrightarrow> timed (c\<lparr>stack := f # fs\<rparr>)"
  by (auto simp: timed_def)

lemma connect_timed:
  assumes "sound c" "timed c"
  shows "timed (start_tcp_connect w status c)" "timed (start_resolve w status c)"
  using assms by (auto simp: start_tcp_connect_def start_resolve_def intro!: finish_timed split: option.split)

lemma callbacks_timed:
  assumes "sound c" "timed c"
  shows "timed (read_callback a c)" "timed (write_callback res c)" "timed (resolve_callback w ad why status c)"
    "timed (connect_callback w why c)"
  using assms
  by (auto simp: read_callback_def write_callback_def resolve_callback_def connect_callback_def Let_def
      intro!: finish_timed connect_timed split: arrival.split list.split option.split)

lemma timeouts_timed:
  assumes "sound c" "timed c" "stack c = []"
  shows "read_timer c \<Longrightarrow> timed (read_timeout c)" "write_timer c \<Longrightarrow> timed (write_timeout c)"
proof -
  have x: "pending_connect c \<noteq> None \<longrightarrow> pending_read c = None" "pending_connect c \<noteq> None \<longrightarrow> initialized c = UNIV"
    using assms(1) by (auto simp: sound_def phased_def attempts_def)
  let ?c = "c\<lparr>read_timer := False, stack := [Close_loop]\<rparr>"
  have a: "accounted ?c" using assms(1,3) by (simp add: sound_def)
  show "timed (read_timeout c)" if "read_timer c"
  proof (cases "pending_connect c")
    case None
    have "timed (finish_read r ?c)" for r
      using a by (rule finish_read_cases [where r = r]) (use assms(2,3) None that in \<open>auto simp: timed_def\<close>)
    then show ?thesis using None assms(3) by (simp add: read_timeout_def)
  next
    case (Some w)
    have "timed (finish_connect e ?c)" for e
      using a by (rule finish_connect_cases [where e = e]) (use assms(2,3) Some x that in \<open>auto simp: timed_def\<close>)
    then show ?thesis using Some assms(3) by (simp add: read_timeout_def)
  qed
  show "timed (write_timeout c)" if "write_timer c"
  proof -
    have "accounted (c\<lparr>write_timer := False, stack := [Close_loop]\<rparr>)" using assms(1,3) by (simp add: sound_def)
    then have "timed (finish_write e (c\<lparr>write_timer := False, stack := [Close_loop]\<rparr>))" for e
      by (rule finish_write_cases [where e = e]) (use assms(2,3) that in \<open>auto simp: timed_def\<close>)
    then show ?thesis using assms(3) by (simp add: write_timeout_def)
  qed
qed

lemma resume_timed:
  "timed c \<Longrightarrow> timed (resume w d c)" "timed c \<Longrightarrow> timed (mark_completed w c)" "timed c \<Longrightarrow> timed (answer w d c)"
  by (simp_all add: resume_def mark_completed_def answer_def)

lemma start_read_timed:
  assumes "sound c" "timed c"
  shows "timed (start_read status c)"
proof -
  let ?c = "c\<lparr>next_waiter := next_waiter c + 1, pending_read := Some (next_waiter c), read_timer := True\<rparr>"
  have s: "accounted c" "conn_open c \<longrightarrow> pending_connect c = None" using assms(1) by (auto simp: sound_def phased_def)
  have t: "timed (finish_read r ?c)" if "conn_open c" "pending_read c = None" for r
  proof -
    have "accounted ?c" using placing_new [OF s(1)] that(2) by (simp add: waiter_defs)
    then show ?thesis by (rule finish_read_cases [where r = r]) (use assms(2) s(2) that in \<open>auto simp: timed_def\<close>)
  qed
  have "timed (?c\<lparr>read_started := True\<rparr>)" using assms(2) by (auto simp: timed_def)
  then show ?thesis using assms(2) t
    by (auto simp: start_read_def Let_def intro!: resume_timed split: option.split) (auto simp: timed_def)
qed

lemma queue_write_timed:
  assumes "placing w c" "timed c"
  shows "timed (queue_write w rest status c)"
proof -
  let ?c = "c\<lparr>pending_write := Some w, immediate_writes := 0, kept := insert w (kept c), write_timer := True\<rparr>"
  let ?r = "?c\<lparr>stack := Release w # stack c\<rparr>"
  have p: "timed ?c" using assms(2) by (auto simp: timed_def)
  have "timed (finish_write e ?r)" if "pending_write c = None" for e
  proof -
    have "accounted ?r" using assms(1) that by (simp add: waiter_defs)
    then show ?thesis by (rule finish_write_cases [where e = e]) (use assms(2) in \<open>auto simp: timed_def\<close>)
  qed
  then show ?thesis using assms(2) p by (auto simp: queue_write_def Let_def intro!: resume_timed split: option.split)
qed

lemma start_write_timed:
  assumes "sound c" "timed c"
  shows "timed (start_write data a status c)"
  using placing_new [of c] assms
  by (auto simp: start_write_def try_write_def Let_def sound_def intro!: queue_write_timed resume_timed split: attempt.split)

lemma frame_timed:
  assumes "sound c" "timed c" "stack c = f # rest"
  shows "timed (run_frame f (c\<lparr>stack := rest\<rparr>))"
proof -
  let ?c = "c\<lparr>stack := rest\<rparr>"
  have x: "pending_connect c \<noteq> None \<longrightarrow> pending_read c = None" "pending_connect c \<noteq> None \<longrightarrow> initialized c = UNIV"
    and ph: "phased c" using assms(1) by (auto simp: sound_def phased_def attempts_def)
  have t: "timed ?c" if "\<not> created f" using assms(2,3) that by (auto simp: timed_def)
  have a: "accounted ?c" if "delayed rest = delayed (stack c)" using assms(1) that by (simp add: sound_def)
  show ?thesis
  proof (cases f)
    case User
    then show ?thesis using t by (simp add: run_frame_def)
  next
    case Close_loop
    then show ?thesis using t by (simp add: run_frame_def begin_close_def) (simp add: timed_def)
  next
    case Close_read
    then have "accounted ?c" using a assms(3) by simp
    then show ?thesis unfolding Close_read run_frame_def frame.case
      by (rule finish_read_cases [where r = "Inl connection_closed"]) (use t Close_read x in \<open>auto simp: timed_def\<close>)
  next
    case Close_write
    then have "accounted ?c" using a assms(3) by simp
    then show ?thesis unfolding Close_write run_frame_def frame.case
      by (rule finish_write_cases [where e = connection_closed]) (use t Close_write in \<open>auto simp: timed_def\<close>)
  next
    case Close_connect
    then have "accounted ?c" using a assms(3) by simp
    then show ?thesis unfolding Close_connect run_frame_def frame.case
      by (rule finish_connect_cases [where e = connection_closed]) (use t Close_connect x in \<open>auto simp: timed_def\<close>)
  next
    case Close_handles
    have c: "closing c" "parts rest = []" using ph assms(3) Close_handles by (auto simp: phased_def split: if_splits)
    then have "pending_read c = None" "pending_write c = None" "pending_connect c = None"
      using ph assms(3) Close_handles by (auto simp: phased_def)
    then show ?thesis using t Close_handles by (simp add: run_frame_def close_handles_def Let_def timed_def)
  next
    case (Resume_connect w e)
    then show ?thesis using t by (simp add: run_frame_def resume_timed)
  next
    case (Created w b s)
    then have e: "rest = []" using ph assms(3) by (simp add: phased_def)
    have u: "unfinished w c" "\<forall>v. pending_connect c = Some v \<longrightarrow> v = w"
      using assms(1,3) Created by (auto simp: sound_def attempts_def)
    show ?thesis
    proof (cases "w \<in> completed c")
      case True
      have "accounted c" using assms(1) by (simp add: sound_def)
      from accounted_pending(3) [OF this, of w] have "pending_connect c \<noteq> Some w" using True by blast
      then have "pending_connect c = None" using u(2) by (cases "pending_connect c") simp_all
      then have "timed ?c" using assms(2,3) by (auto simp: timed_def)
      then show ?thesis using True Created by (simp add: run_frame_def after_created_def)
    next
      case False
      then have p: "pending_connect c = Some w" using u(1) by (simp add: unfinished_def)
      have "accounted ?c" "attempts ?c" using assms(1,3) Created a by (simp_all add: sound_def)
      moreover have "phased ?c" using ph assms(3) e Created by (simp add: phased_def)
      ultimately have "sound ?c" by (simp add: sound_def)
      moreover have "timed (?c\<lparr>read_timer := True\<rparr>)" using assms(2) p by (auto simp: timed_def)
      ultimately show ?thesis using False Created connect_timed [of "?c\<lparr>read_timer := True\<rparr>" w s]
        by (simp add: run_frame_def after_created_def Let_def)
    qed
  next
    case (Release w)
    then show ?thesis using t by (simp add: run_frame_def)
  qed
qed

lemma close_timed:
  assumes "timed c"
  shows "timed (close_callback h c)" "timed (close_here c)" "timed (close_remote c)"
  using assms by (auto simp: close_callback_def close_here_def close_remote_def Let_def timed_def)

lemma begin_timed:
  "timed (start_connect name candidate n failed status new_connection)" "timed (accept_connection n accepted new_connection)"
  by (auto simp: start_connect_def accept_connection_def finish_connect_def new_connection_def timed_def
      mark_completed_def Let_def)

lemma reach_sound: "reach c \<Longrightarrow> sound c"
  using reach_accounted reach_phased by (simp add: sound_def)

lemma reach_timed: "reach c \<Longrightarrow> timed c"
proof (induction rule: reach.induct)
  case Start
  then show ?case by (simp add: new_connection_def timed_def)
next
  case (Step c c')
  note s = reach_sound [OF Step(1)] and t = Step.IH
  have new: "c = new_connection" if "\<not> begun c" using begun_or_new [OF Step(1)] that by simp
  show ?case using Step(2)
  proof cases
    case (Posted_close)
    then show ?thesis using t by (simp add: timed_def)
  next
    case (Posted_user)
    then show ?thesis using t by (simp add: timed_def)
  qed (auto dest!: new simp: begin_timed callbacks_timed [OF s t] timeouts_timed [OF s t] close_timed [OF t]
      frame_timed [OF s t] start_read_timed [OF s t] start_write_timed [OF s t])
qed

section \<open>Lifetime\<close>

text \<open>The handles have been given to \<^verbatim>\<open>uv_close\<close>.\<close>

definition handed :: "conn \<Rightarrow> bool" where
  "handed c \<longleftrightarrow> closing c \<and> Close_handles \<notin> set (parts (stack c))"

text \<open>The connection keeps itself until the last close callback, and libuv has requests of a live socket only.\<close>

definition alive :: "conn \<Rightarrow> bool" where
  "alive c \<longleftrightarrow>
     (begun c \<and> \<not> handed c \<longrightarrow> self_keep c \<and> to_close c = {})
   \<and> (handed c \<longrightarrow> closing_handles c = card (to_close c) \<and> (self_keep c \<longleftrightarrow> to_close c \<noteq> {}) \<and> begun c)
   \<and> (write_queue c \<noteq> [] \<or> connect_request c \<noteq> None \<longrightarrow>
        begun c \<and> Tcp \<in> initialized c \<and> (handed c \<longrightarrow> Tcp \<in> to_close c))
   \<and> (stack c \<noteq> [] \<or> closing c \<longrightarrow> begun c)"

lemma finite_handles [simp]: "finite (hs :: handle set)"
proof -
  have "x = Tcp \<or> x = Read_timer \<or> x = Write_timer" for x by (cases x) simp_all
  then have "(UNIV :: handle set) = {Tcp, Read_timer, Write_timer}" by auto
  then have "finite (UNIV :: handle set)" by (metis finite.emptyI finite.insertI)
  then show ?thesis by (rule finite_subset [OF subset_UNIV])
qed

lemma alive_updates [simp]:
  "alive (c\<lparr>next_waiter := n\<rparr>) = alive c" "alive (c\<lparr>read_timer := t\<rparr>) = alive c" "alive (c\<lparr>write_timer := t\<rparr>) = alive c"
  "alive (c\<lparr>asked := xs\<rparr>) = alive c" "alive (c\<lparr>sent := l\<rparr>) = alive c" "alive (c\<lparr>immediate_writes := i\<rparr>) = alive c"
  "alive (c\<lparr>kept := k\<rparr>) = alive c" "alive (c\<lparr>read_started := b\<rparr>) = alive c" "alive (c\<lparr>resolve_request := r\<rparr>) = alive c"
  "alive (c\<lparr>resolving := b\<rparr>) = alive c" "alive (c\<lparr>address := ad\<rparr>) = alive c" "alive (c\<lparr>posted_closes := n\<rparr>) = alive c"
  "alive (c\<lparr>completed := ws\<rparr>) = alive c" "alive (c\<lparr>resumed := rs\<rparr>) = alive c" "alive (c\<lparr>conn_open := b\<rparr>) = alive c"
  "alive (c\<lparr>pending_read := p\<rparr>) = alive c" "alive (c\<lparr>pending_write := p\<rparr>) = alive c" "alive (c\<lparr>pending_connect := p\<rparr>) = alive c"
  "alive c \<Longrightarrow> alive (c\<lparr>connect_request := None\<rparr>)"
  by (auto simp: alive_def handed_def)

lemma alive_push [simp]: "alive c \<Longrightarrow> begun c \<Longrightarrow> stack c = fs \<Longrightarrow> parts [f] = [] \<Longrightarrow> alive (c\<lparr>stack := f # fs\<rparr>)"
  by (cases f) (simp_all add: alive_def handed_def)

lemma alive_push_two [simp]:
  "alive c \<Longrightarrow> begun c \<Longrightarrow> stack c = fs \<Longrightarrow> parts [f] = [] \<Longrightarrow> parts [g] = [] \<Longrightarrow> alive (c\<lparr>stack := f # g # fs\<rparr>)"
  by (cases f; cases g) (simp_all add: alive_def handed_def)

lemma alive_pop [simp]: "alive c \<Longrightarrow> stack c = f # rest \<Longrightarrow> f \<noteq> Close_handles \<Longrightarrow> alive (c\<lparr>stack := rest\<rparr>)"
  by (cases f) (auto simp: alive_def handed_def)

lemma finish_alive [simp]:
  assumes "alive c" "begun c"
  shows "alive (finish_read r c)" "alive (finish_write e c)" "alive (finish_connect e c)"
  using assms
  by (simp_all add: finish_read_def finish_write_def finish_connect_def resume_def mark_completed_def Let_def split: option.split)

lemma frame_alive:
  assumes "alive c" "begun c" "stack c = f # rest" "f \<noteq> Close_handles" "\<not> created f"
  shows "alive (run_frame f (c\<lparr>stack := rest\<rparr>))"
proof -
  have "alive (c\<lparr>stack := rest\<rparr>)" using assms by simp
  then show ?thesis using assms
    by (cases f) (auto simp: run_frame_def begin_close_def resume_def, auto simp: alive_def handed_def)
qed

lemma handles_alive:
  assumes "alive c" "begun c" "phased c" "stack c = Close_handles # rest"
  shows "alive (close_handles (c\<lparr>stack := rest\<rparr>))"
proof -
  have "closing c" "parts rest = []" using assms(3,4) by (auto simp: phased_def split: if_splits)
  moreover from this have "\<not> handed c" using assms(4) by (simp add: handed_def)
  ultimately show ?thesis using assms(1,2,4) by (auto simp: close_handles_def Let_def alive_def handed_def)
qed

lemma connect_alive:
  assumes "alive c" "begun c" "phased c" "attempts c" "unfinished w c" "w \<notin> completed c" "parts (stack c) = []"
  shows "alive (start_tcp_connect w status c)" "alive (start_resolve w status c)"
proof -
  have "\<not> closing c" "initialized c = UNIV" using assms(3-7) by (auto simp: phased_def attempts_def unfinished_def)
  then have "alive (c\<lparr>connect_request := Some w\<rparr>)" using assms(1,2) by (simp add: alive_def handed_def)
  then show "alive (start_tcp_connect w status c)" "alive (start_resolve w status c)"
    using assms(1,2) by (simp_all add: start_tcp_connect_def start_resolve_def split: option.split)
qed

lemma created_alive:
  assumes "alive c" "begun c" "phased c" "attempts c" "stack c = Created w b s # rest"
  shows "alive (after_created w b s (c\<lparr>stack := rest\<rparr>))"
proof (cases "w \<in> completed c")
  case True
  then show ?thesis using assms(1,5) by (simp add: after_created_def)
next
  case False
  let ?c = "c\<lparr>stack := rest, read_timer := True\<rparr>"
  have e: "rest = []" using assms(3,5) by (simp add: phased_def)
  have "unfinished w c" using assms(4,5) by (simp add: attempts_def)
  then have u: "unfinished w ?c" by (simp add: unfinished_def)
  have "attempts ?c" using assms(4,5) by simp
  moreover have "phased ?c" using assms(3,5) e by (simp add: phased_def)
  ultimately show ?thesis using connect_alive [of ?c w s] assms(1,2,5) u False e
    by (simp add: after_created_def Let_def)
qed

lemma start_alive:
  assumes "alive c" "begun c" "phased c"
  shows "alive (start_read status c)" "alive (queue_write w rest status c)" "alive (start_write data a status c)"
proof -
  have q: "alive (c'\<lparr>write_queue := q\<rparr>)" if "alive c'" "conn_open c'" "phased c'" "begun c'" for c' q
    using that by (auto simp: alive_def handed_def phased_def)
  show "alive (start_read status c)"
    using assms by (auto simp: start_read_def Let_def resume_def mark_completed_def split: option.split)
  have queue: "alive (queue_write w rest status c')" if "alive c'" "begun c'" "phased c'" for c' w rest
  proof (cases status)
    case None
    then show ?thesis using that q [of "c'\<lparr>pending_write := Some w, immediate_writes := 0, kept := insert w (kept c'), write_timer := True\<rparr>"]
      by (auto simp: queue_write_def Let_def resume_def mark_completed_def phased_def)
  next
    case (Some u)
    then show ?thesis using that by (auto simp: queue_write_def Let_def resume_def mark_completed_def)
  qed
  then show "alive (queue_write w rest status c)" "alive (start_write data a status c)"
    using assms by (auto simp: start_write_def try_write_def Let_def answer_def split: attempt.split)
qed

lemma callbacks_alive:
  assumes "alive c" "begun c"
  shows "alive (read_callback a c)" "alive (read_timeout c)" "alive (write_timeout c)" "alive (close_here c)"
    "alive (close_remote c)" "alive (write_callback res c)"
proof -
  show "alive (read_callback a c)" "alive (read_timeout c)" "alive (write_timeout c)" "alive (close_here c)"
    "alive (close_remote c)"
    using assms by (auto simp: read_callback_def read_timeout_def write_timeout_def close_here_def close_remote_def Let_def
        split: arrival.split)
  have "alive (c\<lparr>write_queue := q, stack := Release w # stack c\<rparr>)" if "write_queue c \<noteq> []" for q w
    using assms that by (auto simp: alive_def handed_def)
  then show "alive (write_callback res c)" using assms
    by (auto simp: write_callback_def Let_def split: list.split option.split)
qed

lemma connect_callbacks_alive:
  assumes "alive c" "begun c" "phased c" "attempts c" "unfinished w c" "stack c = []"
  shows "alive (resolve_callback w ad why status c)" "alive (connect_callback w why c)"
proof -
  let ?c = "c\<lparr>resolve_request := None, resolving := False, address := ad\<rparr>"
  have "unfinished w ?c" using assms(5) by (simp add: unfinished_def)
  then show "alive (resolve_callback w ad why status c)" using assms(1-4,6) connect_alive [of ?c w status]
    by (auto simp: resolve_callback_def Let_def split: option.split)
  show "alive (connect_callback w why c)" using assms(1,2,6)
    by (auto simp: connect_callback_def Let_def split: option.split)
qed

lemma close_callback_alive:
  assumes "alive c" "begun c" "stack c = []" "h \<in> to_close c" "h = Tcp \<longrightarrow> write_queue c = [] \<and> connect_request c = None"
  shows "alive (close_callback h c)"
proof -
  have "handed c" using assms(1,2,4) by (auto simp: alive_def)
  moreover have "card (to_close c - {h}) = card (to_close c) - 1" using assms(4) by simp
  moreover have "card (to_close c - {h}) = 0 \<longleftrightarrow> to_close c - {h} = {}" by simp
  ultimately show ?thesis using assms by (auto simp: close_callback_def Let_def alive_def handed_def)
qed

lemma begin_alive:
  "alive (start_connect name candidate n failed status new_connection)" "alive (accept_connection n accepted new_connection)"
  by (auto simp: start_connect_def accept_connection_def finish_connect_def new_connection_def alive_def handed_def
      mark_completed_def Let_def)

lemma busy_begun:
  assumes "reach c"
  shows "resolve_request c = Some w \<Longrightarrow> begun c" "connect_request c = Some w \<Longrightarrow> begun c" "h \<in> to_close c \<Longrightarrow> begun c"
    "posted_closes c > 0 \<Longrightarrow> begun c" "read_started c \<Longrightarrow> begun c" "write_queue c \<noteq> [] \<Longrightarrow> begun c"
    "read_timer c \<Longrightarrow> begun c" "write_timer c \<Longrightarrow> begun c"
  using begun_or_new [OF assms] by (auto simp: new_connection_def)

lemma reach_alive: "reach c \<Longrightarrow> alive c"
proof (induction rule: reach.induct)
  case Start
  then show ?case by (simp add: new_connection_def alive_def handed_def)
next
  case (Step c c')
  note a = Step.IH
  have p: "phased c" "attempts c" using reach_phased [OF Step(1)] by simp_all
  have new: "c = new_connection" if "\<not> begun c" using begun_or_new [OF Step(1)] that by simp
  show ?case using Step(2)
  proof cases
    case (Frame f rest)
    then have b: "begun c" using a by (simp add: alive_def)
    show ?thesis
    proof (cases f)
      case Close_handles
      then show ?thesis using handles_alive [OF a b p(1)] Frame by (simp add: run_frame_def)
    next
      case (Created w d s)
      then show ?thesis using created_alive [OF a b p] Frame by (simp add: run_frame_def)
    qed (use frame_alive [OF a b Frame(2)] Frame in simp_all)
  next
    case (Resolved w ad res status)
    then have "begun c" "unfinished w c" using busy_begun [OF Step(1)] p(2) by (auto simp: attempts_def)
    then show ?thesis using Resolved connect_callbacks_alive(1) [OF a _ p] by blast
  next
    case (Connection_ends w res)
    then have "begun c" "unfinished w c" using busy_begun [OF Step(1)] p(2) by (auto simp: attempts_def)
    then show ?thesis using Connection_ends connect_callbacks_alive(2) [OF a _ p] by blast
  next
    case (Handle_closed h)
    then have "begun c" using busy_begun [OF Step(1)] by blast
    then show ?thesis using close_callback_alive [OF a] Handle_closed by blast
  next
    case (Posted_close)
    then have "begun c" using busy_begun [OF Step(1)] by blast
    then show ?thesis using Posted_close alive_push [of c "[]" Close_loop] a by simp
  next
    case (Posted_user)
    then show ?thesis using alive_push [of c "[]" User] a by simp
  next
    case (Arrives r)
    then have "begun c" using busy_begun [OF Step(1)] by blast
    then show ?thesis using Arrives callbacks_alive [OF a] by simp
  next
    case (Write_ends res)
    then have "begun c" using busy_begun [OF Step(1)] by blast
    then show ?thesis using Write_ends callbacks_alive [OF a] by simp
  next
    case (Read_expires)
    then have "begun c" using busy_begun [OF Step(1)] by blast
    then show ?thesis using Read_expires callbacks_alive [OF a] by simp
  next
    case (Write_expires)
    then have "begun c" using busy_begun [OF Step(1)] by blast
    then show ?thesis using Write_expires callbacks_alive [OF a] by simp
  qed (auto dest!: new simp: begin_alive callbacks_alive [OF a] start_alive [OF a _ p(1)])
qed

section \<open>The memory of requests\<close>

text \<open>Who will let a request go: libuv with a callback, or a frame.\<close>

fun framed :: "frame list \<Rightarrow> waiter list" where
  "framed [] = []"
| "framed (f # fs) = (case f of Created w b s \<Rightarrow> w # framed fs | Release w \<Rightarrow> w # framed fs | _ \<Rightarrow> framed fs)"

definition holders :: "conn \<Rightarrow> waiter list" where
  "holders c = map fst (write_queue c) @ waiting (connect_request c) @ waiting (resolve_request c) @ framed (stack c)"

definition requests :: "conn \<Rightarrow> bool" where
  "requests c \<longleftrightarrow> distinct (holders c) \<and> set (holders c) \<subseteq> kept c \<and> (\<forall>w \<in> set (holders c). w < next_waiter c)"

lemmas request_defs = requests_def holders_def

lemma requests_updates [simp]:
  "requests (c\<lparr>read_timer := t\<rparr>) = requests c" "requests (c\<lparr>write_timer := t\<rparr>) = requests c"
  "requests (c\<lparr>asked := xs\<rparr>) = requests c" "requests (c\<lparr>sent := l\<rparr>) = requests c"
  "requests (c\<lparr>immediate_writes := i\<rparr>) = requests c" "requests (c\<lparr>read_started := b\<rparr>) = requests c"
  "requests (c\<lparr>resolving := b\<rparr>) = requests c" "requests (c\<lparr>address := ad\<rparr>) = requests c"
  "requests (c\<lparr>posted_closes := n\<rparr>) = requests c" "requests (c\<lparr>completed := ws\<rparr>) = requests c"
  "requests (c\<lparr>resumed := rs\<rparr>) = requests c" "requests (c\<lparr>conn_open := b\<rparr>) = requests c"
  "requests (c\<lparr>pending_read := p\<rparr>) = requests c" "requests (c\<lparr>pending_write := p\<rparr>) = requests c"
  "requests (c\<lparr>pending_connect := p\<rparr>) = requests c" "requests (c\<lparr>closing := b\<rparr>) = requests c"
  "requests (c\<lparr>to_close := hs\<rparr>) = requests c" "requests (c\<lparr>closing_handles := n\<rparr>) = requests c"
  "requests (c\<lparr>self_keep := b\<rparr>) = requests c" "requests (c\<lparr>begun := b\<rparr>) = requests c"
  "requests c \<Longrightarrow> framed fs = framed (stack c) \<Longrightarrow> requests (c\<lparr>stack := fs\<rparr>)"
  by (simp_all add: request_defs)

lemma requests_next [simp]: "requests c \<Longrightarrow> requests (c\<lparr>next_waiter := Suc (next_waiter c)\<rparr>)"
proof -
  have "holders (c\<lparr>next_waiter := Suc (next_waiter c)\<rparr>) = holders c" by (simp add: holders_def)
  then show "requests c \<Longrightarrow> requests (c\<lparr>next_waiter := Suc (next_waiter c)\<rparr>)"
    by (auto simp: requests_def intro: less_SucI)
qed

lemma finish_requests [simp]:
  "requests c \<Longrightarrow> requests (finish_read r c)" "requests c \<Longrightarrow> requests (finish_write e c)"
  "requests c \<Longrightarrow> requests (finish_connect e c)" "requests c \<Longrightarrow> requests (resume w d c)"
  "requests c \<Longrightarrow> requests (answer w d c)" "requests c \<Longrightarrow> requests (mark_completed w c)"
  by (simp_all add: finish_read_def finish_write_def finish_connect_def resume_def answer_def mark_completed_def Let_def
      split: option.split)

text \<open>A request that nobody holds yet is handed to libuv or to a frame.\<close>

lemma hand_over:
  assumes "requests c" "w \<notin> set (holders c)" "w \<in> kept c" "w < next_waiter c"
  shows "requests (start_tcp_connect w status c)" "requests (start_resolve w status c)"
    "stack c = fs \<Longrightarrow> requests (c\<lparr>stack := Release w # fs\<rparr>)" "requests (c\<lparr>write_queue := write_queue c @ [(w, d)]\<rparr>)"
proof -
  show stack: "stack c = fs \<Longrightarrow> requests (c\<lparr>stack := Release w # fs\<rparr>)" for fs
    using assms by (simp add: request_defs)
  have asked: "requests (c\<lparr>connect_request := Some w\<rparr>)" "requests (c\<lparr>resolve_request := Some w\<rparr>)"
    using assms by (cases "connect_request c"; cases "resolve_request c"; simp add: request_defs)+
  show "requests (start_tcp_connect w status c)" "requests (start_resolve w status c)"
    using asked stack by (simp_all add: start_tcp_connect_def start_resolve_def split: option.split)
  show "requests (c\<lparr>write_queue := write_queue c @ [(w, d)]\<rparr>)" using assms by (auto simp: request_defs)
qed

lemma taken_over:
  assumes "requests c"
  shows "resolve_request c = Some w \<Longrightarrow> w \<notin> set (holders (c\<lparr>resolve_request := None\<rparr>)) \<and> requests (c\<lparr>resolve_request := None\<rparr>)"
    "connect_request c = Some w \<Longrightarrow> w \<notin> set (holders (c\<lparr>connect_request := None\<rparr>)) \<and> requests (c\<lparr>connect_request := None\<rparr>)"
    "write_queue c = (w, d) # q \<Longrightarrow> w \<notin> set (holders (c\<lparr>write_queue := q\<rparr>)) \<and> requests (c\<lparr>write_queue := q\<rparr>)"
    "stack c = Release w # fs \<or> stack c = Created w b s # fs \<Longrightarrow> w \<notin> set (holders (c\<lparr>stack := fs\<rparr>)) \<and> requests (c\<lparr>stack := fs\<rparr>)"
    "w \<in> set (holders c) \<Longrightarrow> w \<in> kept c \<and> w < next_waiter c"
  using assms by (auto simp: request_defs)

lemma release_requests: "requests c \<Longrightarrow> w \<notin> set (holders c) \<Longrightarrow> requests (c\<lparr>kept := kept c - {w}\<rparr>)"
  by (auto simp: request_defs)

lemma keep_requests: "requests c \<Longrightarrow> requests (c\<lparr>kept := insert w (kept c)\<rparr>)"
  by (auto simp: request_defs)

lemma frame_requests:
  assumes "requests c" "stack c = f # rest"
  shows "requests (run_frame f (c\<lparr>stack := rest\<rparr>))"
proof (cases f)
  case (Release w)
  then have "w \<notin> set (holders (c\<lparr>stack := rest\<rparr>))" "requests (c\<lparr>stack := rest\<rparr>)"
    using taken_over(4) [OF assms(1)] assms(2) by blast+
  then show ?thesis using release_requests [of "c\<lparr>stack := rest\<rparr>" w] Release by (simp add: run_frame_def)
next
  case (Created w b s)
  let ?c = "c\<lparr>stack := rest\<rparr>"
  have t: "w \<notin> set (holders ?c)" "requests ?c" using taken_over(4) [OF assms(1)] assms(2) Created by blast+
  have k: "w \<in> kept ?c" "w < next_waiter ?c" using taken_over(5) [OF assms(1), of w] assms(2) Created by (auto simp: holders_def)
  have h: "holders (?c\<lparr>read_timer := True\<rparr>) = holders ?c" by (simp add: holders_def)
  have "requests (?c\<lparr>read_timer := True\<rparr>)" using t(2) by simp
  then show ?thesis using t k h release_requests [OF t(2,1)] hand_over(1,2) [of "?c\<lparr>read_timer := True\<rparr>" w s] Created
    by (simp add: run_frame_def after_created_def Let_def)
qed (use assms in \<open>simp_all add: run_frame_def begin_close_def close_handles_def Let_def\<close>)

lemma fresh_waiter: "requests c \<Longrightarrow> next_waiter c \<notin> set (holders c)"
  by (auto simp: requests_def)

lemma queue_write_requests:
  assumes "requests c" "w \<notin> set (holders c)" "w < next_waiter c"
  shows "requests (queue_write w rest status c)"
proof -
  let ?c = "c\<lparr>pending_write := Some w, immediate_writes := 0, kept := insert w (kept c), write_timer := True\<rparr>"
  have k: "requests ?c" using keep_requests [OF assms(1), of w] by (simp add: request_defs)
  have h: "w \<notin> set (holders ?c)" using assms(2) by (simp add: holders_def)
  show ?thesis using assms(1,3) hand_over(3,4) [OF k h]
    by (auto simp: queue_write_def Let_def split: option.split)
qed

lemma start_requests:
  assumes "requests c"
  shows "requests (start_read status c)" "requests (start_write data a status c)"
proof -
  have n: "requests (c\<lparr>next_waiter := Suc (next_waiter c)\<rparr>)" using assms by simp
  then show "requests (start_read status c)"
    by (auto simp: start_read_def Let_def split: option.split)
  have "next_waiter c \<notin> set (holders c)" by (rule fresh_waiter [OF assms])
  then show "requests (start_write data a status c)" using n
    by (auto simp: start_write_def try_write_def Let_def holders_def intro!: queue_write_requests split: attempt.split)
qed

lemma callbacks_requests:
  assumes "requests c"
  shows "requests (read_callback a c)" "requests (write_callback res c)" "requests (read_timeout c)"
    "requests (write_timeout c)" "requests (close_callback h c)" "requests (close_here c)" "requests (close_remote c)"
    "resolve_request c = Some w \<Longrightarrow> requests (resolve_callback w ad why status c)"
    "connect_request c = Some w \<Longrightarrow> requests (connect_callback w why c)"
proof -
  show "requests (read_callback a c)" "requests (read_timeout c)" "requests (write_timeout c)" "requests (close_callback h c)"
    "requests (close_here c)" "requests (close_remote c)"
    using assms by (auto simp: read_callback_def read_timeout_def write_timeout_def close_callback_def close_here_def
        close_remote_def Let_def split: arrival.split)
  show "requests (write_callback res c)"
  proof (cases "write_queue c")
    case (Cons x q)
    obtain w d where x: "x = (w, d)" by (rule prod.exhaust)
    have t: "w \<notin> set (holders (c\<lparr>write_queue := q\<rparr>))" "requests (c\<lparr>write_queue := q\<rparr>)"
      using taken_over(3) [OF assms] Cons x by blast+
    have k: "w \<in> kept c" "w < next_waiter c" using taken_over(5) [OF assms, of w] Cons x by (auto simp: holders_def)
    then have "requests (c\<lparr>write_queue := q, stack := Release w # stack c\<rparr>)" using hand_over(3) [OF t(2,1)] by simp
    then show ?thesis using Cons x by (auto simp: write_callback_def Let_def split: option.split)
  qed (use assms in \<open>simp add: write_callback_def\<close>)
  show "requests (resolve_callback w ad why status c)" if "resolve_request c = Some w"
  proof -
    let ?c = "c\<lparr>resolve_request := None, resolving := False\<rparr>"
    have t: "w \<notin> set (holders ?c)" "requests ?c"
      using taken_over(1) [OF assms that] by (simp_all add: holders_def)
    have k: "w \<in> kept ?c" "w < next_waiter ?c" using taken_over(5) [OF assms, of w] that by (auto simp: holders_def)
    have "requests (start_tcp_connect w status (?c\<lparr>address := ad\<rparr>))"
      by (rule hand_over(1)) (use t k in \<open>simp_all add: holders_def\<close>)
    then show ?thesis using t k hand_over(3) [OF t(2,1) k] release_requests [OF t(2,1)]
      by (auto simp: resolve_callback_def Let_def split: option.split)
  qed
  show "requests (connect_callback w why c)" if "connect_request c = Some w"
  proof -
    have t: "w \<notin> set (holders (c\<lparr>connect_request := None\<rparr>))" "requests (c\<lparr>connect_request := None\<rparr>)"
      using taken_over(2) [OF assms that] by simp_all
    have k: "w \<in> kept c" "w < next_waiter c" using taken_over(5) [OF assms, of w] that by (auto simp: holders_def)
    then show ?thesis using hand_over(3) [OF t(2,1)] by (auto simp: connect_callback_def Let_def split: option.split)
  qed
qed

lemma begin_requests:
  "requests (start_connect name candidate n failed status new_connection)"
  "requests (accept_connection n accepted new_connection)"
  by (auto simp: start_connect_def accept_connection_def finish_connect_def new_connection_def request_defs
      mark_completed_def Let_def)

lemma reach_requests: "reach c \<Longrightarrow> requests c"
proof (induction rule: reach.induct)
  case Start
  then show ?case by (simp add: new_connection_def request_defs)
next
  case (Step c c')
  have new: "c = new_connection" if "\<not> begun c" using begun_or_new [OF Step(1)] that by simp
  show ?case using Step(2)
    by cases (use Step.IH in \<open>auto dest!: new simp: begin_requests frame_requests start_requests callbacks_requests\<close>)
qed

end
