(* ===== verification/Uv_Writes.thy ===== *)
theory Uv_Writes
  imports Uv_Connection_Facts
begin

text \<open>
  What the writes of a connection give to the kernel: a prefix of what they were asked to write, in the
  order of the calls, and all of it when they report no error.  Then the properties of a connection.
\<close>

section \<open>What is written\<close>

definition sent_of :: "waiter \<Rightarrow> conn \<Rightarrow> bytes" where
  "sent_of w c = concat (map snd (filter (\<lambda>p. fst p = w) (sent c)))"

definition order :: "conn \<Rightarrow> waiter list" where
  "order c = map fst (sent c) @ map fst (write_queue c)"

definition delivered :: "conn \<Rightarrow> bool" where
  "delivered c \<longleftrightarrow>
     (\<forall>w d. (w, d) \<in> set (write_queue c) \<longrightarrow> sent_of w c @ d = asked c w \<and> (w \<notin> completed c \<longrightarrow> pending_write c = Some w))
   \<and> (\<forall>w e. (w, Write_done e) \<in> set (resumed c) \<and> \<not> is_error e \<longrightarrow> sent_of w c = asked c w)
   \<and> (\<forall>w. prefix (sent_of w c) (asked c w))
   \<and> sorted (order c) \<and> (\<forall>w \<in> set (order c). w < next_waiter c)"

lemma sent_of_update [simp]: "sent_of w (c\<lparr>sent := sent c @ [(v, d)]\<rparr>) = sent_of w c @ (if v = w then d else [])"
  by (simp add: sent_of_def)

lemma sent_of_cong: "sent c' = sent c \<Longrightarrow> sent_of w c' = sent_of w c"
  by (simp add: sent_of_def)

lemmas delivered_defs = delivered_def order_def

lemma accounted_set: "accounted c \<Longrightarrow> set (waiters c) = {..<next_waiter c}"
proof -
  assume "accounted c"
  then have "mset (waiters c) = mset [0..<next_waiter c]" by (simp only: accounted_def)
  from mset_eq_setD [OF this] have "set (waiters c) = set [0..<next_waiter c]" .
  then show ?thesis unfolding lessThan_atLeast0 set_upt .
qed

text \<open>An operation that leaves the queue and the bytes alone, and only completes.\<close>

lemma delivered_mono:
  assumes "delivered c" "sent c' = sent c" "write_queue c' = write_queue c" "asked c' = asked c"
    and "next_waiter c \<le> next_waiter c'"
    and "\<And>w. w \<notin> completed c' \<Longrightarrow> w \<notin> completed c \<and> (pending_write c = Some w \<longrightarrow> pending_write c' = Some w)"
    and "\<And>w e. (w, Write_done e) \<in> set (resumed c') \<Longrightarrow> \<not> is_error e \<Longrightarrow> (w, Write_done e) \<in> set (resumed c)"
  shows "delivered c'"
proof -
  have s: "sent_of w c' = sent_of w c" for w by (rule sent_of_cong [OF assms(2)])
  have o: "order c' = order c" using assms(2,3) by (simp add: order_def)
  have n: "\<forall>w \<in> set (order c). w < next_waiter c'" using assms(1,5) by (auto simp: delivered_def)
  have q: "sent_of w c @ d = asked c w \<and> (w \<notin> completed c' \<longrightarrow> pending_write c' = Some w)" if "(w, d) \<in> set (write_queue c)" for w d
    using assms(1,6) that by (auto simp: delivered_def)
  have r: "sent_of w c = asked c w" if "(w, Write_done e) \<in> set (resumed c')" "\<not> is_error e" for w e
    using assms(1) assms(7) [OF that] that(2) unfolding delivered_def by blast
  have p: "\<forall>w. prefix (sent_of w c) (asked c w)" "sorted (order c)" using assms(1) by (simp_all add: delivered_def)
  show ?thesis unfolding delivered_def s o assms(3,4) using n q r p by blast
qed

lemma finish_delivered:
  assumes "accounted c" "delivered c"
  shows "delivered (finish_read r c)" "is_error e \<Longrightarrow> delivered (finish_write e c)" "delivered (finish_connect f c)"
proof -
  show "delivered (finish_read r c)"
    using assms(1) by (rule finish_read_cases [where r = r]) (use assms(2) in \<open>auto intro: delivered_mono\<close>)
  show "delivered (finish_write e c)" if "is_error e"
    using assms(1) by (rule finish_write_cases [where e = e]) (use assms(2) that in \<open>auto intro: delivered_mono\<close>)
  show "delivered (finish_connect f c)"
    using assms(1) by (rule finish_connect_cases [where e = f]) (use assms(2) in \<open>auto intro: delivered_mono\<close>)
qed

lemma delivered_updates [simp]:
  "delivered (c\<lparr>read_timer := t\<rparr>) = delivered c" "delivered (c\<lparr>write_timer := t\<rparr>) = delivered c"
  "delivered (c\<lparr>immediate_writes := i\<rparr>) = delivered c" "delivered (c\<lparr>read_started := b\<rparr>) = delivered c"
  "delivered (c\<lparr>resolving := b\<rparr>) = delivered c" "delivered (c\<lparr>address := ad\<rparr>) = delivered c"
  "delivered (c\<lparr>posted_closes := n\<rparr>) = delivered c" "delivered (c\<lparr>kept := k\<rparr>) = delivered c"
  "delivered (c\<lparr>conn_open := b\<rparr>) = delivered c" "delivered (c\<lparr>pending_read := p\<rparr>) = delivered c"
  "delivered (c\<lparr>pending_connect := p\<rparr>) = delivered c" "delivered (c\<lparr>closing := b\<rparr>) = delivered c"
  "delivered (c\<lparr>to_close := hs\<rparr>) = delivered c" "delivered (c\<lparr>closing_handles := n\<rparr>) = delivered c"
  "delivered (c\<lparr>self_keep := b\<rparr>) = delivered c" "delivered (c\<lparr>begun := b\<rparr>) = delivered c"
  "delivered (c\<lparr>stack := fs\<rparr>) = delivered c" "delivered (c\<lparr>connect_request := r\<rparr>) = delivered c"
  "delivered (c\<lparr>resolve_request := r\<rparr>) = delivered c"
  by (simp_all add: delivered_defs sent_of_def)

lemma resume_delivered:
  "delivered c \<Longrightarrow> (\<And>e. d = Write_done e \<Longrightarrow> is_error e) \<Longrightarrow> delivered (resume w d c)"
  "delivered c \<Longrightarrow> delivered (mark_completed w c)"
  "delivered c \<Longrightarrow> (\<And>e. d = Write_done e \<Longrightarrow> is_error e) \<Longrightarrow> delivered (answer w d c)"
  unfolding resume_def mark_completed_def answer_def by (rule delivered_mono [of c]; auto)+

text \<open>An operation that has just got its number, with some of its bytes sent.\<close>

definition writing :: "waiter \<Rightarrow> bytes \<Rightarrow> conn \<Rightarrow> bool" where
  "writing w rest c \<longleftrightarrow> placing w c \<and> delivered c \<and> sent_of w c @ rest = asked c w \<and> next_waiter c = Suc w"

lemma writing_answered:
  assumes "writing w [] c"
  shows "delivered (answer w (Write_done no_error) c)"
proof -
  let ?c = "answer w (Write_done no_error) c"
  have s: "sent_of v ?c = sent_of v c" for v by (simp add: answer_def sent_of_def)
  have o: "order ?c = order c" "next_waiter ?c = next_waiter c" "write_queue ?c = write_queue c" "asked ?c = asked c"
    "pending_write ?c = pending_write c" "completed ?c = insert w (completed c)"
    "resumed ?c = resumed c @ [(w, Write_done no_error)]"
    by (simp_all add: answer_def order_def)
  show ?thesis using assms unfolding writing_def delivered_def s o by auto
qed

lemma queue_write_delivered:
  assumes "writing w rest c"
  shows "delivered (queue_write w rest status c)"
proof -
  let ?c = "c\<lparr>pending_write := Some w, immediate_writes := 0, kept := insert w (kept c), write_timer := True\<rparr>"
  have d: "delivered c" and p: "placing w c" and s: "sent_of w c @ rest = asked c w" "next_waiter c = Suc w"
    using assms by (simp_all add: writing_def)
  show ?thesis
  proof (cases "conn_open c \<and> pending_write c = None")
    case False
    then show ?thesis using d by (auto simp: queue_write_def intro!: resume_delivered)
  next
    case True
    then have acc: "accounted ?c" using p by (simp add: waiter_defs)
    have sent: "sent_of v (?c\<lparr>write_queue := q\<rparr>) = sent_of v c" "sent_of v ?c = sent_of v c" for v q
      by (simp_all add: sent_of_def)
    have o: "order ?c = order c" "order (?c\<lparr>write_queue := write_queue c @ [(w, rest)]\<rparr>) = order c @ [w]"
      by (simp_all add: order_def)
    have one: "delivered ?c" using d True unfolding delivered_def sent o by auto
    have "sorted (order c @ [w])" using d s(2) by (auto simp: delivered_def sorted_append)
    then have "delivered (?c\<lparr>write_queue := write_queue c @ [(w, rest)]\<rparr>)"
      using d True s unfolding delivered_def sent o by auto
    then show ?thesis using True one finish_delivered(2) [of "?c\<lparr>stack := Release w # stack c\<rparr>"] acc
      by (simp add: queue_write_def Let_def split: option.split)
  qed
qed

lemma start_writing:
  assumes "accounted c" "delivered c"
  shows "writing (next_waiter c) data (c\<lparr>next_waiter := next_waiter c + 1, asked := (asked c)(next_waiter c := data)\<rparr>)"
proof -
  let ?w = "next_waiter c"
  let ?c = "c\<lparr>next_waiter := ?w + 1, asked := (asked c)(?w := data)\<rparr>"
  have s: "sent_of v ?c = sent_of v c" for v by (simp add: sent_of_def)
  have none: "sent_of ?w c = []"
  proof -
    have "fst p \<noteq> ?w" if "p \<in> set (sent c)" for p
    proof -
      have "fst p \<in> set (order c)" using that by (simp add: order_def)
      then show ?thesis using assms(2) by (auto simp: delivered_def)
    qed
    then have "filter (\<lambda>p. fst p = ?w) (sent c) = []" by (simp add: filter_empty_conv)
    then show ?thesis by (simp add: sent_of_def)
  qed
  have res: "v < ?w" if "(v, d) \<in> set (resumed c)" for v d
  proof -
    have "v \<in> set (waiters c)" using that by (force simp: waiters_def known_def)
    then show ?thesis using accounted_set [OF assms(1)] by simp
  qed
  have q: "v < ?w" if "(v, d) \<in> set (write_queue c)" for v d
  proof -
    have "v \<in> set (order c)" using that by (force simp: order_def)
    then show ?thesis using assms(2) by (auto simp: delivered_def)
  qed
  have o: "order ?c = order c" by (simp add: order_def)
  have "delivered ?c" using assms(2) none unfolding delivered_def s o
    by (auto simp: less_Suc_eq dest: res q)
  then show ?thesis using placing_new [OF assms(1)] none s by (simp add: writing_def)
qed

lemma start_delivered:
  assumes "accounted c" "delivered c"
  shows "attempt_possible a data c \<Longrightarrow> delivered (start_write data a status c)" "delivered (start_read status c)"
proof -
  let ?w = "next_waiter c"
  let ?c = "c\<lparr>next_waiter := ?w + 1, asked := (asked c)(?w := data)\<rparr>"
  have w: "writing ?w data ?c" by (rule start_writing [OF assms])
  then have d: "delivered ?c" by (simp add: writing_def)
  have took: "writing ?w (drop n data) (?c\<lparr>sent := sent c @ [(?w, take n data)], immediate_writes := i\<rparr>)"
    if "n \<le> length data" "write_queue c = []" for n i
  proof -
    let ?d = "?c\<lparr>sent := sent c @ [(?w, take n data)], immediate_writes := i\<rparr>"
    have s: "sent_of v ?d = sent_of v ?c @ (if v = ?w then take n data else [])" for v by (simp add: sent_of_def)
    have o: "order ?d = order ?c @ [?w]" using that(2) by (simp add: order_def)
    have f: "sent_of ?w ?c = []" using w by (simp add: writing_def)
    have p: "placing ?w ?d" using w by (simp add: writing_def)
    have r: "(?w, Write_done e) \<notin> set (resumed c)" for e
    proof
      assume "(?w, Write_done e) \<in> set (resumed c)"
      then have "?w \<in> set (waiters c)" by (force simp: waiters_def known_def)
      then show False using accounted_set [OF assms(1)] by simp
    qed
    have pre: "prefix (sent_of v ?c @ (if v = ?w then take n data else [])) (asked ?c v)" for v
    proof (cases "v = ?w")
      case True
      then show ?thesis using f by (simp add: take_is_prefix)
    next
      case False
      have "prefix (sent_of v ?c) (asked ?c v)" using d unfolding delivered_def by blast
      with False show ?thesis by simp
    qed
    have "sorted (order ?c @ [?w])" using d by (auto simp: delivered_def sorted_append)
    then have "delivered ?d" using d that pre r unfolding delivered_def s o by auto
    then show ?thesis using p f s by (simp add: writing_def)
  qed
  show "delivered (start_write data a status c)" if "attempt_possible a data c"
  proof -
    have refused: "delivered (answer ?w (Write_done (error_of E_write what)) ?c)"
      "delivered (answer ?w (Write_done (uv_failure E_write what u)) ?c)" for what u
      by (rule resume_delivered(3) [OF d]; auto)+
    have whole: "delivered (answer ?w (Write_done no_error) ?c)" if "data = []"
      using writing_answered w that by simp
    have tried: "delivered (try_write a status ?w data ?c)"
    proof (cases a)
      case (Took n)
      let ?d = "?c\<lparr>sent := sent c @ [(?w, take n data)], immediate_writes := immediate_writes c + 1\<rparr>"
      have wr: "writing ?w (drop n data) ?d" using took that Took by (simp add: attempt_possible_def)
      show ?thesis
      proof (cases "n = length data")
        case True
        then have "writing ?w [] ?d" using wr by simp
        from writing_answered [OF this] show ?thesis by (simp add: try_write_def Took Let_def True)
      next
        case False
        then show ?thesis using queue_write_delivered [OF wr] by (simp add: try_write_def Took Let_def)
      qed
    next
      case Busy
      then show ?thesis using queue_write_delivered [OF w] by (simp add: try_write_def)
    next
      case (Refused u)
      then show ?thesis using refused(2) by (simp add: try_write_def)
    qed
    show ?thesis unfolding start_write_def Let_def
      using whole refused(1) tried queue_write_delivered [OF w] by simp
  qed
  let ?r = "c\<lparr>next_waiter := ?w + 1, pending_read := Some ?w, read_timer := True\<rparr>"
  have n: "delivered (c\<lparr>next_waiter := ?w + 1\<rparr>)" by (rule delivered_mono [OF assms(2)]) simp_all
  have a: "accounted ?r" if "pending_read c = None" using placing_new [OF assms(1)] that by (simp add: waiter_defs)
  show "delivered (start_read status c)" using n finish_delivered(1) [OF a]
    by (auto simp: start_read_def Let_def intro!: resume_delivered split: option.split)
qed

lemma connect_delivered:
  assumes "accounted c" "delivered c"
  shows "delivered (start_tcp_connect w status c)" "delivered (start_resolve w status c)"
  using assms by (auto simp: start_tcp_connect_def start_resolve_def intro!: finish_delivered split: option.split)

lemma frame_delivered:
  assumes "accounted c" "delivered c" "stack c = f # rest"
  shows "delivered (run_frame f (c\<lparr>stack := rest\<rparr>))"
proof -
  have d: "delivered (c\<lparr>stack := rest\<rparr>)" using assms(2) by simp
  show ?thesis
    by (cases f) (use assms(1,3) d in \<open>auto simp: run_frame_def begin_close_def close_handles_def after_created_def Let_def
      intro!: finish_delivered connect_delivered resume_delivered\<close>)
qed

text \<open>The request at the head of the queue has ended.\<close>

lemma write_callback_delivered:
  assumes "accounted c" "delivered c" "requests c"
  shows "delivered (write_callback res c)"
proof (cases "write_queue c")
  case (Cons x q)
  obtain w data where x: "x = (w, data)" by (rule prod.exhaust)
  define n where "n = (case res of None \<Rightarrow> length data | Some (k, _) \<Rightarrow> k)"
  let ?c = "c\<lparr>write_queue := q, stack := Release w # stack c, sent := sent c @ [(w, take n data)]\<rparr>"
  have head: "sent_of w c @ data = asked c w" "w \<notin> completed c \<longrightarrow> pending_write c = Some w"
    using assms(2) Cons x unfolding delivered_def by simp_all
  have "distinct (map fst (write_queue c))" using assms(3) by (simp add: request_defs)
  then have other: "v \<noteq> w" if "(v, d) \<in> set q" for v d
    using Cons x that by (force simp: image_iff)
  define t where "t = (\<lambda>v. sent_of v c @ (if v = w then take n data else []))"
  have s: "sent_of v ?c = t v" for v by (simp add: sent_of_def t_def)
  have o: "order ?c = order c" using Cons x by (simp add: order_def)
  have pre: "prefix (t v) (asked c v)" for v
  proof (cases "v = w")
    case True
    have "prefix (sent_of w c @ take n data) (sent_of w c @ data)" by (simp add: take_is_prefix)
    then show ?thesis using True head(1) by (simp add: t_def)
  next
    case False
    have "prefix (sent_of v c) (asked c v)" using assms(2) unfolding delivered_def by blast
    with False show ?thesis by (simp add: t_def)
  qed
  have full: "t v = asked c v" if "(v, Write_done e) \<in> set (resumed c)" "\<not> is_error e" for v e
  proof -
    have "sent_of v c = asked c v" using assms(2) that unfolding delivered_def by blast
    then show ?thesis using head(1) by (auto simp: t_def)
  qed
  have queue: "t v @ d = asked c v \<and> (v \<notin> completed c \<longrightarrow> pending_write c = Some v)"
    if "(v, d) \<in> set q" for v d
    using assms(2) Cons x that other [OF that] unfolding delivered_def t_def by simp
  have d: "delivered ?c" using assms(2) pre queue unfolding delivered_def s o by (auto dest: full)
  have a: "accounted ?c" using assms(1) by simp
  have ok: "delivered (finish_write no_error ?c)" if "res = None" "w \<notin> completed c"
  proof -
    have p: "pending_write c = Some w" using head(2) that(2) by simp
    then have f: "finish_write no_error ?c = ?c\<lparr>pending_write := None, completed := insert w (completed c), write_timer := False,
        resumed := resumed c @ [(w, Write_done no_error)], stack := User # stack ?c\<rparr>"
      using that(2) by (simp add: finish_write_def resume_def mark_completed_def)
    let ?f = "finish_write no_error ?c"
    have g: "sent_of v ?f = t v" for v unfolding f by (simp add: sent_of_def t_def)
    have h: "order ?f = order c" unfolding f using o by (simp add: order_def)
    have i: "write_queue ?f = q" "asked ?f = asked c" "completed ?f = insert w (completed c)" "pending_write ?f = None"
      "resumed ?f = resumed c @ [(w, Write_done no_error)]" "next_waiter ?f = next_waiter c"
      unfolding f by simp_all
    have all: "t w = asked c w" using head(1) that(1) by (simp add: n_def t_def)
    have old: "v \<in> insert w (completed c)" if "(v, d) \<in> set q" for v d using queue [OF that] p other [OF that] by auto
    show ?thesis using assms(2) pre queue all unfolding delivered_def g h i by (auto dest: full old)
  qed
  have "delivered (finish_write (uv_failure E_write what u) ?c)" for what u by (rule finish_delivered(2) [OF a d]) simp
  then show ?thesis using Cons x d ok
    by (cases res) (auto simp: write_callback_def Let_def n_def split: prod.splits)
qed (use assms(2) in \<open>simp add: write_callback_def\<close>)

lemma callbacks_delivered:
  assumes "accounted c" "delivered c"
  shows "delivered (read_callback a c)" "delivered (read_timeout c)" "delivered (write_timeout c)"
    "delivered (close_callback h c)" "delivered (close_here c)" "delivered (close_remote c)"
    "delivered (resolve_callback w ad why status c)" "delivered (connect_callback w why c)"
  using assms
  by (auto simp: read_callback_def read_timeout_def write_timeout_def close_callback_def close_here_def close_remote_def
      resolve_callback_def connect_callback_def Let_def intro!: finish_delivered connect_delivered
      split: arrival.split option.split)

lemma begin_delivered:
  "delivered (start_connect name candidate n failed status new_connection)"
  "delivered (accept_connection n accepted new_connection)"
  by (auto simp: start_connect_def accept_connection_def finish_connect_def new_connection_def delivered_defs
      mark_completed_def sent_of_def Let_def)

lemma reach_delivered: "reach c \<Longrightarrow> delivered c"
proof (induction rule: reach.induct)
  case Start
  then show ?case by (simp add: new_connection_def delivered_defs sent_of_def)
next
  case (Step c c')
  note a = reach_accounted [OF Step(1)] and d = Step.IH and r = reach_requests [OF Step(1)]
  have new: "c = new_connection" if "\<not> begun c" using begun_or_new [OF Step(1)] that by simp
  show ?case using Step(2)
    by cases (use d in \<open>auto dest!: new simp: begin_delivered frame_delivered [OF a d] start_delivered [OF a d]
      callbacks_delivered [OF a d] write_callback_delivered [OF a d r]\<close>)
qed

section \<open>A run\<close>

text \<open>
  A connection that is accepted, reads, writes five bytes of which two are taken at once, is told that the
  rest is written, and is closed while it still reads.
\<close>

fun run_frames :: "nat \<Rightarrow> conn \<Rightarrow> conn" where
  "run_frames 0 c = c"
| "run_frames (Suc n) c = (case stack c of [] \<Rightarrow> c | f # rest \<Rightarrow> run_frames n (run_frame f (c\<lparr>stack := rest\<rparr>)))"

lemma reach_frames: "reach c \<Longrightarrow> reach (run_frames n c)"
proof (induction n arbitrary: c)
  case (Suc n)
  then show ?case
    by (cases "stack c") (auto intro: reach.Step conn_step.Frame)
qed simp

definition accepted_run :: conn where
  "accepted_run = accept_connection 3 True new_connection"

definition waiting_run :: conn where
  "waiting_run = run_frames 1 (start_write ''hello'' (Took 2) None (start_read None (accepted_run\<lparr>stack := [User]\<rparr>)))"

definition written_run :: conn where
  "written_run = run_frames 2 (write_callback None waiting_run)"

definition closed_run :: conn where
  "closed_run = run_frames 9 (close_here (written_run\<lparr>stack := [User]\<rparr>))"

definition released_run :: conn where
  "released_run = close_callback Tcp (close_callback Write_timer (close_callback Read_timer closed_run))"

text \<open>What the proofs look at.\<close>

definition look :: "conn \<Rightarrow> (bool \<times> bool \<times> bool) \<times> handle set \<times> frame list \<times> (waiter \<times> bytes) list \<times> waiter option \<times> nat" where
  "look c = ((begun c, closing c, self_keep c), to_close c, stack c, write_queue c, connect_request c, next_waiter c)"

lemma waiting_run: "reach waiting_run" "stack waiting_run = []" "write_queue waiting_run = [(1, ''llo'')]" "begun waiting_run"
proof -
  have "reach accepted_run" unfolding accepted_run_def
    by (rule reach.Step [OF reach.Start conn_step.Accept]) (simp_all add: new_connection_def)
  moreover have "begun accepted_run" "stack accepted_run = []" by code_simp+
  ultimately have "reach (accepted_run\<lparr>stack := [User]\<rparr>)" by (blast intro: reach.Step conn_step.Posted_user)
  then have "reach (start_read None (accepted_run\<lparr>stack := [User]\<rparr>))"
    using \<open>begun accepted_run\<close> by (auto intro!: reach.Step [OF _ conn_step.User_reads] simp: user_runs_def)
  moreover have "begun (start_read None (accepted_run\<lparr>stack := [User]\<rparr>))"
    "stack (start_read None (accepted_run\<lparr>stack := [User]\<rparr>)) = [User]"
    "attempt_possible (Took 2) ''hello'' (start_read None (accepted_run\<lparr>stack := [User]\<rparr>))" by code_simp+
  ultimately show "reach waiting_run" unfolding waiting_run_def
    by (intro reach_frames reach.Step [OF _ conn_step.User_writes]) (auto simp: user_runs_def)
  have "look waiting_run = ((True, False, True), {}, [], [(1, ''llo'')], None, 2)" by code_simp
  then show "stack waiting_run = []" "write_queue waiting_run = [(1, ''llo'')]" "begun waiting_run"
    by (simp_all add: look_def)
qed

lemma written_run: "reach written_run" "stack written_run = []" "begun written_run"
proof -
  show "reach written_run" unfolding written_run_def
    by (rule reach_frames, rule reach.Step [OF waiting_run(1) conn_step.Write_ends]) (simp_all add: waiting_run)
  have "look written_run = ((True, False, True), {}, [], [], None, 2)" by code_simp
  then show "stack written_run = []" "begun written_run" by (simp_all add: look_def)
qed

lemma closed_look: "look closed_run = ((True, True, True), {Tcp, Read_timer, Write_timer}, [], [], None, 2)"
  by code_simp

lemma closed_run: "reach closed_run" "stack closed_run = []" "closing closed_run"
proof -
  have "reach (written_run\<lparr>stack := [User]\<rparr>)" using written_run by (blast intro: reach.Step conn_step.Posted_user)
  then have "reach (close_here (written_run\<lparr>stack := [User]\<rparr>))"
    using written_run(3) by (auto intro!: reach.Step [OF _ conn_step.User_closes] simp: user_runs_def)
  then show "reach closed_run" unfolding closed_run_def by (rule reach_frames)
  show "stack closed_run = []" "closing closed_run" using closed_look by (simp_all add: look_def)
qed

lemma released_run: "reach released_run" "begun released_run" "\<not> self_keep released_run"
proof -
  let ?a = "close_callback Read_timer closed_run" and ?b = "close_callback Write_timer (close_callback Read_timer closed_run)"
  have "Read_timer \<in> to_close closed_run" "Write_timer \<in> to_close ?a" "Tcp \<in> to_close ?b" "stack ?a = []" "stack ?b = []"
    "write_queue ?b = []" "connect_request ?b = None" using closed_look by (simp_all add: look_def close_callback_def Let_def)
  then show "reach released_run" unfolding released_run_def using closed_run(1,2)
    by (intro reach.Step [OF _ conn_step.Handle_closed]) simp_all
  have "look released_run = ((True, True, False), {}, [], [], None, 2)" by code_simp
  then show "begun released_run" "\<not> self_keep released_run" by (simp_all add: look_def)
qed

section \<open>Properties\<close>

text \<open>C11: A coroutine that waits for a connection is resumed once: no operation completes twice, and whenever the loop is
  idle every operation that was started has been completed, or waits with its timer armed.\<close>

theorem operations_complete_once:
  assumes "reach c"
  shows "distinct (map fst (resumed c))
    \<and> (stack c = [] \<longrightarrow> (\<forall>w < next_waiter c. w \<in> fst ` set (resumed c)
        \<or> (pending_read c = Some w \<or> pending_connect c = Some w) \<and> read_timer c \<or> pending_write c = Some w \<and> write_timer c))"
proof -
  have a: "accounted c" by (rule reach_accounted [OF assms])
  then have "mset (waiters c) = mset [0..<next_waiter c]" by (simp only: accounted_def)
  then have d: "distinct (waiters c)" by (rule mset_upt_distinct)
  have t: "timed c" by (rule reach_timed [OF assms])
  have "w \<in> fst ` set (resumed c) \<or> (pending_read c = Some w \<or> pending_connect c = Some w) \<and> read_timer c
      \<or> pending_write c = Some w \<and> write_timer c" if "stack c = []" "w < next_waiter c" for w
  proof -
    have "w \<in> set (waiters c)" using accounted_set [OF a] that(2) by simp
    then have "w \<in> fst ` set (resumed c) \<or> pending_read c = Some w \<or> pending_connect c = Some w \<or> pending_write c = Some w"
      using that(1) by (auto simp: waiters_def known_def split: option.splits)
    then show ?thesis using t that(1) by (auto simp: timed_def)
  qed
  then show ?thesis using d by (simp add: waiters_def known_def)
qed

text \<open>C10: When \<^verbatim>\<open>close_on_loop\<close> is done, every operation has been completed, nothing is pending, no timer runs, nothing
  can be started on the connection, and it keeps itself exactly as long as a close callback is to come.\<close>

theorem closed_connection_settled:
  assumes "reach c" "stack c = []" "closing c"
  shows "fst ` set (resumed c) = {..<next_waiter c} \<and> distinct (map fst (resumed c)) \<and> \<not> conn_open c
    \<and> pending_read c = None \<and> pending_write c = None \<and> pending_connect c = None \<and> \<not> read_timer c \<and> \<not> write_timer c
    \<and> (self_keep c \<longleftrightarrow> to_close c \<noteq> {})"
proof -
  have p: "pending_read c = None" "pending_write c = None" "pending_connect c = None" "\<not> conn_open c"
    using reach_phased [OF assms(1)] assms(2,3) by (auto simp: phased_def)
  have a: "accounted c" by (rule reach_accounted [OF assms(1)])
  then have "mset (waiters c) = mset [0..<next_waiter c]" by (simp only: accounted_def)
  then have "distinct (waiters c)" by (rule mset_upt_distinct)
  moreover have "set (waiters c) = {..<next_waiter c}" by (rule accounted_set [OF a])
  moreover have "\<not> read_timer c" "\<not> write_timer c" using reach_timed [OF assms(1)] p by (auto simp: timed_def)
  moreover have "self_keep c \<longleftrightarrow> to_close c \<noteq> {}" using reach_alive [OF assms(1)] assms(2,3) by (simp add: alive_def handed_def)
  ultimately show ?thesis using p assms(2) by (simp add: waiters_def known_def)
qed

text \<open>C12: A write gives the kernel a prefix of its data, all of it when it reports no error, whether the bytes went at
  once, in part, or through the queue; and the bytes of the writes go in the order of the calls.\<close>

theorem writes_delivered:
  assumes "reach c"
  shows "(\<forall>w. prefix (sent_of w c) (asked c w))
    \<and> (\<forall>w e. (w, Write_done e) \<in> set (resumed c) \<and> \<not> is_error e \<longrightarrow> sent_of w c = asked c w) \<and> sorted (map fst (sent c))"
  using reach_delivered [OF assms] by (auto simp: delivered_def order_def sorted_append)


section \<open>Witnesses\<close>

theorem operations_complete_once_witness:
  "map fst (resumed waiting_run) = [] \<and> pending_read waiting_run = Some 0 \<and> read_timer waiting_run
    \<and> (1 \<in> fst ` set (resumed waiting_run) \<or> pending_write waiting_run = Some 1 \<and> write_timer waiting_run)"
proof -
  have s: "next_waiter waiting_run = 2" "resumed waiting_run = []" "pending_read waiting_run = Some 0" "pending_connect waiting_run = None"
    "read_timer waiting_run" by code_simp+
  have "1 \<in> fst ` set (resumed waiting_run)
        \<or> (pending_read waiting_run = Some 1 \<or> pending_connect waiting_run = Some 1) \<and> read_timer waiting_run
        \<or> pending_write waiting_run = Some 1 \<and> write_timer waiting_run"
    using operations_complete_once [OF waiting_run(1)] waiting_run(2) s(1) by simp
  then show ?thesis using s by simp
qed

theorem closed_connection_settled_witness:
  "fst ` set (resumed closed_run) = {..<2} \<and> \<not> conn_open closed_run \<and> self_keep closed_run"
proof -
  have s: "next_waiter closed_run = 2" "to_close closed_run \<noteq> {}" using closed_look by (simp_all add: look_def)
  show ?thesis using closed_connection_settled [OF closed_run] s by simp
qed

theorem writes_delivered_witness: "sent_of 1 written_run = ''hello''"
proof -
  have s: "(1, Write_done no_error) \<in> set (resumed written_run)" "asked written_run 1 = ''hello''" by code_simp+
  have "\<not> is_error no_error" by code_simp
  then show ?thesis using writes_delivered [OF written_run(1)] s by metis
qed


end
