(* ===== verification/Spec2Isabelle.thy ===== *)
theory Spec2Isabelle
  imports Client_Facts Json_Stream Multipart_Stream Read_Buffer Session_Runs Sse_Client Task_Handoff Uv_Writes
begin

text \<open>
  A model of chhttp, an asynchronous HTTP/1.x, WebSocket and server-sent-event library in C++20 on top
  of libuv, with the theorems that say its message layer is correct.

  \<^bold>\<open>The program.\<close>  \<^verbatim>\<open>src/common.cpp\<close> holds the value types (errors, header fields, URLs, Base64,
  ranges); \<^verbatim>\<open>src/detail.hpp\<close> the read buffer and the interfaces between the parts; \<^verbatim>\<open>src/protocol.cpp\<close>
  reads and writes messages over a connection and runs the WebSocket channel; \<^verbatim>\<open>src/server.cpp\<close> routes
  requests to handlers, \<^verbatim>\<open>src/client.cpp\<close> pools connections and follows redirects, \<^verbatim>\<open>src/sse.cpp\<close>
  parses event streams, \<^verbatim>\<open>src/streaming_body.cpp\<close> produces bodies and \<^verbatim>\<open>src/runtime.cpp\<close> drives libuv.
  A server reads a request head, its body, routes it, and writes the response; the client writes the
  request and reads the response; an upgraded connection becomes a WebSocket channel on both sides.

  \<^bold>\<open>The theories.\<close>  Each follows one component, its definitions in the order of the code.
  \<^item> \<^verbatim>\<open>Chhttp_Prelude\<close>: bytes, searching, splitting, trimming, numbers in text, and the theorem
    collections the other theories use.
  \<^item> \<^verbatim>\<open>Errors\<close>: \<^verbatim>\<open>Error\<close>, \<^verbatim>\<open>ErrorInfo\<close> and \<^verbatim>\<open>Result\<close> (a sum, the error on the left).
  \<^item> \<^verbatim>\<open>Headers\<close>: the field multimap, with the locale \<open>field_store\<close> for what its clients rely on.
  \<^item> \<^verbatim>\<open>Url\<close>: percent encoding, query strings, URL parsing, printing, resolution.
  \<^item> \<^verbatim>\<open>Base64\<close>, \<^verbatim>\<open>Ranges\<close>, \<^verbatim>\<open>Sse\<close>: the codecs and parsers of those names.
  \<^item> \<^verbatim>\<open>Http_Head\<close>: heads, request lines and head printing; \<open>head_spec\<close> says what an accepted head is.
  \<^item> \<^verbatim>\<open>Read_Buffer\<close>: \<^verbatim>\<open>detail::ReadBuffer\<close> refines a queue of bytes (locale \<open>byte_queue\<close>).
  \<^item> \<^verbatim>\<open>Transport\<close>: a connection as a record \<open>io\<close>: a clock in milliseconds, a script of what arrives when,
    a script of how writes end, and what has been sent; timed reads, deadlines and cancellation.
  \<^item> \<^verbatim>\<open>Http_Body\<close>, \<^verbatim>\<open>Http_Body_Facts\<close>: \<^verbatim>\<open>read_body\<close> in its fixed, chunked and until-end modes.
  \<^item> \<^verbatim>\<open>Http_Write\<close>: \<^verbatim>\<open>write_request\<close> with its streamed body, \<^verbatim>\<open>write_response\<close>, chunk writers.
  \<^item> \<^verbatim>\<open>Http_Message\<close>, \<^verbatim>\<open>Http_Exchange\<close>: whole requests and responses, written and read.
  \<^item> \<^verbatim>\<open>Websocket\<close>, \<^verbatim>\<open>Websocket_Facts\<close>, \<^verbatim>\<open>Ws_Handshake\<close>: the channel, its frames, the handshake.
  \<^item> \<^verbatim>\<open>Routing\<close>: route patterns and the dispatch index of the server.
  \<^item> \<^verbatim>\<open>Task_Handoff\<close>: \<^verbatim>\<open>detail::TaskState\<close>, the hand-off between a coroutine and the one consumer of its
    \<^verbatim>\<open>Task\<close>, as a step relation of atomic actions.
  \<^item> \<^verbatim>\<open>Auth\<close>: basic, bearer and digest credentials, digest challenges.
  \<^item> \<^verbatim>\<open>Client_Pool\<close>: the connection pool of an origin with its waiting requests, as a step relation.
  \<^item> \<^verbatim>\<open>Client_Exchange\<close>, \<^verbatim>\<open>Client_Facts\<close>: a request of the client from its URL to the response: connections,
    the second attempt, digest authentication, redirects.
  \<^item> \<^verbatim>\<open>Server_Session\<close>, \<^verbatim>\<open>Session_Facts\<close>, \<^verbatim>\<open>Session_Runs\<close>: a connection of the server from its first
    head to the hang-up: the loop of \<^verbatim>\<open>serve\<close>, dispatch to plain, streaming and WebSocket handlers, streamed
    request bodies, static files, the three ways to send a response; sessions on a small site.
  \<^item> \<^verbatim>\<open>Multipart\<close>, \<^verbatim>\<open>Multipart_Facts\<close>, \<^verbatim>\<open>Multipart_Stream\<close>: multipart forms: parameters and heads of
    parts, the buffered parser and printer, the incremental parser, the writer with its producers.
  \<^item> \<^verbatim>\<open>Json_Stream\<close>: the JSON writer over a body stream.
  \<^item> \<^verbatim>\<open>Uv_Connection\<close>, \<^verbatim>\<open>Uv_Connection_Facts\<close>, \<^verbatim>\<open>Uv_Writes\<close>: \<^verbatim>\<open>detail::Connection\<close> of \<^verbatim>\<open>src/runtime.cpp\<close> on its
    loop, as a step relation over the callbacks of libuv, the timers and the coroutines that are resumed in
    the middle of a callback; the other theories see a connection as the record \<open>io\<close> of \<^verbatim>\<open>Transport\<close>.
  \<^item> \<^verbatim>\<open>Sse_Client\<close>: the client of an event stream that reconnects, run on the list of streams it gets.

  \<^bold>\<open>What is shown.\<close>  Parsers accept only what they promise and refuse with the promised error code;
  printers and parsers are inverse; what one side writes is what the other side reads, however the
  transport cuts the bytes, with the bytes of the next message left in the stream; limits hold; the
  optimised routines (incremental encoder and parser, dispatch index, segment matcher, read buffer) agree
  with direct descriptions.  A request of the client returns, writes a bounded number of requests, repeats
  only what may be repeated and keeps credentials at their origin; waiting requests are not forgotten, and
  a coroutine and its consumer meet without a lost wake-up and without touching a freed frame.  A session
  answers pipelined requests in order and once, reuses a connection only behind a message read to its end,
  stops within its bounds, and sends files, ranges and streams as they are; theorems record where it
  goes on, or answers, when it should not.  A multipart form is read as it was written, by the buffered and
  by the incremental parser, whatever the cuts, within bounds that hold for any input.  The events of a
  server that resumes reach the handler of a reconnecting client in order, each once and none left out,
  unless a stream breaks inside an event.  The strings of the JSON writer are read back.  On a connection every
  operation completes once and never waits without a timer, closing completes them all, writes give the
  kernel what they report, and libuv holds nothing of a connection that is gone.

  \<^bold>\<open>Conventions.\<close>  A byte string is a list of \<open>char\<close>.  Sizes are \<open>nat\<close>: lengths of strings in memory
  do not wrap, and where the source guards an unsigned overflow the guard is a branch of the model.
  A coroutine runs to its end in one call, on the scripted connection; loops are recursive functions with
  a measure (the bytes and events still to come), so no fuel is used.  Exceptions of user callbacks are
  the constructors of \<open>verdict\<close>, and a callback that writes or consumes step by step is a tree of its
  actions (\<open>producer\<close>, \<open>body_user\<close>).

  \<^bold>\<open>Not modelled.\<close>  TLS and compression (OpenSSL, zlib, brotli: the build without them), the thread
  and the queue of the libuv loop, the listener and the walk over the addresses of a host, the worker pool,
  start and stop of the server, file bodies and sinks, and the interleaving of several senders on one
  channel.  SHA-1, random numbers, \<^verbatim>\<open>std::regex\<close>, the file system and, above \<open>Uv_Connection\<close>, connection
  attempts are parameters of the definitions that use them.
\<close>

end
